(* ===== verification/Prelude.thy ===== *)
theory Prelude
  imports Main "HOL-Library.Word" "HOL-Library.Monad_Syntax"
begin

text \<open>
  Shared base of the development: the types of the C program (\<open>size_t\<close> and
  \<open>uintptr_t\<close> at 64 bits, bytes as \<open>char\<close>), the ways an operation can go wrong, byte
  arrays with bounds-checked access, and list facts about ring buffers that the
  component theories use.
\<close>

section \<open>Types\<close>

text \<open>The build passes \<open>-DRPBOT_PTR_SIZE=8\<close>: sizes and addresses are 64 bits wide.\<close>

type_synonym size_t = "64 word"
type_synonym bytes = "char list"

section \<open>Faults\<close>

text \<open>
  What can happen instead of a result: a read or write outside an object, a null pointer
  dereference, a read of memory that was never written, a call of \<open>abort()\<close> or a failed
  \<open>assert\<close>, a linked list that is made circular, so that the next walk over it does not end,
  a call of \<open>exit()\<close> because there is no memory, a division by zero, a signed overflow.
\<close>

datatype fault = OutOfBounds | NullDeref | Uninitialised | Aborted | ListCycle | Exited | DivByZero | IntOverflow

type_synonym 'a res = "fault + 'a"

definition res_bind :: "'a res \<Rightarrow> ('a \<Rightarrow> 'b res) \<Rightarrow> 'b res" where
  "res_bind r f = (case r of Inl e \<Rightarrow> Inl e | Inr x \<Rightarrow> f x)"

definition res_of_option :: "fault \<Rightarrow> 'a option \<Rightarrow> 'a res" where
  "res_of_option e r = (case r of None \<Rightarrow> Inl e | Some x \<Rightarrow> Inr x)"

lemma res_bind_simps [simp]:
  "res_bind (Inl e) f = Inl e"
  "res_bind (Inr x) f = f x"
  by (simp_all add: res_bind_def)

lemma res_bind_eq_Inr [simp]:
  "res_bind r f = Inr y \<longleftrightarrow> (\<exists>x. r = Inr x \<and> f x = Inr y)"
  by (cases r) simp_all

lemma res_bind_cong [fundef_cong]:
  "r = r' \<Longrightarrow> (\<And>x. r' = Inr x \<Longrightarrow> f x = g x) \<Longrightarrow> res_bind r f = res_bind r' g"
  by (cases r') simp_all

lemma res_of_option_simps [simp]:
  "res_of_option e None = Inl e"
  "res_of_option e (Some x) = Inr x"
  by (simp_all add: res_of_option_def)

lemma res_of_option_eq_Inr [simp]: "res_of_option e r = Inr x \<longleftrightarrow> r = Some x"
  by (cases r) simp_all

section \<open>Byte arrays\<close>

text \<open>
  \<open>memcpy\<close> out of and into an array object: defined only when the whole range lies in
  the object.
\<close>

definition mem_read :: "bytes \<Rightarrow> nat \<Rightarrow> nat \<Rightarrow> bytes option" where
  "mem_read m off n = (if off + n \<le> length m then Some (take n (drop off m)) else None)"

definition overwrite :: "nat \<Rightarrow> 'a list \<Rightarrow> 'a list \<Rightarrow> 'a list" where
  "overwrite off d m = take off m @ d @ drop (off + length d) m"

definition mem_write :: "bytes \<Rightarrow> nat \<Rightarrow> bytes \<Rightarrow> bytes option" where
  "mem_write m off d = (if off + length d \<le> length m then Some (overwrite off d m) else None)"

lemma length_overwrite [simp]:
  "off + length d \<le> length m \<Longrightarrow> length (overwrite off d m) = length m"
  by (simp add: overwrite_def)

lemma nth_overwrite:
  assumes "off + length d \<le> length m" and "i < length m"
  shows "overwrite off d m ! i = (if off \<le> i \<and> i < off + length d then d ! (i - off) else m ! i)"
  using assms by (auto simp: overwrite_def nth_append min_def)

lemma overwrite_Nil [simp]: "overwrite off [] m = m"
  by (simp add: overwrite_def)

lemma mem_write_length: "mem_write m off d = Some m' \<Longrightarrow> length m' = length m"
  by (auto simp: mem_write_def split: if_splits)

lemma take_min_length [simp]:
  "take (min (length xs) n) xs = take n xs" "take (min n (length xs)) xs = take n xs"
  by (simp_all add: min_def)

section \<open>Words\<close>

text \<open>\<open>rp_min\<close> and \<open>rp_max\<close> of rp_math.h, on \<open>size_t\<close>.\<close>

definition rp_min :: "size_t \<Rightarrow> size_t \<Rightarrow> size_t" where
  "rp_min x y = (if x < y then x else y)"

definition rp_max :: "size_t \<Rightarrow> size_t \<Rightarrow> size_t" where
  "rp_max x y = (if x > y then x else y)"

lemma unat_rp_min [simp]: "unat (rp_min x y) = min (unat x) (unat y)"
  by (auto simp: rp_min_def word_less_nat_alt min_def)

lemma unat_rp_max [simp]: "unat (rp_max x y) = max (unat x) (unat y)"
  by (auto simp: rp_max_def word_less_nat_alt max_def)

lemma rp_min_le: "rp_min x y \<le> x" "rp_min x y \<le> y"
  by (auto simp: rp_min_def)

lemma unat_diff_le: "b \<le> a \<Longrightarrow> unat (a - b) = unat a - unat b"
  for a b :: "'a::len word"
  by (rule unat_sub)

lemma unat_add_less: "unat a + unat b < 2 ^ LENGTH('a) \<Longrightarrow> unat (a + b) = unat a + unat b"
  for a b :: "'a::len word"
  by (simp add: unat_word_ariths)

lemma unat_less_limit: "unat (c :: 'a::len word) < 2 ^ LENGTH('a)"
  by (rule unsigned_less)

lemma unat_add_bounded: "unat a + unat b \<le> unat c \<Longrightarrow> unat (a + b) = unat a + unat b"
  for a b c :: "'a::len word"
  by (rule unat_add_less) (rule order_le_less_trans [OF _ unat_less_limit])

lemma unat_of_nat_le: "n \<le> unat c \<Longrightarrow> unat (of_nat n :: 'a::len word) = n"
  for c :: "'a::len word"
  using order_le_less_trans [OF _ unat_less_limit, of n c] by (simp add: unat_of_nat)

lemma unat_pow2: "k < LENGTH('a) \<Longrightarrow> unat (2 ^ k :: 'a::len word) = 2 ^ k"
proof -
  assume "k < LENGTH('a)"
  then have "take_bit LENGTH('a) (2 ^ k :: nat) = 2 ^ k" by (simp add: take_bit_nat_eq_self)
  then have "unat (of_nat (2 ^ k) :: 'a word) = 2 ^ k" by (simp only: unsigned_of_nat of_nat_id)
  then show ?thesis by (simp only: of_nat_power of_nat_numeral)
qed

lemma unat_drop_bit: "unat (drop_bit n w) = unat w div 2 ^ n" for w :: "'a::len word"
  by (simp only: unsigned_drop_bit_eq) (simp add: drop_bit_eq_div unsigned_take_bit_eq take_bit_nat_eq_self)

section \<open>Ring buffers as lists\<close>

text \<open>
  The \<open>c\<close> elements of the circular array \<open>xs\<close> that start at index \<open>h\<close>.
\<close>

definition ring :: "nat \<Rightarrow> nat \<Rightarrow> 'a list \<Rightarrow> 'a list" where
  "ring h c xs = take c (rotate h xs)"

lemma length_ring [simp]: "length (ring h c xs) = min (length xs) c"
  by (simp add: ring_def)

lemma nth_ring: "i < c \<Longrightarrow> c \<le> length xs \<Longrightarrow> ring h c xs ! i = xs ! ((h + i) mod length xs)"
  by (simp add: ring_def nth_rotate)

lemma ring_0 [simp]: "ring h 0 xs = []"
  by (simp add: ring_def)

lemma ring_Nil [simp]: "ring h c [] = []"
  by (simp add: ring_def)

lemma mod_step: "a < n \<Longrightarrow> b \<le> n \<Longrightarrow> (a + b) mod n = (if a + b < n then a + b else a + b - n)"
  for a b n :: nat
  by (auto simp: mod_if)

text \<open>Writing just behind the occupied part, without wrapping, appends.\<close>

lemma ring_overwrite:
  assumes h: "h < length xs" and t: "t = (h + c) mod length xs"
    and fit: "c + length d \<le> length xs" "t + length d \<le> length xs"
  shows "ring h (c + length d) (overwrite t d xs) = ring h c xs @ d"
proof (rule nth_equalityI)
  show "length (ring h (c + length d) (overwrite t d xs)) = length (ring h c xs @ d)"
    using fit by simp
next
  fix i assume "i < length (ring h (c + length d) (overwrite t d xs))"
  then have i: "i < c + length d" using fit by simp
  let ?j = "(h + i) mod length xs"
  have j: "?j < length xs" using h by (intro mod_less_divisor) linarith
  have j_eq: "?j = (if h + i < length xs then h + i else h + i - length xs)"
    using h i fit by (intro mod_step) auto
  have t_eq: "t = (if h + c < length xs then h + c else h + c - length xs)"
    using h fit unfolding t by (intro mod_step) auto
  have L: "ring h (c + length d) (overwrite t d xs) ! i = overwrite t d xs ! ?j"
    using i fit by (simp add: nth_ring)
  show "ring h (c + length d) (overwrite t d xs) ! i = (ring h c xs @ d) ! i"
  proof (cases "i < c")
    case True
    then have "\<not> (t \<le> ?j \<and> ?j < t + length d)"
      using j_eq t_eq fit h by (auto split: if_splits)
    then have "overwrite t d xs ! ?j = xs ! ?j"
      using fit j by (auto simp: nth_overwrite)
    with L True fit show ?thesis by (simp add: nth_append nth_ring)
  next
    case False
    then have "t \<le> ?j" "?j < t + length d" "?j - t = i - c"
      using i j_eq t_eq fit h by (auto split: if_splits)
    then have "overwrite t d xs ! ?j = d ! (i - c)"
      using fit j by (simp add: nth_overwrite)
    with L False fit show ?thesis by (simp add: nth_append)
  qed
qed

text \<open>Advancing the start drops from the front.\<close>

lemma ring_advance:
  assumes "n \<le> c" "c \<le> length xs"
  shows "ring ((h + n) mod length xs) (c - n) xs = drop n (ring h c xs)"
  using assms by (intro nth_equalityI) (auto simp: nth_ring mod_simps add.assoc)

text \<open>The part of a ring before the end of the array is contiguous.\<close>

lemma ring_contiguous:
  assumes "h < length xs" "k \<le> c" "c \<le> length xs" "h + k \<le> length xs"
  shows "take k (drop h xs) = take k (ring h c xs)"
  using assms by (intro nth_equalityI) (auto simp: nth_ring)

end
