(* ===== verification/Byte_Queue.thy ===== *)
theory Byte_Queue
  imports Prelude
begin

text \<open>
  The two interfaces under which the rest of the program uses a fifo: a \<open>byte_sink\<close>
  that takes what fits and drops the rest (the IRC replies), and a \<open>byte_source\<close> that
  shows a contiguous view of its first bytes and is advanced by a number of bytes (the
  socket writer and the parser loop). The clients' lemmas are proved here once, from the
  laws; \<open>Rp_Fifo\<close> interprets both locales on the ring buffer.
\<close>

section \<open>Writing a sequence of strings\<close>

text \<open>
  A run of \<open>rp_fifo_putstr\<close> and \<open>rp_fifo_putstring\<close> calls whose results are ignored.
\<close>

fun put_seq :: "('q \<Rightarrow> bytes \<Rightarrow> ('q \<times> size_t) option) \<Rightarrow> 'q \<Rightarrow> bytes list \<Rightarrow> 'q option" where
  "put_seq put q [] = Some q"
| "put_seq put q (s # ss) = do { (q', _) \<leftarrow> put q s; put_seq put q' ss }"

lemma put_seq_append:
  "put_seq put q (ss @ ts) = Option.bind (put_seq put q ss) (\<lambda>q'. put_seq put q' ts)"
  by (induction ss arbitrary: q) (auto split: option.splits bind_splits)

locale byte_sink =
  fixes ok :: "'q \<Rightarrow> bool"
    and content :: "'q \<Rightarrow> bytes"
    and room :: "'q \<Rightarrow> nat"
    and put :: "'q \<Rightarrow> bytes \<Rightarrow> ('q \<times> size_t) option"
  assumes put_takes: "ok q \<Longrightarrow> length s < 2 ^ 64 \<Longrightarrow>
    \<exists>q' k. put q s = Some (q', k) \<and> ok q' \<and> content q' = content q @ take (room q) s \<and>
           room q' = room q - length s \<and> unat k = min (length s) (room q)"
begin

text \<open>
  A sequence of writes acts as one write of the concatenation: whatever the cuts, exactly
  the first \<open>room q\<close> bytes are kept.
\<close>

lemma put_seq_concat:
  assumes "ok q" and "\<forall>s \<in> set ss. length s < 2 ^ 64"
  shows "\<exists>q'. put_seq put q ss = Some q' \<and> ok q' \<and>
    content q' = content q @ take (room q) (concat ss) \<and>
    room q' = room q - length (concat ss)"
  using assms
proof (induction ss arbitrary: q)
  case Nil
  then show ?case by simp
next
  case (Cons s ss)
  from Cons.prems obtain q1 k where q1: "put q s = Some (q1, k)" "ok q1"
    "content q1 = content q @ take (room q) s" "room q1 = room q - length s"
    using put_takes [of q s] by auto
  from Cons.IH [OF q1(2)] Cons.prems(2) obtain q2 where q2: "put_seq put q1 ss = Some q2"
    "ok q2" "content q2 = content q1 @ take (room q1) (concat ss)"
    "room q2 = room q1 - length (concat ss)" by auto
  show ?case using q1 q2 by auto
qed

lemma put_seq_fits:
  assumes "ok q" and "\<forall>s \<in> set ss. length s < 2 ^ 64" and "length (concat ss) \<le> room q"
  shows "\<exists>q'. put_seq put q ss = Some q' \<and> ok q' \<and> content q' = content q @ concat ss"
  using put_seq_concat [OF assms(1,2)] assms(3) by auto

end

section \<open>Reading through a contiguous view\<close>

locale byte_source =
  fixes ok :: "'q \<Rightarrow> bool"
    and content :: "'q \<Rightarrow> bytes"
    and view :: "'q \<Rightarrow> bytes option"
    and consume :: "'q \<Rightarrow> size_t \<Rightarrow> 'q"
  assumes view_prefix: "ok q \<Longrightarrow>
    \<exists>v. view q = Some v \<and> v = take (length v) (content q) \<and>
        (content q \<noteq> [] \<longrightarrow> v \<noteq> []) \<and> length v < 2 ^ 64"
    and consume_drops: "ok q \<Longrightarrow> view q = Some v \<Longrightarrow> unat n \<le> length v \<Longrightarrow>
      ok (consume q n) \<and> content (consume q n) = drop (unat n) (content q)"
begin

lemma view_some:
  assumes "ok q"
  obtains v where "view q = Some v" "content q = v @ drop (length v) (content q)"
    "content q \<noteq> [] \<longrightarrow> v \<noteq> []" "length v < 2 ^ 64"
  using view_prefix [OF assms] by (metis append_take_drop_id)

lemma consume_length:
  assumes "ok q" "view q = Some v" "unat n \<le> length v"
  shows "length (content (consume q n)) = length (content q) - unat n"
  using consume_drops [OF assms] by simp

end

end
