(* ===== verification/Rp_Fifo.thy ===== *)
theory Rp_Fifo
  imports Byte_Queue
begin

text \<open>
  The byte fifo of util/rp_fifo.h and util/rp_fifo.c: a ring buffer whose \<open>head\<close>,
  \<open>tail\<close> and \<open>end\<close> pointers are modelled as 64-bit offsets from \<open>&buffer[0]\<close>.
  Arithmetic is the code's word arithmetic; copies are bounds-checked.
\<close>

section \<open>State and operations\<close>

record rp_fifo =
  f_capacity :: size_t
  f_count :: size_t
  f_head :: size_t
  f_tail :: size_t
  f_end :: size_t
  f_buffer :: bytes

definition rp_fifo_init :: "rp_fifo \<Rightarrow> rp_fifo" where
  "rp_fifo_init b = b\<lparr>f_count := 0, f_head := 0, f_tail := 0, f_end := f_capacity b\<rparr>"

definition rp_fifo_bytes_free :: "rp_fifo \<Rightarrow> size_t" where
  "rp_fifo_bytes_free b = f_capacity b - f_count b"

definition rp_fifo_count :: "rp_fifo \<Rightarrow> size_t" where
  "rp_fifo_count b = f_count b"

definition rp_fifo_consume :: "rp_fifo \<Rightarrow> size_t \<Rightarrow> rp_fifo" where
  "rp_fifo_consume b n =
     (let b1 = b\<lparr>f_head := f_head b + n, f_count := f_count b - n\<rparr>
      in if f_head b1 = f_end b1 then b1\<lparr>f_head := 0\<rparr> else b1)"

definition rp_fifo_reserve :: "rp_fifo \<Rightarrow> size_t \<Rightarrow> rp_fifo" where
  "rp_fifo_reserve b n =
     (let b1 = b\<lparr>f_tail := f_tail b + n, f_count := f_count b + n\<rparr>
      in if f_tail b1 = f_end b1 then b1\<lparr>f_tail := 0\<rparr> else b1)"

text \<open>The pair of the pointer stored in \<open>*p\<close> and the number of contiguous bytes.\<close>

definition rp_fifo_raw_r :: "rp_fifo \<Rightarrow> size_t \<times> size_t" where
  "rp_fifo_raw_r b = (f_head b, rp_min (rp_fifo_count b) (f_end b - f_head b))"

definition rp_fifo_raw_w :: "rp_fifo \<Rightarrow> size_t \<times> size_t" where
  "rp_fifo_raw_w b = (f_tail b, rp_min (rp_fifo_bytes_free b) (f_end b - f_tail b))"

text \<open>
  The copy loops. They make no progress when \<open>end - tail\<close> is 0, and a copy may leave
  its object: \<open>None\<close> is "does not return, or accesses memory outside an object".
\<close>

partial_function (option) rp_fifo_put_loop :: "rp_fifo \<Rightarrow> bytes \<Rightarrow> size_t \<Rightarrow> rp_fifo option" where
  "rp_fifo_put_loop b p n =
     (if n > 0 then
        let s = rp_min n (f_end b - f_tail b) in
        do {
          d \<leftarrow> mem_read p 0 (unat s);
          m \<leftarrow> mem_write (f_buffer b) (unat (f_tail b)) d;
          rp_fifo_put_loop (rp_fifo_reserve (b\<lparr>f_buffer := m\<rparr>) s) (drop (unat s) p) (n - s)
        }
      else Some b)"

definition rp_fifo_put :: "rp_fifo \<Rightarrow> bytes \<Rightarrow> size_t \<Rightarrow> (rp_fifo \<times> size_t) option" where
  "rp_fifo_put b src n0 =
     (let n = rp_min n0 (rp_fifo_bytes_free b)
      in if n = 0 then Some (b, 0)
         else map_option (\<lambda>b'. (b', n)) (rp_fifo_put_loop b src n))"

text \<open>\<open>out\<close> is what has been stored at \<open>dest\<close> so far; \<open>dest\<close> has room for \<open>n\<close> bytes.\<close>

partial_function (option) rp_fifo_get_loop ::
    "rp_fifo \<Rightarrow> bytes \<Rightarrow> size_t \<Rightarrow> (rp_fifo \<times> bytes) option" where
  "rp_fifo_get_loop b out n =
     (if n > 0 then
        let s = rp_min n (f_end b - f_head b) in
        do {
          d \<leftarrow> mem_read (f_buffer b) (unat (f_head b)) (unat s);
          rp_fifo_get_loop (rp_fifo_consume b s) (out @ d) (n - s)
        }
      else Some (b, out))"

definition rp_fifo_get :: "rp_fifo \<Rightarrow> size_t \<Rightarrow> (rp_fifo \<times> bytes \<times> size_t) option" where
  "rp_fifo_get b n0 =
     (let n = rp_min n0 (f_count b)
      in if n = 0 then Some (b, [], 0)
         else map_option (\<lambda>(b', out). (b', out, n)) (rp_fifo_get_loop b [] n))"

text \<open>C strings and \<open>rp_str_t\<close> values are given by their bytes; \<open>strlen\<close> is their length.\<close>

definition rp_fifo_putstr :: "rp_fifo \<Rightarrow> bytes \<Rightarrow> (rp_fifo \<times> size_t) option" where
  "rp_fifo_putstr b str = rp_fifo_put b str (of_nat (length str))"

definition rp_fifo_putstring :: "rp_fifo \<Rightarrow> bytes \<Rightarrow> (rp_fifo \<times> size_t) option" where
  "rp_fifo_putstring b str = rp_fifo_put b str (of_nat (length str))"

lemma putstring_putstr [simp]: "rp_fifo_putstring = rp_fifo_putstr"
  by (simp add: fun_eq_iff rp_fifo_putstr_def rp_fifo_putstring_def)

section \<open>Invariant and abstraction\<close>

definition fifo_ok :: "rp_fifo \<Rightarrow> bool" where
  "fifo_ok b \<longleftrightarrow>
     length (f_buffer b) = unat (f_capacity b) \<and> 0 < f_capacity b \<and>
     f_end b = f_capacity b \<and> f_count b \<le> f_capacity b \<and>
     f_head b < f_capacity b \<and> f_tail b < f_capacity b \<and>
     unat (f_tail b) = (unat (f_head b) + unat (f_count b)) mod unat (f_capacity b)"

definition fifo_bytes :: "rp_fifo \<Rightarrow> bytes" where
  "fifo_bytes b = ring (unat (f_head b)) (unat (f_count b)) (f_buffer b)"

definition fifo_room :: "rp_fifo \<Rightarrow> nat" where
  "fifo_room b = unat (f_capacity b) - unat (f_count b)"


named_theorems fifo_defs

declare rp_fifo_bytes_free_def [fifo_defs] rp_fifo_count_def [fifo_defs]
  rp_fifo_raw_r_def [fifo_defs] rp_fifo_raw_w_def [fifo_defs]

lemma fifo_ok_nat:
  "fifo_ok b \<longleftrightarrow>
     length (f_buffer b) = unat (f_capacity b) \<and> 0 < unat (f_capacity b) \<and>
     f_end b = f_capacity b \<and> unat (f_count b) \<le> unat (f_capacity b) \<and>
     unat (f_head b) < unat (f_capacity b) \<and> unat (f_tail b) < unat (f_capacity b) \<and>
     unat (f_tail b) = (unat (f_head b) + unat (f_count b)) mod unat (f_capacity b)"
  by (auto simp: fifo_ok_def word_less_nat_alt word_le_nat_alt)

lemma fifo_room_unat: "fifo_ok b \<Longrightarrow> unat (rp_fifo_bytes_free b) = fifo_room b"
  by (simp add: fifo_ok_def fifo_defs fifo_room_def unat_diff_le)

lemma length_fifo_bytes: "fifo_ok b \<Longrightarrow> length (fifo_bytes b) = unat (f_count b)"
  by (simp add: fifo_ok_nat fifo_bytes_def)

lemma fifo_room_length: "fifo_ok b \<Longrightarrow> fifo_room b = unat (f_capacity b) - length (fifo_bytes b)"
  by (simp add: length_fifo_bytes fifo_room_def)

lemma unat_end_head: "fifo_ok b \<Longrightarrow> unat (f_end b - f_head b) = unat (f_capacity b) - unat (f_head b)"
  by (subst unat_diff_le) (auto simp: fifo_ok_def)

lemma unat_end_tail: "fifo_ok b \<Longrightarrow> unat (f_end b - f_tail b) = unat (f_capacity b) - unat (f_tail b)"
  by (subst unat_diff_le) (auto simp: fifo_ok_def)

text \<open>Moving an offset forward and sending it back to 0 at the end is addition modulo the capacity.\<close>

lemma unat_step_mod:
  fixes p n e :: size_t
  assumes "unat p < unat e" "unat n \<le> unat e - unat p"
  shows "unat (if p + n = e then 0 else p + n) = (unat p + unat n) mod unat e"
    and "(if p + n = e then 0 else p + n) < e"
proof -
  have s: "unat (p + n) = unat p + unat n"
    using assms by (intro unat_add_bounded [of _ _ e]) linarith
  have "p + n = e \<longleftrightarrow> unat p + unat n = unat e"
    by (simp add: word_unat_eq_iff s)
  with assms s show "unat (if p + n = e then 0 else p + n) = (unat p + unat n) mod unat e"
    and "(if p + n = e then 0 else p + n) < e"
    by (auto simp: word_less_nat_alt)
qed

section \<open>consume and reserve\<close>

lemma rp_fifo_consume_fields:
  "f_head (rp_fifo_consume b n) = (if f_head b + n = f_end b then 0 else f_head b + n)"
  "f_count (rp_fifo_consume b n) = f_count b - n"
  "f_tail (rp_fifo_consume b n) = f_tail b"
  "f_end (rp_fifo_consume b n) = f_end b"
  "f_capacity (rp_fifo_consume b n) = f_capacity b"
  "f_buffer (rp_fifo_consume b n) = f_buffer b"
  by (simp_all add: rp_fifo_consume_def Let_def)

lemma rp_fifo_reserve_fields:
  "f_tail (rp_fifo_reserve b n) = (if f_tail b + n = f_end b then 0 else f_tail b + n)"
  "f_count (rp_fifo_reserve b n) = f_count b + n"
  "f_head (rp_fifo_reserve b n) = f_head b"
  "f_end (rp_fifo_reserve b n) = f_end b"
  "f_capacity (rp_fifo_reserve b n) = f_capacity b"
  "f_buffer (rp_fifo_reserve b n) = f_buffer b"
  by (simp_all add: rp_fifo_reserve_def Let_def)

lemma consume_ok:
  assumes ok: "fifo_ok b" and n: "n \<le> snd (rp_fifo_raw_r b)"
  shows "fifo_ok (rp_fifo_consume b n)"
    and "fifo_bytes (rp_fifo_consume b n) = drop (unat n) (fifo_bytes b)"
proof -
  let ?C = "unat (f_capacity b)" and ?h = "unat (f_head b)" and ?c = "unat (f_count b)"
  note okn = ok [unfolded fifo_ok_nat]
  have e: "f_end b = f_capacity b" using okn by simp
  have n1: "unat n \<le> ?c" and n2: "unat n \<le> ?C - ?h"
    using n ok by (auto simp: fifo_defs word_le_nat_alt unat_end_head)
  have cnt: "unat (f_count b - n) = ?c - unat n"
    using n1 by (simp add: unat_diff_le word_le_nat_alt)
  have hd: "unat (f_head (rp_fifo_consume b n)) = (?h + unat n) mod ?C"
    using okn n2 e by (simp only: rp_fifo_consume_fields e unat_step_mod)
  have tl: "((?h + unat n) mod ?C + (?c - unat n)) mod ?C = (?h + ?c) mod ?C"
    by (metis (no_types, lifting) add.assoc le_add_diff_inverse mod_add_left_eq n1)
  show "fifo_ok (rp_fifo_consume b n)"
    using okn hd tl cnt n1 by (auto simp: fifo_ok_nat rp_fifo_consume_fields(2-))
  show "fifo_bytes (rp_fifo_consume b n) = drop (unat n) (fifo_bytes b)"
    using okn n1 hd cnt by (simp add: fifo_bytes_def rp_fifo_consume_fields(2-) ring_advance [symmetric])
qed

lemma reserve_ok:
  assumes ok: "fifo_ok b" and n: "length d \<le> unat (snd (rp_fifo_raw_w b))"
    and m: "mem_write (f_buffer b) (unat (f_tail b)) d = Some m"
  shows "fifo_ok (rp_fifo_reserve (b\<lparr>f_buffer := m\<rparr>) (of_nat (length d)))"
    and "fifo_bytes (rp_fifo_reserve (b\<lparr>f_buffer := m\<rparr>) (of_nat (length d))) = fifo_bytes b @ d"
proof -
  let ?C = "unat (f_capacity b)" and ?h = "unat (f_head b)" and ?c = "unat (f_count b)"
    and ?t = "unat (f_tail b)" and ?b = "rp_fifo_reserve (b\<lparr>f_buffer := m\<rparr>) (of_nat (length d))"
  note okn = ok [unfolded fifo_ok_nat]
  have e: "f_end b = f_capacity b" using okn by simp
  have n1: "length d \<le> ?C - ?c" and n2: "length d \<le> ?C - ?t"
    using n ok by (auto simp: fifo_defs fifo_room_unat [unfolded fifo_defs] fifo_room_def unat_end_tail)
  have un: "unat (of_nat (length d) :: size_t) = length d"
    using n1 by (intro unat_of_nat_le [of _ "f_capacity b"]) simp
  have cnt: "unat (f_count b + of_nat (length d)) = ?c + length d"
    using okn n1 un by (subst unat_add_bounded [of _ _ "f_capacity b"]) auto
  have "f_tail ?b = (if f_tail b + of_nat (length d) = f_capacity b then 0
                     else f_tail b + of_nat (length d))"
    by (simp add: rp_fifo_reserve_fields e)
  moreover have "?t < ?C" "unat (of_nat (length d) :: size_t) \<le> ?C - ?t"
    using okn n2 un by simp_all
  ultimately have tl: "unat (f_tail ?b) = (?t + length d) mod ?C"
    by (simp only: unat_step_mod(1) un)
  have m_eq: "m = overwrite ?t d (f_buffer b)" and lm: "length m = ?C"
    using m okn mem_write_length [OF m] by (auto simp: mem_write_def split: if_splits)
  have "(?t + length d) mod ?C = (?h + (?c + length d)) mod ?C"
    using okn by (simp add: mod_add_left_eq add.assoc)
  then show "fifo_ok ?b"
    using okn tl cnt n1 lm by (simp add: fifo_ok_nat rp_fifo_reserve_fields(2-) del: One_nat_def) linarith
  have "ring ?h (?c + length d) (overwrite ?t d (f_buffer b)) = ring ?h ?c (f_buffer b) @ d"
  proof (intro ring_overwrite)
    show "?h < length (f_buffer b)" "?t = (?h + ?c) mod length (f_buffer b)"
      using okn by simp_all
    show "?c + length d \<le> length (f_buffer b)" "?t + length d \<le> length (f_buffer b)"
      using okn n1 n2 by linarith+
  qed
  then show "fifo_bytes ?b = fifo_bytes b @ d"
    using cnt m_eq by (simp add: fifo_bytes_def rp_fifo_reserve_fields(2-))
qed


section \<open>put and get\<close>

lemma mem_read_take: "n \<le> length p \<Longrightarrow> mem_read p 0 n = Some (take n p)"
  by (simp add: mem_read_def)

lemma unat_raw_w:
  "fifo_ok b \<Longrightarrow> unat (snd (rp_fifo_raw_w b)) = min (fifo_room b) (unat (f_capacity b) - unat (f_tail b))"
  by (simp add: rp_fifo_raw_w_def fifo_room_unat unat_end_tail)

lemma unat_raw_r:
  "fifo_ok b \<Longrightarrow> unat (snd (rp_fifo_raw_r b)) =
     min (length (fifo_bytes b)) (unat (f_capacity b) - unat (f_head b))"
  by (simp add: rp_fifo_raw_r_def rp_fifo_count_def unat_end_head length_fifo_bytes)

lemma fifo_offsets:
  assumes "fifo_ok b"
  shows "length (f_buffer b) = unat (f_capacity b)"
    and "unat (f_head b) < unat (f_capacity b)" and "unat (f_tail b) < unat (f_capacity b)"
    and "length (fifo_bytes b) \<le> unat (f_capacity b)"
  using assms by (auto simp: length_fifo_bytes) (auto simp: fifo_ok_nat)

lemma raw_w_pos: "fifo_ok b \<Longrightarrow> 0 < fifo_room b \<Longrightarrow> 0 < unat (snd (rp_fifo_raw_w b))"
  using fifo_offsets [of b] by (simp add: unat_raw_w)

lemma raw_r_pos: "fifo_ok b \<Longrightarrow> fifo_bytes b \<noteq> [] \<Longrightarrow> 0 < unat (snd (rp_fifo_raw_r b))"
  using fifo_offsets [of b] by (simp add: unat_raw_r)

text \<open>One round of the put loop.\<close>

lemma put_round:
  assumes ok: "fifo_ok b" and n: "unat n \<le> length p" "unat n \<le> fifo_room b" "0 < n"
  defines "s \<equiv> rp_min n (f_end b - f_tail b)"
  obtains m where "mem_write (f_buffer b) (unat (f_tail b)) (take (unat s) p) = Some m"
    and "fifo_ok (rp_fifo_reserve (b\<lparr>f_buffer := m\<rparr>) s)"
    and "fifo_bytes (rp_fifo_reserve (b\<lparr>f_buffer := m\<rparr>) s) = fifo_bytes b @ take (unat s) p"
    and "fifo_room (rp_fifo_reserve (b\<lparr>f_buffer := m\<rparr>) s) = fifo_room b - unat s"
    and "0 < unat s" "unat s \<le> unat n"
proof -
  let ?d = "take (unat s) p"
  have s: "unat s = min (unat n) (unat (f_capacity b) - unat (f_tail b))"
    unfolding s_def by (simp add: ok unat_end_tail)
  have len: "length ?d = unat s" using n s by simp
  then have of_len: "of_nat (length ?d) = s" by simp
  have w: "length ?d \<le> unat (snd (rp_fifo_raw_w b))"
    unfolding len unat_raw_w [OF ok] using s n by simp
  have "unat (f_tail b) + length ?d \<le> length (f_buffer b)"
    using fifo_offsets [OF ok] len s by linarith
  then obtain m where m: "mem_write (f_buffer b) (unat (f_tail b)) ?d = Some m"
    by (simp add: mem_write_def)
  note r = reserve_ok [OF ok w m, unfolded of_len]
  show thesis
  proof (rule that [OF m r])
    show "fifo_room (rp_fifo_reserve (b\<lparr>f_buffer := m\<rparr>) s) = fifo_room b - unat s"
      using r ok len by (simp add: fifo_room_length rp_fifo_reserve_fields)
    show "0 < unat s" "unat s \<le> unat n"
      using fifo_offsets(3) [OF ok] n(3) unfolding s by (auto simp: word_less_nat_alt)
  qed
qed

lemma put_loop_ok:
  assumes "fifo_ok b" "unat n \<le> length p" "unat n \<le> fifo_room b"
  shows "\<exists>b'. rp_fifo_put_loop b p n = Some b' \<and> fifo_ok b' \<and>
           fifo_bytes b' = fifo_bytes b @ take (unat n) p \<and> f_capacity b' = f_capacity b"
  using assms
proof (induction "unat n" arbitrary: b p n rule: less_induct)
  case less
  show ?case
  proof (cases "n = 0")
    case True
    then show ?thesis using less.prems by (subst rp_fifo_put_loop.simps) simp
  next
    case False
    then have n0: "0 < n" by (simp add: word_neq_0_conv)
    let ?s = "rp_min n (f_end b - f_tail b)"
    obtain m where m: "mem_write (f_buffer b) (unat (f_tail b)) (take (unat ?s) p) = Some m"
      and r: "fifo_ok (rp_fifo_reserve (b\<lparr>f_buffer := m\<rparr>) ?s)"
        "fifo_bytes (rp_fifo_reserve (b\<lparr>f_buffer := m\<rparr>) ?s) = fifo_bytes b @ take (unat ?s) p"
        "fifo_room (rp_fifo_reserve (b\<lparr>f_buffer := m\<rparr>) ?s) = fifo_room b - unat ?s"
      and s: "0 < unat ?s" "unat ?s \<le> unat n"
      using put_round [OF less.prems n0] by metis
    have sub: "unat (n - ?s) = unat n - unat ?s"
      using s(2) by (simp add: unat_diff_le word_le_nat_alt)
    have "\<exists>b'. rp_fifo_put_loop (rp_fifo_reserve (b\<lparr>f_buffer := m\<rparr>) ?s) (drop (unat ?s) p) (n - ?s) = Some b' \<and>
        fifo_ok b' \<and>
        fifo_bytes b' = fifo_bytes (rp_fifo_reserve (b\<lparr>f_buffer := m\<rparr>) ?s)
          @ take (unat (n - ?s)) (drop (unat ?s) p) \<and>
        f_capacity b' = f_capacity (rp_fifo_reserve (b\<lparr>f_buffer := m\<rparr>) ?s)"
      using less.prems s sub by (intro less.hyps r(1); simp only: r(3) length_drop)
    moreover have "rp_fifo_put_loop b p n =
        rp_fifo_put_loop (rp_fifo_reserve (b\<lparr>f_buffer := m\<rparr>) ?s) (drop (unat ?s) p) (n - ?s)"
    proof -
      have "mem_read p 0 (unat ?s) = Some (take (unat ?s) p)"
        using s less.prems by (intro mem_read_take) linarith
      with n0 m show ?thesis by (subst rp_fifo_put_loop.simps) (simp add: Let_def)
    qed
    moreover have "take (unat ?s) p @ take (unat (n - ?s)) (drop (unat ?s) p) = take (unat n) p"
      using s by (simp only: sub take_add [symmetric] le_add_diff_inverse)
    ultimately show ?thesis
      using r(2) by (auto simp: rp_fifo_reserve_fields)
  qed
qed


text \<open>One round of the get loop.\<close>

lemma get_round:
  assumes ok: "fifo_ok b" and n: "unat n \<le> length (fifo_bytes b)" "0 < n"
  defines "s \<equiv> rp_min n (f_end b - f_head b)"
  shows "mem_read (f_buffer b) (unat (f_head b)) (unat s) = Some (take (unat s) (fifo_bytes b))"
    and "fifo_ok (rp_fifo_consume b s)"
    and "fifo_bytes (rp_fifo_consume b s) = drop (unat s) (fifo_bytes b)"
    and "0 < unat s" and "unat s \<le> unat n"
proof -
  note off = fifo_offsets [OF ok]
  have s: "unat s = min (unat n) (unat (f_capacity b) - unat (f_head b))"
    unfolding s_def by (simp add: ok unat_end_head)
  have r: "s \<le> snd (rp_fifo_raw_r b)"
    unfolding word_le_nat_alt unat_raw_r [OF ok] s using n by simp
  show "fifo_ok (rp_fifo_consume b s)"
    and "fifo_bytes (rp_fifo_consume b s) = drop (unat s) (fifo_bytes b)"
    using consume_ok [OF ok r] by simp_all
  have le: "unat (f_head b) + unat s \<le> length (f_buffer b)"
    using off s by linarith
  have "take (unat s) (drop (unat (f_head b)) (f_buffer b)) = take (unat s) (fifo_bytes b)"
    unfolding fifo_bytes_def
  proof (rule ring_contiguous)
    show "unat (f_head b) < length (f_buffer b)" using off by simp
    show "unat s \<le> unat (f_count b)" using n s length_fifo_bytes [OF ok] by simp
    show "unat (f_count b) \<le> length (f_buffer b)" using ok by (simp add: fifo_ok_nat)
  qed (rule le)
  with le show "mem_read (f_buffer b) (unat (f_head b)) (unat s) = Some (take (unat s) (fifo_bytes b))"
    by (simp add: mem_read_def)
  show "0 < unat s" "unat s \<le> unat n"
    using off n(2) unfolding s by (auto simp: word_less_nat_alt)
qed

lemma get_loop_ok:
  assumes "fifo_ok b" "unat n \<le> length (fifo_bytes b)"
  shows "\<exists>b'. rp_fifo_get_loop b out n = Some (b', out @ take (unat n) (fifo_bytes b)) \<and>
           fifo_ok b' \<and> fifo_bytes b' = drop (unat n) (fifo_bytes b) \<and> f_capacity b' = f_capacity b"
  using assms
proof (induction "unat n" arbitrary: b out n rule: less_induct)
  case less
  show ?case
  proof (cases "n = 0")
    case True
    then show ?thesis using less.prems by (subst rp_fifo_get_loop.simps) simp
  next
    case False
    then have n0: "0 < n" by (simp add: word_neq_0_conv)
    let ?s = "rp_min n (f_end b - f_head b)"
    let ?b = "rp_fifo_consume b ?s" and ?d = "take (unat ?s) (fifo_bytes b)"
    note r = get_round [OF less.prems n0]
    have sub: "unat (n - ?s) = unat n - unat ?s"
      using r(5) by (simp add: unat_diff_le word_le_nat_alt)
    have "\<exists>b'. rp_fifo_get_loop ?b (out @ ?d) (n - ?s) =
        Some (b', (out @ ?d) @ take (unat (n - ?s)) (fifo_bytes ?b)) \<and>
        fifo_ok b' \<and> fifo_bytes b' = drop (unat (n - ?s)) (fifo_bytes ?b) \<and>
        f_capacity b' = f_capacity ?b"
    proof (rule less.hyps)
      show "unat (n - ?s) < unat n" using sub r(4,5) by linarith
      show "unat (n - ?s) \<le> length (fifo_bytes ?b)"
        using less.prems(2) unfolding sub r(3) length_drop by linarith
    qed (rule r(2))
    moreover have "rp_fifo_get_loop b out n = rp_fifo_get_loop ?b (out @ ?d) (n - ?s)"
      using n0 r(1) by (subst rp_fifo_get_loop.simps) (simp add: Let_def)
    moreover have "?d @ take (unat (n - ?s)) (fifo_bytes ?b) = take (unat n) (fifo_bytes b)"
      using r(5) by (simp only: sub r(3) take_add [symmetric] le_add_diff_inverse)
    moreover have "drop (unat (n - ?s)) (fifo_bytes ?b) = drop (unat n) (fifo_bytes b)"
      using r(5) by (simp only: sub r(3) drop_drop le_add_diff_inverse2)
    ultimately show ?thesis
      by (auto simp: rp_fifo_consume_fields)
  qed
qed

section \<open>Interfaces\<close>

text \<open>The bytes that the pointer and length of \<open>rp_fifo_raw_r\<close> denote.\<close>

definition rp_fifo_view :: "rp_fifo \<Rightarrow> bytes option" where
  "rp_fifo_view b = (case rp_fifo_raw_r b of (p, n) \<Rightarrow> mem_read (f_buffer b) (unat p) (unat n))"

lemma put_spec:
  assumes ok: "fifo_ok b" and n: "unat n \<le> length src"
  shows "\<exists>b'. rp_fifo_put b src n = Some (b', rp_min n (rp_fifo_bytes_free b)) \<and> fifo_ok b' \<and>
           fifo_bytes b' = fifo_bytes b @ take (min (unat n) (fifo_room b)) src \<and>
           f_capacity b' = f_capacity b"
proof -
  let ?n = "rp_min n (rp_fifo_bytes_free b)"
  have un: "unat ?n = min (unat n) (fifo_room b)" by (simp add: fifo_room_unat ok)
  show ?thesis
  proof (cases "?n = 0")
    case True
    then show ?thesis using ok un by (auto simp: rp_fifo_put_def)
  next
    case False
    with put_loop_ok [OF ok, of ?n src] n un show ?thesis
      by (auto simp: rp_fifo_put_def Let_def)
  qed
qed

lemma get_spec:
  assumes ok: "fifo_ok b"
  shows "\<exists>b'. rp_fifo_get b n = Some (b', take (unat n) (fifo_bytes b), rp_min n (f_count b)) \<and>
           fifo_ok b' \<and> fifo_bytes b' = drop (unat n) (fifo_bytes b) \<and> f_capacity b' = f_capacity b"
proof -
  let ?n = "rp_min n (f_count b)"
  have un: "unat ?n = min (unat n) (length (fifo_bytes b))" by (simp add: length_fifo_bytes ok)
  have td: "take (unat ?n) (fifo_bytes b) = take (unat n) (fifo_bytes b)"
    "drop (unat ?n) (fifo_bytes b) = drop (unat n) (fifo_bytes b)"
    unfolding un by (simp_all add: min_def)
  show ?thesis
  proof (cases "?n = 0")
    case True
    then show ?thesis using ok td by (auto simp: rp_fifo_get_def)
  next
    case False
    with get_loop_ok [OF ok, of ?n "[]"] un td show ?thesis
      by (auto simp: rp_fifo_get_def Let_def)
  qed
qed

lemma putstr_takes:
  assumes ok: "fifo_ok q" and l: "length s < 2 ^ 64"
  shows "\<exists>q' k. rp_fifo_putstr q s = Some (q', k) \<and> fifo_ok q' \<and>
    fifo_bytes q' = fifo_bytes q @ take (fifo_room q) s \<and>
    fifo_room q' = fifo_room q - length s \<and> unat k = min (length s) (fifo_room q)"
proof -
  have un: "unat (of_nat (length s) :: size_t) = length s"
    using l by (simp add: unat_of_nat)
  then have tk: "take (min (unat (of_nat (length s) :: size_t)) (fifo_room q)) s = take (fifo_room q) s"
    by (simp add: min_def)
  from put_spec [OF ok, of "of_nat (length s)" s] un tk obtain q' where
    "rp_fifo_putstr q s = Some (q', rp_min (of_nat (length s)) (rp_fifo_bytes_free q))"
    "fifo_ok q'" "fifo_bytes q' = fifo_bytes q @ take (fifo_room q) s" "f_capacity q' = f_capacity q"
    by (auto simp: rp_fifo_putstr_def)
  then show ?thesis
    using ok un by (auto simp: fifo_room_length fifo_room_unat)
qed

interpretation fifo_sink: byte_sink fifo_ok fifo_bytes fifo_room rp_fifo_putstr
  by unfold_locales (rule putstr_takes)

lemma view_eq: "fifo_ok b \<Longrightarrow> rp_fifo_view b = Some (take (unat (snd (rp_fifo_raw_r b))) (fifo_bytes b))"
proof (cases "fifo_bytes b = []")
  case True
  assume ok: "fifo_ok b"
  then have "unat (snd (rp_fifo_raw_r b)) = 0" using True by (simp add: unat_raw_r)
  then show ?thesis
    using fifo_offsets [OF ok] by (simp add: rp_fifo_view_def rp_fifo_raw_r_def mem_read_def)
next
  case False
  assume ok: "fifo_ok b"
  let ?n = "rp_fifo_count b"
  have n: "unat ?n \<le> length (fifo_bytes b)" "0 < ?n"
    using False length_fifo_bytes [OF ok]
    by (auto simp: rp_fifo_count_def word_less_nat_alt simp flip: length_greater_0_conv)
  from get_round(1) [OF ok n] show ?thesis
    by (simp add: rp_fifo_view_def rp_fifo_raw_r_def)
qed

interpretation fifo_source: byte_source fifo_ok fifo_bytes rp_fifo_view rp_fifo_consume
proof
  fix q assume ok: "fifo_ok q"
  have "length (take (unat (snd (rp_fifo_raw_r q))) (fifo_bytes q)) < 2 ^ 64"
    using unat_less_limit [of "snd (rp_fifo_raw_r q)"] by simp
  with ok raw_r_pos [OF ok] show "\<exists>v. rp_fifo_view q = Some v \<and> v = take (length v) (fifo_bytes q) \<and>
      (fifo_bytes q \<noteq> [] \<longrightarrow> v \<noteq> []) \<and> length v < 2 ^ 64"
    by (auto simp: view_eq)
next
  fix q v and n :: size_t
  assume ok: "fifo_ok q" and v: "rp_fifo_view q = Some v" and n: "unat n \<le> length v"
  then have "n \<le> snd (rp_fifo_raw_r q)"
    by (auto simp: view_eq word_le_nat_alt)
  with ok show "fifo_ok (rp_fifo_consume q n) \<and> fifo_bytes (rp_fifo_consume q n) = drop (unat n) (fifo_bytes q)"
    by (simp add: consume_ok)
qed


section \<open>Properties\<close>

text \<open>
  The specification of the fifo: a byte list and a capacity. A put keeps the bytes that
  fit, a get takes what there is.
\<close>

datatype fifo_op = Put bytes | Get size_t

record byte_queue =
  q_cap :: nat
  q_bytes :: bytes

fun spec_op :: "fifo_op \<Rightarrow> byte_queue \<Rightarrow> byte_queue \<times> bytes \<times> nat" where
  "spec_op (Put s) q =
     (let k = min (length s) (q_cap q - length (q_bytes q))
      in (q\<lparr>q_bytes := q_bytes q @ take k s\<rparr>, [], k))"
| "spec_op (Get n) q =
     (let k = min (unat n) (length (q_bytes q))
      in (q\<lparr>q_bytes := drop k (q_bytes q)\<rparr>, take k (q_bytes q), k))"

fun spec_ops :: "fifo_op list \<Rightarrow> byte_queue \<Rightarrow> byte_queue \<times> (bytes \<times> nat) list" where
  "spec_ops [] q = (q, [])"
| "spec_ops (x # xs) q =
     (let (q1, r) = spec_op x q; (q2, rs) = spec_ops xs q1 in (q2, r # rs))"

text \<open>The same operations on the ring buffer.\<close>

fun exec_op :: "fifo_op \<Rightarrow> rp_fifo \<Rightarrow> (rp_fifo \<times> bytes \<times> nat) option" where
  "exec_op (Put s) b = map_option (\<lambda>(b', k). (b', [], unat k)) (rp_fifo_put b s (of_nat (length s)))"
| "exec_op (Get n) b = map_option (\<lambda>(b', d, k). (b', d, unat k)) (rp_fifo_get b n)"

fun exec_ops :: "fifo_op list \<Rightarrow> rp_fifo \<Rightarrow> (rp_fifo \<times> (bytes \<times> nat) list) option" where
  "exec_ops [] b = Some (b, [])"
| "exec_ops (x # xs) b =
     do { (b1, r) \<leftarrow> exec_op x b; (b2, rs) \<leftarrow> exec_ops xs b1; Some (b2, r # rs) }"

definition abs_fifo :: "rp_fifo \<Rightarrow> byte_queue" where
  "abs_fifo b = \<lparr>q_cap = unat (f_capacity b), q_bytes = fifo_bytes b\<rparr>"

lemma fifo_op_refines:
  assumes ok: "fifo_ok b" and sz: "case x of Put s \<Rightarrow> length s < 2 ^ 64 | _ \<Rightarrow> True"
  shows "\<exists>b'. exec_op x b = Some (b', snd (spec_op x (abs_fifo b))) \<and> fifo_ok b' \<and>
           abs_fifo b' = fst (spec_op x (abs_fifo b))"
proof (cases x)
  case (Put s)
  have un: "unat (of_nat (length s) :: size_t) = length s"
    using sz Put by (simp add: unat_of_nat)
  from put_spec [OF ok, of "of_nat (length s)" s] un Put show ?thesis
    by (auto simp: abs_fifo_def fifo_room_unat [OF ok] fifo_room_length [OF ok] Let_def)
next
  case (Get n)
  from get_spec [OF ok, of n] obtain b' where b': "rp_fifo_get b n =
      Some (b', take (unat n) (fifo_bytes b), rp_min n (f_count b))" "fifo_ok b'"
    "fifo_bytes b' = drop (unat n) (fifo_bytes b)" "f_capacity b' = f_capacity b" by blast
  moreover have "drop (min (unat n) (length (fifo_bytes b))) (fifo_bytes b) = drop (unat n) (fifo_bytes b)"
    by (simp add: min_def)
  ultimately show ?thesis
    using Get by (simp add: abs_fifo_def length_fifo_bytes [OF ok, symmetric] Let_def)
qed

text \<open>
  C4: The ring buffer implements the bounded byte queue: from any well-formed fifo, every
  sequence of \<open>rp_fifo_put\<close> and \<open>rp_fifo_get\<close> calls returns (no call loops for ever or
  touches memory outside the buffer) and delivers exactly the bytes and counts of the
  queue, across every wrap-around, and ends in a well-formed fifo with the queue's content.
\<close>

theorem fifo_refines_queue:
  assumes "fifo_ok b" and "\<forall>s. Put s \<in> set xs \<longrightarrow> length s < 2 ^ 64"
  shows "\<exists>b'. exec_ops xs b = Some (b', snd (spec_ops xs (abs_fifo b))) \<and> fifo_ok b' \<and>
           abs_fifo b' = fst (spec_ops xs (abs_fifo b))"
  using assms
proof (induction xs arbitrary: b)
  case (Cons x xs)
  have "case x of Put s \<Rightarrow> length s < 2 ^ 64 | _ \<Rightarrow> True"
    using Cons.prems(2) by (cases x) auto
  with fifo_op_refines [OF Cons.prems(1)] obtain b1 where b1:
    "exec_op x b = Some (b1, snd (spec_op x (abs_fifo b)))" "fifo_ok b1"
    "abs_fifo b1 = fst (spec_op x (abs_fifo b))" by blast
  from Cons.IH [OF b1(2)] Cons.prems(2) obtain b2 where
    "exec_ops xs b1 = Some (b2, snd (spec_ops xs (abs_fifo b1)))" "fifo_ok b2"
    "abs_fifo b2 = fst (spec_ops xs (abs_fifo b1))" by auto
  with b1 show ?case by (simp add: split_beta Let_def)
qed simp

definition small_fifo :: rp_fifo where
  "small_fifo = rp_fifo_init \<lparr>f_capacity = 4, f_count = 9, f_head = 9, f_tail = 9, f_end = 9,
     f_buffer = ''....''\<rparr>"

lemma small_fifo_simps:
  "f_capacity small_fifo = 4" "f_count small_fifo = 0" "f_head small_fifo = 0"
  "f_tail small_fifo = 0" "f_end small_fifo = 4" "f_buffer small_fifo = ''....''"
  by (simp_all add: small_fifo_def rp_fifo_init_def)

lemma small_fifo_ok: "fifo_ok small_fifo" "fifo_bytes small_fifo = []"
  by (simp_all add: fifo_ok_def fifo_bytes_def small_fifo_simps)

theorem fifo_refines_queue_witness:
  "\<exists>b'. exec_ops [Put ''abc'', Get 2, Put ''defg'', Get 9] small_fifo =
     Some (b', [([], 3), (''ab'', 2), ([], 3), (''cdef'', 4)]) \<and> fifo_ok b'"
proof -
  have "snd (spec_ops [Put ''abc'', Get 2, Put ''defg'', Get 9] \<lparr>q_cap = 4, q_bytes = []\<rparr>) =
      [([], 3), (''ab'', 2), ([], 3), (''cdef'', 4)]"
    by code_simp
  moreover have "abs_fifo small_fifo = \<lparr>q_cap = 4, q_bytes = []\<rparr>"
    by (simp add: abs_fifo_def small_fifo_ok small_fifo_simps)
  ultimately show ?thesis
    using fifo_refines_queue [of small_fifo "[Put ''abc'', Get 2, Put ''defg'', Get 9]"]
    by (auto simp: small_fifo_ok simp del: exec_ops.simps spec_ops.simps)
qed

text \<open>
  \<open>rp_fifo_init\<close> on a buffer of the capacity's size makes a well-formed, empty fifo,
  whatever the other fields held.
\<close>

theorem fifo_init_ok:
  assumes "length (f_buffer b) = unat (f_capacity b)" "0 < f_capacity b"
  shows "fifo_ok (rp_fifo_init b) \<and> fifo_bytes (rp_fifo_init b) = [] \<and>
    fifo_room (rp_fifo_init b) = unat (f_capacity b)"
  using assms by (simp add: fifo_ok_def rp_fifo_init_def fifo_bytes_def fifo_room_def)

theorem fifo_init_ok_witness:
  "fifo_ok (rp_fifo_init \<lparr>f_capacity = 4, f_count = 9, f_head = 9, f_tail = 9, f_end = 9,
     f_buffer = ''....''\<rparr>)"
  using fifo_init_ok [of "\<lparr>f_capacity = 4, f_count = 9, f_head = 9, f_tail = 9, f_end = 9,
     f_buffer = ''....''\<rparr>"] by simp

text \<open>
  What the socket reader does. The region that \<open>rp_fifo_raw_w\<close> hands out lies in the
  buffer and is not empty while there is room; storing up to that many bytes at its start
  and reserving them appends exactly these bytes to the content.
\<close>

theorem fifo_raw_write:
  assumes "fifo_ok b" "length d \<le> unat (snd (rp_fifo_raw_w b))"
  shows "unat (fst (rp_fifo_raw_w b)) + unat (snd (rp_fifo_raw_w b)) \<le> length (f_buffer b) \<and>
    (0 < fifo_room b \<longrightarrow> 0 < snd (rp_fifo_raw_w b)) \<and>
    (\<exists>m. mem_write (f_buffer b) (unat (fst (rp_fifo_raw_w b))) d = Some m \<and>
      fifo_ok (rp_fifo_reserve (b\<lparr>f_buffer := m\<rparr>) (of_nat (length d))) \<and>
      fifo_bytes (rp_fifo_reserve (b\<lparr>f_buffer := m\<rparr>) (of_nat (length d))) = fifo_bytes b @ d)"
proof (intro conjI impI)
  have fst_w: "fst (rp_fifo_raw_w b) = f_tail b" by (simp add: rp_fifo_raw_w_def)
  show 1: "unat (fst (rp_fifo_raw_w b)) + unat (snd (rp_fifo_raw_w b)) \<le> length (f_buffer b)"
    unfolding fst_w unat_raw_w [OF assms(1)] using fifo_offsets [OF assms(1)] by simp
  show "0 < fifo_room b \<Longrightarrow> 0 < snd (rp_fifo_raw_w b)"
    using raw_w_pos [OF assms(1)] by (simp add: word_less_nat_alt)
  have "mem_write (f_buffer b) (unat (f_tail b)) d = Some (overwrite (unat (f_tail b)) d (f_buffer b))"
    using 1 assms(2) by (simp add: mem_write_def fst_w)
  with reserve_ok [OF assms this] show "\<exists>m. mem_write (f_buffer b) (unat (fst (rp_fifo_raw_w b))) d = Some m \<and>
      fifo_ok (rp_fifo_reserve (b\<lparr>f_buffer := m\<rparr>) (of_nat (length d))) \<and>
      fifo_bytes (rp_fifo_reserve (b\<lparr>f_buffer := m\<rparr>) (of_nat (length d))) = fifo_bytes b @ d"
    by (simp add: fst_w)
qed

theorem fifo_raw_write_witness:
  "\<exists>m. mem_write ''....'' 0 ''ab'' = Some m \<and>
     fifo_bytes (rp_fifo_reserve (small_fifo\<lparr>f_buffer := m\<rparr>) 2) = ''ab''"
proof -
  have w: "rp_fifo_raw_w small_fifo = (0, 4)"
    by (simp add: rp_fifo_raw_w_def rp_fifo_bytes_free_def small_fifo_simps rp_min_def)
  show ?thesis
    using fifo_raw_write [OF small_fifo_ok(1), of "''ab''"] by (simp add: w small_fifo_simps small_fifo_ok) blast
qed

text \<open>
  What the socket writer and the parser loop do. The region of \<open>rp_fifo_raw_r\<close> holds
  the first bytes of the content in order, is not empty while there are bytes, and
  consuming \<open>k\<close> bytes of it drops exactly the first \<open>k\<close>.
\<close>

theorem fifo_raw_read:
  assumes "fifo_ok b" "k \<le> snd (rp_fifo_raw_r b)"
  shows "mem_read (f_buffer b) (unat (fst (rp_fifo_raw_r b))) (unat (snd (rp_fifo_raw_r b))) =
      Some (take (unat (snd (rp_fifo_raw_r b))) (fifo_bytes b)) \<and>
    (fifo_bytes b \<noteq> [] \<longrightarrow> 0 < snd (rp_fifo_raw_r b)) \<and>
    fifo_ok (rp_fifo_consume b k) \<and> fifo_bytes (rp_fifo_consume b k) = drop (unat k) (fifo_bytes b)"
  using view_eq [OF assms(1)] raw_r_pos [OF assms(1)] consume_ok [OF assms]
  by (simp add: rp_fifo_view_def split_beta word_less_nat_alt)

theorem fifo_raw_read_witness:
  "mem_read (f_buffer small_fifo) 0 0 = Some [] \<and> fifo_ok (rp_fifo_consume small_fifo 0)"
proof -
  have r: "rp_fifo_raw_r small_fifo = (0, 0)"
    by (simp add: rp_fifo_raw_r_def rp_fifo_count_def small_fifo_simps rp_min_def)
  show ?thesis using fifo_raw_read [OF small_fifo_ok(1), of 0] by (simp add: r)
qed

section \<open>Every use of a fifo\<close>

text \<open>
  The calls the program makes: \<open>put\<close> and \<open>get\<close>; the parser loop and the socket writer
  consume at most what \<open>rp_fifo_raw_r\<close> reports; the socket reader stores at most what
  \<open>rp_fifo_raw_w\<close> reports at the address it gives, and reserves it.
\<close>

datatype fifo_use = C_put bytes | C_get size_t | C_consume size_t | C_write bytes

fun fifo_call :: "fifo_use \<Rightarrow> rp_fifo \<Rightarrow> rp_fifo option" where
  "fifo_call (C_put s) b = map_option fst (rp_fifo_put b s (of_nat (length s)))"
| "fifo_call (C_get n) b = map_option fst (rp_fifo_get b n)"
| "fifo_call (C_consume n) b = Some (rp_fifo_consume b (rp_min n (snd (rp_fifo_raw_r b))))"
| "fifo_call (C_write s) b =
     (let d = take (unat (snd (rp_fifo_raw_w b))) s
      in map_option (\<lambda>m. rp_fifo_reserve (b\<lparr>f_buffer := m\<rparr>) (of_nat (length d)))
           (mem_write (f_buffer b) (unat (fst (rp_fifo_raw_w b))) d))"

fun fifo_calls :: "fifo_use list \<Rightarrow> rp_fifo \<Rightarrow> rp_fifo option" where
  "fifo_calls [] b = Some b"
| "fifo_calls (c # cs) b = Option.bind (fifo_call c b) (fifo_calls cs)"

lemma fifo_call_ok:
  assumes ok: "fifo_ok b" and c: "\<forall>s. c = C_put s \<longrightarrow> length s < 2 ^ 64"
  shows "\<exists>b'. fifo_call c b = Some b' \<and> fifo_ok b' \<and> length (f_buffer b') = length (f_buffer b)"
proof -
  have len: "fifo_ok b' \<Longrightarrow> f_capacity b' = f_capacity b \<Longrightarrow> length (f_buffer b') = length (f_buffer b)" for b'
    using ok by (simp add: fifo_ok_def)
  show ?thesis
  proof (cases c)
    case (C_put s)
    with c have "unat (of_nat (length s) :: size_t) \<le> length s" by (simp add: unsigned_of_nat take_bit_nat_eq_self)
    from put_spec [OF ok this] len C_put show ?thesis by auto
  next
    case (C_get n)
    with get_spec [OF ok, of n] len show ?thesis by auto
  next
    case (C_consume n)
    have "rp_min n (snd (rp_fifo_raw_r b)) \<le> snd (rp_fifo_raw_r b)" by (simp add: word_le_nat_alt)
    from consume_ok [OF ok this] C_consume show ?thesis by (simp add: rp_fifo_consume_def Let_def)
  next
    case (C_write s)
    let ?d = "take (unat (snd (rp_fifo_raw_w b))) s"
    have d: "length ?d \<le> unat (snd (rp_fifo_raw_w b))" by simp
    have "unat (f_tail b) + length ?d \<le> length (f_buffer b)"
      using d fifo_offsets [OF ok] unfolding unat_raw_w [OF ok] by linarith
    then have m: "mem_write (f_buffer b) (unat (f_tail b)) ?d = Some (overwrite (unat (f_tail b)) ?d (f_buffer b))"
      by (simp add: mem_write_def)
    from reserve_ok [OF ok d m] mem_write_length [OF m] C_write m show ?thesis
      by (simp add: rp_fifo_raw_w_def rp_fifo_reserve_fields)
  qed
qed

text \<open>
  C10: the type of a fifo: from \<open>rp_fifo_init\<close> on, every sequence of the calls the program
  makes returns, stays inside the buffer and keeps the record well-formed: \<open>head\<close> and
  \<open>tail\<close> are offsets below the capacity, \<open>count\<close> is at most the capacity and is their
  distance around the ring, and the buffer keeps its length.
\<close>

theorem fifo_well_typed:
  assumes "length (f_buffer b) = unat (f_capacity b)" "0 < f_capacity b" "\<forall>s. C_put s \<in> set cs \<longrightarrow> length s < 2 ^ 64"
  shows "\<exists>b'. fifo_calls cs (rp_fifo_init b) = Some b' \<and> f_head b' < f_capacity b' \<and> f_tail b' < f_capacity b' \<and>
    f_count b' \<le> f_capacity b' \<and> f_end b' = f_capacity b' \<and> length (f_buffer b') = length (f_buffer b) \<and>
    unat (f_tail b') = (unat (f_head b') + unat (f_count b')) mod unat (f_capacity b')"
proof -
  have "\<exists>b'. fifo_calls cs c = Some b' \<and> fifo_ok b' \<and> length (f_buffer b') = length (f_buffer c)" if "fifo_ok c" for c
    using that assms(3)
  proof (induction cs arbitrary: c)
    case (Cons x xs)
    then have "\<forall>s. x = C_put s \<longrightarrow> length s < 2 ^ 64" by auto
    from fifo_call_ok [OF Cons.prems(1) this] obtain c' where
      "fifo_call x c = Some c'" "fifo_ok c'" "length (f_buffer c') = length (f_buffer c)" by blast
    with Cons.IH [of c'] Cons.prems(2) show ?case by auto
  qed simp
  moreover have "fifo_ok (rp_fifo_init b)" "f_buffer (rp_fifo_init b) = f_buffer b"
    using assms(1,2) by (simp_all add: fifo_ok_def rp_fifo_init_def)
  ultimately obtain b' where "fifo_calls cs (rp_fifo_init b) = Some b'" "fifo_ok b'" "length (f_buffer b') = length (f_buffer b)"
    by metis
  then show ?thesis by (simp add: fifo_ok_def)
qed

definition raw_fifo :: rp_fifo where
  "raw_fifo = \<lparr>f_capacity = 4, f_count = 9, f_head = 9, f_tail = 9, f_end = 9, f_buffer = ''....''\<rparr>"

theorem fifo_well_typed_witness:
  "\<exists>b. fifo_calls [C_write ''abcdef'', C_consume 3, C_put ''xy'', C_get 9] (rp_fifo_init raw_fifo) = Some b \<and>
     f_head b < f_capacity b \<and> length (f_buffer b) = 4"
proof -
  have "length (f_buffer raw_fifo) = unat (f_capacity raw_fifo)" "0 < f_capacity raw_fifo" "length (f_buffer raw_fifo) = 4"
    by (simp_all add: raw_fifo_def)
  with fifo_well_typed [of raw_fifo "[C_write ''abcdef'', C_consume 3, C_put ''xy'', C_get 9]"] show ?thesis
    by (auto simp del: fifo_calls.simps)
qed

end
