(* ===== verification/Ragel.thy ===== *)
theory Ragel
  imports Prelude
begin

text \<open>
  The Ragel expressions that ircsm/rp_ircsm.rl is written in, with their embedded actions,
  and the machine they denote. The repository holds the expression, not the generated
  tables, so this theory is the meaning of the notation: an expression with action
  embeddings is turned into transitions by partial derivatives, a machine state is the
  list of live expressions, and the actions of a transition are those of all live paths,
  each once, in the order of their embedding numbers (Ragel numbers the embeddings as it
  walks the expression: an entering action before the operand, the others after it).
\<close>

section \<open>Expressions\<close>

datatype cls =
    Chr char
  | Digit | XDigit | Alpha | Alnum
  | Extend
  | CUnion cls cls
  | CDiff cls cls

definition char_between :: "nat \<Rightarrow> nat \<Rightarrow> char \<Rightarrow> bool" where
  "char_between lo hi c \<longleftrightarrow> lo \<le> of_char c \<and> of_char c \<le> hi"

fun cls_mem :: "cls \<Rightarrow> char \<Rightarrow> bool" where
  "cls_mem (Chr d) c \<longleftrightarrow> c = d"
| "cls_mem Digit c \<longleftrightarrow> char_between 48 57 c"
| "cls_mem XDigit c \<longleftrightarrow> char_between 48 57 c \<or> char_between 65 70 c \<or> char_between 97 102 c"
| "cls_mem Alpha c \<longleftrightarrow> char_between 65 90 c \<or> char_between 97 122 c"
| "cls_mem Alnum c \<longleftrightarrow> char_between 48 57 c \<or> char_between 65 90 c \<or> char_between 97 122 c"
| "cls_mem Extend c \<longleftrightarrow> True"
| "cls_mem (CUnion a b) c \<longleftrightarrow> cls_mem a c \<or> cls_mem b c"
| "cls_mem (CDiff a b) c \<longleftrightarrow> cls_mem a c \<and> \<not> cls_mem b c"

text \<open>
  \<open>OnAll\<close> is \<open>$\<close>, \<open>OnEnter\<close> is \<open>>\<close>, \<open>OnLeave\<close> is \<open>%\<close> and \<open>OnFinish\<close> is \<open>@\<close>; the number is
  the embedding's place in the order. \<open>RepLe n\<close> is \<open>{,n}\<close> and \<open>RepEq n\<close> is \<open>{n}\<close>.
\<close>

datatype 'a rx =
    Eps
  | Cls cls
  | Alt "'a rx" "'a rx"
  | Seq "'a rx" "'a rx"
  | Star "'a rx"
  | RepLe nat "'a rx"
  | RepEq nat "'a rx"
  | OnAll nat 'a "'a rx"
  | OnEnter nat 'a "'a rx"
  | OnLeave nat 'a "'a rx"
  | OnFinish nat 'a "'a rx"

type_synonym 'a acts = "(nat \<times> 'a) list"

abbreviation Opt :: "'a rx \<Rightarrow> 'a rx" where "Opt r \<equiv> RepLe 1 r"
abbreviation Plus :: "'a rx \<Rightarrow> 'a rx" where "Plus r \<equiv> Seq r (Star r)"

fun str_rx :: "string \<Rightarrow> 'a rx" where
  "str_rx [] = Eps"
| "str_rx [c] = Cls (Chr c)"
| "str_rx (c # cs) = Seq (Cls (Chr c)) (str_rx cs)"

section \<open>The machine\<close>

fun nullable :: "'a rx \<Rightarrow> bool" where
  "nullable Eps \<longleftrightarrow> True"
| "nullable (Cls k) \<longleftrightarrow> False"
| "nullable (Alt r s) \<longleftrightarrow> nullable r \<or> nullable s"
| "nullable (Seq r s) \<longleftrightarrow> nullable r \<and> nullable s"
| "nullable (Star r) \<longleftrightarrow> True"
| "nullable (RepLe n r) \<longleftrightarrow> True"
| "nullable (RepEq n r) \<longleftrightarrow> n = 0 \<or> nullable r"
| "nullable (OnAll n a r) \<longleftrightarrow> nullable r"
| "nullable (OnEnter n a r) \<longleftrightarrow> nullable r"
| "nullable (OnLeave n a r) \<longleftrightarrow> nullable r"
| "nullable (OnFinish n a r) \<longleftrightarrow> nullable r"

text \<open>The leaving actions pending in a final state.\<close>

fun leave :: "'a rx \<Rightarrow> 'a acts" where
  "leave (Alt r s) = (if nullable r then leave r else []) @ (if nullable s then leave s else [])"
| "leave (Seq r s) = leave r @ leave s"
| "leave (OnAll n a r) = leave r"
| "leave (OnEnter n a r) = leave r"
| "leave (OnLeave n a r) = (n, a) # leave r"
| "leave (OnFinish n a r) = leave r"
| "leave _ = []"

text \<open>
  The transitions on a character, each with its actions and the expression that is left.
  A repetition \<open>{n}\<close> of an operand that accepts the empty word may skip some of its
  copies, leaving them.
\<close>

fun pd :: "char \<Rightarrow> 'a rx \<Rightarrow> ('a acts \<times> 'a rx) list" where
  "pd c Eps = []"
| "pd c (Cls k) = (if cls_mem k c then [([], Eps)] else [])"
| "pd c (Alt r s) = pd c r @ pd c s"
| "pd c (Seq r s) =
     map (\<lambda>(as, r'). (as, Seq r' s)) (pd c r) @
     (if nullable r then map (\<lambda>(as, s'). (leave r @ as, s')) (pd c s) else [])"
| "pd c (Star r) = map (\<lambda>(as, r'). (as, Seq r' (Star r))) (pd c r)"
| "pd c (RepLe 0 r) = []"
| "pd c (RepLe (Suc n) r) = map (\<lambda>(as, r'). (as, Seq r' (RepLe n r))) (pd c r)"
| "pd c (RepEq 0 r) = []"
| "pd c (RepEq (Suc n) r) =
     concat (map (\<lambda>j. map (\<lambda>(as, r'). ((if j < n then leave r else []) @ as, Seq r' (RepEq j r))) (pd c r))
       (if nullable r then rev [0..<Suc n] else [n]))"
| "pd c (OnAll n a r) = map (\<lambda>(as, r'). ((n, a) # as, OnAll n a r')) (pd c r)"
| "pd c (OnEnter n a r) = map (\<lambda>(as, r'). ((n, a) # as, r')) (pd c r)"
| "pd c (OnLeave n a r) = map (\<lambda>(as, r'). (as, OnLeave n a r')) (pd c r)"
| "pd c (OnFinish n a r) =
     map (\<lambda>(as, r'). (if nullable r' then (n, a) # as else as, OnFinish n a r')) (pd c r)"

type_synonym 'a state = "'a rx list"

definition moves :: "char \<Rightarrow> 'a state \<Rightarrow> ('a acts \<times> 'a rx) list" where
  "moves c cs = concat (map (pd c) cs)"

definition step_state :: "char \<Rightarrow> 'a state \<Rightarrow> 'a state" where
  "step_state c cs = remdups (map snd (moves c cs))"

definition step_acts :: "char \<Rightarrow> 'a state \<Rightarrow> 'a acts" where
  "step_acts c cs = sort_key fst (remdups (concat (map fst (moves c cs))))"

definition final_state :: "'a state \<Rightarrow> bool" where
  "final_state cs \<longleftrightarrow> list_ex nullable cs"


section \<open>The language of an expression\<close>

text \<open>The strings an expression denotes, with the actions erased.\<close>

definition conc :: "string set \<Rightarrow> string set \<Rightarrow> string set" where
  "conc A B = {u @ v | u v. u \<in> A \<and> v \<in> B}"

primrec lpow :: "string set \<Rightarrow> nat \<Rightarrow> string set" where
  "lpow A 0 = {[]}"
| "lpow A (Suc n) = conc A (lpow A n)"

fun lang :: "'a rx \<Rightarrow> string set" where
  "lang Eps = {[]}"
| "lang (Cls k) = {[c] | c. cls_mem k c}"
| "lang (Alt r s) = lang r \<union> lang s"
| "lang (Seq r s) = conc (lang r) (lang s)"
| "lang (Star r) = (\<Union>n. lpow (lang r) n)"
| "lang (RepLe n r) = (\<Union>k\<in>{..n}. lpow (lang r) k)"
| "lang (RepEq n r) = lpow (lang r) n"
| "lang (OnAll n a r) = lang r"
| "lang (OnEnter n a r) = lang r"
| "lang (OnLeave n a r) = lang r"
| "lang (OnFinish n a r) = lang r"

named_theorems word_split

lemma conc_Nil [simp]: "[] \<in> conc A B \<longleftrightarrow> [] \<in> A \<and> [] \<in> B"
  by (auto simp: conc_def)

lemma conc_Cons [word_split]:
  "c # w \<in> conc A B \<longleftrightarrow>
     (\<exists>u v. w = u @ v \<and> c # u \<in> A \<and> v \<in> B) \<or> ([] \<in> A \<and> c # w \<in> B)"
  by (auto simp: conc_def Cons_eq_append_conv)

lemma concI [intro]: "u \<in> A \<Longrightarrow> v \<in> B \<Longrightarrow> u @ v \<in> conc A B"
  by (auto simp: conc_def)

lemma lpow_Nil [simp]: "[] \<in> lpow A n \<longleftrightarrow> n = 0 \<or> [] \<in> A"
  by (induction n) auto

text \<open>
  A non-empty word of a power starts with a non-empty word of the base, after skipping
  copies that are empty.
\<close>

lemma lpow_Cons:
  "c # w \<in> lpow A n \<longleftrightarrow>
     (\<exists>u v j. w = u @ v \<and> c # u \<in> A \<and> j < n \<and> v \<in> lpow A j \<and> (Suc j = n \<or> [] \<in> A))"
proof (induction n)
  case 0
  then show ?case by simp
next
  case (Suc n)
  have "c # w \<in> lpow A (Suc n) \<longleftrightarrow>
    (\<exists>u v. w = u @ v \<and> c # u \<in> A \<and> v \<in> lpow A n) \<or> ([] \<in> A \<and> c # w \<in> lpow A n)"
    by (simp add: conc_Cons)
  also have "\<dots> \<longleftrightarrow> (\<exists>u v j. w = u @ v \<and> c # u \<in> A \<and> j < Suc n \<and> v \<in> lpow A j \<and> (j = n \<or> [] \<in> A))"
    unfolding Suc.IH less_Suc_eq by blast
  finally show ?case by simp
qed

lemma lpow_Cons_le:
  "(\<exists>i \<le> Suc k. c # w \<in> lpow A i) \<longleftrightarrow>
     (\<exists>u v. w = u @ v \<and> c # u \<in> A \<and> (\<exists>j \<le> k. v \<in> lpow A j))" (is "?l \<longleftrightarrow> ?r")
proof
  assume ?l
  then obtain i where i: "i \<le> Suc k" "c # w \<in> lpow A i" by blast
  from i(2) obtain u v j where "w = u @ v" "c # u \<in> A" "j < i" "v \<in> lpow A j"
    unfolding lpow_Cons by blast
  with i(1) show ?r by (metis less_Suc_eq_le order_less_le_trans)
next
  assume ?r
  then obtain u v j where w: "w = u @ v" and uv: "c # u \<in> A" "v \<in> lpow A j" and j: "j \<le> k"
    by blast
  from uv have "c # w \<in> lpow A (Suc j)" 
    using concI [of "c # u" A v "lpow A j"] unfolding w by simp
  with j show ?l by (meson Suc_le_mono)
qed

lemma lpow_add_Nil: "[] \<in> A \<Longrightarrow> w \<in> lpow A j \<Longrightarrow> w \<in> lpow A (j + d)"
  by (induction d) (auto simp: conc_def)

lemma lpow_mono_Nil: "[] \<in> A \<Longrightarrow> w \<in> lpow A j \<Longrightarrow> j \<le> n \<Longrightarrow> w \<in> lpow A n"
  using lpow_add_Nil [of A w j "n - j"] by simp

lemma nullable_iff: "nullable r \<longleftrightarrow> [] \<in> lang r"
  by (induction r) auto

text \<open>The transitions of an expression on a character are its left quotient.\<close>

theorem pd_lang: "c # w \<in> lang r \<longleftrightarrow> (\<exists>(as, r') \<in> set (pd c r). w \<in> lang r')"
proof (induction r arbitrary: w)
  case (Seq r s)
  have "c # w \<in> lang (Seq r s) \<longleftrightarrow>
    (\<exists>u v. w = u @ v \<and> c # u \<in> lang r \<and> v \<in> lang s) \<or> (nullable r \<and> c # w \<in> lang s)"
    by (simp add: conc_Cons nullable_iff)
  also have "\<dots> \<longleftrightarrow> (\<exists>(as, r') \<in> set (pd c r). w \<in> conc (lang r') (lang s)) \<or>
      (nullable r \<and> (\<exists>(as, s') \<in> set (pd c s). w \<in> lang s'))"
    unfolding Seq.IH conc_def by blast
  also have "\<dots> \<longleftrightarrow> (\<exists>(as, r') \<in> set (pd c (Seq r s)). w \<in> lang r')"
    by (simp add: split_beta bex_Un)
  finally show ?case .
next
  case (Star r)
  have "c # w \<in> lang (Star r) \<longleftrightarrow> (\<exists>u v. w = u @ v \<and> c # u \<in> lang r \<and> (\<exists>j. v \<in> lpow (lang r) j))"
    by (auto simp: lpow_Cons)
  also have "\<dots> \<longleftrightarrow> (\<exists>(as, r') \<in> set (pd c r). w \<in> conc (lang r') (lang (Star r)))"
    unfolding Star.IH conc_def by fastforce
  also have "\<dots> \<longleftrightarrow> (\<exists>(as, r') \<in> set (pd c (Star r)). w \<in> lang r')"
    by (simp add: split_beta)
  finally show ?case .
next
  case (RepLe n r)
  show ?case
  proof (cases n)
    case (Suc k)
    have "c # w \<in> lang (RepLe n r) \<longleftrightarrow> (\<exists>u v. w = u @ v \<and> c # u \<in> lang r \<and> (\<exists>j\<le>k. v \<in> lpow (lang r) j))"
      using lpow_Cons_le [of k c w "lang r"] unfolding Suc by (simp add: Bex_def)
    also have "\<dots> \<longleftrightarrow> (\<exists>(as, r') \<in> set (pd c r). w \<in> conc (lang r') (lang (RepLe k r)))"
      unfolding RepLe.IH conc_def by fastforce
    also have "\<dots> \<longleftrightarrow> (\<exists>(as, r') \<in> set (pd c (RepLe n r)). w \<in> lang r')"
      unfolding Suc by (simp add: split_beta)
    finally show ?thesis .
  qed simp
next
  case (RepEq n r)
  show ?case
  proof (cases n)
    case (Suc k)
    let ?js = "if nullable r then rev [0..<Suc k] else [k]"
    have js: "set ?js = {j. j < n \<and> (Suc j = n \<or> [] \<in> lang r)}"
      unfolding Suc by (auto simp: nullable_iff)
    have "c # w \<in> lang (RepEq n r) \<longleftrightarrow>
      (\<exists>j \<in> set ?js. \<exists>u v. w = u @ v \<and> c # u \<in> lang r \<and> v \<in> lpow (lang r) j)"
      unfolding js by (simp add: lpow_Cons) blast
    also have "\<dots> \<longleftrightarrow> (\<exists>j \<in> set ?js. \<exists>(as, r') \<in> set (pd c r). w \<in> conc (lang r') (lpow (lang r) j))"
      unfolding RepEq.IH conc_def by fastforce
    also have "\<dots> \<longleftrightarrow> (\<exists>(as, r') \<in> set (pd c (RepEq n r)). w \<in> lang r')"
      unfolding Suc by (simp only: pd.simps set_concat set_map image_image UN_iff bex_simps)
        (force simp: split_beta)
    finally show ?thesis .
  qed simp
qed (auto simp: split_beta)


text \<open>Inversion of transitions, operator by operator.\<close>

lemma pd_Seq_iff:
  "(as, t) \<in> set (pd c (Seq r s)) \<longleftrightarrow>
     (\<exists>r'. (as, r') \<in> set (pd c r) \<and> t = Seq r' s) \<or>
     (nullable r \<and> (\<exists>bs. as = leave r @ bs \<and> (bs, t) \<in> set (pd c s)))"
  by (auto simp: image_iff) force+

lemma pd_Opt_iff:
  "(as, t) \<in> set (pd c (Opt r)) \<longleftrightarrow> (\<exists>r'. (as, r') \<in> set (pd c r) \<and> t = Seq r' (RepLe 0 r))"
  by (auto simp: image_iff) force

lemma pd_OnAll_iff:
  "(as, t) \<in> set (pd c (OnAll n a r)) \<longleftrightarrow>
     (\<exists>bs r'. (bs, r') \<in> set (pd c r) \<and> as = (n, a) # bs \<and> t = OnAll n a r')"
  by (auto simp: image_iff) force

lemma pd_OnEnter_iff:
  "(as, t) \<in> set (pd c (OnEnter n a r)) \<longleftrightarrow> (\<exists>bs. (bs, t) \<in> set (pd c r) \<and> as = (n, a) # bs)"
  by (auto simp: image_iff) force

lemma pd_OnLeave_iff:
  "(as, t) \<in> set (pd c (OnLeave n a r)) \<longleftrightarrow> (\<exists>r'. (as, r') \<in> set (pd c r) \<and> t = OnLeave n a r')"
  by (auto simp: image_iff) force

lemma pd_Cls_iff: "(as, t) \<in> set (pd c (Cls k)) \<longleftrightarrow> cls_mem k c \<and> as = [] \<and> t = Eps"
  by auto

lemma pd_RepLe0_iff: "(as, t) \<in> set (pd c (RepLe 0 r)) \<longleftrightarrow> False"
  by simp

lemmas pd_iffs = pd_Seq_iff pd_Opt_iff pd_OnAll_iff pd_OnEnter_iff pd_OnLeave_iff
  pd_Cls_iff pd_RepLe0_iff

section \<open>States and runs\<close>

definition state_lang :: "'a state \<Rightarrow> string set" where
  "state_lang cs = (\<Union>r\<in>set cs. lang r)"

definition run_state :: "'a state \<Rightarrow> string \<Rightarrow> 'a state" where
  "run_state cs w = foldl (\<lambda>cs c. step_state c cs) cs w"

lemma run_state_simps [simp]:
  "run_state cs [] = cs"
  "run_state cs (c # w) = run_state (step_state c cs) w"
  by (simp_all add: run_state_def)

lemma run_state_append: "run_state cs (u @ w) = run_state (run_state cs u) w"
  by (simp add: run_state_def)

lemma set_moves: "set (moves c cs) = (\<Union>r\<in>set cs. set (pd c r))"
  by (simp add: moves_def)

lemma set_step_state: "set (step_state c cs) = snd ` (\<Union>r\<in>set cs. set (pd c r))"
  by (simp add: step_state_def set_moves)

lemma set_step_acts: "set (step_acts c cs) = (\<Union>r\<in>set cs. \<Union>(as, r')\<in>set (pd c r). set as)"
  by (force simp: step_acts_def set_moves)

lemma step_state_Nil [simp]: "step_state c [] = []"
  by (simp add: step_state_def moves_def)

lemma run_state_Nil [simp]: "run_state [] w = []"
  by (induction w) auto

lemma state_lang_step: "w \<in> state_lang (step_state c cs) \<longleftrightarrow> c # w \<in> state_lang cs"
  by (force simp: state_lang_def set_step_state pd_lang split_beta)

lemma final_state_iff: "final_state cs \<longleftrightarrow> [] \<in> state_lang cs"
  by (auto simp: final_state_def state_lang_def list_ex_iff nullable_iff)

lemma state_lang_run: "u \<in> state_lang (run_state cs w) \<longleftrightarrow> w @ u \<in> state_lang cs"
  by (induction w arbitrary: cs) (simp_all add: state_lang_step)

lemma final_run_iff: "final_state (run_state cs w) \<longleftrightarrow> w \<in> state_lang cs"
  by (simp add: final_state_iff state_lang_run)

lemma state_lang_nonempty: "w \<in> state_lang cs \<Longrightarrow> cs \<noteq> []"
  by (auto simp: state_lang_def)

text \<open>A property of expressions that transitions keep is kept by the states.\<close>

lemma step_state_all:
  assumes "\<And>r as r'. P r \<Longrightarrow> (as, r') \<in> set (pd c r) \<Longrightarrow> Q r'"
    and "\<forall>r\<in>set cs. P r"
  shows "\<forall>r\<in>set (step_state c cs). Q r"
  using assms by (fastforce simp: set_step_state)

section \<open>Actions and characters of an expression\<close>

fun acts_of :: "'a rx \<Rightarrow> (nat \<times> 'a) set" where
  "acts_of Eps = {}"
| "acts_of (Cls k) = {}"
| "acts_of (Alt r s) = acts_of r \<union> acts_of s"
| "acts_of (Seq r s) = acts_of r \<union> acts_of s"
| "acts_of (Star r) = acts_of r"
| "acts_of (RepLe n r) = acts_of r"
| "acts_of (RepEq n r) = acts_of r"
| "acts_of (OnAll n a r) = insert (n, a) (acts_of r)"
| "acts_of (OnEnter n a r) = insert (n, a) (acts_of r)"
| "acts_of (OnLeave n a r) = insert (n, a) (acts_of r)"
| "acts_of (OnFinish n a r) = insert (n, a) (acts_of r)"

fun reads :: "'a rx \<Rightarrow> char \<Rightarrow> bool" where
  "reads Eps c \<longleftrightarrow> False"
| "reads (Cls k) c \<longleftrightarrow> cls_mem k c"
| "reads (Alt r s) c \<longleftrightarrow> reads r c \<or> reads s c"
| "reads (Seq r s) c \<longleftrightarrow> reads r c \<or> reads s c"
| "reads (Star r) c \<longleftrightarrow> reads r c"
| "reads (RepLe n r) c \<longleftrightarrow> reads r c"
| "reads (RepEq n r) c \<longleftrightarrow> reads r c"
| "reads (OnAll n a r) c \<longleftrightarrow> reads r c"
| "reads (OnEnter n a r) c \<longleftrightarrow> reads r c"
| "reads (OnLeave n a r) c \<longleftrightarrow> reads r c"
| "reads (OnFinish n a r) c \<longleftrightarrow> reads r c"

lemma leave_acts: "set (leave r) \<subseteq> acts_of r"
  by (induction r) auto

lemma pd_acts: "(as, r') \<in> set (pd c r) \<Longrightarrow> set as \<subseteq> acts_of r \<and> acts_of r' \<subseteq> acts_of r"
proof (induction r arbitrary: as r')
  case (Seq r s)
  then show ?case using leave_acts [of r] by (fastforce split: if_splits)
next
  case (RepLe n r)
  then show ?case by (cases n) fastforce+
next
  case (RepEq n r)
  then show ?case using leave_acts [of r] by (cases n) (fastforce split: if_splits)+
qed (fastforce split: if_splits)+

lemma pd_reads:
  "(as, r') \<in> set (pd c r) \<Longrightarrow> reads r c \<and> (\<forall>d. reads r' d \<longrightarrow> reads r d)"
proof (induction r arbitrary: as r')
  case (Seq r s)
  then show ?case by (fastforce split: if_splits)
next
  case (RepLe n r)
  then show ?case by (cases n) fastforce+
next
  case (RepEq n r)
  then show ?case by (cases n) (fastforce split: if_splits)+
qed (fastforce split: if_splits)+

lemma lang_reads: "w \<in> lang r \<Longrightarrow> c \<in> set w \<Longrightarrow> reads r c"
proof (induction w arbitrary: r)
  case (Cons d w)
  from Cons.prems(1) obtain as r' where r': "(as, r') \<in> set (pd d r)" "w \<in> lang r'"
    unfolding pd_lang by blast
  then show ?case using Cons.IH [OF r'(2)] Cons.prems(2) pd_reads [OF r'(1)] by auto
qed simp

section \<open>Finishing actions\<close>

definition has_act :: "'a \<Rightarrow> (nat \<times> 'a) set \<Rightarrow> bool" where
  "has_act a S \<longleftrightarrow> a \<in> snd ` S"

lemma has_act_simps [simp]:
  "has_act a {} \<longleftrightarrow> False"
  "has_act a (insert p S) \<longleftrightarrow> a = snd p \<or> has_act a S"
  "has_act a (S \<union> T) \<longleftrightarrow> has_act a S \<or> has_act a T"
  by (auto simp: has_act_def)

lemma has_act_mono: "S \<subseteq> T \<Longrightarrow> has_act a S \<Longrightarrow> has_act a T"
  by (auto simp: has_act_def)

text \<open>
  \<open>ends_on a r\<close>: \<open>a\<close> is embedded once, as the finishing action of the last part of \<open>r\<close>.
  Then a transition carries \<open>a\<close> exactly when it completes the expression.
\<close>

fun ends_on :: "'a \<Rightarrow> 'a rx \<Rightarrow> bool" where
  "ends_on a (OnFinish n b r) \<longleftrightarrow> a = b \<and> \<not> has_act a (acts_of r)"
| "ends_on a (Seq r s) \<longleftrightarrow> \<not> has_act a (acts_of r) \<and> ends_on a s \<and> \<not> nullable s"
| "ends_on a (OnEnter n b r) \<longleftrightarrow> a \<noteq> b \<and> ends_on a r"
| "ends_on a _ \<longleftrightarrow> False"

lemma pd_has_act:
  assumes "\<not> has_act a (acts_of r)" "(as, r') \<in> set (pd c r)"
  shows "\<not> has_act a (set as)" "\<not> has_act a (acts_of r')"
  using assms pd_acts [OF assms(2)] has_act_mono by metis+

lemma leave_has_act: "\<not> has_act a (acts_of r) \<Longrightarrow> \<not> has_act a (set (leave r))"
  using leave_acts has_act_mono by metis

lemma ends_on_pd:
  "ends_on a r \<Longrightarrow> (as, r') \<in> set (pd c r) \<Longrightarrow> ends_on a r' \<and> (has_act a (set as) \<longleftrightarrow> nullable r')"
proof (induction r arbitrary: as r')
  case (Seq r s)
  from Seq.prems(2) consider
    (left) r1 where "(as, r1) \<in> set (pd c r)" "r' = Seq r1 s"
    | (right) as1 where "as = leave r @ as1" "(as1, r') \<in> set (pd c s)"
    by (auto split: if_splits)
  then show ?case
  proof cases
    case left
    then show ?thesis using Seq.prems(1) pd_has_act [OF _ left(1), of a] by simp
  next
    case right
    then show ?thesis
      using Seq.prems(1) Seq.IH(2) [OF _ right(2)] leave_has_act [of a r] by simp
  qed
next
  case (OnFinish n b r)
  then obtain as1 r1 where r1: "(as1, r1) \<in> set (pd c r)" "r' = OnFinish n b r1"
    "as = (if nullable r1 then (n, b) # as1 else as1)" by auto
  with OnFinish.prems(1) pd_has_act [OF _ r1(1), of a] show ?case by auto
next
  case (OnEnter n b r)
  then obtain as1 where "(as1, r') \<in> set (pd c r)" "as = (n, b) # as1" by auto
  with OnEnter show ?case by simp
qed (simp_all (no_asm_use))

lemma step_ends_on:
  assumes "\<forall>r\<in>set cs. ends_on a r"
  shows "\<forall>r\<in>set (step_state c cs). ends_on a r"
    and "has_act a (set (step_acts c cs)) \<longleftrightarrow> final_state (step_state c cs)"
proof -
  have *: "r \<in> set cs \<Longrightarrow> (as, r') \<in> set (pd c r) \<Longrightarrow>
      ends_on a r' \<and> (has_act a (set as) \<longleftrightarrow> nullable r')" for r as r'
    using assms by (intro ends_on_pd) simp_all
  then show "\<forall>r\<in>set (step_state c cs). ends_on a r"
    by (auto simp: set_step_state)
  have "has_act a (set (step_acts c cs)) \<longleftrightarrow>
      (\<exists>r\<in>set cs. \<exists>p\<in>set (pd c r). has_act a (set (fst p)))"
    unfolding set_step_acts has_act_def split_beta by blast
  also have "\<dots> \<longleftrightarrow> (\<exists>r\<in>set cs. \<exists>p\<in>set (pd c r). nullable (snd p))"
    by (intro bex_cong refl) (metis * prod.collapse)
  also have "\<dots> \<longleftrightarrow> final_state (step_state c cs)"
    by (auto simp: final_state_def list_ex_iff set_step_state split_beta)
  finally show "has_act a (set (step_acts c cs)) \<longleftrightarrow> final_state (step_state c cs)" .
qed

end
