(* ===== verification/Rp_String.thy ===== *)
theory Rp_String
  imports Prelude
begin

text \<open>
  The counted strings of util/rp_string.h and the two functions of util/rp_string.c. An
  \<open>rp_str_t\<close> is a length and a pointer; the pointer is an offset into the object that
  holds the characters, which the functions take as an argument. Reading outside that
  object is a fault.
\<close>

section \<open>Counted strings\<close>

record rp_str_t =
  str_len :: size_t
  str_ptr :: size_t

definition null_str :: rp_str_t where
  "null_str = \<lparr>str_len = 0, str_ptr = 0\<rparr>"

text \<open>The characters of a string, and when they all lie in the object.\<close>

definition str_bytes :: "bytes \<Rightarrow> rp_str_t \<Rightarrow> bytes" where
  "str_bytes mem s = take (unat (str_len s)) (drop (unat (str_ptr s)) mem)"

definition str_in :: "bytes \<Rightarrow> rp_str_t \<Rightarrow> bool" where
  "str_in mem s \<longleftrightarrow> unat (str_ptr s) + unat (str_len s) \<le> length mem \<and> length mem < 2 ^ 64"

definition deref :: "bytes \<Rightarrow> size_t \<Rightarrow> char res" where
  "deref mem p = (if unat p < length mem then Inr (mem ! unat p) else Inl OutOfBounds)"

section \<open>rp_strtoken\<close>

text \<open>The loop; \<open>first\<close> is the local flag. The result is the return value, \<open>*str\<close> and \<open>*token\<close>.\<close>

function strtoken_loop ::
    "bytes \<Rightarrow> rp_str_t \<Rightarrow> rp_str_t \<Rightarrow> bool \<Rightarrow> (int \<times> rp_str_t \<times> rp_str_t) res" where
  "strtoken_loop mem str tok first =
     (if str_len str \<noteq> 0 then
        res_bind (deref mem (str_ptr str)) (\<lambda>c.
          let next = str\<lparr>str_ptr := str_ptr str + 1, str_len := str_len str - 1\<rparr> in
          if \<not> first then
            if c \<noteq> CHR '' ''
            then strtoken_loop mem next \<lparr>str_len = 0, str_ptr = str_ptr str\<rparr> True
            else strtoken_loop mem next tok False
          else
            let tok' = tok\<lparr>str_len := str_len tok + 1\<rparr> in
            if c = CHR '' '' then Inr (1, str, tok')
            else strtoken_loop mem next tok' True)
      else if first then Inr (1, str, tok\<lparr>str_len := str_len tok + 1\<rparr>)
      else Inr (0, str, tok))"
  by pat_completeness auto
termination
  by (relation "measure (\<lambda>(mem, str, tok, first). unat (str_len str))")
    (auto simp: word_unat_eq_iff unat_minus_one)

declare strtoken_loop.simps [simp del]

definition rp_strtoken :: "bytes \<Rightarrow> rp_str_t \<Rightarrow> rp_str_t \<Rightarrow> (int \<times> rp_str_t \<times> rp_str_t) res" where
  "rp_strtoken mem str tok = strtoken_loop mem str tok False"

section \<open>rp_strstr\<close>

text \<open>
  The two nested \<open>do\<close> loops as one: both continue with the next character. \<open>p\<close> is an
  offset into the object of \<open>in\<close>; \<open>in_len\<close> is the unsigned counter of the code.
\<close>

function strstr_loop :: "bytes \<Rightarrow> nat \<Rightarrow> bytes \<Rightarrow> char \<Rightarrow> size_t \<Rightarrow> nat \<Rightarrow> size_t \<Rightarrow> int res" where
  "strstr_loop mem start pat c len p in_len =
     (if p < length mem then
        let sc = mem ! p; p1 = p + 1; in_len1 = in_len - 1 in
        if in_len1 < len then Inr (- 1)
        else if sc \<noteq> c then strstr_loop mem start pat c len p1 in_len1
        else res_bind (res_of_option OutOfBounds (mem_read mem p1 (unat len))) (\<lambda>d.
          if d \<noteq> pat then strstr_loop mem start pat c len p1 in_len1
          else Inr (int p1 - int start - 1))
      else Inl OutOfBounds)"
  by pat_completeness auto
termination
  by (relation "measure (\<lambda>(mem, start, pat, c, len, p, in_len). length mem - p)") auto

declare strstr_loop.simps [simp del]

text \<open>\<open>pmem\<close> is the object that \<open>str\<close> points into.\<close>

definition rp_strstr :: "bytes \<Rightarrow> rp_str_t \<Rightarrow> bytes \<Rightarrow> rp_str_t \<Rightarrow> int res" where
  "rp_strstr mem inp pmem str =
     (if str_len str = 0 then Inr 0
      else res_bind (deref pmem (str_ptr str)) (\<lambda>c.
        let len = str_len str - 1 in
        res_bind (res_of_option OutOfBounds (mem_read pmem (unat (str_ptr str) + 1) (unat len))) (\<lambda>pat.
          strstr_loop mem (unat (str_ptr inp)) pat c len (unat (str_ptr inp)) (str_len inp))))"

section \<open>Tokens\<close>

abbreviation is_space :: "char \<Rightarrow> bool" where "is_space c \<equiv> c = CHR '' ''"

lemma str_in_next:
  assumes "str_in mem s" "str_len s \<noteq> 0"
  shows "deref mem (str_ptr s) = Inr (hd (str_bytes mem s))"
    and "str_in mem (s\<lparr>str_ptr := str_ptr s + 1, str_len := str_len s - 1\<rparr>)"
    and "str_bytes mem s =
      hd (str_bytes mem s) # str_bytes mem (s\<lparr>str_ptr := str_ptr s + 1, str_len := str_len s - 1\<rparr>)"
    and "unat (str_ptr s + 1) = unat (str_ptr s) + 1" "unat (str_len s - 1) = unat (str_len s) - 1"
proof -
  have l: "0 < unat (str_len s)" using assms(2) by (simp add: word_unat_eq_iff)
  with assms(1) have p: "unat (str_ptr s) < length mem" by (simp add: str_in_def)
  show p1: "unat (str_ptr s + 1) = unat (str_ptr s) + 1"
    using p assms(1) by (subst unat_add_less) (auto simp: str_in_def)
  show l1: "unat (str_len s - 1) = unat (str_len s) - 1"
    using assms(2) by (simp add: unat_minus_one)
  have "drop (unat (str_ptr s)) mem = mem ! unat (str_ptr s) # drop (unat (str_ptr s) + 1) mem"
    using p by (simp add: Cons_nth_drop_Suc)
  then have eq: "str_bytes mem s = mem ! unat (str_ptr s) #
      str_bytes mem (s\<lparr>str_ptr := str_ptr s + 1, str_len := str_len s - 1\<rparr>)"
    using l by (simp add: str_bytes_def p1 l1 take_Cons')
  then show "str_bytes mem s =
      hd (str_bytes mem s) # str_bytes mem (s\<lparr>str_ptr := str_ptr s + 1, str_len := str_len s - 1\<rparr>)"
    by simp
  show "deref mem (str_ptr s) = Inr (hd (str_bytes mem s))"
    using p eq by (simp add: deref_def)
  show "str_in mem (s\<lparr>str_ptr := str_ptr s + 1, str_len := str_len s - 1\<rparr>)"
    using assms(1) l p1 l1 by (simp add: str_in_def)
qed


lemma length_str_bytes: "str_in mem s \<Longrightarrow> length (str_bytes mem s) = unat (str_len s)"
  by (auto simp: str_in_def str_bytes_def)

lemma str_bytes_Nil: "str_in mem s \<Longrightarrow> str_bytes mem s = [] \<longleftrightarrow> str_len s = 0"
  using length_str_bytes [of mem s] by (auto simp: word_unat_eq_iff)

text \<open>Inside a token: the rest of it is counted, and the string is left at the space.\<close>

lemma strtoken_loop_token:
  assumes "str_in mem str" "unat (str_len tok) + 1 + unat (str_len str) < 2 ^ 64"
  shows "\<exists>str' n. strtoken_loop mem str tok True = Inr (1, str', tok\<lparr>str_len := n\<rparr>) \<and> str_in mem str' \<and>
    unat n = unat (str_len tok) + 1 + length (takeWhile (\<lambda>c. \<not> is_space c) (str_bytes mem str)) \<and>
    str_bytes mem str' = dropWhile (\<lambda>c. \<not> is_space c) (str_bytes mem str)"
  using assms
proof (induction "unat (str_len str)" arbitrary: str tok)
  case 0
  then have "str_len str = 0" "str_bytes mem str = []"
    using str_bytes_Nil [of mem str] by (auto simp: word_unat_eq_iff)
  with 0 show ?case
    by (subst strtoken_loop.simps) (auto simp: unat_add_less intro!: exI [of _ str])
next
  case (Suc k)
  then have ne: "str_len str \<noteq> 0" by auto
  note nx = str_in_next [OF Suc.prems(1) ne]
  let ?next = "str\<lparr>str_ptr := str_ptr str + 1, str_len := str_len str - 1\<rparr>"
  let ?tok = "tok\<lparr>str_len := str_len tok + 1\<rparr>"
  obtain c where c: "deref mem (str_ptr str) = Inr c" "str_bytes mem str = c # str_bytes mem ?next"
    by (rule that [OF nx(1,3)])
  have t1: "unat (str_len tok + 1) = unat (str_len tok) + 1"
    using Suc.prems(2) by (subst unat_add_less) auto
  show ?case
  proof (cases "is_space c")
    case True
    then show ?thesis
      using ne c t1 Suc.prems(1) by (subst strtoken_loop.simps) (auto intro!: exI [of _ str])
  next
    case False
    have "\<exists>str' n. strtoken_loop mem ?next ?tok True = Inr (1, str', ?tok\<lparr>str_len := n\<rparr>) \<and> str_in mem str' \<and>
      unat n = unat (str_len ?tok) + 1 + length (takeWhile (\<lambda>c. \<not> is_space c) (str_bytes mem ?next)) \<and>
      str_bytes mem str' = dropWhile (\<lambda>c. \<not> is_space c) (str_bytes mem ?next)"
      using Suc.prems Suc.hyps(2) nx(2,5) t1 by (intro Suc.hyps(1)) auto
    moreover have "strtoken_loop mem str tok True = strtoken_loop mem ?next ?tok True"
      using ne c(1) False by (subst strtoken_loop.simps) (simp add: Let_def)
    ultimately show ?thesis using t1 c(2) False by auto
  qed
qed

definition next_token :: "bytes \<Rightarrow> bytes" where
  "next_token s = takeWhile (\<lambda>c. \<not> is_space c) (dropWhile is_space s)"

definition after_token :: "bytes \<Rightarrow> bytes" where
  "after_token s = dropWhile (\<lambda>c. \<not> is_space c) (dropWhile is_space s)"

lemma strtoken_loop_skip:
  assumes "str_in mem str"
  shows "\<exists>str' tok'. strtoken_loop mem str tok False =
      Inr (if next_token (str_bytes mem str) = [] then 0 else 1, str', tok') \<and> str_in mem str' \<and>
    str_bytes mem str' = after_token (str_bytes mem str) \<and>
    (if next_token (str_bytes mem str) = [] then tok' = tok
     else str_bytes mem tok' = next_token (str_bytes mem str) \<and> str_in mem tok')"
  using assms
proof (induction "unat (str_len str)" arbitrary: str)
  case 0
  then have "str_len str = 0" "str_bytes mem str = []"
    using str_bytes_Nil [of mem str] by (auto simp: word_unat_eq_iff)
  with 0 show ?case
    by (subst strtoken_loop.simps) (auto simp: next_token_def after_token_def intro!: exI [of _ str])
next
  case (Suc k)
  then have ne: "str_len str \<noteq> 0" by auto
  note nx = str_in_next [OF Suc.prems(1) ne]
  let ?next = "str\<lparr>str_ptr := str_ptr str + 1, str_len := str_len str - 1\<rparr>"
  let ?r = "str_bytes mem ?next"
  obtain c where c: "deref mem (str_ptr str) = Inr c" "str_bytes mem str = c # ?r"
    by (rule that [OF nx(1,3)])
  show ?case
  proof (cases "is_space c")
    case True
    then have e1: "strtoken_loop mem str tok False = strtoken_loop mem ?next tok False"
      using ne c(1) by (subst strtoken_loop.simps) (simp add: Let_def)
    have e2: "next_token (str_bytes mem str) = next_token ?r"
      "after_token (str_bytes mem str) = after_token ?r"
      using True c(2) by (simp_all add: next_token_def after_token_def)
    have "k = unat (str_len ?next)" using Suc.hyps(2) nx(5) by simp
    from Suc.hyps(1) [OF this nx(2)] show ?thesis unfolding e1 e2 .
  next
    case False
    let ?tok = "\<lparr>str_len = 0, str_ptr = str_ptr str\<rparr>"
    have eq: "strtoken_loop mem str tok False = strtoken_loop mem ?next ?tok True"
      using ne c(1) False by (subst strtoken_loop.simps) (simp add: Let_def)
    have len: "unat (str_ptr str) + unat (str_len str) \<le> length mem" "length mem < 2 ^ 64"
      using Suc.prems by (auto simp: str_in_def)
    have "\<exists>str' n. strtoken_loop mem ?next ?tok True = Inr (1, str', ?tok\<lparr>str_len := n\<rparr>) \<and> str_in mem str' \<and>
        unat n = unat (str_len ?tok) + 1 + length (takeWhile (\<lambda>c. \<not> is_space c) ?r) \<and>
        str_bytes mem str' = dropWhile (\<lambda>c. \<not> is_space c) ?r"
      using len nx(2,5) Suc.hyps(2) by (intro strtoken_loop_token) auto
    then obtain str' n where r: "strtoken_loop mem ?next ?tok True = Inr (1, str', ?tok\<lparr>str_len := n\<rparr>)"
      "str_in mem str'" "unat n = Suc (length (takeWhile (\<lambda>c. \<not> is_space c) ?r))"
      "str_bytes mem str' = dropWhile (\<lambda>c. \<not> is_space c) ?r" by auto
    have nt: "next_token (str_bytes mem str) = c # takeWhile (\<lambda>c. \<not> is_space c) ?r"
      "after_token (str_bytes mem str) = dropWhile (\<lambda>c. \<not> is_space c) ?r"
      using False c(2) by (simp_all add: next_token_def after_token_def)
    have le: "unat n \<le> unat (str_len str)"
    proof -
      have "length (takeWhile (\<lambda>c. \<not> is_space c) ?r) \<le> length ?r" by (rule length_takeWhile_le)
      then show ?thesis using r(3) length_str_bytes [OF Suc.prems] c(2) by simp
    qed
    have "str_bytes mem (?tok\<lparr>str_len := n\<rparr>) = take (unat n) (str_bytes mem str)"
      using le by (simp add: str_bytes_def min_def)
    also have "\<dots> = c # takeWhile (\<lambda>c. \<not> is_space c) ?r"
      unfolding r(3) c(2) by (simp add: takeWhile_eq_take [symmetric])
    finally have tk: "str_bytes mem (?tok\<lparr>str_len := n\<rparr>) = c # takeWhile (\<lambda>c. \<not> is_space c) ?r" .
    have "str_in mem (?tok\<lparr>str_len := n\<rparr>)" using len le by (simp add: str_in_def)
    with eq r nt tk show ?thesis by simp
  qed
qed

section \<open>Substrings\<close>

definition occurs :: "bytes \<Rightarrow> bytes \<Rightarrow> nat \<Rightarrow> bool" where
  "occurs pat s i \<longleftrightarrow> i + length pat \<le> length s \<and> take (length pat) (drop i s) = pat"

lemma occurs_Cons_pat:
  "occurs (c # pat) s i \<longleftrightarrow>
     i + Suc (length pat) \<le> length s \<and> s ! i = c \<and> take (length pat) (drop (Suc i) s) = pat"
proof -
  have "drop i s = s ! i # drop (Suc i) s" if "i < length s"
    using that by (simp add: Cons_nth_drop_Suc)
  then show ?thesis by (auto simp: occurs_def)
qed

text \<open>\<open>s\<close> is the haystack, at offset \<open>st\<close> of its object; \<open>k\<close> characters have been passed.\<close>

lemma strstr_loop_ok:
  assumes mem: "s = take (length s) (drop st mem)" "st + length s \<le> length mem"
    and pat: "0 < unat len" "length pat = unat len"
    and k: "k < length s" "unat in_len = length s - k"
    and before: "\<forall>j<k. \<not> occurs (c # pat) s j"
  shows "\<exists>r. strstr_loop mem st pat c len (st + k) in_len = Inr r \<and>
    (if \<exists>i. occurs (c # pat) s i
     then r = int (LEAST i. occurs (c # pat) s i) else r = - 1)"
  using k before
proof (induction "length s - k" arbitrary: k in_len)
  case 0
  then show ?case by simp
next
  case (Suc n)
  have il: "unat (in_len - 1) = length s - Suc k"
    using Suc.prems by (subst unat_minus_one) (auto simp: word_unat_eq_iff)
  have nth: "mem ! (st + k) = s ! k"
    using mem Suc.prems(1) by (metis add_leD1 nth_drop nth_take)
  have here: "strstr_loop mem st pat c len (st + k) in_len =
      (if length s - Suc k < unat len then Inr (- 1)
       else if s ! k \<noteq> c then strstr_loop mem st pat c len (Suc (st + k)) (in_len - 1)
       else res_bind (res_of_option OutOfBounds (mem_read mem (Suc (st + k)) (unat len))) (\<lambda>d.
          if d \<noteq> pat then strstr_loop mem st pat c len (Suc (st + k)) (in_len - 1)
          else Inr (int (Suc (st + k)) - int st - 1)))"
    using mem(2) Suc.prems(1) by (subst strstr_loop.simps) (simp add: Let_def nth il word_less_nat_alt)
  show ?case
  proof (cases "length s - Suc k < unat len")
    case True
    have "\<not> occurs (c # pat) s i" for i
    proof (cases "i < k")
      case False
      then show ?thesis using True pat(2) Suc.prems(1) by (auto simp: occurs_def)
    qed (use Suc.prems(3) in blast)
    with True here show ?thesis by simp
  next
    case False
    then have more: "Suc k < length s" using pat(1) by simp
    have rd: "mem_read mem (st + Suc k) (unat len) = Some (take (unat len) (drop (Suc k) s))"
    proof -
      have "drop (Suc k) s = take (length s - Suc k) (drop (st + Suc k) mem)"
        using arg_cong [OF mem(1), of "drop (Suc k)"] by (simp add: drop_take add.commute)
      then show ?thesis using False more mem(2) by (simp add: mem_read_def min_def)
    qed
    show ?thesis
    proof (cases "occurs (c # pat) s k")
      case True
      then have "(LEAST i. occurs (c # pat) s i) = k"
        using Suc.prems(3) True by (intro Least_equality) (auto intro!: leI)
      moreover have "strstr_loop mem st pat c len (st + k) in_len = Inr (int k)"
        using True False rd pat(2) here by (simp add: occurs_Cons_pat)
      ultimately show ?thesis using True by auto
    next
      case nocc: False
      then have "strstr_loop mem st pat c len (st + k) in_len =
          strstr_loop mem st pat c len (st + Suc k) (in_len - 1)"
        using False rd pat(2) here more by (auto simp: occurs_Cons_pat)
      moreover have "\<forall>j<Suc k. \<not> occurs (c # pat) s j"
        using Suc.prems(3) nocc by (auto simp: less_Suc_eq)
      note Suc.hyps(1) [OF _ more il this]
      ultimately show ?thesis using Suc.hyps(2) by simp
    qed
  qed
qed

section \<open>Properties\<close>

text \<open>
  \<open>rp_strtoken\<close> splits at spaces: it returns 1 and sets the token to the longest run
  of non-space characters after the leading spaces, and leaves the string at the first
  character behind the token; when only spaces are left it returns 0 with an empty string
  and the token unchanged. No character outside the string is read.
\<close>

theorem strtoken_splits:
  assumes "str_in mem str"
  shows "\<exists>str' tok'. rp_strtoken mem str tok =
      Inr (if next_token (str_bytes mem str) = [] then 0 else 1, str', tok') \<and>
    str_bytes mem str' = after_token (str_bytes mem str) \<and>
    (if next_token (str_bytes mem str) = [] then tok' = tok
     else str_bytes mem tok' = next_token (str_bytes mem str))"
  using strtoken_loop_skip [OF assms, of tok] unfolding rp_strtoken_def by meson

theorem strtoken_splits_witness:
  "\<exists>str' tok'. rp_strtoken ''x  ab cd'' \<lparr>str_len = 7, str_ptr = 1\<rparr> null_str = Inr (1, str', tok') \<and>
     str_bytes ''x  ab cd'' str' = '' cd'' \<and> str_bytes ''x  ab cd'' tok' = ''ab''"
  using strtoken_splits [of "''x  ab cd''" "\<lparr>str_len = 7, str_ptr = 1\<rparr>" null_str]
  by (simp add: str_in_def str_bytes_def next_token_def after_token_def)

text \<open>
  For a pattern of at least two characters and a non-empty string, \<open>rp_strstr\<close> returns
  the offset of the first occurrence, or -1 when there is none, and reads nothing outside
  the two strings.
\<close>

theorem strstr_first:
  assumes "str_in mem inp" "str_in pmem str" "2 \<le> unat (str_len str)" "str_len inp \<noteq> 0"
  shows "rp_strstr mem inp pmem str = Inr
    (if \<exists>i. occurs (str_bytes pmem str) (str_bytes mem inp) i
     then int (LEAST i. occurs (str_bytes pmem str) (str_bytes mem inp) i) else - 1)"
proof -
  let ?len = "str_len str - 1"
  let ?next = "str\<lparr>str_ptr := str_ptr str + 1, str_len := ?len\<rparr>"
  have ne: "str_len str \<noteq> 0" using assms(3) by auto
  note nx = str_in_next [OF assms(2) ne]
  obtain c where c: "deref pmem (str_ptr str) = Inr c" "str_bytes pmem str = c # str_bytes pmem ?next"
    by (rule that [OF nx(1,3)])
  let ?pat = "str_bytes pmem ?next" and ?s = "str_bytes mem inp"
  have rd: "mem_read pmem (unat (str_ptr str) + 1) (unat ?len) = Some ?pat"
    using nx(2,4) by (auto simp: mem_read_def str_bytes_def str_in_def)
  have s: "length ?s = unat (str_len inp)" by (rule length_str_bytes [OF assms(1)])
  have "\<exists>r. strstr_loop mem (unat (str_ptr inp)) ?pat c ?len (unat (str_ptr inp) + 0) (str_len inp) = Inr r \<and>
    (if \<exists>i. occurs (c # ?pat) ?s i then r = int (LEAST i. occurs (c # ?pat) ?s i) else r = - 1)"
  proof (rule strstr_loop_ok)
    show "?s = take (length ?s) (drop (unat (str_ptr inp)) mem)"
      unfolding s by (simp add: str_bytes_def)
    show "unat (str_ptr inp) + length ?s \<le> length mem"
      using assms(1) s by (simp add: str_in_def)
    show "0 < unat ?len" using nx(5) assms(3) by simp
    show "length ?pat = unat ?len" using length_str_bytes [OF nx(2)] by simp
    show "0 < length ?s" using assms(4) s by (simp add: word_unat_eq_iff)
  qed (use s in simp_all)
  then show ?thesis
    using ne c rd by (auto simp: rp_strstr_def Let_def split: if_splits)
qed

theorem strstr_first_witness:
  "rp_strstr ''abcbcd'' \<lparr>str_len = 6, str_ptr = 0\<rparr> ''bcd'' \<lparr>str_len = 3, str_ptr = 0\<rparr> = Inr 3"
proof -
  have occ: "occurs ''bcd'' ''abcbcd'' 3" by (simp add: occurs_def)
  have "\<not> occurs ''bcd'' ''abcbcd'' y" if "y < 3" for y
    using that by (auto simp: occurs_def less_Suc_eq numeral_3_eq_3)
  then have "(LEAST i. occurs ''bcd'' ''abcbcd'' i) = 3"
    using occ by (intro Least_equality) (auto intro!: leI)
  with occ strstr_first [of "''abcbcd''" "\<lparr>str_len = 6, str_ptr = 0\<rparr>" "''bcd''" "\<lparr>str_len = 3, str_ptr = 0\<rparr>"]
  show ?thesis by (auto simp: str_in_def str_bytes_def)
qed

lemma strstr_loop_runs_off:
  assumes "c \<notin> set (drop p mem)"
  shows "strstr_loop mem st pat c 0 p n = Inl OutOfBounds"
  using assms
proof (induction "length mem - p" arbitrary: p n)
  case 0
  then show ?case by (subst strstr_loop.simps) simp
next
  case (Suc k)
  then have "mem ! p \<noteq> c" "c \<notin> set (drop (Suc p) mem)"
    by (metis Cons_nth_drop_Suc diff_is_0_eq leI list.set_intros(1) nat.simps(3))
      (metis Suc.prems in_set_dropD drop_Suc tl_drop drop_drop plus_1_eq_Suc)
  with Suc show ?case by (subst strstr_loop.simps) (auto simp: Let_def)
qed

text \<open>
  \<open>rp_strstr\<close> runs off the end of the string when the pattern is a single character
  that does not occur: the counter wraps below 0 and the search goes on to the end of the
  object, where it reads outside.
\<close>

theorem strstr_single_overrun:
  assumes "str_len str = 1" "unat (str_ptr str) < length pmem"
    and "pmem ! unat (str_ptr str) \<notin> set (drop (unat (str_ptr inp)) mem)"
  shows "rp_strstr mem inp pmem str = Inl OutOfBounds"
  using assms strstr_loop_runs_off
  by (auto simp: rp_strstr_def deref_def mem_read_def Let_def)

theorem strstr_single_overrun_witness:
  "rp_strstr ''abc'' \<lparr>str_len = 3, str_ptr = 0\<rparr> ''x'' \<lparr>str_len = 1, str_ptr = 0\<rparr> = Inl OutOfBounds"
  by (rule strstr_single_overrun) simp_all

end
