(* ===== verification/Rp_Ircsm.thy ===== *)
theory Rp_Ircsm
  imports Ragel Rp_String
begin

text \<open>
  The IRC message parser of ircsm/rp_ircsm.rl: the grammar of the \<open>irc\<close> machine with its
  embedded actions, what the actions do to \<open>struct rp_ircsm_msg\<close>, and
  \<open>rp_ircsm_parse\<close>, which runs the machine over one chunk of input and keeps its state
  for the next.
\<close>

section \<open>The message\<close>

text \<open>
  The three buffers are byte arrays with a length; \<open>servername\<close> and the hostmask parts
  are a pointer into the prefix buffer, kept as an offset, and a length. A null buffer is
  the empty array: every store into it faults.
\<close>

record rp_ircsm_msg =
  prefix_ptr :: bytes
  prefix_len :: size_t
  servername :: rp_str_t
  hm_nick :: rp_str_t
  hm_user :: rp_str_t
  hm_host :: rp_str_t
  code_ptr :: bytes
  code_len :: size_t
  params_ptr :: bytes
  params_len :: size_t
  is_hostmask :: bool
  is_servername :: bool

text \<open>
  \<open>rp_ircsm_msg_init\<close>: the arguments are the objects that the three \<open>rp_palloc\<close> calls
  return (64, 32 and 512 bytes, contents unspecified).
\<close>

definition rp_ircsm_msg_init :: "bytes \<Rightarrow> bytes \<Rightarrow> bytes \<Rightarrow> rp_ircsm_msg" where
  "rp_ircsm_msg_init prefix_obj code_obj params_obj =
     \<lparr>prefix_ptr = prefix_obj, prefix_len = 0, servername = null_str,
      hm_nick = null_str, hm_user = null_str, hm_host = null_str,
      code_ptr = code_obj, code_len = 0, params_ptr = params_obj, params_len = 0,
      is_hostmask = False, is_servername = False\<rparr>"

section \<open>Actions\<close>

datatype act =
    A_msg_start
  | A_prefix_start | A_prefix
  | A_prefix_servername_start | A_prefix_servername | A_prefix_servername_finish
  | A_prefix_hostmask_start
  | A_hostmask_nickname_start | A_hostmask_nickname
  | A_hostmask_user_start | A_hostmask_user
  | A_hostmask_host_start | A_hostmask_host
  | A_prefix_hostmask_finish
  | A_message_code_start | A_message_code | A_message_code_finish
  | A_params_start | A_params
  | A_params_1_start | A_params_1 | A_params_1_finish
  | A_params_2_start | A_params_2 | A_params_2_finish
  | A_fbreak

definition bump_len :: "rp_str_t \<Rightarrow> rp_str_t" where
  "bump_len s = s\<lparr>str_len := str_len s + 1\<rparr>"

definition store_at :: "bytes \<Rightarrow> size_t \<Rightarrow> char \<Rightarrow> bytes res" where
  "store_at buf i c = (if unat i < length buf then Inr (buf[unat i := c]) else Inl OutOfBounds)"

fun run_act :: "char \<Rightarrow> act \<Rightarrow> rp_ircsm_msg \<Rightarrow> rp_ircsm_msg res" where
  "run_act fc A_msg_start m = Inr (m\<lparr>is_hostmask := False, is_servername := False\<rparr>)"
| "run_act fc A_prefix_start m = Inr (m\<lparr>prefix_len := 0\<rparr>)"
| "run_act fc A_prefix m =
     res_bind (store_at (prefix_ptr m) (prefix_len m) fc)
       (\<lambda>b. Inr (m\<lparr>prefix_ptr := b, prefix_len := prefix_len m + 1\<rparr>))"
| "run_act fc A_prefix_servername_start m = Inr (m\<lparr>servername := \<lparr>str_len = 0, str_ptr = 0\<rparr>\<rparr>)"
| "run_act fc A_prefix_servername m = Inr (m\<lparr>servername := bump_len (servername m)\<rparr>)"
| "run_act fc A_prefix_servername_finish m = Inr (m\<lparr>is_servername := True\<rparr>)"
| "run_act fc A_prefix_hostmask_start m =
     Inr (m\<lparr>hm_user := (hm_user m)\<lparr>str_len := 0\<rparr>, hm_host := (hm_host m)\<lparr>str_len := 0\<rparr>\<rparr>)"
| "run_act fc A_hostmask_nickname_start m = Inr (m\<lparr>hm_nick := \<lparr>str_len = 0, str_ptr = prefix_len m\<rparr>\<rparr>)"
| "run_act fc A_hostmask_nickname m = Inr (m\<lparr>hm_nick := bump_len (hm_nick m)\<rparr>)"
| "run_act fc A_hostmask_user_start m = Inr (m\<lparr>hm_user := \<lparr>str_len = 0, str_ptr = prefix_len m\<rparr>\<rparr>)"
| "run_act fc A_hostmask_user m = Inr (m\<lparr>hm_user := bump_len (hm_user m)\<rparr>)"
| "run_act fc A_hostmask_host_start m = Inr (m\<lparr>hm_host := \<lparr>str_len = 0, str_ptr = prefix_len m\<rparr>\<rparr>)"
| "run_act fc A_hostmask_host m = Inr (m\<lparr>hm_host := bump_len (hm_host m)\<rparr>)"
| "run_act fc A_prefix_hostmask_finish m = Inr (m\<lparr>is_hostmask := True\<rparr>)"
| "run_act fc A_message_code_start m = Inr (m\<lparr>code_len := 0\<rparr>)"
| "run_act fc A_message_code m =
     res_bind (store_at (code_ptr m) (code_len m) fc)
       (\<lambda>b. Inr (m\<lparr>code_ptr := b, code_len := code_len m + 1\<rparr>))"
| "run_act fc A_params_start m = Inr (m\<lparr>params_len := 0\<rparr>)"
| "run_act fc A_params m =
     (if \<not> (params_len m = 0 \<and> fc = CHR '' '') then
        res_bind (store_at (params_ptr m) (params_len m) fc)
          (\<lambda>b. Inr (m\<lparr>params_ptr := b, params_len := params_len m + 1\<rparr>))
      else Inr m)"
| "run_act fc _ m = Inr m"

fun run_acts :: "char \<Rightarrow> act acts \<Rightarrow> rp_ircsm_msg \<Rightarrow> rp_ircsm_msg res" where
  "run_acts fc [] m = Inr m"
| "run_acts fc ((_, a) # as) m = res_bind (run_act fc a m) (run_acts fc as)"

section \<open>Grammar\<close>

abbreviation SPACE :: "act rx" where "SPACE \<equiv> Cls (Chr CHR '' '')"

definition special :: cls where
  "special = CUnion (Chr CHR ''['') (CUnion (Chr CHR 0x5C) (CUnion (Chr CHR '']'')
     (CUnion (Chr CHR ''^'') (CUnion (Chr CHR ''_'') (CUnion (Chr CHR 0x60)
     (CUnion (Chr CHR ''{'') (CUnion (Chr CHR ''|'') (CUnion (Chr CHR ''}'') (Chr CHR ''+'')))))))))"

definition nospcrlfcl :: cls where
  "nospcrlfcl = CDiff Extend (CUnion (Chr CHR 0x00) (CUnion (Chr CHR '' '')
     (CUnion (Chr CHR 0x0D) (CUnion (Chr CHR 0x0A) (Chr CHR '':'')))))"

definition crlf :: "act rx" where
  "crlf = Seq (Cls (Chr CHR 0x0D)) (Cls (Chr CHR 0x0A))"

definition shortname :: "act rx" where
  "shortname = Alt (Seq (Cls Alnum) (Seq (Star (Cls (CUnion Alnum (Chr CHR ''-'')))) (Star (Cls Alnum))))
                   (Cls (Chr CHR ''*''))"

definition dot_or_slash :: cls where
  "dot_or_slash = CUnion (Chr CHR ''.'') (Chr CHR ''/'')"

definition multihostname :: "act rx" where
  "multihostname = Seq shortname (Star (Seq (Cls dot_or_slash) shortname))"

definition singlehostname :: "act rx" where
  "singlehostname = Seq shortname (Cls dot_or_slash)"

definition hostname :: "act rx" where
  "hostname = Alt multihostname singlehostname"

definition nickname :: "act rx" where
  "nickname = Seq (Cls (CUnion Alpha special))
                  (RepLe 15 (Cls (CUnion Alnum (CUnion special (Chr CHR ''-'')))))"

definition user :: "act rx" where
  "user = Plus (Cls (CDiff Extend (CUnion (Chr CHR 0x00) (CUnion (Chr CHR 0x0A)
            (CUnion (Chr CHR 0x0D) (CUnion (Chr CHR '' '') (Chr CHR ''@'')))))))"

definition digit_1_3 :: "act rx" where
  "digit_1_3 = Seq (Cls Digit) (RepLe 2 (Cls Digit))"

definition ip4addr :: "act rx" where
  "ip4addr = Seq digit_1_3 (Seq (Cls (Chr CHR ''.'')) (Seq digit_1_3 (Seq (Cls (Chr CHR ''.''))
            (Seq digit_1_3 (Seq (Cls (Chr CHR ''.'')) digit_1_3)))))"

definition letter_f :: "act rx" where
  "letter_f = Cls (CUnion (Chr CHR ''F'') (Chr CHR ''f''))"

definition ip6addr :: "act rx" where
  "ip6addr = Alt
     (Seq (Plus (Cls XDigit)) (RepEq 7 (Seq (Cls (Chr CHR '':'')) (Plus (Cls XDigit)))))
     (Seq (str_rx ''0:0:0:0:0:'')
       (Seq (Alt (Cls (Chr CHR ''0'')) (RepEq 4 letter_f)) (Seq (Cls (Chr CHR '':'')) ip4addr)))"

definition hostaddr :: "act rx" where
  "hostaddr = Alt ip4addr ip6addr"

definition host :: "act rx" where
  "host = Alt hostname hostaddr"

definition hostmask :: "act rx" where
  "hostmask =
     Seq (OnEnter 7 A_hostmask_nickname_start (OnAll 8 A_hostmask_nickname nickname))
       (Opt (Seq
         (Opt (Seq (Cls (Chr CHR ''!''))
                   (OnEnter 9 A_hostmask_user_start (OnAll 10 A_hostmask_user user))))
         (Seq (Cls (Chr CHR ''@''))
              (OnEnter 11 A_hostmask_host_start (OnAll 12 A_hostmask_host host)))))"

definition prefix :: "act rx" where
  "prefix = Alt
     (OnLeave 5 A_prefix_servername_finish
       (OnEnter 3 A_prefix_servername_start (OnAll 4 A_prefix_servername hostname)))
     (OnLeave 13 A_prefix_hostmask_finish (OnEnter 6 A_prefix_hostmask_start hostmask))"

definition code :: "act rx" where
  "code = Alt (Plus (Cls Alpha)) (RepEq 3 (Cls Digit))"

definition middle :: "act rx" where
  "middle = Seq (Cls nospcrlfcl) (Star (Cls (CUnion (Chr CHR '':'') nospcrlfcl)))"

definition trailing :: "act rx" where
  "trailing = Star (Cls (CUnion (Chr CHR '':'') (CUnion (Chr CHR '' '') nospcrlfcl)))"

definition params_1 :: "act rx" where
  "params_1 =
     Seq (RepLe 14 (Seq SPACE (OnEnter 19 A_params_1_start (OnAll 20 A_params_1 middle))))
       (Opt (Seq SPACE (Seq (Cls (Chr CHR '':''))
              (OnEnter 21 A_params_1_start (OnAll 22 A_params_1 trailing)))))"

definition params_2 :: "act rx" where
  "params_2 =
     Seq (RepEq 14 (Seq SPACE (OnEnter 24 A_params_2_start (OnAll 25 A_params_2 middle))))
       (Opt (Seq SPACE (Seq (Opt (Cls (Chr CHR '':'')))
              (OnEnter 26 A_params_2_start (OnAll 27 A_params_2 trailing)))))"

definition params :: "act rx" where
  "params = OnEnter 18 A_params_start (OnAll 29 A_params
     (Alt (OnLeave 23 A_params_1_finish params_1) (OnLeave 28 A_params_2_finish params_2)))"

definition prefix_part :: "act rx" where
  "prefix_part = Seq (Cls (Chr CHR '':''))
     (Seq (OnEnter 2 A_prefix_start (OnAll 14 A_prefix prefix)) SPACE)"

definition code_part :: "act rx" where
  "code_part = OnLeave 17 A_message_code_finish
     (OnEnter 15 A_message_code_start (OnAll 16 A_message_code code))"

definition crlf_part :: "act rx" where
  "crlf_part = OnFinish 30 A_fbreak crlf"

definition message :: "act rx" where
  "message = OnEnter 1 A_msg_start
     (Seq (Opt prefix_part) (Seq code_part (Seq (Opt params) crlf_part)))"

section \<open>Execution\<close>

type_synonym irc_cs = "act state"

text \<open>
  The machine's states: \<open>irc_start\<close>, and the error state, in which no expression is
  live. A state is at least \<open>first_final\<close> exactly when it is final.
\<close>

definition irc_start :: irc_cs where
  "irc_start = [message]"

definition rp_ircsm_init :: irc_cs where
  "rp_ircsm_init = irc_start"

text \<open>
  The generated execution loop over the bytes from \<open>p\<close> to \<open>pe\<close>; the number is how far \<open>p\<close>
  has moved. A character without a transition enters the error state and leaves \<open>p\<close> on
  it; \<open>fbreak\<close> stops behind the character just read; in the error state nothing is read.
\<close>

fun irc_exec :: "irc_cs \<Rightarrow> rp_ircsm_msg \<Rightarrow> bytes \<Rightarrow> nat \<Rightarrow> (irc_cs \<times> rp_ircsm_msg \<times> nat) res" where
  "irc_exec cs m [] k = Inr (cs, m, k)"
| "irc_exec cs m (c # s) k =
     (let cs' = step_state c cs; as = step_acts c cs in
      if cs' = [] then Inr ([], m, k)
      else res_bind (run_acts c as m)
        (\<lambda>m'. if A_fbreak \<in> snd ` set as then Inr (cs', m', Suc k)
              else irc_exec cs' m' s (Suc k)))"

text \<open>
  \<open>rp_ircsm_parse\<close>: the return value, the message, \<open>*state\<close> and \<open>*len\<close> afterwards.
\<close>

definition rp_ircsm_parse ::
    "rp_ircsm_msg \<Rightarrow> irc_cs \<Rightarrow> bytes \<Rightarrow> (bool \<times> rp_ircsm_msg \<times> irc_cs \<times> nat) res" where
  "rp_ircsm_parse m state src =
     res_bind (irc_exec state m src 0)
       (\<lambda>(cs, m', len). if final_state cs then Inr (True, m', irc_start, len)
                        else Inr (False, m', cs, len))"


section \<open>States between calls\<close>

lemmas grammar_defs = message_def crlf_part_def code_part_def prefix_part_def params_def
  params_1_def params_2_def trailing_def middle_def code_def prefix_def hostmask_def host_def
  hostaddr_def ip6addr_def letter_f_def ip4addr_def digit_1_3_def user_def nickname_def
  hostname_def singlehostname_def multihostname_def shortname_def crlf_def

text \<open>What holds of every value of \<open>*state\<close> between two calls of the parser.\<close>

definition irc_ok :: "irc_cs \<Rightarrow> bool" where
  "irc_ok cs \<longleftrightarrow> (\<forall>r\<in>set cs. ends_on A_fbreak r) \<and> \<not> final_state cs"

lemma irc_ok_start: "irc_ok irc_start"
  by (simp add: irc_ok_def irc_start_def final_state_def grammar_defs)

lemma irc_ok_error: "irc_ok []"
  by (simp add: irc_ok_def final_state_def)

lemma irc_exec_error [simp]: "irc_exec [] m s k = Inr ([], m, k)"
  by (cases s) simp_all

text \<open>On these states \<open>fbreak\<close> runs exactly when the final state is entered.\<close>

lemma irc_exec_Cons:
  assumes "irc_ok cs"
  shows "irc_exec cs m (c # s) k =
    (if step_state c cs = [] then Inr ([], m, k)
     else res_bind (run_acts c (step_acts c cs) m)
       (\<lambda>m'. if final_state (step_state c cs) then Inr (step_state c cs, m', Suc k)
             else irc_exec (step_state c cs) m' s (Suc k)))"
  using assms step_ends_on(2) [of cs A_fbreak c]
  by (simp add: irc_ok_def has_act_def Let_def)

lemma irc_ok_step: "irc_ok cs \<Longrightarrow> \<not> final_state (step_state c cs) \<Longrightarrow> irc_ok (step_state c cs)"
  using step_ends_on(1) [of cs A_fbreak c] by (simp add: irc_ok_def)

declare irc_exec.simps(2) [simp del]

lemma irc_exec_shift:
  "irc_exec cs m s (k + j) = res_bind (irc_exec cs m s k) (\<lambda>(cs', m', n). Inr (cs', m', n + j))"
proof (induction s arbitrary: cs m k)
  case (Cons c s)
  show ?case
    using Cons.IH [of _ _ "Suc k"]
    by (simp add: irc_exec.simps(2) Let_def res_bind_def split: sum.split)
qed simp

lemma irc_exec_append:
  assumes "irc_ok cs"
  shows "irc_exec cs m (s @ t) k =
    res_bind (irc_exec cs m s k)
      (\<lambda>(cs', m', k'). if final_state cs' then Inr (cs', m', k') else irc_exec cs' m' t k')"
  using assms
proof (induction s arbitrary: cs m k)
  case Nil
  then show ?case by (simp add: irc_ok_def)
next
  case (Cons c s)
  show ?case
  proof (cases "step_state c cs = [] \<or> final_state (step_state c cs)")
    case True
    then show ?thesis
      using Cons.prems
      by (auto simp: irc_exec_Cons final_state_def res_bind_def split: sum.split)
  next
    case False
    with Cons.IH [OF irc_ok_step [OF Cons.prems]] Cons.prems show ?thesis
      by (simp add: irc_exec_Cons res_bind_def split: sum.split)
  qed
qed

lemma irc_exec_bounds:
  "irc_exec cs m s k = Inr (cs', m', n) \<Longrightarrow> k \<le> n \<and> n \<le> k + length s"
proof (induction s arbitrary: cs m k)
  case (Cons c s)
  then show ?case
    by (fastforce simp: irc_exec.simps(2) Let_def split: if_splits)
qed simp

lemma irc_exec_ends_on:
  "\<forall>r\<in>set cs. ends_on A_fbreak r \<Longrightarrow> irc_exec cs m s k = Inr (cs', m', n) \<Longrightarrow>
   \<forall>r\<in>set cs'. ends_on A_fbreak r"
proof (induction s arbitrary: cs m k)
  case (Cons c s)
  then show ?case
    using step_ends_on(1) [OF Cons.prems(1), of c]
    by (fastforce simp: irc_exec.simps(2) Let_def split: if_splits)
qed simp

text \<open>
  A call that neither completes a message nor meets an error consumes its whole input; one
  that stops early is in the error state.
\<close>

lemma irc_exec_stops:
  assumes "irc_ok cs" "irc_exec cs m s k = Inr (cs', m', n)" "\<not> final_state cs'" "cs' \<noteq> []"
  shows "n = k + length s"
  using assms
proof (induction s arbitrary: cs m k)
  case (Cons c s)
  have "step_state c cs \<noteq> []" "\<not> final_state (step_state c cs)"
    using Cons.prems by (auto simp: irc_exec_Cons split: if_splits)
  with Cons.prems obtain x where "irc_exec (step_state c cs) x s (Suc k) = Inr (cs', m', n)"
    by (auto simp: irc_exec_Cons)
  from \<open>\<not> final_state (step_state c cs)\<close> this Cons.prems(3,4) have "n = Suc k + length s"
    by (rule Cons.IH [OF irc_ok_step [OF Cons.prems(1)]])
  then show ?case by simp
qed simp

lemma irc_exec_error_stops:
  "irc_ok cs \<Longrightarrow> irc_exec cs m s k = Inr ([], m', n) \<Longrightarrow> s \<noteq> [] \<Longrightarrow> n < k + length s"
proof (induction s arbitrary: cs m k)
  case (Cons c s)
  show ?case
  proof (cases "step_state c cs = []")
    case True
    with Cons.prems show ?thesis by (simp add: irc_exec_Cons)
  next
    case False
    have nf: "\<not> final_state (step_state c cs)"
      using Cons.prems False by (auto simp: irc_exec_Cons split: if_splits)
    with Cons.prems False obtain m1 where m1: "irc_exec (step_state c cs) m1 s (Suc k) = Inr ([], m', n)"
      by (auto simp: irc_exec_Cons)
    then have "s \<noteq> []" using False by auto
    from Cons.IH [OF irc_ok_step [OF Cons.prems(1) nf] m1 this] show ?thesis by simp
  qed
qed simp

lemma parse_ok: "irc_ok st \<Longrightarrow> rp_ircsm_parse m st s = Inr (b, m', st', n) \<Longrightarrow> irc_ok st'"
proof -
  assume ok: "irc_ok st" and p: "rp_ircsm_parse m st s = Inr (b, m', st', n)"
  from p obtain cs where cs: "irc_exec st m s 0 = Inr (cs, m', n)"
    "st' = (if final_state cs then irc_start else cs)"
    by (cases "irc_exec st m s 0") (auto simp: rp_ircsm_parse_def split: if_splits)
  from irc_exec_ends_on [OF _ cs(1)] ok have "\<forall>r\<in>set cs. ends_on A_fbreak r"
    by (simp add: irc_ok_def)
  with cs(2) irc_ok_start show "irc_ok st'" by (simp add: irc_ok_def)
qed

lemma parse_append:
  assumes "irc_ok st"
  shows "rp_ircsm_parse m st (s @ t) =
    res_bind (rp_ircsm_parse m st s)
      (\<lambda>(b, m', st', n).
        if b then Inr (b, m', st', n)
        else res_bind (rp_ircsm_parse m' st' t) (\<lambda>(b', m'', st'', n'). Inr (b', m'', st'', n + n')))"
proof (cases "irc_exec st m s 0")
  case (Inr x)
  obtain cs' m' k' where x: "x = (cs', m', k')" by (cases x)
  have "irc_exec cs' m' t k' = res_bind (irc_exec cs' m' t 0) (\<lambda>(cs'', m'', n). Inr (cs'', m'', k' + n))"
    using irc_exec_shift [of cs' m' t 0 k'] by (simp add: add.commute)
  with assms Inr x show ?thesis
    by (auto simp: rp_ircsm_parse_def irc_exec_append res_bind_def split: sum.splits)
qed (use assms in \<open>simp add: rp_ircsm_parse_def irc_exec_append\<close>)


section \<open>The message object\<close>

text \<open>
  What holds of the message between two calls: the lengths stay within the buffers, which
  are smaller than the address space.
\<close>

definition msg_sizes :: "rp_ircsm_msg \<Rightarrow> bool" where
  "msg_sizes m \<longleftrightarrow> length (prefix_ptr m) < 2 ^ 64 \<and> length (code_ptr m) < 2 ^ 64 \<and>
     length (params_ptr m) < 2 ^ 64"

definition msg_ok :: "rp_ircsm_msg \<Rightarrow> bool" where
  "msg_ok m \<longleftrightarrow> msg_sizes m \<and> unat (prefix_len m) \<le> length (prefix_ptr m) \<and>
     unat (code_len m) \<le> length (code_ptr m) \<and> unat (params_len m) \<le> length (params_ptr m)"

definition same_buffers :: "rp_ircsm_msg \<Rightarrow> rp_ircsm_msg \<Rightarrow> bool" where
  "same_buffers m m' \<longleftrightarrow> length (prefix_ptr m') = length (prefix_ptr m) \<and>
     length (code_ptr m') = length (code_ptr m) \<and> length (params_ptr m') = length (params_ptr m)"

lemma store_at_length: "store_at buf n c = Inr buf' \<Longrightarrow> length buf' = length buf"
  by (auto simp: store_at_def split: if_splits)

lemma store_at_bump:
  assumes "store_at buf n c = Inr buf'" "length buf < 18446744073709551616"
  shows "unat (n + 1) \<le> length buf'"
proof -
  have "unat n < length buf" "buf' = buf[unat n := c]"
    using assms(1) by (auto simp: store_at_def split: if_splits)
  with assms(2) show ?thesis by (subst unat_add_less) auto
qed

lemma run_act_ok: "msg_ok m \<Longrightarrow> run_act c a m = Inr m' \<Longrightarrow> msg_ok m' \<and> same_buffers m m'"
  by (cases a) (auto simp: msg_ok_def msg_sizes_def same_buffers_def split: if_splits
    dest: store_at_length store_at_bump)

lemma run_acts_ok: "msg_ok m \<Longrightarrow> run_acts c as m = Inr m' \<Longrightarrow> msg_ok m' \<and> same_buffers m m'"
proof (induction as arbitrary: m)
  case (Cons a as)
  then obtain m1 where m1: "run_act c (snd a) m = Inr m1" "run_acts c as m1 = Inr m'"
    by (cases a) auto
  from run_act_ok [OF Cons.prems(1) m1(1)] Cons.IH [OF _ m1(2)] show ?case
    by (simp add: same_buffers_def)
qed (simp add: same_buffers_def)

lemma irc_exec_msg_ok:
  "msg_ok m \<Longrightarrow> irc_exec cs m s k = Inr (cs', m', n) \<Longrightarrow> msg_ok m' \<and> same_buffers m m'"
proof (induction s arbitrary: cs m k)
  case (Cons c s)
  show ?case
  proof (cases "step_state c cs = []")
    case False
    with Cons.prems(2) obtain m1 where m1: "run_acts c (step_acts c cs) m = Inr m1"
      "m' = m1 \<or> irc_exec (step_state c cs) m1 s (Suc k) = Inr (cs', m', n)"
      by (auto simp: irc_exec.simps(2) Let_def split: if_splits)
    with run_acts_ok [OF Cons.prems(1) m1(1)] Cons.IH [of m1] show ?thesis
      by (auto simp: same_buffers_def)
  qed (use Cons.prems in \<open>simp add: irc_exec.simps(2) same_buffers_def\<close>)
qed (simp add: same_buffers_def)

lemma parse_msg_ok:
  "msg_ok m \<Longrightarrow> rp_ircsm_parse m st s = Inr (b, m', st', n) \<Longrightarrow> msg_ok m' \<and> same_buffers m m'"
  by (cases "irc_exec st m s 0") (auto simp: rp_ircsm_parse_def dest: irc_exec_msg_ok split: if_splits)

lemma parse_bounds: "rp_ircsm_parse m st s = Inr (b, m', st', n) \<Longrightarrow> n \<le> length s"
  by (cases "irc_exec st m s 0") (auto simp: rp_ircsm_parse_def dest: irc_exec_bounds split: if_splits)

end
