(* ===== verification/Irc_Phases.thy ===== *)
theory Irc_Phases
  imports Rp_Ircsm
begin

text \<open>
  What the parser stores. The live expressions of a machine state always agree on the
  part of the message they are in (its phase), and the actions that write the prefix,
  code and params buffers depend on the phase and the character only. The machine
  therefore refines a small deterministic one over these three buffers, from which the
  contents after a complete message, the lengths that fit and the overflows are read off.
\<close>

section \<open>The three buffers\<close>

type_synonym buf = "bytes \<times> size_t"
type_synonym core = "buf \<times> buf \<times> buf"

definition core :: "rp_ircsm_msg \<Rightarrow> core" where
  "core m = ((prefix_ptr m, prefix_len m), (code_ptr m, code_len m), (params_ptr m, params_len m))"

definition buf_bytes :: "buf \<Rightarrow> bytes" where
  "buf_bytes b = take (unat (snd b)) (fst b)"

definition put_byte :: "char \<Rightarrow> buf \<Rightarrow> buf res" where
  "put_byte c b = res_bind (store_at (fst b) (snd b) c) (\<lambda>d. Inr (d, snd b + 1))"

fun core_act :: "char \<Rightarrow> act \<Rightarrow> core \<Rightarrow> core res" where
  "core_act c A_prefix_start (p, q, r) = Inr ((fst p, 0), q, r)"
| "core_act c A_prefix (p, q, r) = res_bind (put_byte c p) (\<lambda>p'. Inr (p', q, r))"
| "core_act c A_message_code_start (p, q, r) = Inr (p, (fst q, 0), r)"
| "core_act c A_message_code (p, q, r) = res_bind (put_byte c q) (\<lambda>q'. Inr (p, q', r))"
| "core_act c A_params_start (p, q, r) = Inr (p, q, (fst r, 0))"
| "core_act c A_params (p, q, r) =
     (if \<not> (snd r = 0 \<and> c = CHR '' '') then res_bind (put_byte c r) (\<lambda>r'. Inr (p, q, r'))
      else Inr (p, q, r))"
| "core_act c _ x = Inr x"

fun core_acts :: "char \<Rightarrow> act acts \<Rightarrow> core \<Rightarrow> core res" where
  "core_acts c [] x = Inr x"
| "core_acts c ((_, a) # as) x = res_bind (core_act c a x) (core_acts c as)"

fun is_core :: "act \<Rightarrow> bool" where
  "is_core A_prefix_start = True"
| "is_core A_prefix = True"
| "is_core A_message_code_start = True"
| "is_core A_message_code = True"
| "is_core A_params_start = True"
| "is_core A_params = True"
| "is_core _ = False"

text \<open>The stores among the actions of a transition.\<close>

definition core_part :: "act acts \<Rightarrow> (nat \<times> act) set" where
  "core_part as = {p \<in> set as. is_core (snd p)}"

lemma core_part_simps [simp]:
  "core_part [] = {}"
  "core_part (p # as) = (if is_core (snd p) then insert p (core_part as) else core_part as)"
  "core_part (as @ bs) = core_part as \<union> core_part bs"
  by (auto simp: core_part_def)

lemma core_run_act: "map_sum (\<lambda>e. e) core (run_act c a m) = core_act c a (core m)"
  by (cases a) (auto simp: core_def put_byte_def res_bind_def split: sum.splits)

lemma core_act_other: "\<not> is_core a \<Longrightarrow> core_act c a x = Inr x"
  by (cases a; cases x) auto

lemma core_run_acts:
  "map_sum (\<lambda>e. e) core (run_acts c as m) = core_acts c (filter (\<lambda>p. is_core (snd p)) as) (core m)"
proof (induction as arbitrary: m)
  case (Cons p as)
  obtain n a where p: "p = (n, a)" by (cases p)
  have "map_sum (\<lambda>e. e) core (res_bind (run_act c a m) (run_acts c as)) =
      res_bind (core_act c a (core m)) (core_acts c (filter (\<lambda>p. is_core (snd p)) as))"
    using Cons.IH core_run_act [of c a m, symmetric]
    by (cases "run_act c a m") simp_all
  then show ?case using core_act_other [of a c "core m"] p by auto
qed simp

section \<open>Phases\<close>

datatype phase = P_start | P_colon | P_prefix | P_space | P_code | P_params | P_cr | P_done

fun nxt :: "phase \<Rightarrow> char \<Rightarrow> phase" where
  "nxt P_start c = (if c = CHR '':'' then P_colon else P_code)"
| "nxt P_colon c = P_prefix"
| "nxt P_prefix c = (if c = CHR '' '' then P_space else P_prefix)"
| "nxt P_space c = P_code"
| "nxt P_code c = (if c = CHR '' '' then P_params else if c = CHR 0x0D then P_cr else P_code)"
| "nxt P_params c = (if c = CHR 0x0D then P_cr else P_params)"
| "nxt P_cr c = P_done"
| "nxt P_done c = P_done"

fun phase_acts :: "phase \<Rightarrow> char \<Rightarrow> act acts" where
  "phase_acts P_start c =
     (if c = CHR '':'' then [] else [(15, A_message_code_start), (16, A_message_code)])"
| "phase_acts P_colon c = [(2, A_prefix_start), (14, A_prefix)]"
| "phase_acts P_prefix c = (if c = CHR '' '' then [] else [(14, A_prefix)])"
| "phase_acts P_space c = [(15, A_message_code_start), (16, A_message_code)]"
| "phase_acts P_code c =
     (if c = CHR '' '' then [(18, A_params_start), (29, A_params)]
      else if c = CHR 0x0D then [] else [(16, A_message_code)])"
| "phase_acts P_params c = (if c = CHR 0x0D then [] else [(29, A_params)])"
| "phase_acts P_cr c = []"
| "phase_acts P_done c = []"

text \<open>Running the phases on the three buffers.\<close>

fun spec_exec :: "phase \<Rightarrow> core \<Rightarrow> bytes \<Rightarrow> core res" where
  "spec_exec ph x [] = Inr x"
| "spec_exec ph x (c # s) =
     res_bind (core_acts c (phase_acts ph c) x) (\<lambda>x'. spec_exec (nxt ph c) x' s)"

text \<open>The shape of the live expressions in each phase.\<close>

definition msg_tail :: "act rx" where
  "msg_tail = Seq (Opt params) crlf_part"

definition silent :: "act rx \<Rightarrow> bool" where
  "silent r \<longleftrightarrow> (\<forall>p\<in>acts_of r. \<not> is_core (snd p))"

fun in_phase :: "phase \<Rightarrow> act rx \<Rightarrow> bool" where
  "in_phase P_start r \<longleftrightarrow> r = message"
| "in_phase P_colon r \<longleftrightarrow> r = Seq (Seq (Seq Eps
     (Seq (OnEnter 2 A_prefix_start (OnAll 14 A_prefix prefix)) SPACE)) (RepLe 0 prefix_part))
     (Seq code_part msg_tail)"
| "in_phase P_prefix r \<longleftrightarrow> (\<exists>x. r = Seq (Seq (Seq (OnAll 14 A_prefix x) SPACE) (RepLe 0 prefix_part))
     (Seq code_part msg_tail) \<and> silent x \<and> \<not> reads x CHR '' '')"
| "in_phase P_space r \<longleftrightarrow> r = Seq (Seq Eps (RepLe 0 prefix_part)) (Seq code_part msg_tail)"
| "in_phase P_code r \<longleftrightarrow> (\<exists>y. r = Seq (OnLeave 17 A_message_code_finish (OnAll 16 A_message_code y)) msg_tail \<and>
     silent y \<and> \<not> reads y CHR '' '' \<and> \<not> reads y CHR 0x0D)"
| "in_phase P_params r \<longleftrightarrow> (\<exists>z. r = Seq (Seq (OnAll 29 A_params z) (RepLe 0 params)) crlf_part \<and>
     silent z \<and> \<not> reads z CHR 0x0D)"
| "in_phase P_cr r \<longleftrightarrow> r = OnFinish 30 A_fbreak (Seq Eps (Cls (Chr CHR 0x0A)))"
| "in_phase P_done r \<longleftrightarrow> r = OnFinish 30 A_fbreak Eps"

lemma silent_pd:
  "silent r \<Longrightarrow> (as, r') \<in> set (pd c r) \<Longrightarrow> silent r' \<and> core_part as = {}"
  using pd_acts [of as r' c r] by (fastforce simp: silent_def core_part_def)

lemma silent_leave: "silent r \<Longrightarrow> core_part (leave r) = {}"
  using leave_acts [of r] by (fastforce simp: silent_def core_part_def)

lemma silent_prefix: "silent prefix" "\<not> reads prefix CHR '' ''"
  by (simp_all add: silent_def grammar_defs special_def dot_or_slash_def
      char_between_def)

lemma silent_code: "silent code" "\<not> reads code CHR '' ''" "\<not> reads code CHR 0x0D" "\<not> reads code CHR '':''"
  by (simp_all add: silent_def grammar_defs char_between_def)


lemma reads_crlf_free_params: "\<not> reads params CHR 0x0D"
  by (simp add: grammar_defs nospcrlfcl_def)

text \<open>The body of \<open>params\<close> below its two embeddings.\<close>

definition params_body :: "act rx" where
  "params_body = Alt (OnLeave 23 A_params_1_finish params_1) (OnLeave 28 A_params_2_finish params_2)"

lemma params_eq: "params = OnEnter 18 A_params_start (OnAll 29 A_params params_body)"
  by (simp add: params_def params_body_def)

lemma silent_params: "silent params_body" "\<not> reads params_body CHR 0x0D"
  by (simp_all add: silent_def params_body_def grammar_defs nospcrlfcl_def)

lemma params_first: "(as, r') \<in> set (pd c params_body) \<Longrightarrow> c = CHR '' ''"
  by (auto simp: params_body_def params_1_def params_2_def numeral_eq_Suc split: if_splits)

lemma code_first: "(as, r') \<in> set (pd c code) \<Longrightarrow> c \<noteq> CHR '':'' \<and> c \<noteq> CHR '' '' \<and> c \<noteq> CHR 0x0D"
  using silent_code pd_reads by metis

lemma crlf_part_pd:
  "(as, r') \<in> set (pd c crlf_part) \<longleftrightarrow>
     c = CHR 0x0D \<and> as = [] \<and> r' = OnFinish 30 A_fbreak (Seq Eps (Cls (Chr CHR 0x0A)))"
  by (auto simp: crlf_part_def crlf_def split: if_splits)

lemma msg_tail_pd:
  assumes "(as, r') \<in> set (pd c msg_tail)"
  obtains (params) as1 z where "c = CHR '' ''" "as = (18, A_params_start) # (29, A_params) # as1"
      "(as1, z) \<in> set (pd c params_body)"
      "r' = Seq (Seq (OnAll 29 A_params z) (RepLe 0 params)) crlf_part"
    | (crlf) "c = CHR 0x0D" "as = []" "in_phase P_cr r'"
proof -
  from assms consider
    (a) as1 z where "as = (18, A_params_start) # (29, A_params) # as1" "(as1, z) \<in> set (pd c params_body)"
      "r' = Seq (Seq (OnAll 29 A_params z) (RepLe 0 params)) crlf_part"
    | (b) "(as, r') \<in> set (pd c crlf_part)"
    unfolding msg_tail_def pd_Seq_iff pd_Opt_iff params_eq [unfolded pd_iffs] pd_OnEnter_iff pd_OnAll_iff
    by auto
  then show thesis
  proof cases
    case a
    then show ?thesis using params_first [OF a(2)] params by blast
  next
    case b
    then show ?thesis using crlf by (simp add: crlf_part_pd)
  qed
qed

lemma not_nullable_tail: "\<not> nullable msg_tail"
  by (simp add: msg_tail_def crlf_part_def crlf_def)

lemma not_nullable_code: "\<not> nullable code_part"
  by (simp add: code_part_def code_def)

text \<open>One character: every live expression moves to the same phase with the same stores.\<close>

lemma code_moves:
  assumes "(as, r') \<in> set (pd c (Seq code_part msg_tail))"
  shows "in_phase P_code r'" and "core_part as = {(15, A_message_code_start), (16, A_message_code)}"
    and "c \<noteq> CHR '':''"
proof -
  from assms not_nullable_code obtain as1 y where y: "(as1, y) \<in> set (pd c code)"
    and as: "as = (15, A_message_code_start) # (16, A_message_code) # as1"
    and r': "r' = Seq (OnLeave 17 A_message_code_finish (OnAll 16 A_message_code y)) msg_tail"
    unfolding code_part_def pd_iffs by auto
  have y': "silent y" "core_part as1 = {}" "\<not> reads y CHR '' ''" "\<not> reads y CHR 0x0D"
    using silent_pd [OF silent_code(1) y] pd_reads [OF y] silent_code by auto
  show "in_phase P_code r'" using y' r' by simp
  show "core_part as = {(15, A_message_code_start), (16, A_message_code)}"
    using y' as by simp
  show "c \<noteq> CHR '':''" using code_first [OF y] by simp
qed

lemma start_moves:
  assumes "(as, r') \<in> set (pd c message)"
  shows "in_phase (nxt P_start c) r' \<and> core_part as = set (phase_acts P_start c)"
proof -
  from assms obtain as1 where as: "as = (1, A_msg_start) # as1"
    and m: "(as1, r') \<in> set (pd c (Seq (Opt prefix_part) (Seq code_part msg_tail)))"
    unfolding message_def msg_tail_def pd_OnEnter_iff by blast
  from m consider
    (prefix) r1 where "(as1, r1) \<in> set (pd c prefix_part)"
      "r' = Seq (Seq r1 (RepLe 0 prefix_part)) (Seq code_part msg_tail)"
    | (code) "(as1, r') \<in> set (pd c (Seq code_part msg_tail))"
    unfolding pd_Seq_iff [of _ _ _ "Opt prefix_part"] pd_Opt_iff by (auto simp del: pd.simps)
  then show ?thesis
  proof cases
    case prefix
    then have "c = CHR '':''" "as1 = []" "in_phase P_colon r'"
      by (auto simp: prefix_part_def split: if_splits)
    then show ?thesis by (simp add: as)
  next
    case code
    then show ?thesis using code_moves [OF code] as by simp
  qed
qed

lemma prefix_not_nullable: "\<not> nullable prefix"
  by (simp add: grammar_defs)

lemma prefix_moves:
  assumes "in_phase P_prefix r" "(as, r') \<in> set (pd c r)"
  shows "in_phase (nxt P_prefix c) r' \<and> core_part as = set (phase_acts P_prefix c)"
proof -
  from assms(1) obtain x where r: "r = Seq (Seq (Seq (OnAll 14 A_prefix x) SPACE) (RepLe 0 prefix_part))
     (Seq code_part msg_tail)" and x: "silent x" "\<not> reads x CHR '' ''" by auto
  from assms(2) consider
    (inside) as1 x1 where "(as1, x1) \<in> set (pd c x)" "as = (14, A_prefix) # as1"
      "r' = Seq (Seq (Seq (OnAll 14 A_prefix x1) SPACE) (RepLe 0 prefix_part)) (Seq code_part msg_tail)"
    | (space) "c = CHR '' ''" "as = leave x" "in_phase P_space r'"
    unfolding r pd_iffs by auto
  then show ?thesis
  proof cases
    case inside
    have "c \<noteq> CHR '' ''" "\<not> reads x1 CHR '' ''" using pd_reads [OF inside(1)] x(2) by auto
    then show ?thesis using inside silent_pd [OF x(1) inside(1)] by auto
  next
    case space
    then show ?thesis using silent_leave [OF x(1)] by simp
  qed
qed

lemma code_inner_moves:
  assumes "in_phase P_code r" "(as, r') \<in> set (pd c r)"
  shows "in_phase (nxt P_code c) r' \<and> core_part as = set (phase_acts P_code c)"
proof -
  from assms(1) obtain y where r: "r = Seq (OnLeave 17 A_message_code_finish (OnAll 16 A_message_code y)) msg_tail"
    and y: "silent y" "\<not> reads y CHR '' ''" "\<not> reads y CHR 0x0D" by auto
  from assms(2) consider
    (inside) as1 y1 where "(as1, y1) \<in> set (pd c y)" "as = (16, A_message_code) # as1"
      "r' = Seq (OnLeave 17 A_message_code_finish (OnAll 16 A_message_code y1)) msg_tail"
    | (tail) as1 where "as = ((17, A_message_code_finish) # leave y) @ as1"
      "(as1, r') \<in> set (pd c msg_tail)"
    unfolding r pd_Seq_iff [of _ _ _ _ msg_tail] pd_OnLeave_iff pd_OnAll_iff by auto
  then show ?thesis
  proof cases
    case inside
    have "c \<noteq> CHR '' ''" "c \<noteq> CHR 0x0D" "\<not> reads y1 CHR '' ''" "\<not> reads y1 CHR 0x0D"
      using pd_reads [OF inside(1)] y by auto
    then show ?thesis using inside silent_pd [OF y(1) inside(1)] by auto
  next
    case tail
    have l: "core_part ((17, A_message_code_finish) # leave y) = {}"
      using silent_leave [OF y(1)] by simp
    from tail(2) show ?thesis
    proof (cases rule: msg_tail_pd)
      case (params as2 z)
      have "silent z" "core_part as2 = {}" using silent_pd [OF silent_params(1) params(3)] by auto
      moreover have "\<not> reads z CHR 0x0D" using pd_reads [OF params(3)] silent_params(2) by auto
      ultimately show ?thesis using params l tail(1) by simp
    qed (use l tail(1) in simp)
  qed
qed

lemma params_moves:
  assumes "in_phase P_params r" "(as, r') \<in> set (pd c r)"
  shows "in_phase (nxt P_params c) r' \<and> core_part as = set (phase_acts P_params c)"
proof -
  from assms(1) obtain z where r: "r = Seq (Seq (OnAll 29 A_params z) (RepLe 0 params)) crlf_part"
    and z: "silent z" "\<not> reads z CHR 0x0D" by auto
  from assms(2) consider
    (inside) as1 z1 where "(as1, z1) \<in> set (pd c z)" "as = (29, A_params) # as1"
      "r' = Seq (Seq (OnAll 29 A_params z1) (RepLe 0 params)) crlf_part"
    | (crlf) as1 where "as = leave z @ as1" "(as1, r') \<in> set (pd c crlf_part)"
    unfolding r pd_Seq_iff pd_OnAll_iff pd_RepLe0_iff by auto
  then show ?thesis
  proof cases
    case inside
    have "c \<noteq> CHR 0x0D" "\<not> reads z1 CHR 0x0D" using pd_reads [OF inside(1)] z by auto
    then show ?thesis using inside silent_pd [OF z(1) inside(1)] by auto
  next
    case crlf
    then show ?thesis using silent_leave [OF z(1)] by (auto simp: crlf_part_pd)
  qed
qed

lemma phase_moves:
  assumes "in_phase ph r" "(as, r') \<in> set (pd c r)"
  shows "in_phase (nxt ph c) r' \<and> core_part as = set (phase_acts ph c)"
proof (cases ph)
  case P_colon
  with assms(1) have r: "r = Seq (Seq (Seq Eps
     (Seq (OnEnter 2 A_prefix_start (OnAll 14 A_prefix prefix)) SPACE)) (RepLe 0 prefix_part))
     (Seq code_part msg_tail)" by simp
  from assms(2) obtain as1 x where x: "(as1, x) \<in> set (pd c prefix)"
    "as = (2, A_prefix_start) # (14, A_prefix) # as1"
    "r' = Seq (Seq (Seq (OnAll 14 A_prefix x) SPACE) (RepLe 0 prefix_part)) (Seq code_part msg_tail)"
    unfolding r pd_iffs using prefix_not_nullable by auto
  have "silent x" "core_part as1 = {}" "\<not> reads x CHR '' ''"
    using silent_pd [OF silent_prefix(1) x(1)] pd_reads [OF x(1)] silent_prefix(2) by auto
  with x P_colon show ?thesis by simp
next
  case P_space
  with assms have "(as, r') \<in> set (pd c (Seq code_part msg_tail))" by (simp add: pd_iffs)
  then show ?thesis using code_moves [of as r' c] P_space by simp
next
  case P_cr
  with assms show ?thesis by (auto split: if_splits)
next
  case P_done
  with assms show ?thesis by simp
qed (use assms start_moves prefix_moves code_inner_moves params_moves in simp_all)


section \<open>The machine refines the phases\<close>

definition phase_state :: "phase \<Rightarrow> irc_cs \<Rightarrow> bool" where
  "phase_state ph cs \<longleftrightarrow> (\<forall>r\<in>set cs. in_phase ph r)"

lemma phase_state_start: "phase_state P_start irc_start"
  by (simp add: phase_state_def irc_start_def)

lemma not_nullable_message: "\<not> nullable message" "\<not> nullable crlf_part"
  by (simp_all add: grammar_defs)

lemma nullable_phase: "in_phase ph r \<Longrightarrow> nullable r \<longleftrightarrow> ph = P_done"
  by (cases ph) (auto simp: not_nullable_tail not_nullable_code not_nullable_message)

lemma final_phase: "phase_state ph cs \<Longrightarrow> final_state cs \<longleftrightarrow> cs \<noteq> [] \<and> ph = P_done"
  using nullable_phase by (fastforce simp: final_state_def list_ex_iff phase_state_def neq_Nil_conv)

lemma sorted_phase_acts: "sorted (map fst (phase_acts ph c)) \<and> distinct (map fst (phase_acts ph c))"
  by (cases ph) auto

lemma distinct_step_acts: "distinct (step_acts c cs)"
  by (simp add: step_acts_def)

lemma phase_step:
  assumes ph: "phase_state ph cs" and ne: "step_state c cs \<noteq> []"
  shows "phase_state (nxt ph c) (step_state c cs)"
    and "filter (\<lambda>p. is_core (snd p)) (step_acts c cs) = phase_acts ph c"
proof -
  have moves: "in_phase (nxt ph c) r' \<and> core_part as = set (phase_acts ph c)"
    if "r \<in> set cs" "(as, r') \<in> set (pd c r)" for r as r'
    using phase_moves [OF _ that(2)] ph that(1) by (simp add: phase_state_def)
  then show "phase_state (nxt ph c) (step_state c cs)"
    by (auto simp: phase_state_def set_step_state)
  let ?l = "filter (\<lambda>p. is_core (snd p)) (step_acts c cs)"
  have "set ?l = (\<Union>r\<in>set cs. \<Union>p\<in>set (pd c r). core_part (fst p))"
    by (auto simp: set_step_acts core_part_def split_beta)
  also have "\<dots> = set (phase_acts ph c)"
  proof -
    obtain r0 p0 where "r0 \<in> set cs" "p0 \<in> set (pd c r0)"
      using ne by (metis (no_types, lifting) UN_E image_iff last_in_set set_step_state)
    moreover have "\<forall>r\<in>set cs. \<forall>p\<in>set (pd c r). core_part (fst p) = set (phase_acts ph c)"
      using moves by (metis prod.collapse)
    ultimately show ?thesis by blast
  qed
  finally have set_l: "set ?l = set (phase_acts ph c)" .
  have inj: "inj_on fst (set (phase_acts ph c))"
    using sorted_phase_acts by (simp add: distinct_map)
  show "?l = phase_acts ph c"
  proof (rule map_sorted_distinct_set_unique [where f = fst])
    show "inj_on fst (set ?l \<union> set (phase_acts ph c))" using inj set_l by simp
    show "sorted (map fst ?l)" by (intro sorted_filter) (simp add: step_acts_def)
    show "distinct (map fst ?l)" using distinct_step_acts [of c cs] inj set_l by (simp add: distinct_map)
  qed (use set_l sorted_phase_acts in simp_all)
qed

text \<open>
  On an input that completes a message the parser stores what the phases store, or
  faults where they do, and stops right behind the message.
\<close>

lemma exec_refines:
  assumes "phase_state ph cs" "irc_ok cs" "w \<in> state_lang cs"
  shows "case spec_exec ph (core m) w of
      Inl e \<Rightarrow> irc_exec cs m (w @ rest) k = Inl e
    | Inr x \<Rightarrow> \<exists>cs' m'. irc_exec cs m (w @ rest) k = Inr (cs', m', k + length w) \<and>
        final_state cs' \<and> core m' = x"
  using assms
proof (induction w arbitrary: ph cs m k)
  case Nil
  then show ?case by (simp add: irc_ok_def final_state_iff)
next
  case (Cons c w)
  let ?cs = "step_state c cs" and ?as = "step_acts c cs"
  have w: "w \<in> state_lang ?cs" using Cons.prems(3) by (simp add: state_lang_step)
  then have ne: "?cs \<noteq> []" by (rule state_lang_nonempty)
  note ps = phase_step [OF Cons.prems(1) ne]
  have acts: "map_sum (\<lambda>e. e) core (run_acts c ?as m) = core_acts c (phase_acts ph c) (core m)"
    by (simp add: core_run_acts ps(2))
  show ?case
  proof (cases "run_acts c ?as m")
    case (Inl e)
    then show ?thesis using acts ne Cons.prems(2) by (simp add: irc_exec_Cons flip: acts)
  next
    case (Inr m1)
    have spec: "spec_exec ph (core m) (c # w) = spec_exec (nxt ph c) (core m1) w"
      using acts Inr by (simp flip: acts)
    show ?thesis
    proof (cases "final_state ?cs")
      case True
      then have at_end: "nxt ph c = P_done" using final_phase [OF ps(1)] by simp
      have "w = []"
      proof (rule ccontr)
        assume "w \<noteq> []"
        then obtain d v where d: "w = d # v" by (cases w) auto
        with w have "step_state d ?cs \<noteq> []"
          using state_lang_nonempty state_lang_step by blast
        moreover have "step_state d ?cs = []"
          using ps(1) at_end by (auto simp: phase_state_def step_state_def moves_def)
        ultimately show False by simp
      qed
      then have "spec_exec ph (core m) (c # w) = Inr (core m1)" using spec by simp
      moreover have "irc_exec cs m ((c # w) @ rest) k = Inr (?cs, m1, k + length (c # w))"
        using True Inr ne Cons.prems(2) \<open>w = []\<close> by (simp add: irc_exec_Cons)
      ultimately show ?thesis using True by (simp only: sum.case) blast
    next
      case False
      from Cons.IH [OF ps(1) irc_ok_step [OF Cons.prems(2) False] w, of m1 "Suc k"]
      show ?thesis unfolding spec using False Inr ne Cons.prems(2)
        by (cases "spec_exec (nxt ph c) (core m1) w") (simp_all add: irc_exec_Cons)
    qed
  qed
qed

lemma parse_refines:
  assumes "w \<in> lang message"
  shows "case spec_exec P_start (core m) w of
      Inl e \<Rightarrow> rp_ircsm_parse m irc_start (w @ rest) = Inl e
    | Inr x \<Rightarrow> \<exists>m'. rp_ircsm_parse m irc_start (w @ rest) = Inr (True, m', irc_start, length w) \<and>
        core m' = x"
proof -
  have "w \<in> state_lang irc_start" using assms by (simp add: state_lang_def irc_start_def)
  from exec_refines [OF phase_state_start irc_ok_start this, of m rest 0] show ?thesis
    by (auto simp: rp_ircsm_parse_def split: sum.splits)
qed

end
