(* ===== verification/Irc_Message.thy ===== *)
theory Irc_Message
  imports Irc_Phases
begin

text \<open>
  Whole messages: an IRC line as a prefix, a command and parameters, its text, and what
  the parser makes of that text. Every word of the grammar is the text of such a line,
  so the theorems cover every message the machine accepts.
\<close>

section \<open>Lines\<close>

record irc_line =
  l_prefix :: "bytes option"
  l_code :: bytes
  l_params :: bytes

definition cr_lf :: bytes where
  "cr_lf = [CHR 0x0D, CHR 0x0A]"

definition render_prefix :: "bytes option \<Rightarrow> bytes" where
  "render_prefix p = (case p of None \<Rightarrow> [] | Some s \<Rightarrow> CHR '':'' # s @ '' '')"

definition render :: "irc_line \<Rightarrow> bytes" where
  "render l = render_prefix (l_prefix l) @ l_code l @ l_params l @ cr_lf"

definition wf_line :: "irc_line \<Rightarrow> bool" where
  "wf_line l \<longleftrightarrow>
     (case l_prefix l of None \<Rightarrow> True | Some p \<Rightarrow> p \<in> lang prefix) \<and>
     l_code l \<in> lang code \<and> (l_params l = [] \<or> l_params l \<in> lang params)"

text \<open>What the parser keeps of the parameters: the leading spaces go.\<close>

definition strip_spaces :: "bytes \<Rightarrow> bytes" where
  "strip_spaces = dropWhile (\<lambda>c. c = CHR '' '')"

definition fits :: "rp_ircsm_msg \<Rightarrow> irc_line \<Rightarrow> bool" where
  "fits m l \<longleftrightarrow>
     (case l_prefix l of None \<Rightarrow> True | Some p \<Rightarrow> length p \<le> length (prefix_ptr m)) \<and>
     length (l_code l) \<le> length (code_ptr m) \<and>
     length (strip_spaces (l_params l)) \<le> length (params_ptr m)"

definition msg_prefix :: "rp_ircsm_msg \<Rightarrow> bytes" where
  "msg_prefix m = take (unat (prefix_len m)) (prefix_ptr m)"

definition msg_code :: "rp_ircsm_msg \<Rightarrow> bytes" where
  "msg_code m = take (unat (code_len m)) (code_ptr m)"

definition msg_params :: "rp_ircsm_msg \<Rightarrow> bytes" where
  "msg_params m = take (unat (params_len m)) (params_ptr m)"

lemma core_msg:
  assumes "core m = (p, q, r)"
  shows "msg_prefix m = buf_bytes p" "msg_code m = buf_bytes q" "msg_params m = buf_bytes r"
  using assms by (auto simp: core_def msg_prefix_def msg_code_def msg_params_def buf_bytes_def)

section \<open>The texts of lines are the words of the grammar\<close>

lemma lang_message:
  "w \<in> lang message \<longleftrightarrow>
     (\<exists>u v x. w = u @ v @ x @ cr_lf \<and> (u = [] \<or> (\<exists>p \<in> lang prefix. u = CHR '':'' # p @ '' '')) \<and>
        v \<in> lang code \<and> (x = [] \<or> x \<in> lang params))"
proof -
  have opt: "s \<in> lang (Opt r) \<longleftrightarrow> s = [] \<or> s \<in> lang r" for s and r :: "act rx"
    by (auto simp: atMost_Suc conc_def)
  have pp: "u \<in> lang prefix_part \<longleftrightarrow> (\<exists>p \<in> lang prefix. u = CHR '':'' # p @ '' '')" for u
    by (auto simp: prefix_part_def conc_def)
  have cr: "y \<in> lang crlf_part \<longleftrightarrow> y = cr_lf" for y
    by (auto simp: crlf_part_def crlf_def conc_def cr_lf_def)
  have cp: "lang code_part = lang code" by (simp add: code_part_def)
  show ?thesis
    by (simp only: message_def lang.simps(4,9) conc_def mem_Collect_eq opt pp cr cp) blast
qed

lemma prefix_cases:
  "u = [] \<or> (\<exists>p \<in> lang prefix. u = CHR '':'' # p @ '' '') \<longleftrightarrow>
     (\<exists>q. u = render_prefix q \<and> (case q of None \<Rightarrow> True | Some p \<Rightarrow> p \<in> lang prefix))"
  by (auto simp: render_prefix_def split: option.splits intro: exI [of _ None] exI [of _ "Some _"])

lemma render_in_lang: "wf_line l \<Longrightarrow> render l \<in> lang message"
  unfolding lang_message prefix_cases wf_line_def render_def
  by (intro exI [of _ "render_prefix (l_prefix l)"] exI [of _ "l_code l"] exI [of _ "l_params l"]) blast

lemma lang_is_render: "w \<in> lang message \<Longrightarrow> \<exists>l. wf_line l \<and> w = render l"
  unfolding lang_message
proof (elim exE conjE)
  fix u v x
  assume w: "w = u @ v @ x @ cr_lf" and u: "u = [] \<or> (\<exists>p \<in> lang prefix. u = CHR '':'' # p @ '' '')"
    and v: "v \<in> lang code" and x: "x = [] \<or> x \<in> lang params"
  from u obtain q where q: "u = render_prefix q" "case q of None \<Rightarrow> True | Some p \<Rightarrow> p \<in> lang prefix"
    unfolding prefix_cases by blast
  with w v x show "\<exists>l. wf_line l \<and> w = render l"
    by (intro exI [of _ "\<lparr>l_prefix = q, l_code = v, l_params = x\<rparr>"]) (simp add: wf_line_def render_def)
qed

lemma prefix_chars: "p \<in> lang prefix \<Longrightarrow> CHR '' '' \<notin> set p"
  using lang_reads [of p prefix "CHR '' ''"] silent_prefix(2) by blast

lemma prefix_nonempty: "p \<in> lang prefix \<Longrightarrow> p \<noteq> []"
  using nullable_iff [of prefix] prefix_not_nullable by auto

lemma code_chars: "v \<in> lang code \<Longrightarrow> CHR '' '' \<notin> set v \<and> CHR 0x0D \<notin> set v \<and> CHR '':'' \<notin> set v"
  using lang_reads [of v code] silent_code by blast

lemma code_nonempty: "v \<in> lang code \<Longrightarrow> v \<noteq> []"
  using nullable_iff [of code] not_nullable_code by (auto simp: code_part_def)

lemma params_chars: "x \<in> lang params \<Longrightarrow> CHR 0x0D \<notin> set x"
  using lang_reads [of x params] reads_crlf_free_params by blast

lemma params_space: "c # x \<in> lang params \<Longrightarrow> c = CHR '' ''"
  using params_first unfolding params_eq lang.simps pd_lang by blast

section \<open>Storing a segment\<close>

fun put_bytes :: "bytes \<Rightarrow> buf \<Rightarrow> buf res" where
  "put_bytes [] b = Inr b"
| "put_bytes (c # s) b = res_bind (put_byte c b) (put_bytes s)"

lemma put_byte_ok:
  assumes "length d < 2 ^ 64" "unat n < length d"
  shows "put_byte c (d, n) = Inr (d[unat n := c], n + 1)" and "unat (n + 1) = unat n + 1"
proof -
  show "put_byte c (d, n) = Inr (d[unat n := c], n + 1)"
    using assms by (simp add: put_byte_def store_at_def)
  show "unat (n + 1) = unat n + 1"
    using assms by (subst unat_add_less) auto
qed

lemma put_bytes_exact:
  assumes "length d < 2 ^ 64" "unat n \<le> length d"
  shows "if unat n + length s \<le> length d
    then \<exists>d' n'. put_bytes s (d, n) = Inr (d', n') \<and> take (unat n') d' = take (unat n) d @ s \<and>
       length d' = length d
    else put_bytes s (d, n) = Inl OutOfBounds"
  using assms
proof (induction s arbitrary: d n)
  case (Cons c s)
  show ?case
  proof (cases "unat n < length d")
    case True
    note b = put_byte_ok(1) [OF Cons.prems(1) True, of c] put_byte_ok(2) [OF Cons.prems(1) True]
    have "take (unat n + 1) (d[unat n := c]) = take (unat n) d @ [c]"
      using True by (simp add: take_Suc_conv_app_nth)
    with Cons.IH [of "d[unat n := c]" "n + 1"] Cons.prems(1) True b
    show ?thesis by (auto split: if_splits)
  next
    case False
    then show ?thesis using Cons.prems by (simp add: put_byte_def store_at_def)
  qed
qed auto


lemma core_acts_append: "core_acts c (as @ bs) x = res_bind (core_acts c as x) (core_acts c bs)"
  by (induction as arbitrary: x) (auto simp: res_bind_def split: sum.splits)

lemma res_bind_assoc: "res_bind (res_bind r f) g = res_bind r (\<lambda>x. res_bind (f x) g)"
  by (cases r) simp_all

lemma spec_prefix_seg:
  "CHR '' '' \<notin> set s \<Longrightarrow>
   spec_exec P_prefix (p, q, r) (s @ t) =
     res_bind (put_bytes s p) (\<lambda>p'. spec_exec P_prefix (p', q, r) t)"
  by (induction s arbitrary: p) (auto simp: res_bind_assoc intro!: arg_cong [where f = "res_bind _"] ext)

lemma spec_code_seg:
  "CHR '' '' \<notin> set s \<Longrightarrow> CHR 0x0D \<notin> set s \<Longrightarrow>
   spec_exec P_code (p, q, r) (s @ t) =
     res_bind (put_bytes s q) (\<lambda>q'. spec_exec P_code (p, q', r) t)"
  by (induction s arbitrary: q) (auto simp: res_bind_assoc intro!: arg_cong [where f = "res_bind _"] ext)

lemma strip_spaces_Cons: "strip_spaces (c # s) = (if c = CHR '' '' then strip_spaces s else c # s)"
  by (simp add: strip_spaces_def)

lemma spec_params_seg:
  "CHR 0x0D \<notin> set s \<Longrightarrow> length (fst r) < 2 ^ 64 \<Longrightarrow>
   spec_exec P_params (p, q, r) (s @ t) =
     res_bind (put_bytes (if snd r = 0 then strip_spaces s else s) r)
       (\<lambda>r'. spec_exec P_params (p, q, r') t)"
proof (induction s arbitrary: r)
  case Nil
  then show ?case by (simp add: strip_spaces_def)
next
  case (Cons c s)
  obtain d n where r: "r = (d, n)" by (cases r)
  show ?case
  proof (cases "n = 0 \<and> c = CHR '' ''")
    case True
    with Cons r show ?thesis by (simp add: strip_spaces_Cons)
  next
    case False
    have "res_bind (put_byte c r) (\<lambda>r'. spec_exec P_params (p, q, r') (s @ t)) =
        res_bind (put_byte c r) (\<lambda>r'. res_bind (put_bytes s r') (\<lambda>r''. spec_exec P_params (p, q, r'') t))"
    proof (cases "unat n < length d")
      case True
      with Cons.prems r have b: "put_byte c r = Inr (d[unat n := c], n + 1)" "n + 1 \<noteq> 0"
        using put_byte_ok(1) [of d n c] put_byte_ok(2) [of d n] by (auto simp: word_unat_eq_iff)
      with Cons.IH [of "(d[unat n := c], n + 1)"] Cons.prems r show ?thesis by simp
    next
      case False
      then show ?thesis using r by (simp add: put_byte_def store_at_def)
    qed
    with False Cons.prems r show ?thesis
      by (auto simp: strip_spaces_Cons res_bind_assoc)
  qed
qed


section \<open>Parsing a line\<close>

text \<open>The stores of a whole line, buffer by buffer.\<close>

definition store_line :: "irc_line \<Rightarrow> core \<Rightarrow> core res" where
  "store_line l x = (case x of (p, q, r) \<Rightarrow>
     res_bind (case l_prefix l of None \<Rightarrow> Inr p | Some s \<Rightarrow> put_bytes s (fst p, 0)) (\<lambda>p'.
     res_bind (put_bytes (l_code l) (fst q, 0)) (\<lambda>q'.
     res_bind (if l_params l = [] then Inr r else put_bytes (strip_spaces (l_params l)) (fst r, 0)) (\<lambda>r'.
     Inr (p', q', r')))))"

lemma spec_tail:
  assumes "l_params l = [] \<or> l_params l \<in> lang params" "length (fst r) < 2 ^ 64"
  shows "spec_exec P_code (p, q, r) (l_params l @ cr_lf) =
    res_bind (if l_params l = [] then Inr r else put_bytes (strip_spaces (l_params l)) (fst r, 0))
      (\<lambda>r'. Inr (p, q, r'))"
proof (cases "l_params l")
  case Nil
  then show ?thesis by (simp add: cr_lf_def)
next
  case (Cons c x)
  with assms(1) have c: "c = CHR '' ''" and x: "CHR 0x0D \<notin> set x"
    using params_space [of c x] params_chars [of "c # x"] by auto
  have "spec_exec P_code (p, q, r) (l_params l @ cr_lf) = spec_exec P_params (p, q, (fst r, 0)) (x @ cr_lf)"
    using Cons c by simp
  also have "\<dots> = res_bind (put_bytes (strip_spaces x) (fst r, 0)) (\<lambda>r'. spec_exec P_params (p, q, r') cr_lf)"
    using spec_params_seg [OF x, of "(fst r, 0)" p q cr_lf] assms(2) by simp
  finally show ?thesis using Cons c by (simp add: strip_spaces_Cons cr_lf_def)
qed

lemma spec_code_start:
  assumes "v \<in> lang code" "ph = P_start \<or> ph = P_space"
  shows "spec_exec ph (p, q, r) (v @ t) =
    res_bind (put_bytes v (fst q, 0)) (\<lambda>q'. spec_exec P_code (p, q', r) t)"
proof -
  obtain c s where v: "v = c # s" using code_nonempty [OF assms(1)] by (cases v) auto
  have "spec_exec ph (p, q, r) (v @ t) =
      res_bind (put_byte c (fst q, 0)) (\<lambda>q'. spec_exec P_code (p, q', r) (s @ t))"
    using assms(2) code_chars [OF assms(1)] v by (auto simp: res_bind_assoc)
  moreover have "spec_exec P_code (p, q', r) (s @ t) =
      res_bind (put_bytes s q') (\<lambda>q'. spec_exec P_code (p, q', r) t)" for q'
    using code_chars [OF assms(1)] v by (intro spec_code_seg) auto
  ultimately show ?thesis by (simp add: v res_bind_assoc)
qed

lemma spec_render:
  assumes wf: "wf_line l" and sz: "length (fst r) < 2 ^ 64"
  shows "spec_exec P_start (p, q, r) (render l) = store_line l (p, q, r)"
proof -
  have code: "l_code l \<in> lang code" and par: "l_params l = [] \<or> l_params l \<in> lang params"
    using wf by (auto simp: wf_line_def)
  have line: "spec_exec ph (p', q, r) (l_code l @ l_params l @ cr_lf) =
      res_bind (put_bytes (l_code l) (fst q, 0)) (\<lambda>q'.
      res_bind (if l_params l = [] then Inr r else put_bytes (strip_spaces (l_params l)) (fst r, 0)) (\<lambda>r'.
      Inr (p', q', r')))" if "ph = P_start \<or> ph = P_space" for ph p'
    unfolding spec_code_start [OF code that] spec_tail [OF par sz] ..
  show ?thesis
  proof (cases "l_prefix l")
    case None
    then show ?thesis using line by (simp add: render_def render_prefix_def store_line_def)
  next
    case (Some u)
    then have u: "u \<in> lang prefix" using wf by (simp add: wf_line_def)
    obtain c s where cs: "u = c # s" using prefix_nonempty [OF u] by (cases u) auto
    have "spec_exec P_start (p, q, r) (render l) =
        spec_exec P_colon (p, q, r) (c # s @ '' '' @ l_code l @ l_params l @ cr_lf)"
      by (simp add: render_def render_prefix_def Some cs)
    also have "\<dots> = res_bind (put_byte c (fst p, 0))
        (\<lambda>p'. spec_exec P_prefix (p', q, r) (s @ '' '' @ l_code l @ l_params l @ cr_lf))"
      by (simp add: res_bind_assoc)
    also have "\<dots> = res_bind (put_byte c (fst p, 0)) (\<lambda>p'. res_bind (put_bytes s p')
        (\<lambda>p'. spec_exec P_prefix (p', q, r) ('' '' @ l_code l @ l_params l @ cr_lf)))"
      using prefix_chars [OF u] cs by (simp add: spec_prefix_seg)
    also have "\<dots> = res_bind (put_bytes u (fst p, 0))
        (\<lambda>p'. spec_exec P_space (p', q, r) (l_code l @ l_params l @ cr_lf))"
      by (simp add: cs res_bind_assoc)
    finally show ?thesis using line by (simp add: store_line_def Some)
  qed
qed


lemma put_bytes_start:
  assumes "length d < 2 ^ 64"
  shows "if length s \<le> length d then \<exists>b. put_bytes s (d, 0) = Inr b \<and> buf_bytes b = s
         else put_bytes s (d, 0) = Inl OutOfBounds"
  using put_bytes_exact [OF assms, of 0 s] by (auto simp: buf_bytes_def split: if_splits)

definition stored :: "irc_line \<Rightarrow> rp_ircsm_msg \<Rightarrow> rp_ircsm_msg \<Rightarrow> bool" where
  "stored l m m' \<longleftrightarrow>
     msg_prefix m' = (case l_prefix l of None \<Rightarrow> msg_prefix m | Some p \<Rightarrow> p) \<and>
     msg_code m' = l_code l \<and>
     msg_params m' = (if l_params l = [] then msg_params m else strip_spaces (l_params l))"

lemma store_line_fits:
  assumes "msg_sizes m" "fits m l"
  shows "\<exists>x. store_line l (core m) = Inr x \<and> (\<forall>m'. core m' = x \<longrightarrow> stored l m m')"
proof -
  have sz: "length (prefix_ptr m) < 2 ^ 64" "length (code_ptr m) < 2 ^ 64" "length (params_ptr m) < 2 ^ 64"
    using assms(1) by (auto simp: msg_sizes_def)
  let ?old = "(prefix_ptr m, prefix_len m)"
  obtain p' where p': "(case l_prefix l of None \<Rightarrow> Inr ?old | Some s \<Rightarrow> put_bytes s (prefix_ptr m, 0)) = Inr p'"
    "buf_bytes p' = (case l_prefix l of None \<Rightarrow> buf_bytes ?old | Some s \<Rightarrow> s)"
    using assms(2) put_bytes_start [OF sz(1), of "the (l_prefix l)"]
    by (cases "l_prefix l") (auto simp: fits_def)
  obtain q' where q': "put_bytes (l_code l) (code_ptr m, 0) = Inr q'" "buf_bytes q' = l_code l"
    using assms(2) put_bytes_start [OF sz(2), of "l_code l"] by (auto simp: fits_def)
  obtain r1 where r1: "put_bytes (strip_spaces (l_params l)) (params_ptr m, 0) = Inr r1"
    "buf_bytes r1 = strip_spaces (l_params l)"
    using assms(2) put_bytes_start [OF sz(3), of "strip_spaces (l_params l)"] by (auto simp: fits_def)
  let ?r = "if l_params l = [] then (params_ptr m, params_len m) else r1"
  have "store_line l (core m) = Inr (p', q', ?r)"
    using p'(1) q'(1) r1(1) by (cases "l_prefix l"; cases r1) (simp_all add: store_line_def core_def)
  moreover have "stored l m m'" if "core m' = (p', q', ?r)" for m'
    using core_msg [OF that] core_msg [OF core_def, of m] p'(2) q'(2) r1(2)
    by (simp add: stored_def split: option.splits)
  ultimately show ?thesis by blast
qed

lemma store_line_overflow:
  assumes "msg_sizes m" "\<not> fits m l"
  shows "store_line l (core m) = Inl OutOfBounds"
proof -
  have sz: "length (prefix_ptr m) < 2 ^ 64" "length (code_ptr m) < 2 ^ 64" "length (params_ptr m) < 2 ^ 64"
    using assms(1) by (auto simp: msg_sizes_def)
  have par: "l_params l \<noteq> []" if "length (strip_spaces (l_params l)) > length (params_ptr m)"
    using that by (auto simp: strip_spaces_def)
  note exact = put_bytes_start [OF sz(1), of "the (l_prefix l)"]
    put_bytes_start [OF sz(2), of "l_code l"] put_bytes_start [OF sz(3), of "strip_spaces (l_params l)"]
  consider (pre) s where "l_prefix l = Some s" "\<not> length s \<le> length (prefix_ptr m)"
    | (code) "\<forall>s. l_prefix l = Some s \<longrightarrow> length s \<le> length (prefix_ptr m)"
        "\<not> length (l_code l) \<le> length (code_ptr m)"
    | (params) "\<forall>s. l_prefix l = Some s \<longrightarrow> length s \<le> length (prefix_ptr m)"
        "length (l_code l) \<le> length (code_ptr m)"
        "\<not> length (strip_spaces (l_params l)) \<le> length (params_ptr m)"
    using assms(2) by (auto simp: fits_def split: option.splits)
  then show ?thesis
  proof cases
    case params
    then have "l_params l \<noteq> []" using par by simp
    with params exact show ?thesis
      by (auto simp: store_line_def core_def split: option.splits)
  qed (use exact in \<open>auto simp: store_line_def core_def split: option.splits\<close>)
qed

lemma parse_line:
  assumes "wf_line l" "msg_sizes m"
  shows "if fits m l
    then \<exists>m'. rp_ircsm_parse m irc_start (render l @ rest) =
           Inr (True, m', irc_start, length (render l)) \<and> stored l m m'
    else rp_ircsm_parse m irc_start (render l @ rest) = Inl OutOfBounds"
proof -
  have spec: "spec_exec P_start (core m) (render l) = store_line l (core m)"
    using spec_render [OF assms(1)] assms(2) by (simp add: core_def msg_sizes_def)
  note ref = parse_refines [OF render_in_lang [OF assms(1)], of m rest, unfolded spec]
  show ?thesis
  proof (cases "fits m l")
    case True
    from store_line_fits [OF assms(2) True] ref show ?thesis by (auto simp: True)
  next
    case False
    from store_line_overflow [OF assms(2) False] ref show ?thesis by (simp add: False)
  qed
qed

section \<open>Only words of the grammar are accepted\<close>

lemma irc_exec_run:
  "irc_exec cs m s k = Inr (cs', m', n) \<Longrightarrow> cs' \<noteq> [] \<Longrightarrow> cs' = run_state cs (take (n - k) s) \<and> k \<le> n"
proof (induction s arbitrary: cs m k)
  case (Cons c s)
  have ne: "step_state c cs \<noteq> []" using Cons.prems by (auto simp: irc_exec.simps(2) Let_def split: if_splits)
  consider (stop) "cs' = step_state c cs" "n = Suc k"
    | (go) m1 where "irc_exec (step_state c cs) m1 s (Suc k) = Inr (cs', m', n)"
    using Cons.prems ne by (auto simp: irc_exec.simps(2) Let_def split: if_splits)
  then show ?case
  proof cases
    case go
    from Cons.IH [OF go Cons.prems(2)] have "Suc k \<le> n" "n - k = Suc (n - Suc k)"
      "cs' = run_state (step_state c cs) (take (n - Suc k) s)" by auto
    then show ?thesis by simp
  qed simp
qed simp

lemma parse_accepts:
  assumes "rp_ircsm_parse m irc_start s = Inr (True, m', st, n)"
  shows "take n s \<in> lang message"
proof -
  from assms obtain cs where cs: "irc_exec irc_start m s 0 = Inr (cs, m', n)" "final_state cs"
    by (cases "irc_exec irc_start m s 0") (auto simp: rp_ircsm_parse_def split: if_splits)
  then have "cs \<noteq> []" by (auto simp: final_state_def)
  from irc_exec_run [OF cs(1) this] cs(2) show ?thesis
    by (simp add: final_run_iff state_lang_def irc_start_def)
qed


text \<open>An error means that no continuation of what was read is a message.\<close>

lemma irc_exec_error_lang:
  "irc_ok cs \<Longrightarrow> irc_exec cs m s k = Inr ([], m', n) \<Longrightarrow> s @ t \<notin> state_lang cs"
proof (induction s arbitrary: cs m k)
  case Nil
  then show ?case by (auto dest: state_lang_nonempty)
next
  case (Cons c s)
  show ?case
  proof (cases "step_state c cs = []")
    case True
    then show ?thesis using state_lang_step [of "s @ t" c cs] by (simp add: state_lang_def)
  next
    case False
    have nf: "\<not> final_state (step_state c cs)"
      using Cons.prems False by (auto simp: irc_exec_Cons split: if_splits)
    with Cons.prems False obtain m1 where "irc_exec (step_state c cs) m1 s (Suc k) = Inr ([], m', n)"
      by (auto simp: irc_exec_Cons)
    from Cons.IH [OF irc_ok_step [OF Cons.prems(1) nf] this] show ?thesis
      by (simp add: state_lang_step)
  qed
qed

section \<open>Properties\<close>

text \<open>A message object as \<open>rp_ircsm_msg_init\<close> makes it, with the code's sizes.\<close>

definition fresh_msg :: rp_ircsm_msg where
  "fresh_msg = rp_ircsm_msg_init (replicate 64 CHR 0x00) (replicate 32 CHR 0x00) (replicate 512 CHR 0x00)"

lemma fresh_msg_sizes: "msg_sizes fresh_msg"
  by (simp add: msg_sizes_def fresh_msg_def rp_ircsm_msg_init_def)

lemma fresh_msg_lengths [simp]:
  "length (prefix_ptr fresh_msg) = 64" "length (code_ptr fresh_msg) = 32"
  "length (params_ptr fresh_msg) = 512"
  by (simp_all add: fresh_msg_def rp_ircsm_msg_init_def)

definition ping_line :: irc_line where
  "ping_line = \<lparr>l_prefix = None, l_code = ''PING'', l_params = '' :abc''\<rparr>"

lemma word_by_run: "final_state (run_state [r] w) \<Longrightarrow> w \<in> lang r"
  by (simp add: final_run_iff state_lang_def)

lemma ping_line_ok: "wf_line ping_line"
proof -
  have "final_state (run_state [code] ''PING'')" by code_simp
  moreover have "final_state (run_state [params] '' :abc'')" by code_simp
  ultimately show ?thesis by (simp add: wf_line_def ping_line_def word_by_run)
qed

lemma render_ping_line: "render ping_line = ''PING :abc'' @ cr_lf"
  by (simp add: ping_line_def render_def render_prefix_def)

lemma ping_line_fits: "fits fresh_msg ping_line"
  by (simp add: fits_def ping_line_def strip_spaces_def)

text \<open>Feeding the parser chunk by chunk, up to the first complete message.\<close>

fun parse_chunks ::
    "rp_ircsm_msg \<Rightarrow> irc_cs \<Rightarrow> bytes list \<Rightarrow> (bool \<times> rp_ircsm_msg \<times> irc_cs \<times> nat) res" where
  "parse_chunks m st [] = Inr (False, m, st, 0)"
| "parse_chunks m st (s # ss) =
     res_bind (rp_ircsm_parse m st s) (\<lambda>(b, m', st', n).
       if b then Inr (True, m', st', n)
       else res_bind (parse_chunks m' st' ss) (\<lambda>(b', m'', st'', k). Inr (b', m'', st'', n + k)))"

text \<open>
  C18: The parser is incremental: however the input is cut into chunks, feeding them to
  \<open>rp_ircsm_parse\<close> one after the other (keeping \<open>*state\<close> and the message) gives the same
  result, message, state, number of bytes and faults as one call on the whole input.
\<close>

theorem parse_any_chunks:
  assumes "irc_ok st"
  shows "parse_chunks m st ss = rp_ircsm_parse m st (concat ss)"
  using assms
proof (induction ss arbitrary: m st)
  case Nil
  then show ?case by (simp add: rp_ircsm_parse_def irc_ok_def)
next
  case (Cons s ss)
  have "parse_chunks m' st' ss = rp_ircsm_parse m' st' (concat ss)"
    if "rp_ircsm_parse m st s = Inr (b, m', st', n)" for b m' st' n
    using Cons.IH [OF parse_ok [OF Cons.prems that]] .
  then show ?case
    by (auto simp: parse_append [OF Cons.prems] res_bind_def split: sum.split)
qed

theorem parse_any_chunks_witness:
  "parse_chunks fresh_msg irc_start [''PI'', ''NG :a'', ''bc''] =
     rp_ircsm_parse fresh_msg irc_start ''PING :abc''"
  using parse_any_chunks [OF irc_ok_start, of fresh_msg "[''PI'', ''NG :a'', ''bc'']"] by simp

text \<open>
  C5: A message that fits the three buffers is accepted with return value 1 at its last
  byte, whatever follows it, and prefix, code and parameters (without leading spaces) are
  stored exactly; the state is the start state again. A message without prefix or without
  parameters leaves those of the previous message in place.
\<close>

theorem parse_stores_message:
  assumes "wf_line l" "msg_sizes m" "fits m l"
  shows "\<exists>m'. rp_ircsm_parse m irc_start (render l @ rest) =
           Inr (True, m', irc_start, length (render l)) \<and>
    msg_prefix m' = (case l_prefix l of None \<Rightarrow> msg_prefix m | Some p \<Rightarrow> p) \<and>
    msg_code m' = l_code l \<and>
    msg_params m' = (if l_params l = [] then msg_params m else strip_spaces (l_params l))"
  using parse_line [OF assms(1,2), of rest] assms(3) by (auto simp: stored_def)

theorem parse_stores_message_witness:
  "\<exists>m'. rp_ircsm_parse fresh_msg irc_start (''PING :abc'' @ cr_lf @ ''PRIV'') =
     Inr (True, m', irc_start, 11) \<and> msg_code m' = ''PING'' \<and> msg_params m' = '':abc''"
proof -
  have "length (''PING :abc'' @ cr_lf) = 11" by (simp add: cr_lf_def)
  moreover have "l_code ping_line = ''PING''" "strip_spaces (l_params ping_line) = '':abc''"
    "l_params ping_line \<noteq> []"
    by (simp_all add: ping_line_def strip_spaces_def)
  ultimately show ?thesis
    using parse_stores_message [OF ping_line_ok fresh_msg_sizes ping_line_fits, of "''PRIV''"]
    unfolding render_ping_line append_assoc by metis
qed

text \<open>
  C40: The stores are not bounds-checked: a grammatical message of which some part does not
  fit its buffer (64 bytes of prefix, 32 of code, 512 of parameters) makes the parser
  write behind the buffer.
\<close>

theorem parse_overflows:
  assumes "wf_line l" "msg_sizes m" "\<not> fits m l"
  shows "rp_ircsm_parse m irc_start (render l @ rest) = Inl OutOfBounds"
  using parse_line [OF assms(1,2), of rest] assms(3) by simp

theorem parse_overflows_witness:
  "rp_ircsm_parse fresh_msg irc_start (replicate 33 CHR ''A'' @ cr_lf) = Inl OutOfBounds"
proof -
  let ?l = "\<lparr>l_prefix = None, l_code = replicate 33 CHR ''A'', l_params = []\<rparr>"
  have "final_state (run_state [code] (replicate 33 CHR ''A''))" by code_simp
  then have "replicate 33 CHR ''A'' \<in> lang code" by (rule word_by_run)
  then have "wf_line ?l" "\<not> fits fresh_msg ?l"
    unfolding wf_line_def fits_def by simp_all
  from parse_overflows [OF this(1) fresh_msg_sizes this(2), of "[]"] show ?thesis
    by (simp add: render_def render_prefix_def)
qed

text \<open>
  C34: What the parser accepts are messages: if a call that starts in the start state
  returns 1, the bytes it consumed are the text of a well-formed line.
\<close>

theorem parse_accepts_lines:
  assumes "rp_ircsm_parse m irc_start s = Inr (True, m', st, n)"
  shows "\<exists>l. wf_line l \<and> take n s = render l"
  using lang_is_render [OF parse_accepts [OF assms]] .

theorem parse_accepts_lines_witness:
  "\<exists>l n. wf_line l \<and> take n (''PING :abc'' @ cr_lf) = render l"
proof -
  from parse_line [OF ping_line_ok fresh_msg_sizes, of "[]"] ping_line_fits obtain m' n where
    "rp_ircsm_parse fresh_msg irc_start (''PING :abc'' @ cr_lf) = Inr (True, m', irc_start, n)"
    unfolding render_ping_line append_Nil2 by auto
  from parse_accepts_lines [OF this] show ?thesis by blast
qed

text \<open>
  Progress and rejection. A call that returns 0 outside the error state has consumed
  its whole input. The error state is entered only on input that no continuation turns
  into a message, and it is never left: every later call consumes nothing and returns 0.
\<close>

theorem parse_progress:
  assumes "irc_ok st" "rp_ircsm_parse m st s = Inr (False, m', st', n)"
  shows "if st' = [] then (\<forall>t. s @ t \<notin> state_lang st) \<and>
             (\<forall>m'' u. rp_ircsm_parse m'' st' u = Inr (False, m'', [], 0))
         else n = length s"
proof -
  have e: "irc_exec st m s 0 = Inr (st', m', n)" "\<not> final_state st'"
    using assms(2) by (auto simp: rp_ircsm_parse_def split: if_splits)
  have "n = length s" if "st' \<noteq> []"
    using irc_exec_stops [OF assms(1) e that] by simp
  moreover have "s @ t \<notin> state_lang st" if "st' = []" for t
    using irc_exec_error_lang [OF assms(1)] e(1) that by blast
  ultimately show ?thesis by (simp add: rp_ircsm_parse_def final_state_def)
qed

theorem parse_progress_witness:
  "rp_ircsm_parse fresh_msg irc_start ''!'' = Inr (False, fresh_msg, [], 0) \<and>
   (\<forall>t. ''!'' @ t \<notin> state_lang irc_start)"
proof -
  have "step_state CHR ''!'' irc_start = []" by code_simp
  then have "rp_ircsm_parse fresh_msg irc_start ''!'' = Inr (False, fresh_msg, [], 0)"
    by (simp add: rp_ircsm_parse_def irc_exec_Cons [OF irc_ok_start] final_state_def)
  with parse_progress [OF irc_ok_start this] show ?thesis by simp
qed

end
