(* ===== verification/Rp_Config.thy ===== *)
theory Rp_Config
  imports Rp_String
begin

text \<open>
  The configuration reader rp_config.c: the callbacks that the yajl JSON parser drives,
  with their state machine over the nesting of the document, and \<open>rp_config_load\<close>. The
  pool and the yajl library are parameters; allocation may fail.
\<close>

section \<open>The configuration\<close>

text \<open>
  Each \<open>rp_str_t\<close> owns its characters and is given by them; a zeroed one is empty. The
  linked lists are lists in the order of their \<open>next\<close> pointers.
\<close>

record rp_config_server =
  srv_host :: bytes
  srv_port :: bytes

record rp_config_channel =
  ch_name :: bytes
  ch_key :: bytes

record rp_config =
  cfg_nicks :: "bytes list"
  cfg_name :: bytes
  cfg_login :: bytes
  cfg_servers :: "rp_config_server list"
  cfg_channels :: "rp_config_channel list"

definition empty_config :: rp_config where
  "empty_config = \<lparr>cfg_nicks = [], cfg_name = [], cfg_login = [], cfg_servers = [], cfg_channels = []\<rparr>"

section \<open>The parser context\<close>

datatype json_state =
    START | ROOT | ROOT_CONFIG | ROOT_CONFIG_IDENTITY
  | ROOT_CONFIG_IDENTITY_NICKS | ROOT_CONFIG_IDENTITY_NICKS_ITEMS
  | ROOT_CONFIG_IDENTITY_NAME | ROOT_CONFIG_IDENTITY_LOGIN
  | ROOT_CONFIG_SERVERS | ROOT_CONFIG_SERVERS_ITEMS
  | ROOT_CONFIG_SERVERS_ITEMS_HOST | ROOT_CONFIG_SERVERS_ITEMS_PORT
  | ROOT_CONFIG_CHANNELS | ROOT_CONFIG_CHANNELS_ITEMS

text \<open>
  The pointer \<open>ctx->server\<close>: null, an object that is not in the list yet, or the
  list's element of that index.
\<close>

datatype server_ptr = NoServer | NewServer rp_config_server | LinkedServer nat

record 'p rp_json_ctx =
  jc_pool :: 'p
  jc_cfg :: rp_config
  jc_server :: server_ptr
  jc_state :: json_state

text \<open>
  \<open>rp_palloc\<close> as a parameter: the pool afterwards, and whether the result is not null.
\<close>

type_synonym 'p palloc = "'p \<Rightarrow> nat \<Rightarrow> 'p \<times> bool"

section \<open>Callbacks\<close>

text \<open>
  \<open>rpcfg_mkstr\<close> into a string that the caller owns; \<open>dst_ok\<close> says that its address is
  valid (it is inside an object that the caller has just allocated).
\<close>

definition rpcfg_mkstr :: "'p palloc \<Rightarrow> 'p \<Rightarrow> bool \<Rightarrow> bytes \<Rightarrow> ('p \<times> bytes) res" where
  "rpcfg_mkstr pal pool dst_ok s =
     (let (pool', ptr) = pal pool (length s)
      in if \<not> dst_ok then Inl NullDeref
         else if \<not> ptr \<and> s \<noteq> [] then Inl NullDeref
         else Inr (pool', s))"

text \<open>Storing to \<open>ctx->server->host\<close> and \<open>port\<close>.\<close>

definition upd_server ::
    "(rp_config_server \<Rightarrow> rp_config_server) \<Rightarrow> 'p rp_json_ctx \<Rightarrow> 'p rp_json_ctx res" where
  "upd_server f ctx = (case jc_server ctx of
       NoServer \<Rightarrow> Inl NullDeref
     | NewServer r \<Rightarrow> Inr (ctx\<lparr>jc_server := NewServer (f r)\<rparr>)
     | LinkedServer i \<Rightarrow>
         (let cfg = jc_cfg ctx; ss = cfg_servers cfg
          in Inr (ctx\<lparr>jc_cfg := cfg\<lparr>cfg_servers := ss[i := f (ss ! i)]\<rparr>\<rparr>)))"

text \<open>
  \<open>LL_APPEND(ctx->cfg->servers, ctx->server)\<close>: a null pointer is written through; an
  element that is in the list already becomes its own successor.
\<close>

definition append_server :: "'p rp_json_ctx \<Rightarrow> 'p rp_json_ctx res" where
  "append_server ctx = (case jc_server ctx of
       NoServer \<Rightarrow> Inl NullDeref
     | NewServer r \<Rightarrow>
         (let cfg = jc_cfg ctx
          in Inr (ctx\<lparr>jc_cfg := cfg\<lparr>cfg_servers := cfg_servers cfg @ [r]\<rparr>,
                      jc_server := LinkedServer (length (cfg_servers cfg))\<rparr>))
     | LinkedServer i \<Rightarrow> Inl ListCycle)"

text \<open>Each callback yields the context and whether it returned 1.\<close>

definition rpcfg_string :: "'p palloc \<Rightarrow> 'p rp_json_ctx \<Rightarrow> bytes \<Rightarrow> ('p rp_json_ctx \<times> bool) res" where
  "rpcfg_string pal ctx s = (case jc_state ctx of
       ROOT_CONFIG_IDENTITY_NICKS_ITEMS \<Rightarrow>
         (let (p1, l) = pal (jc_pool ctx) 24
          in res_bind (rpcfg_mkstr pal p1 l s) (\<lambda>(p2, str).
             Inr (ctx\<lparr>jc_pool := p2,
                      jc_cfg := (jc_cfg ctx)\<lparr>cfg_nicks := cfg_nicks (jc_cfg ctx) @ [str]\<rparr>\<rparr>, True)))
     | ROOT_CONFIG_IDENTITY_NAME \<Rightarrow>
         res_bind (rpcfg_mkstr pal (jc_pool ctx) True s) (\<lambda>(p1, str).
         Inr (ctx\<lparr>jc_pool := p1, jc_cfg := (jc_cfg ctx)\<lparr>cfg_name := str\<rparr>,
                  jc_state := ROOT_CONFIG_IDENTITY\<rparr>, True))
     | ROOT_CONFIG_IDENTITY_LOGIN \<Rightarrow>
         res_bind (rpcfg_mkstr pal (jc_pool ctx) True s) (\<lambda>(p1, str).
         Inr (ctx\<lparr>jc_pool := p1, jc_cfg := (jc_cfg ctx)\<lparr>cfg_login := str\<rparr>,
                  jc_state := ROOT_CONFIG_IDENTITY\<rparr>, True))
     | ROOT_CONFIG_SERVERS_ITEMS_HOST \<Rightarrow>
         res_bind (rpcfg_mkstr pal (jc_pool ctx) (jc_server ctx \<noteq> NoServer) s) (\<lambda>(p1, str).
         res_bind (upd_server (\<lambda>r. r\<lparr>srv_host := str\<rparr>) (ctx\<lparr>jc_pool := p1\<rparr>)) (\<lambda>ctx'.
         Inr (ctx'\<lparr>jc_state := ROOT_CONFIG_SERVERS_ITEMS\<rparr>, True)))
     | ROOT_CONFIG_SERVERS_ITEMS_PORT \<Rightarrow>
         res_bind (rpcfg_mkstr pal (jc_pool ctx) (jc_server ctx \<noteq> NoServer) s) (\<lambda>(p1, str).
         res_bind (upd_server (\<lambda>r. r\<lparr>srv_port := str\<rparr>) (ctx\<lparr>jc_pool := p1\<rparr>)) (\<lambda>ctx'.
         Inr (ctx'\<lparr>jc_state := ROOT_CONFIG_SERVERS_ITEMS\<rparr>, True)))
     | ROOT_CONFIG_CHANNELS_ITEMS \<Rightarrow>
         (let (p1, chan) = pal (jc_pool ctx) 40
          in res_bind (rpcfg_mkstr pal p1 chan s) (\<lambda>(p2, str).
             Inr (ctx\<lparr>jc_pool := p2,
                      jc_cfg := (jc_cfg ctx)\<lparr>cfg_channels := cfg_channels (jc_cfg ctx) @
                        [\<lparr>ch_name = str, ch_key = []\<rparr>]\<rparr>\<rparr>, True)))
     | _ \<Rightarrow> Inr (ctx, False))"

text \<open>\<open>rp_pcalloc\<close> of a server: null when the pool has no memory.\<close>

definition rpcfg_start_map :: "'p palloc \<Rightarrow> 'p rp_json_ctx \<Rightarrow> ('p rp_json_ctx \<times> bool) res" where
  "rpcfg_start_map pal ctx = (case jc_state ctx of
       START \<Rightarrow> Inr (ctx\<lparr>jc_state := ROOT\<rparr>, True)
     | ROOT_CONFIG \<Rightarrow> Inr (ctx, True)
     | ROOT_CONFIG_IDENTITY \<Rightarrow> Inr (ctx, True)
     | ROOT_CONFIG_SERVERS_ITEMS \<Rightarrow>
         (let (p1, ok) = pal (jc_pool ctx) 40
          in Inr (ctx\<lparr>jc_pool := p1,
                      jc_server := (if ok then NewServer \<lparr>srv_host = [], srv_port = []\<rparr> else NoServer)\<rparr>, True))
     | _ \<Rightarrow> Inr (ctx, False))"

definition rpcfg_end_map :: "'p rp_json_ctx \<Rightarrow> ('p rp_json_ctx \<times> bool) res" where
  "rpcfg_end_map ctx = (case jc_state ctx of
       ROOT_CONFIG \<Rightarrow> Inr (ctx\<lparr>jc_state := ROOT\<rparr>, True)
     | ROOT_CONFIG_IDENTITY \<Rightarrow> Inr (ctx\<lparr>jc_state := ROOT_CONFIG\<rparr>, True)
     | ROOT_CONFIG_SERVERS_ITEMS \<Rightarrow> res_bind (append_server ctx) (\<lambda>ctx'. Inr (ctx', True))
     | ROOT \<Rightarrow> Inr (ctx\<lparr>jc_state := START\<rparr>, True)
     | _ \<Rightarrow> Inr (ctx, False))"

text \<open>
  \<open>strncmp(s, lit, len) == 0\<close> for the \<open>len\<close> bytes of \<open>s\<close> and a C string literal
  without null characters.
\<close>

fun strncmp_eq :: "bytes \<Rightarrow> bytes \<Rightarrow> bool" where
  "strncmp_eq [] lit \<longleftrightarrow> True"
| "strncmp_eq (c # s) [] \<longleftrightarrow> c = CHR 0x00"
| "strncmp_eq (c # s) (d # lit) \<longleftrightarrow> c = d \<and> strncmp_eq s lit"

definition rpcfg_map_key :: "'p rp_json_ctx \<Rightarrow> bytes \<Rightarrow> 'p rp_json_ctx \<times> bool" where
  "rpcfg_map_key ctx s = (case jc_state ctx of
       ROOT \<Rightarrow>
         if strncmp_eq s ''config'' then (ctx\<lparr>jc_state := ROOT_CONFIG\<rparr>, True) else (ctx, False)
     | ROOT_CONFIG \<Rightarrow>
         if strncmp_eq s ''identity'' then (ctx\<lparr>jc_state := ROOT_CONFIG_IDENTITY\<rparr>, True)
         else if strncmp_eq s ''servers'' then (ctx\<lparr>jc_state := ROOT_CONFIG_SERVERS\<rparr>, True)
         else if strncmp_eq s ''channels'' then (ctx\<lparr>jc_state := ROOT_CONFIG_CHANNELS\<rparr>, True)
         else (ctx, False)
     | ROOT_CONFIG_IDENTITY \<Rightarrow>
         if strncmp_eq s ''nicks'' then (ctx\<lparr>jc_state := ROOT_CONFIG_IDENTITY_NICKS\<rparr>, True)
         else if strncmp_eq s ''name'' then (ctx\<lparr>jc_state := ROOT_CONFIG_IDENTITY_NAME\<rparr>, True)
         else if strncmp_eq s ''login'' then (ctx\<lparr>jc_state := ROOT_CONFIG_IDENTITY_LOGIN\<rparr>, True)
         else (ctx, True)
     | ROOT_CONFIG_SERVERS_ITEMS \<Rightarrow>
         if strncmp_eq s ''host'' then (ctx\<lparr>jc_state := ROOT_CONFIG_SERVERS_ITEMS_HOST\<rparr>, True)
         else if strncmp_eq s ''port'' then (ctx\<lparr>jc_state := ROOT_CONFIG_SERVERS_ITEMS_PORT\<rparr>, True)
         else (ctx, False)
     | _ \<Rightarrow> (ctx, False))"

definition rpcfg_start_array :: "'p rp_json_ctx \<Rightarrow> 'p rp_json_ctx \<times> bool" where
  "rpcfg_start_array ctx = (case jc_state ctx of
       ROOT_CONFIG_IDENTITY_NICKS \<Rightarrow> (ctx\<lparr>jc_state := ROOT_CONFIG_IDENTITY_NICKS_ITEMS\<rparr>, True)
     | ROOT_CONFIG_SERVERS \<Rightarrow> (ctx\<lparr>jc_state := ROOT_CONFIG_SERVERS_ITEMS\<rparr>, True)
     | ROOT_CONFIG_CHANNELS \<Rightarrow> (ctx\<lparr>jc_state := ROOT_CONFIG_CHANNELS_ITEMS\<rparr>, True)
     | _ \<Rightarrow> (ctx, False))"

definition rpcfg_end_array :: "'p rp_json_ctx \<Rightarrow> 'p rp_json_ctx \<times> bool" where
  "rpcfg_end_array ctx = (case jc_state ctx of
       ROOT_CONFIG_IDENTITY_NICKS_ITEMS \<Rightarrow> (ctx\<lparr>jc_state := ROOT_CONFIG_IDENTITY\<rparr>, True)
     | ROOT_CONFIG_SERVERS_ITEMS \<Rightarrow> (ctx\<lparr>jc_state := ROOT_CONFIG\<rparr>, True)
     | ROOT_CONFIG_CHANNELS_ITEMS \<Rightarrow> (ctx\<lparr>jc_state := ROOT_CONFIG\<rparr>, True)
     | _ \<Rightarrow> (ctx, False))"

section \<open>Running the callbacks\<close>

text \<open>
  The events of the yajl interface. The table \<open>callbacks\<close> has null pointers for null,
  booleans and numbers: these are skipped. A callback that returns 0 cancels the parse.
\<close>

datatype yajl_event =
    E_null | E_bool bool | E_number bytes | E_string bytes
  | E_start_map | E_map_key bytes | E_end_map | E_start_array | E_end_array

fun callbacks :: "'p palloc \<Rightarrow> yajl_event \<Rightarrow> 'p rp_json_ctx \<Rightarrow> ('p rp_json_ctx \<times> bool) res" where
  "callbacks pal E_null ctx = Inr (ctx, True)"
| "callbacks pal (E_bool b) ctx = Inr (ctx, True)"
| "callbacks pal (E_number s) ctx = Inr (ctx, True)"
| "callbacks pal (E_string s) ctx = rpcfg_string pal ctx s"
| "callbacks pal E_start_map ctx = rpcfg_start_map pal ctx"
| "callbacks pal (E_map_key s) ctx = Inr (rpcfg_map_key ctx s)"
| "callbacks pal E_end_map ctx = rpcfg_end_map ctx"
| "callbacks pal E_start_array ctx = Inr (rpcfg_start_array ctx)"
| "callbacks pal E_end_array ctx = Inr (rpcfg_end_array ctx)"

fun run_events :: "'p palloc \<Rightarrow> yajl_event list \<Rightarrow> 'p rp_json_ctx \<Rightarrow> ('p rp_json_ctx \<times> bool) res" where
  "run_events pal [] ctx = Inr (ctx, True)"
| "run_events pal (e # es) ctx =
     res_bind (callbacks pal e ctx) (\<lambda>(ctx', ok). if ok then run_events pal es ctx' else Inr (ctx', False))"

section \<open>rp_config_load\<close>

text \<open>
  The allocation functions handed to yajl. An object of the temporary pool is given by its
  bytes; \<open>fresh\<close> is what the new object holds before the copy.
\<close>

definition rpcfg_alloc :: "'p palloc \<Rightarrow> 'p \<Rightarrow> nat \<Rightarrow> 'p \<times> bool" where
  "rpcfg_alloc pal tmp sz = pal tmp sz"

definition rpcfg_free :: "'p \<Rightarrow> 'p" where
  "rpcfg_free tmp = tmp"

definition rpcfg_realloc ::
    "'p palloc \<Rightarrow> 'p \<Rightarrow> bytes option \<Rightarrow> bytes \<Rightarrow> nat \<Rightarrow> ('p \<times> bytes option) res" where
  "rpcfg_realloc pal tmp ptr fresh sz =
     (let (tmp', p) = pal tmp sz
      in case ptr of
           None \<Rightarrow> Inr (tmp', if p then Some fresh else None)
         | Some old \<Rightarrow>
             if sz \<noteq> 0 \<and> \<not> p then Inl NullDeref
             else res_bind (res_of_option OutOfBounds (mem_read old 0 sz))
                    (\<lambda>d. Inr (tmp', if p then Some d else None)))"

text \<open>
  yajl as a parameter: what a \<open>yajl_parse\<close> call on a chunk does to the handle, the events
  it reports while the callbacks return 1, and whether the text is accepted so far.
\<close>

type_synonym 'y yajl_parser = "'y \<Rightarrow> bytes \<Rightarrow> 'y \<times> yajl_event list \<times> bool"

text \<open>
  The read loop, over the results of the \<open>fread\<close> calls (empty: end of file or error). The
  result says whether the loop was left by \<open>break\<close>, as opposed to the error return.
\<close>

fun load_loop :: "'p palloc \<Rightarrow> 'y yajl_parser \<Rightarrow> 'y \<Rightarrow> bytes list \<Rightarrow> 'p rp_json_ctx \<Rightarrow>
    ('p rp_json_ctx \<times> bool) res" where
  "load_loop pal yj y [] ctx = Inr (ctx, True)"
| "load_loop pal yj y (buf # reads) ctx =
     (if buf = [] then Inr (ctx, True)
      else let (y', es, lex_ok) = yj y buf
        in res_bind (run_events pal es ctx) (\<lambda>(ctx', ok).
             if ok \<and> lex_ok then load_loop pal yj y' reads ctx' else Inr (ctx', False)))"

text \<open>What \<open>rp_config_load\<close> leaves behind: the file and the temporary pool, if not released.\<close>

record 'p load_result =
  lr_ret :: int
  lr_cfg :: rp_config
  lr_pool :: 'p
  lr_file_open :: bool
  lr_tmp_live :: bool

text \<open>
  \<open>tmp\<close> is the result of \<open>rp_create_pool\<close> after yajl's own allocations, \<open>file\<close> what
  \<open>fopen\<close> gives (\<open>None\<close> is NULL). The temporary pool is used before its result is
  looked at.
\<close>

definition rp_config_load :: "'p palloc \<Rightarrow> 'y yajl_parser \<Rightarrow> 'y \<Rightarrow> 'p option \<Rightarrow> 'p \<Rightarrow>
    bytes list option \<Rightarrow> rp_config \<Rightarrow> 'p load_result res" where
  "rp_config_load pal yj hand tmp pool file cfg = (case tmp of
       None \<Rightarrow> Inl NullDeref
     | Some tmp_pool \<Rightarrow>
         (let ctx = \<lparr>jc_pool = pool, jc_cfg = cfg, jc_server = NoServer, jc_state = START\<rparr>
          in case file of
               None \<Rightarrow> Inr \<lparr>lr_ret = - 1, lr_cfg = cfg, lr_pool = pool, lr_file_open = False, lr_tmp_live = True\<rparr>
             | Some reads \<Rightarrow>
                 (let (tmp_pool', buf) = pal tmp_pool 2048
                  in if \<not> buf \<and> reads \<noteq> [] \<and> hd reads \<noteq> [] then Inl NullDeref
                     else res_bind (load_loop pal yj hand reads ctx) (\<lambda>(ctx', finished).
                       Inr \<lparr>lr_ret = (if finished then 0 else - 1), lr_cfg = jc_cfg ctx',
                            lr_pool = jc_pool ctx', lr_file_open = \<not> finished, lr_tmp_live = \<not> finished\<rparr>))))"


section \<open>Lemmas\<close>

definition pal_total :: "'p palloc \<Rightarrow> bool" where
  "pal_total pal \<longleftrightarrow> (\<forall>p n. snd (pal p n))"

lemma pal_totalD: "pal_total pal \<Longrightarrow> pal p n = (q, ok) \<Longrightarrow> ok"
  unfolding pal_total_def by (metis snd_conv)

lemma mkstr_total: "pal_total pal \<Longrightarrow> rpcfg_mkstr pal p True s = Inr (fst (pal p (length s)), s)"
  by (auto simp: rpcfg_mkstr_def split: prod.split dest: pal_totalD)

lemmas callback_defs = rpcfg_string_def rpcfg_start_map_def rpcfg_end_map_def rpcfg_map_key_def
  rpcfg_start_array_def rpcfg_end_array_def upd_server_def append_server_def Let_def

lemma run_events_append:
  "run_events pal (es @ fs) ctx =
     res_bind (run_events pal es ctx) (\<lambda>(ctx', ok). if ok then run_events pal fs ctx' else Inr (ctx', False))"
proof (induction es arbitrary: ctx)
  case (Cons e es)
  show ?case
    by (cases "callbacks pal e ctx") (auto simp: Cons split: if_splits)
qed simp

text \<open>The literals are compared on the key's length only.\<close>

lemma strncmp_eq_iff:
  "CHR 0x00 \<notin> set lit \<Longrightarrow>
   strncmp_eq s lit \<longleftrightarrow> (\<exists>t. lit = s @ t) \<or> (\<exists>t. s = lit @ CHR 0x00 # t)"
  by (induction s lit rule: strncmp_eq.induct) auto

section \<open>Documents\<close>

text \<open>The events of a document with exactly the content of a configuration.\<close>

definition server_events :: "rp_config_server \<Rightarrow> yajl_event list" where
  "server_events r = [E_start_map, E_map_key ''host'', E_string (srv_host r),
     E_map_key ''port'', E_string (srv_port r), E_end_map]"

definition identity_events :: "rp_config \<Rightarrow> yajl_event list" where
  "identity_events c =
     [E_map_key ''identity'', E_start_map, E_map_key ''nicks'', E_start_array]
     @ map E_string (cfg_nicks c)
     @ [E_end_array, E_map_key ''name'', E_string (cfg_name c),
        E_map_key ''login'', E_string (cfg_login c), E_end_map]"

definition doc_events :: "rp_config \<Rightarrow> yajl_event list" where
  "doc_events c =
     [E_start_map, E_map_key ''config'', E_start_map]
     @ identity_events c
     @ [E_map_key ''servers'', E_start_array] @ concat (map server_events (cfg_servers c))
     @ [E_end_array, E_map_key ''channels'', E_start_array]
     @ map (\<lambda>ch. E_string (ch_name ch)) (cfg_channels c)
     @ [E_end_array, E_end_map, E_end_map]"

lemma run_events_step:
  "callbacks pal e ctx = Inr (ctx', True) \<Longrightarrow> run_events pal (e # es) ctx = run_events pal es ctx'"
  by simp

lemma run_events_seq:
  "run_events pal es ctx = Inr (ctx', True) \<Longrightarrow> run_events pal (es @ fs) ctx = run_events pal fs ctx'"
  by (simp add: run_events_append)

lemma run_nicks:
  assumes "pal_total pal" "jc_state ctx = ROOT_CONFIG_IDENTITY_NICKS_ITEMS"
  shows "\<exists>p. run_events pal (map E_string ns) ctx =
    Inr (ctx\<lparr>jc_pool := p, jc_cfg := (jc_cfg ctx)\<lparr>cfg_nicks := cfg_nicks (jc_cfg ctx) @ ns\<rparr>\<rparr>, True)"
  using assms(2)
proof (induction ns arbitrary: ctx)
  case Nil
  then show ?case by (auto intro!: exI [of _ "jc_pool ctx"])
next
  case (Cons n ns)
  obtain p1 ok where p1: "pal (jc_pool ctx) 24 = (p1, ok)" by fastforce
  then have ok by (rule pal_totalD [OF assms(1)])
  with Cons.prems p1 assms(1) have "\<exists>p2. callbacks pal (E_string n) ctx =
      Inr (ctx\<lparr>jc_pool := p2, jc_cfg := (jc_cfg ctx)\<lparr>cfg_nicks := cfg_nicks (jc_cfg ctx) @ [n]\<rparr>\<rparr>, True)"
    by (intro exI [of _ "fst (pal p1 (length n))"]) (simp add: rpcfg_string_def mkstr_total)
  then obtain p2 where e: "callbacks pal (E_string n) ctx =
      Inr (ctx\<lparr>jc_pool := p2, jc_cfg := (jc_cfg ctx)\<lparr>cfg_nicks := cfg_nicks (jc_cfg ctx) @ [n]\<rparr>\<rparr>, True)" ..
  show ?case
    unfolding list.map(2) run_events_step [OF e]
    using Cons.IH [of "ctx\<lparr>jc_pool := p2, jc_cfg := (jc_cfg ctx)\<lparr>cfg_nicks := cfg_nicks (jc_cfg ctx) @ [n]\<rparr>\<rparr>"]
      Cons.prems by simp
qed

lemma run_channels:
  assumes "pal_total pal" "jc_state ctx = ROOT_CONFIG_CHANNELS_ITEMS" "\<forall>ch \<in> set chs. ch_key ch = []"
  shows "\<exists>p. run_events pal (map (\<lambda>ch. E_string (ch_name ch)) chs) ctx =
    Inr (ctx\<lparr>jc_pool := p, jc_cfg := (jc_cfg ctx)\<lparr>cfg_channels := cfg_channels (jc_cfg ctx) @ chs\<rparr>\<rparr>, True)"
  using assms(2,3)
proof (induction chs arbitrary: ctx)
  case Nil
  then show ?case by (auto intro!: exI [of _ "jc_pool ctx"])
next
  case (Cons ch chs)
  obtain p1 ok where p1: "pal (jc_pool ctx) 40 = (p1, ok)" by fastforce
  then have ok by (rule pal_totalD [OF assms(1)])
  then have "\<exists>p2. callbacks pal (E_string (ch_name ch)) ctx =
      Inr (ctx\<lparr>jc_pool := p2, jc_cfg := (jc_cfg ctx)\<lparr>cfg_channels := cfg_channels (jc_cfg ctx) @ [ch]\<rparr>\<rparr>, True)"
    using Cons.prems p1 assms(1)
    by (intro exI [of _ "fst (pal p1 (length (ch_name ch)))"], cases ch)
      (simp add: rpcfg_string_def mkstr_total)
  then obtain p2 where e: "callbacks pal (E_string (ch_name ch)) ctx =
      Inr (ctx\<lparr>jc_pool := p2, jc_cfg := (jc_cfg ctx)\<lparr>cfg_channels := cfg_channels (jc_cfg ctx) @ [ch]\<rparr>\<rparr>, True)" ..
  show ?case
    unfolding list.map(2) run_events_step [OF e]
    using Cons.IH [of "ctx\<lparr>jc_pool := p2,
        jc_cfg := (jc_cfg ctx)\<lparr>cfg_channels := cfg_channels (jc_cfg ctx) @ [ch]\<rparr>\<rparr>"] Cons.prems
    by simp
qed

lemma run_server:
  assumes "pal_total pal" "jc_state ctx = ROOT_CONFIG_SERVERS_ITEMS"
  shows "\<exists>p sp. run_events pal (server_events r) ctx =
    Inr (ctx\<lparr>jc_pool := p, jc_server := sp,
             jc_cfg := (jc_cfg ctx)\<lparr>cfg_servers := cfg_servers (jc_cfg ctx) @ [r]\<rparr>\<rparr>, True)"
proof -
  obtain p1 ok where p1: "pal (jc_pool ctx) 40 = (p1, ok)" by fastforce
  then have ok by (rule pal_totalD [OF assms(1)])
  let ?p2 = "fst (pal p1 (length (srv_host r)))"
  let ?p3 = "fst (pal ?p2 (length (srv_port r)))"
  have "run_events pal (server_events r) ctx =
    Inr (ctx\<lparr>jc_pool := ?p3, jc_server := LinkedServer (length (cfg_servers (jc_cfg ctx))),
             jc_cfg := (jc_cfg ctx)\<lparr>cfg_servers := cfg_servers (jc_cfg ctx) @ [r]\<rparr>\<rparr>, True)"
    using p1 \<open>ok\<close> assms
    by (cases r; cases ctx) (simp add: server_events_def callback_defs mkstr_total del: res_bind_eq_Inr)
  then show ?thesis by blast
qed

lemma run_servers:
  assumes "pal_total pal" "jc_state ctx = ROOT_CONFIG_SERVERS_ITEMS"
  shows "\<exists>p sp. run_events pal (concat (map server_events rs)) ctx =
    Inr (ctx\<lparr>jc_pool := p, jc_server := sp,
             jc_cfg := (jc_cfg ctx)\<lparr>cfg_servers := cfg_servers (jc_cfg ctx) @ rs\<rparr>\<rparr>, True)"
  using assms(2)
proof (induction rs arbitrary: ctx)
  case Nil
  then show ?case by (auto intro!: exI [of _ "jc_pool ctx"] exI [of _ "jc_server ctx"])
next
  case (Cons r rs)
  from run_server [OF assms(1) Cons.prems, of r] obtain p sp where r:
    "run_events pal (server_events r) ctx = Inr (ctx\<lparr>jc_pool := p, jc_server := sp,
       jc_cfg := (jc_cfg ctx)\<lparr>cfg_servers := cfg_servers (jc_cfg ctx) @ [r]\<rparr>\<rparr>, True)" by blast
  let ?ctx = "ctx\<lparr>jc_pool := p, jc_server := sp,
       jc_cfg := (jc_cfg ctx)\<lparr>cfg_servers := cfg_servers (jc_cfg ctx) @ [r]\<rparr>\<rparr>"
  have "jc_state ?ctx = ROOT_CONFIG_SERVERS_ITEMS" using Cons.prems by simp
  from Cons.IH [OF this] show ?case by (simp add: run_events_seq [OF r])
qed

lemma run_identity:
  assumes "pal_total pal" "jc_state ctx = ROOT_CONFIG"
  shows "\<exists>p. run_events pal (identity_events c) ctx =
    Inr (ctx\<lparr>jc_pool := p, jc_cfg := (jc_cfg ctx)\<lparr>cfg_nicks := cfg_nicks (jc_cfg ctx) @ cfg_nicks c,
             cfg_name := cfg_name c, cfg_login := cfg_login c\<rparr>\<rparr>, True)"
proof -
  let ?ctx = "ctx\<lparr>jc_state := ROOT_CONFIG_IDENTITY_NICKS_ITEMS\<rparr>"
  obtain p where "run_events pal (map E_string (cfg_nicks c)) ?ctx =
    Inr (?ctx\<lparr>jc_pool := p, jc_cfg := (jc_cfg ?ctx)\<lparr>cfg_nicks := cfg_nicks (jc_cfg ?ctx) @ cfg_nicks c\<rparr>\<rparr>, True)"
    using run_nicks [OF assms(1), of ?ctx "cfg_nicks c"] by auto
  with assms show ?thesis
    by (cases ctx) (auto simp: identity_events_def run_events_append callback_defs mkstr_total)
qed

section \<open>Nesting\<close>

text \<open>
  What the yajl parser guarantees of its events: brackets match, keys and values of a map
  alternate. The stack holds the open brackets; a map expects a key or a value.
\<close>

datatype frame = In_array | Map_key | Map_val

fun value_done :: "frame list \<Rightarrow> frame list option" where
  "value_done (Map_val # st) = Some (Map_key # st)"
| "value_done (Map_key # st) = None"
| "value_done st = Some st"

fun nest :: "yajl_event \<Rightarrow> frame list \<Rightarrow> frame list option" where
  "nest E_start_map st = map_option (\<lambda>st'. Map_key # st') (value_done st)"
| "nest E_start_array st = map_option (\<lambda>st'. In_array # st') (value_done st)"
| "nest E_end_map (Map_key # st) = Some st"
| "nest E_end_map _ = None"
| "nest E_end_array (In_array # st) = Some st"
| "nest E_end_array _ = None"
| "nest (E_map_key s) (Map_key # st) = Some (Map_val # st)"
| "nest (E_map_key s) _ = None"
| "nest _ st = value_done st"

fun nested :: "yajl_event list \<Rightarrow> frame list \<Rightarrow> bool" where
  "nested [] st \<longleftrightarrow> True"
| "nested (e # es) st \<longleftrightarrow> (case nest e st of None \<Rightarrow> False | Some st' \<Rightarrow> nested es st')"

text \<open>
  The state against the nesting: a server is under construction exactly inside a map of
  the servers array.
\<close>

definition json_ok :: "frame list \<Rightarrow> 'p rp_json_ctx \<Rightarrow> bool" where
  "json_ok st ctx \<longleftrightarrow>
     (jc_state ctx = ROOT_CONFIG_SERVERS_ITEMS \<longrightarrow>
        (\<exists>u. st = In_array # u) \<or> (\<exists>u r. st = Map_key # In_array # u \<and> jc_server ctx = NewServer r)) \<and>
     (jc_state ctx \<in> {ROOT_CONFIG_SERVERS_ITEMS_HOST, ROOT_CONFIG_SERVERS_ITEMS_PORT} \<longrightarrow>
        (\<exists>k u r. k \<noteq> In_array \<and> st = k # In_array # u \<and> jc_server ctx = NewServer r))"

lemma value_done_cases:
  "value_done st = Some st' \<Longrightarrow>
     (\<exists>u. st = Map_val # u \<and> st' = Map_key # u) \<or> (st' = st \<and> (st = [] \<or> (\<exists>u. st = In_array # u)))"
  by (induction st rule: value_done.induct) auto

lemma callbacks_nested:
  assumes pal: "pal_total pal" and ok: "json_ok st ctx" and n: "nest e st = Some st'"
  shows "\<exists>ctx' b. callbacks pal e ctx = Inr (ctx', b) \<and> (b \<longrightarrow> json_ok st' ctx')"
proof (cases e)
  case (E_string s)
  with n have vd: "value_done st = Some st'" by simp
  obtain p1 ok1 where p1: "pal (jc_pool ctx) 24 = (p1, ok1)" by fastforce
  obtain p2 ok2 where p2: "pal (jc_pool ctx) 40 = (p2, ok2)" by fastforce
  have "ok1" "ok2" using p1 p2 pal_totalD [OF pal] by blast+
  with E_string ok value_done_cases [OF vd] p1 p2 pal show ?thesis
    by (cases "jc_state ctx") (auto simp: rpcfg_string_def mkstr_total json_ok_def upd_server_def Let_def)
next
  case E_start_map
  obtain p2 ok2 where p2: "pal (jc_pool ctx) 40 = (p2, ok2)" by fastforce
  have "ok2" using p2 pal_totalD [OF pal] by blast
  obtain u where "value_done st = Some u" "st' = Map_key # u" using n E_start_map by auto
  with E_start_map ok value_done_cases [of st u] p2 \<open>ok2\<close> show ?thesis
    by (cases "jc_state ctx") (auto simp: rpcfg_start_map_def json_ok_def)
next
  case E_end_map
  then obtain u where "st = Map_key # u" "st' = u"
    using n by (cases st rule: list.exhaust) (auto elim: nest.elims)
  with E_end_map ok show ?thesis
    by (cases "jc_state ctx") (auto simp: rpcfg_end_map_def append_server_def Let_def json_ok_def)
next
  case (E_map_key s)
  then obtain u where "st = Map_key # u" "st' = Map_val # u"
    using n by (auto elim: nest.elims)
  with E_map_key ok show ?thesis
    by (cases "jc_state ctx") (auto simp: rpcfg_map_key_def json_ok_def)
next
  case E_start_array
  then obtain u where "value_done st = Some u" "st' = In_array # u" using n by auto
  with E_start_array ok value_done_cases [of st u] show ?thesis
    by (cases "jc_state ctx") (auto simp: rpcfg_start_array_def json_ok_def)
next
  case E_end_array
  then obtain u where "st = In_array # u" "st' = u"
    using n by (auto elim: nest.elims)
  with E_end_array ok show ?thesis
    by (cases "jc_state ctx") (auto simp: rpcfg_end_array_def json_ok_def)
qed (use ok n value_done_cases [of st st'] in \<open>auto simp: json_ok_def\<close>)

lemma run_events_nested:
  "pal_total pal \<Longrightarrow> json_ok st ctx \<Longrightarrow> nested es st \<Longrightarrow> \<exists>ctx' b. run_events pal es ctx = Inr (ctx', b)"
proof (induction es arbitrary: st ctx)
  case (Cons e es)
  then obtain st' where st': "nest e st = Some st'" "nested es st'" by (auto split: option.splits)
  from callbacks_nested [OF Cons.prems(1,2) st'(1)] obtain ctx' b where
    "callbacks pal e ctx = Inr (ctx', b)" "b \<longrightarrow> json_ok st' ctx'" by blast
  with Cons.IH [OF Cons.prems(1) _ st'(2)] show ?case by auto
qed auto


section \<open>Properties\<close>

definition json_start :: "'p \<Rightarrow> rp_config \<Rightarrow> 'p rp_json_ctx" where
  "json_start pool cfg = \<lparr>jc_pool = pool, jc_cfg = cfg, jc_server = NoServer, jc_state = START\<rparr>"

lemma run_doc:
  assumes pal: "pal_total pal" and keys: "\<forall>ch \<in> set (cfg_channels c). ch_key ch = []"
  shows "\<exists>p sp. run_events pal (doc_events c) (json_start pool empty_config) =
    Inr (\<lparr>jc_pool = p, jc_cfg = c, jc_server = sp, jc_state = START\<rparr>, True)"
proof -
  let ?c0 = "\<lparr>jc_pool = pool, jc_cfg = empty_config, jc_server = NoServer, jc_state = ROOT_CONFIG\<rparr>"
  obtain p1 where r1: "run_events pal (identity_events c) ?c0 = Inr (?c0\<lparr>jc_pool := p1, jc_cfg :=
      empty_config\<lparr>cfg_nicks := cfg_nicks c, cfg_name := cfg_name c, cfg_login := cfg_login c\<rparr>\<rparr>, True)"
    using run_identity [OF pal, of ?c0 c] by (auto simp: empty_config_def)
  let ?c1 = "\<lparr>jc_pool = p1, jc_cfg = empty_config\<lparr>cfg_nicks := cfg_nicks c, cfg_name := cfg_name c,
      cfg_login := cfg_login c\<rparr>, jc_server = NoServer, jc_state = ROOT_CONFIG_SERVERS_ITEMS\<rparr>"
  obtain p2 sp where r2: "run_events pal (concat (map server_events (cfg_servers c))) ?c1 =
      Inr (?c1\<lparr>jc_pool := p2, jc_server := sp, jc_cfg := (jc_cfg ?c1)\<lparr>cfg_servers := cfg_servers c\<rparr>\<rparr>, True)"
    using run_servers [OF pal, of ?c1 "cfg_servers c"] by (auto simp: empty_config_def)
  let ?c2 = "\<lparr>jc_pool = p2, jc_cfg = (jc_cfg ?c1)\<lparr>cfg_servers := cfg_servers c\<rparr>, jc_server = sp,
      jc_state = ROOT_CONFIG_CHANNELS_ITEMS\<rparr>"
  obtain p3 where r3: "run_events pal (map (\<lambda>ch. E_string (ch_name ch)) (cfg_channels c)) ?c2 =
      Inr (?c2\<lparr>jc_pool := p3, jc_cfg := (jc_cfg ?c2)\<lparr>cfg_channels := cfg_channels c\<rparr>\<rparr>, True)"
    using run_channels [OF pal _ keys, of ?c2] by (auto simp: empty_config_def)
  have a: "run_events pal [E_start_map, E_map_key ''config'', E_start_map] (json_start pool empty_config) =
      Inr (?c0, True)"
    by (simp add: json_start_def callback_defs)
  have b: "run_events pal [E_map_key ''servers'', E_start_array] (?c0\<lparr>jc_pool := p1, jc_cfg :=
      empty_config\<lparr>cfg_nicks := cfg_nicks c, cfg_name := cfg_name c, cfg_login := cfg_login c\<rparr>\<rparr>) = Inr (?c1, True)"
    by (simp add: callback_defs)
  have d: "run_events pal [E_end_array, E_map_key ''channels'', E_start_array]
      (?c1\<lparr>jc_pool := p2, jc_server := sp, jc_cfg := (jc_cfg ?c1)\<lparr>cfg_servers := cfg_servers c\<rparr>\<rparr>) = Inr (?c2, True)"
    by (simp add: callback_defs)
  have "(jc_cfg ?c2)\<lparr>cfg_channels := cfg_channels c\<rparr> = c"
    by (cases c) (simp add: empty_config_def)
  then have e: "run_events pal [E_end_array, E_end_map, E_end_map]
      (?c2\<lparr>jc_pool := p3, jc_cfg := (jc_cfg ?c2)\<lparr>cfg_channels := cfg_channels c\<rparr>\<rparr>) =
      Inr (\<lparr>jc_pool = p3, jc_cfg = c, jc_server = sp, jc_state = START\<rparr>, True)"
    by (simp add: callback_defs)
  show ?thesis
    unfolding doc_events_def append_assoc run_events_seq [OF a] run_events_seq [OF r1] run_events_seq [OF b]
      run_events_seq [OF r2] run_events_seq [OF d] run_events_seq [OF r3] e
    by blast
qed

text \<open>The events of all chunks of a file, and whether the text is accepted to the end.\<close>

fun file_events :: "'y yajl_parser \<Rightarrow> 'y \<Rightarrow> bytes list \<Rightarrow> yajl_event list \<times> bool" where
  "file_events yj y [] = ([], True)"
| "file_events yj y (buf # reads) =
     (if buf = [] then ([], True)
      else let (y', es, lex_ok) = yj y buf
        in if lex_ok then (case file_events yj y' reads of (fs, b) \<Rightarrow> (es @ fs, b)) else (es, False))"

lemma load_loop_events:
  "load_loop pal yj y reads ctx =
     res_bind (run_events pal (fst (file_events yj y reads)) ctx)
       (\<lambda>(ctx', ok). Inr (ctx', ok \<and> snd (file_events yj y reads)))"
proof (induction reads arbitrary: y ctx)
  case (Cons buf reads)
  obtain y' es b where yj: "yj y buf = (y', es, b)" by (metis prod.exhaust)
  show ?case
    by (cases "run_events pal es ctx")
      (auto simp: yj Cons run_events_append split_beta split: prod.split)
qed simp

definition fixed_pal :: "nat palloc" where
  "fixed_pal p n = (p + n, True)"

lemma fixed_pal_total: "pal_total fixed_pal"
  by (simp add: pal_total_def fixed_pal_def)

definition sample_config :: rp_config where
  "sample_config = \<lparr>cfg_nicks = [''bot'', ''bot_''], cfg_name = ''Bot'', cfg_login = ''b'',
     cfg_servers = [\<lparr>srv_host = ''irc.x'', srv_port = ''6667''\<rparr>],
     cfg_channels = [\<lparr>ch_name = ''#c'', ch_key = []\<rparr>]\<rparr>"

definition whole_file :: "yajl_event list \<Rightarrow> nat yajl_parser" where
  "whole_file es y buf = (y, es, True)"

text \<open>
  C17: Loading the document of a configuration gives that configuration back: all nicks,
  servers and channels in order, the name and the login, and nothing else; the return value
  is 0, the file is closed and the temporary pool destroyed. The chunks in which the file
  is read play no role.
\<close>

theorem config_roundtrip:
  assumes "pal_total pal" "\<forall>ch \<in> set (cfg_channels c). ch_key ch = []"
    and "file_events yj hand reads = (doc_events c, True)"
  shows "\<exists>p. rp_config_load pal yj hand (Some tmp) pool (Some reads) empty_config =
    Inr \<lparr>lr_ret = 0, lr_cfg = c, lr_pool = p, lr_file_open = False, lr_tmp_live = False\<rparr>"
proof -
  obtain tp buf where pal: "pal tmp 2048 = (tp, buf)" by fastforce
  then have "buf" by (rule pal_totalD [OF assms(1)])
  obtain p sp where r: "run_events pal (doc_events c) (json_start pool empty_config) =
      Inr (\<lparr>jc_pool = p, jc_cfg = c, jc_server = sp, jc_state = START\<rparr>, True)"
    using run_doc [OF assms(1,2)] by blast
  have "rp_config_load pal yj hand (Some tmp) pool (Some reads) empty_config =
    Inr \<lparr>lr_ret = 0, lr_cfg = c, lr_pool = p, lr_file_open = False, lr_tmp_live = False\<rparr>"
    using pal \<open>buf\<close> r [unfolded json_start_def]
    by (simp add: rp_config_load_def load_loop_events assms(3) del: res_bind_eq_Inr)
  then show ?thesis by blast
qed

theorem config_roundtrip_witness:
  "\<exists>p. rp_config_load fixed_pal (whole_file (doc_events sample_config)) 0 (Some 0) 0
      (Some [''...'', []]) empty_config =
    Inr \<lparr>lr_ret = 0, lr_cfg = sample_config, lr_pool = p, lr_file_open = False, lr_tmp_live = False\<rparr>"
proof -
  have ev: "file_events (whole_file (doc_events sample_config)) 0 [''...'', []] = (doc_events sample_config, True)"
    by (simp add: whole_file_def)
  have "\<forall>ch \<in> set (cfg_channels sample_config). ch_key ch = []" by (simp add: sample_config_def)
  from config_roundtrip [OF fixed_pal_total this ev] show ?thesis .
qed

text \<open>
  C19: On every event sequence that the JSON parser can produce (brackets match, keys and
  values alternate, it may stop anywhere), with memory available, the callbacks never write
  through the null server pointer and never link a server into the list twice: the load
  returns 0 exactly when every callback and the lexer accepted, else -1.
\<close>

theorem config_load_safe:
  assumes "pal_total pal" "nested (fst (file_events yj hand reads)) []"
  shows "\<exists>r ctx ok. rp_config_load pal yj hand (Some tmp) pool (Some reads) cfg = Inr r \<and>
    run_events pal (fst (file_events yj hand reads)) (json_start pool cfg) = Inr (ctx, ok) \<and>
    lr_cfg r = jc_cfg ctx \<and>
    lr_ret r = (if ok \<and> snd (file_events yj hand reads) then 0 else - 1)"
proof -
  obtain tp buf where pal: "pal tmp 2048 = (tp, buf)" by fastforce
  then have "buf" by (rule pal_totalD [OF assms(1)])
  moreover have "json_ok [] (json_start pool cfg)" by (simp add: json_ok_def json_start_def)
  then obtain ctx ok where
    "run_events pal (fst (file_events yj hand reads)) (json_start pool cfg) = Inr (ctx, ok)"
    using run_events_nested [OF assms(1) _ assms(2)] by blast
  ultimately show ?thesis using pal
    by (simp add: rp_config_load_def load_loop_events json_start_def)
qed

theorem config_load_safe_witness:
  "\<exists>r. rp_config_load fixed_pal (whole_file [E_start_map, E_map_key ''c'', E_start_map, E_end_map, E_end_map]) 0
     (Some 0) 0 (Some [''{}'', []]) empty_config = Inr r \<and> lr_ret r = 0"
proof -
  let ?es = "[E_start_map, E_map_key ''c'', E_start_map, E_end_map, E_end_map]"
  have "nested (fst (file_events (whole_file ?es) 0 [''{}'', []])) []"
    by (simp add: whole_file_def)
  from config_load_safe [OF fixed_pal_total this, of 0 0 empty_config] show ?thesis
    by (auto simp: whole_file_def json_start_def callback_defs)
qed

text \<open>
  Nothing checks that the document is complete: after any prefix of an acceptable
  document, the empty file included, the load returns 0 with what was stored so far.
\<close>

theorem config_truncated_accepted:
  assumes "pal_total pal" "run_events pal (es @ fs) (json_start pool cfg) = Inr (ctx, True)"
    and "file_events yj hand reads = (es, True)"
  shows "\<exists>r. rp_config_load pal yj hand (Some tmp) pool (Some reads) cfg = Inr r \<and> lr_ret r = 0"
proof -
  obtain tp buf where pal: "pal tmp 2048 = (tp, buf)" by fastforce
  then have "buf" by (rule pal_totalD [OF assms(1)])
  moreover from assms(2) obtain ctx' where "run_events pal es (json_start pool cfg) = Inr (ctx', True)"
    by (auto simp: run_events_append split: if_splits)
  ultimately show ?thesis using pal assms(3)
    by (simp add: rp_config_load_def load_loop_events json_start_def)
qed

theorem config_truncated_accepted_witness:
  "\<exists>r. rp_config_load fixed_pal (whole_file []) 0 (Some 0) 0 (Some [[]]) empty_config = Inr r \<and> lr_ret r = 0"
  using run_doc [OF fixed_pal_total, of sample_config 0]
  by (auto simp: sample_config_def intro!: config_truncated_accepted [where es = "[]"] fixed_pal_total)

text \<open>
  A key is compared with \<open>strncmp\<close> on its own length: in the top map every prefix of
  "config" is taken for it (the empty key, too), and so is "config" followed by a null
  character and anything; all other keys are refused.
\<close>

theorem root_key_match:
  assumes "jc_state ctx = ROOT"
  shows "rpcfg_map_key ctx s =
    (if (\<exists>t. ''config'' = s @ t) \<or> (\<exists>t. s = ''config'' @ CHR 0x00 # t)
     then (ctx\<lparr>jc_state := ROOT_CONFIG\<rparr>, True) else (ctx, False))"
  using assms strncmp_eq_iff [of "''config''" s] by (simp add: rpcfg_map_key_def)

theorem root_key_match_witness:
  "snd (rpcfg_map_key ((json_start (0::nat) empty_config)\<lparr>jc_state := ROOT\<rparr>) [])"
proof -
  have "jc_state ((json_start (0::nat) empty_config)\<lparr>jc_state := ROOT\<rparr>) = ROOT" by simp
  from root_key_match [OF this, of "[]"] show ?thesis by simp
qed

text \<open>
  \<open>rpcfg_realloc\<close> copies the new size out of the old object: growing an object reads
  behind its end.
\<close>

theorem realloc_overread:
  assumes "pal_total pal" "length old < sz"
  shows "rpcfg_realloc pal tmp (Some old) fresh sz = Inl OutOfBounds"
  using pal_totalD [OF assms(1), of tmp sz] assms(2)
  by (auto simp: rpcfg_realloc_def mem_read_def split: prod.split)

theorem realloc_overread_witness:
  "rpcfg_realloc fixed_pal 0 (Some ''ab'') ''....'' 4 = Inl OutOfBounds"
  by (rule realloc_overread) (simp_all add: fixed_pal_total)

end
