(* ===== verification/Rp_Irc.thy ===== *)
theory Rp_Irc
  imports Rp_Fifo Irc_Message Rp_Config
begin

text \<open>
  The IRC client of rp_irc.c: the table of command handlers, the handlers and their
  replies, and the registration that is sent when a connection is up. The write buffer is
  shared with the event loop and is passed explicitly; the pool is a parameter.
\<close>

section \<open>State\<close>

text \<open>The handler functions by name; the hash table in insertion order, keys unique.\<close>

datatype rp_ev_handler = H_ping | H_auth

type_synonym rp_irc_hash = "(bytes \<times> rp_ev_handler list) list"

record 'p rp_irc_ctx =
  ic_pool :: 'p
  ic_hash :: rp_irc_hash
  ic_msg :: rp_ircsm_msg
  ic_cs :: irc_cs

text \<open>
  \<open>HASH_FIND\<close>, and \<open>LL_APPEND(ehash->ev, e)\<close> on the entry of a key.
\<close>

definition hash_find :: "rp_irc_hash \<Rightarrow> bytes \<Rightarrow> rp_ev_handler list option" where
  "hash_find h cmd = map_of h cmd"

fun hash_append :: "rp_irc_hash \<Rightarrow> bytes \<Rightarrow> rp_ev_handler \<Rightarrow> rp_irc_hash" where
  "hash_append [] cmd e = []"
| "hash_append ((k, es) # h) cmd e =
     (if k = cmd then (k, es @ [e]) # h else (k, es) # hash_append h cmd e)"

section \<open>Registration of handlers\<close>

text \<open>
  \<open>register_handler\<close>. The new table entry comes from \<open>rp_palloc\<close> and its \<open>ev\<close> is not
  set; \<open>zeroed\<close> says whether the memory happens to hold a null pointer there. If not,
  \<open>LL_APPEND\<close> walks a list that starts at an arbitrary address.
\<close>

definition register_handler :: "'p palloc \<Rightarrow> bool \<Rightarrow> 'p rp_irc_ctx \<Rightarrow> bytes \<Rightarrow> rp_ev_handler \<Rightarrow>
    'p rp_irc_ctx res" where
  "register_handler pal zeroed ctx cmd handler =
     (let found = hash_find (ic_hash ctx) cmd in
      res_bind
        (if found = None then
           (let (p, ok) = pal (ic_pool ctx) 72
            in if ok then Inr (ctx\<lparr>ic_pool := p, ic_hash := ic_hash ctx @ [(cmd, [])]\<rparr>) else Inl NullDeref)
         else Inr ctx)
        (\<lambda>ctx1.
          let (p, ok) = pal (ic_pool ctx1) 16
          in if \<not> ok then Inl NullDeref
             else if found = None \<and> \<not> zeroed then Inl Uninitialised
             else Inr (ctx1\<lparr>ic_pool := p, ic_hash := hash_append (ic_hash ctx1) cmd handler\<rparr>)))"

definition register_default_handlers :: "'p palloc \<Rightarrow> bool \<Rightarrow> 'p rp_irc_ctx \<Rightarrow> 'p rp_irc_ctx res" where
  "register_default_handlers pal zeroed ctx =
     res_bind (register_handler pal zeroed ctx ''PING'' H_ping)
       (\<lambda>ctx1. register_handler pal zeroed ctx1 ''004'' H_auth)"

text \<open>
  \<open>rp_irc_init\<close>; the three objects are the contents of the message buffers that the pool
  returns. A buffer that could not be allocated is null, the empty object.
\<close>

definition rp_irc_init :: "'p palloc \<Rightarrow> bool \<Rightarrow> bytes \<times> bytes \<times> bytes \<Rightarrow> 'p \<Rightarrow> 'p rp_irc_ctx res" where
  "rp_irc_init pal zeroed objs pool =
     (let (p0, c_ok) = pal pool 160
      in if \<not> c_ok then Inl NullDeref
         else let (p1, ok1) = pal p0 64; (p2, ok2) = pal p1 32; (p3, ok3) = pal p2 512;
                  (o1, o2, o3) = objs;
                  msg = rp_ircsm_msg_init (if ok1 then o1 else []) (if ok2 then o2 else [])
                          (if ok3 then o3 else [])
              in register_default_handlers pal zeroed
                   \<lparr>ic_pool = p3, ic_hash = [], ic_msg = msg, ic_cs = rp_ircsm_init\<rparr>)"

section \<open>Handlers\<close>

definition PONG :: bytes where "PONG = ''PONG ''"
definition JOIN :: bytes where "JOIN = ''JOIN ''"

text \<open>The bytes of an \<open>rp_str_t\<close> that points to the start of an object.\<close>

definition str_at :: "bytes \<Rightarrow> size_t \<Rightarrow> bytes res" where
  "str_at obj n = res_of_option OutOfBounds (mem_read obj 0 (unat n))"

text \<open>
  The handlers write to the fifo and ignore how much was taken; a put that would not
  return (which \<open>fifo_ok\<close> excludes) is counted as a fault.
\<close>

definition handle_ping :: "'p rp_irc_ctx \<Rightarrow> rp_fifo \<Rightarrow> rp_fifo res" where
  "handle_ping ctx wb =
     res_bind (str_at (params_ptr (ic_msg ctx)) (params_len (ic_msg ctx))) (\<lambda>params.
       res_of_option OutOfBounds (do {
         (wb1, _) \<leftarrow> rp_fifo_putstr wb PONG;
         (wb2, _) \<leftarrow> rp_fifo_putstring wb1 params;
         (wb3, _) \<leftarrow> rp_fifo_putstr wb2 cr_lf;
         Some wb3 }))"

definition handle_auth :: "rp_config \<Rightarrow> rp_fifo \<Rightarrow> rp_fifo res" where
  "handle_auth cfg wb =
     (case cfg_channels cfg of
        [] \<Rightarrow> Inl NullDeref
      | chan # _ \<Rightarrow>
          res_of_option OutOfBounds (do {
            (wb1, _) \<leftarrow> rp_fifo_putstr wb JOIN;
            (wb2, _) \<leftarrow> rp_fifo_putstring wb1 (ch_name chan);
            (wb3, _) \<leftarrow> rp_fifo_putstr wb2 cr_lf;
            Some wb3 }))"

fun run_handler :: "rp_config \<Rightarrow> 'p rp_irc_ctx \<Rightarrow> rp_ev_handler \<Rightarrow> rp_fifo \<Rightarrow> rp_fifo res" where
  "run_handler cfg ctx H_ping wb = handle_ping ctx wb"
| "run_handler cfg ctx H_auth wb = handle_auth cfg wb"

fun run_handlers :: "rp_config \<Rightarrow> 'p rp_irc_ctx \<Rightarrow> rp_ev_handler list \<Rightarrow> rp_fifo \<Rightarrow> rp_fifo res" where
  "run_handlers cfg ctx [] wb = Inr wb"
| "run_handlers cfg ctx (e # es) wb = res_bind (run_handler cfg ctx e wb) (run_handlers cfg ctx es)"

definition rp_irc_handle :: "rp_config \<Rightarrow> 'p rp_irc_ctx \<Rightarrow> rp_fifo \<Rightarrow> rp_fifo res" where
  "rp_irc_handle cfg ctx wb =
     res_bind (str_at (code_ptr (ic_msg ctx)) (code_len (ic_msg ctx))) (\<lambda>cmd.
       case hash_find (ic_hash ctx) cmd of
         None \<Rightarrow> Inr wb
       | Some es \<Rightarrow> run_handlers cfg ctx es wb)"

text \<open>\<open>rp_irc_parse\<close>: whether a message is complete, and the value of \<open>*len\<close>.\<close>

definition rp_irc_parse :: "'p rp_irc_ctx \<Rightarrow> bytes \<Rightarrow> (bool \<times> 'p rp_irc_ctx \<times> nat) res" where
  "rp_irc_parse ctx src =
     res_bind (rp_ircsm_parse (ic_msg ctx) (ic_cs ctx) src)
       (\<lambda>(b, m, cs, len). Inr (b, ctx\<lparr>ic_msg := m, ic_cs := cs\<rparr>, len))"

definition rp_irc_onconnect :: "rp_config \<Rightarrow> rp_fifo \<Rightarrow> rp_fifo res" where
  "rp_irc_onconnect cfg wb =
     (case cfg_nicks cfg of
        [] \<Rightarrow> Inl NullDeref
      | nick # _ \<Rightarrow>
          res_of_option OutOfBounds (do {
            (wb1, _) \<leftarrow> rp_fifo_putstr wb ''NICK '';
            (wb2, _) \<leftarrow> rp_fifo_putstring wb1 nick;
            (wb3, _) \<leftarrow> rp_fifo_putstr wb2 (cr_lf @ ''USER '');
            (wb4, _) \<leftarrow> rp_fifo_putstring wb3 (cfg_login cfg);
            (wb5, _) \<leftarrow> rp_fifo_putstr wb4 '' 8 * :'';
            (wb6, _) \<leftarrow> rp_fifo_putstring wb5 (cfg_name cfg);
            (wb7, _) \<leftarrow> rp_fifo_putstr wb6 cr_lf;
            Some wb7 }))"

section \<open>Replies\<close>

text \<open>The writes of a handler are one sequence of puts.\<close>

lemma handle_ping_seq:
  "handle_ping ctx wb =
     res_bind (str_at (params_ptr (ic_msg ctx)) (params_len (ic_msg ctx))) (\<lambda>params.
       res_of_option OutOfBounds (put_seq rp_fifo_putstr wb [PONG, params, cr_lf]))"
  by (simp add: handle_ping_def)

lemma handle_auth_seq:
  "handle_auth cfg wb = (case cfg_channels cfg of [] \<Rightarrow> Inl NullDeref
     | chan # _ \<Rightarrow> res_of_option OutOfBounds (put_seq rp_fifo_putstr wb [JOIN, ch_name chan, cr_lf]))"
  by (simp add: handle_auth_def split: list.split)

lemma onconnect_seq:
  "rp_irc_onconnect cfg wb = (case cfg_nicks cfg of [] \<Rightarrow> Inl NullDeref
     | nick # _ \<Rightarrow> res_of_option OutOfBounds (put_seq rp_fifo_putstr wb
         [''NICK '', nick, cr_lf @ ''USER '', cfg_login cfg, '' 8 * :'', cfg_name cfg, cr_lf]))"
  by (simp add: rp_irc_onconnect_def split: list.split)

text \<open>All strings of a configuration are shorter than the address space.\<close>

definition cfg_sizes :: "rp_config \<Rightarrow> bool" where
  "cfg_sizes cfg \<longleftrightarrow> (\<forall>s \<in> set (cfg_nicks cfg). length s < 2 ^ 64) \<and> length (cfg_name cfg) < 2 ^ 64 \<and>
     length (cfg_login cfg) < 2 ^ 64 \<and> (\<forall>ch \<in> set (cfg_channels cfg). length (ch_name ch) < 2 ^ 64)"

lemma puts_append:
  assumes "fifo_ok wb" "\<forall>s \<in> set ss. length s < 2 ^ 64"
  shows "\<exists>wb'. res_of_option OutOfBounds (put_seq rp_fifo_putstr wb ss) = Inr wb' \<and> fifo_ok wb' \<and>
    fifo_bytes wb' = fifo_bytes wb @ take (fifo_room wb) (concat ss) \<and>
    fifo_room wb' = fifo_room wb - length (concat ss)"
  using fifo_sink.put_seq_concat [OF assms] by auto

lemma str_at_params: "msg_ok m \<Longrightarrow> str_at (params_ptr m) (params_len m) = Inr (msg_params m)"
  by (simp add: str_at_def mem_read_def msg_ok_def msg_params_def)

lemma str_at_code: "msg_ok m \<Longrightarrow> str_at (code_ptr m) (code_len m) = Inr (msg_code m)"
  by (simp add: str_at_def mem_read_def msg_ok_def msg_code_def)

lemma msg_params_size: "msg_ok m \<Longrightarrow> length (msg_params m) < 2 ^ 64"
  by (auto simp: msg_ok_def msg_sizes_def msg_params_def)

definition ping_reply :: "bytes \<Rightarrow> bytes" where
  "ping_reply text = PONG @ text @ cr_lf"

lemma handle_ping_ok:
  assumes "msg_ok (ic_msg ctx)" "fifo_ok wb"
  shows "\<exists>wb'. handle_ping ctx wb = Inr wb' \<and> fifo_ok wb' \<and>
    fifo_bytes wb' = fifo_bytes wb @ take (fifo_room wb) (ping_reply (msg_params (ic_msg ctx))) \<and>
    fifo_room wb' = fifo_room wb - length (ping_reply (msg_params (ic_msg ctx)))"
  using puts_append [OF assms(2), of "[PONG, msg_params (ic_msg ctx), cr_lf]"] msg_params_size [OF assms(1)]
  by (simp add: handle_ping_seq str_at_params [OF assms(1)] ping_reply_def PONG_def cr_lf_def del: put_seq.simps)

lemma handle_auth_ok:
  assumes "fifo_ok wb" "cfg_sizes cfg" "cfg_channels cfg = chan # chans"
  shows "\<exists>wb'. handle_auth cfg wb = Inr wb' \<and> fifo_ok wb' \<and>
    fifo_bytes wb' = fifo_bytes wb @ take (fifo_room wb) (JOIN @ ch_name chan @ cr_lf) \<and>
    fifo_room wb' = fifo_room wb - length (JOIN @ ch_name chan @ cr_lf)"
  using puts_append [OF assms(1), of "[JOIN, ch_name chan, cr_lf]"] assms(2,3)
  by (simp add: handle_auth_seq JOIN_def cr_lf_def cfg_sizes_def del: put_seq.simps)

text \<open>The table after the registration of the default handlers.\<close>

definition default_hash :: rp_irc_hash where
  "default_hash = [(''PING'', [H_ping]), (''004'', [H_auth])]"

lemma register_default:
  assumes "pal_total pal"
  shows "\<exists>p. register_default_handlers pal True \<lparr>ic_pool = p0, ic_hash = [], ic_msg = m, ic_cs = cs\<rparr> =
    Inr \<lparr>ic_pool = p, ic_hash = default_hash, ic_msg = m, ic_cs = cs\<rparr>"
proof -
  have "\<exists>q. pal p n = (q, True)" for p n
    using assms by (metis pal_total_def prod.collapse)
  then obtain q1 q2 q3 q4 where "pal p0 72 = (q1, True)" "pal q1 16 = (q2, True)"
    "pal q2 72 = (q3, True)" "pal q3 16 = (q4, True)" by metis
  then show ?thesis
    by (simp add: register_default_handlers_def register_handler_def hash_find_def default_hash_def Let_def
        del: res_bind_eq_Inr)
qed

text \<open>What the client writes when a complete message has been received.\<close>

definition reply :: "rp_config \<Rightarrow> rp_ircsm_msg \<Rightarrow> bytes" where
  "reply cfg m =
     (if msg_code m = ''PING'' then ping_reply (msg_params m)
      else if msg_code m = ''004'' then JOIN @ ch_name (hd (cfg_channels cfg)) @ cr_lf
      else [])"

lemma handle_replies:
  assumes "msg_ok (ic_msg ctx)" "fifo_ok wb" "cfg_sizes cfg" "ic_hash ctx = default_hash"
    and "cfg_channels cfg \<noteq> [] \<or> msg_code (ic_msg ctx) \<noteq> ''004''"
  shows "\<exists>wb'. rp_irc_handle cfg ctx wb = Inr wb' \<and> fifo_ok wb' \<and>
    fifo_bytes wb' = fifo_bytes wb @ take (fifo_room wb) (reply cfg (ic_msg ctx)) \<and>
    fifo_room wb' = fifo_room wb - length (reply cfg (ic_msg ctx))"
proof -
  consider (ping) "msg_code (ic_msg ctx) = ''PING''" | (auth) "msg_code (ic_msg ctx) = ''004''"
    | (other) "msg_code (ic_msg ctx) \<noteq> ''PING''" "msg_code (ic_msg ctx) \<noteq> ''004''"
    by blast
  then show ?thesis
  proof cases
    case ping
    with handle_ping_ok [OF assms(1,2)] show ?thesis
      by (auto simp: rp_irc_handle_def str_at_code [OF assms(1)] assms(4) hash_find_def default_hash_def reply_def)
  next
    case auth
    with assms(5) obtain chan chans where "cfg_channels cfg = chan # chans" by (auto simp: neq_Nil_conv)
    with auth handle_auth_ok [OF assms(2,3) this] show ?thesis
      by (auto simp: rp_irc_handle_def str_at_code [OF assms(1)] assms(4) hash_find_def default_hash_def reply_def)
  next
    case other
    with assms(2) show ?thesis
      by (simp add: rp_irc_handle_def str_at_code [OF assms(1)] assms(4) hash_find_def default_hash_def reply_def)
  qed
qed


section \<open>Properties\<close>

lemma fresh_msg_ok: "msg_ok fresh_msg"
  by (simp add: msg_ok_def msg_sizes_def fresh_msg_def rp_ircsm_msg_init_def)

definition ready_ctx :: "nat rp_irc_ctx" where
  "ready_ctx = \<lparr>ic_pool = 0, ic_hash = default_hash, ic_msg = fresh_msg, ic_cs = irc_start\<rparr>"

definition reply_fifo :: rp_fifo where
  "reply_fifo = rp_fifo_init \<lparr>f_capacity = 2048, f_count = 0, f_head = 0, f_tail = 0, f_end = 0,
     f_buffer = replicate 2048 CHR 0x00\<rparr>"

lemma reply_fifo_ok: "fifo_ok reply_fifo" "fifo_bytes reply_fifo = []" "fifo_room reply_fifo = 2048"
  by (simp_all add: fifo_ok_def reply_fifo_def rp_fifo_init_def fifo_bytes_def fifo_room_def)

lemma sample_config_sizes: "cfg_sizes sample_config"
  by (simp add: cfg_sizes_def sample_config_def)

text \<open>
  With memory available and zeroed, \<open>rp_irc_init\<close> makes a client in the parser's start
  state whose table sends PING to \<open>handle_ping\<close> and 004 to \<open>handle_auth\<close>, with message
  buffers of the three sizes.
\<close>

theorem irc_init_ok:
  assumes "pal_total pal" "length o1 = 64" "length o2 = 32" "length o3 = 512"
  shows "\<exists>ctx. rp_irc_init pal True (o1, o2, o3) pool = Inr ctx \<and> ic_hash ctx = default_hash \<and>
    ic_cs ctx = irc_start \<and> msg_ok (ic_msg ctx) \<and> prefix_ptr (ic_msg ctx) = o1 \<and>
    code_ptr (ic_msg ctx) = o2 \<and> params_ptr (ic_msg ctx) = o3"
proof -
  have "\<exists>q. pal p n = (q, True)" for p n
    using assms(1) by (metis pal_total_def prod.collapse)
  then obtain q0 q1 q2 q3 where "pal pool 160 = (q0, True)" "pal q0 64 = (q1, True)"
    "pal q1 32 = (q2, True)" "pal q2 512 = (q3, True)" by metis
  moreover obtain p where "register_default_handlers pal True
      \<lparr>ic_pool = q3, ic_hash = [], ic_msg = rp_ircsm_msg_init o1 o2 o3, ic_cs = rp_ircsm_init\<rparr> =
      Inr \<lparr>ic_pool = p, ic_hash = default_hash, ic_msg = rp_ircsm_msg_init o1 o2 o3, ic_cs = rp_ircsm_init\<rparr>"
    using register_default [OF assms(1)] by blast
  ultimately show ?thesis
    using assms(2-4)
    by (simp add: rp_irc_init_def Let_def msg_ok_def msg_sizes_def rp_ircsm_msg_init_def rp_ircsm_init_def)
qed

theorem irc_init_ok_witness:
  "\<exists>ctx. rp_irc_init fixed_pal True
     (replicate 64 CHR 0x00, replicate 32 CHR 0x00, replicate 512 CHR 0x00) 0 = Inr ctx \<and>
     ic_hash ctx = default_hash"
  using irc_init_ok [OF fixed_pal_total, of "replicate 64 CHR 0x00" "replicate 32 CHR 0x00"
      "replicate 512 CHR 0x00" 0] by auto

text \<open>
  \<open>register_handler\<close> does not initialise the list of a new command: unless the pool's
  memory happens to be zero, the start-up walks a list from an arbitrary address.
\<close>

theorem irc_init_uninitialised:
  assumes "pal_total pal"
  shows "rp_irc_init pal False objs pool = Inl Uninitialised"
proof -
  have pal: "\<exists>q. pal p n = (q, True)" for p n
    using assms by (metis pal_total_def prod.collapse)
  have "register_default_handlers pal False \<lparr>ic_pool = p, ic_hash = [], ic_msg = m, ic_cs = cs\<rparr> =
      Inl Uninitialised" for p m cs
  proof -
    from pal obtain q1 q2 where "pal p 72 = (q1, True)" "pal q1 16 = (q2, True)" by metis
    then show ?thesis
      by (simp add: register_default_handlers_def register_handler_def hash_find_def Let_def)
  qed
  moreover from pal obtain q0 where "pal pool 160 = (q0, True)" by metis
  ultimately show ?thesis by (simp add: rp_irc_init_def Let_def split_beta)
qed

theorem irc_init_uninitialised_witness:
  "rp_irc_init fixed_pal False (''a'', ''b'', ''c'') 0 = Inl Uninitialised"
  by (rule irc_init_uninitialised [OF fixed_pal_total])

text \<open>
  \<open>rp_irc_handle\<close> answers exactly PING (with PONG and the parameters) and 004 (with
  JOIN and the first channel); every other command writes nothing. What does not fit the
  write buffer is dropped from the end of the reply; the fifo stays well-formed.
\<close>

theorem irc_handle_reply:
  assumes "msg_ok (ic_msg ctx)" "fifo_ok wb" "cfg_sizes cfg" "ic_hash ctx = default_hash"
    and "cfg_channels cfg \<noteq> []"
  shows "\<exists>wb'. rp_irc_handle cfg ctx wb = Inr wb' \<and> fifo_ok wb' \<and>
    fifo_bytes wb' = fifo_bytes wb @ take (fifo_room wb)
      (if msg_code (ic_msg ctx) = ''PING'' then ''PONG '' @ msg_params (ic_msg ctx) @ cr_lf
       else if msg_code (ic_msg ctx) = ''004'' then ''JOIN '' @ ch_name (hd (cfg_channels cfg)) @ cr_lf
       else [])"
  using handle_replies [OF assms(1-4) disjI1 [OF assms(5)]]
  unfolding reply_def ping_reply_def PONG_def JOIN_def by blast

theorem irc_handle_reply_witness:
  "\<exists>wb. rp_irc_handle sample_config (ready_ctx\<lparr>ic_msg := fresh_msg\<lparr>code_ptr := ''004'', code_len := 3\<rparr>\<rparr>)
     reply_fifo = Inr wb \<and> fifo_bytes wb = ''JOIN #c'' @ cr_lf"
proof -
  define ctx where "ctx = ready_ctx\<lparr>ic_msg := fresh_msg\<lparr>code_ptr := ''004'', code_len := 3\<rparr>\<rparr>"
  have m: "msg_ok (ic_msg ctx)" "ic_hash ctx = default_hash" "msg_code (ic_msg ctx) = ''004''"
    using fresh_msg_ok by (simp_all add: ctx_def msg_ok_def msg_sizes_def ready_ctx_def msg_code_def)
  have ch: "cfg_channels sample_config \<noteq> []" "ch_name (hd (cfg_channels sample_config)) = ''#c''"
    by (simp_all add: sample_config_def)
  from irc_handle_reply [OF m(1) reply_fifo_ok(1) sample_config_sizes m(2) ch(1)] show ?thesis
    unfolding ctx_def [symmetric] by (auto simp: m(3) ch(2) reply_fifo_ok cr_lf_def)
qed

text \<open>
  C6: From the wire to the reply: when a PING message that fits the buffers arrives (with
  any prefix, followed by anything), parsing and handling it appends PONG, the message's
  parameters and CR LF to a write buffer with room, and the parser is ready for the next
  message behind exactly this one.
\<close>

theorem ping_pong:
  assumes "msg_ok (ic_msg ctx)" "ic_cs ctx = irc_start" "ic_hash ctx = default_hash"
    and "fifo_ok wb" "cfg_sizes cfg"
    and "wf_line l" "fits (ic_msg ctx) l" "l_code l = ''PING''" "l_params l \<noteq> []"
    and "7 + length (strip_spaces (l_params l)) \<le> fifo_room wb"
  shows "\<exists>ctx' wb'. rp_irc_parse ctx (render l @ rest) = Inr (True, ctx', length (render l)) \<and>
    rp_irc_handle cfg ctx' wb = Inr wb' \<and> ic_cs ctx' = irc_start \<and> fifo_ok wb' \<and>
    fifo_bytes wb' = fifo_bytes wb @ ''PONG '' @ strip_spaces (l_params l) @ cr_lf"
proof -
  have "msg_sizes (ic_msg ctx)" using assms(1) by (simp add: msg_ok_def)
  with parse_line [OF assms(6), of "ic_msg ctx" rest] assms(7) obtain m' where m':
    "rp_ircsm_parse (ic_msg ctx) irc_start (render l @ rest) = Inr (True, m', irc_start, length (render l))"
    "stored l (ic_msg ctx) m'" by auto
  let ?ctx = "ctx\<lparr>ic_msg := m', ic_cs := irc_start\<rparr>"
  have ok: "msg_ok (ic_msg ?ctx)" using parse_msg_ok [OF assms(1) m'(1)] by simp
  have "msg_code (ic_msg ?ctx) = ''PING''" "msg_params (ic_msg ?ctx) = strip_spaces (l_params l)"
    using m'(2) assms(8,9) by (simp_all add: stored_def)
  moreover from this have "length (reply cfg (ic_msg ?ctx)) \<le> fifo_room wb"
    using assms(10) by (simp add: reply_def ping_reply_def PONG_def cr_lf_def)
  ultimately obtain wb' where "rp_irc_handle cfg ?ctx wb = Inr wb'" "fifo_ok wb'"
    "fifo_bytes wb' = fifo_bytes wb @ ''PONG '' @ strip_spaces (l_params l) @ cr_lf"
    using handle_replies [OF ok assms(4,5)] assms(3) by (auto simp: reply_def ping_reply_def PONG_def)
  moreover have "rp_irc_parse ctx (render l @ rest) = Inr (True, ?ctx, length (render l))"
    using m'(1) assms(2) by (simp add: rp_irc_parse_def)
  ultimately show ?thesis by (metis rp_irc_ctx.select_convs(4) rp_irc_ctx.surjective rp_irc_ctx.update_convs(4))
qed

theorem ping_pong_witness:
  "\<exists>ctx' wb' n. rp_irc_parse ready_ctx (''PING :abc'' @ cr_lf @ ''X'') = Inr (True, ctx', n) \<and>
    rp_irc_handle sample_config ctx' reply_fifo = Inr wb' \<and> fifo_bytes wb' = ''PONG :abc'' @ cr_lf"
proof -
  have c: "msg_ok (ic_msg ready_ctx)" "ic_cs ready_ctx = irc_start" "ic_hash ready_ctx = default_hash"
    "fits (ic_msg ready_ctx) ping_line"
    using fresh_msg_ok ping_line_fits by (simp_all add: ready_ctx_def)
  have l: "l_code ping_line = ''PING''" "l_params ping_line \<noteq> []" "strip_spaces (l_params ping_line) = '':abc''"
    by (simp_all add: ping_line_def strip_spaces_def)
  then have "7 + length (strip_spaces (l_params ping_line)) \<le> fifo_room reply_fifo"
    by (simp add: reply_fifo_ok)
  from ping_pong [OF c(1-3) reply_fifo_ok(1) sample_config_sizes ping_line_ok c(4) l(1,2) this, of "''X''"]
  show ?thesis by (auto simp: l(3) reply_fifo_ok render_ping_line)
qed

text \<open>
  On connection the client registers: NICK with the first configured nick, then USER
  with login and name, in one piece when the write buffer has room.
\<close>

theorem onconnect_registers:
  assumes "fifo_ok wb" "cfg_sizes cfg" "cfg_nicks cfg = nick # nicks"
    and "21 + length nick + length (cfg_login cfg) + length (cfg_name cfg) \<le> fifo_room wb"
  shows "\<exists>wb'. rp_irc_onconnect cfg wb = Inr wb' \<and> fifo_ok wb' \<and>
    fifo_bytes wb' = fifo_bytes wb @ ''NICK '' @ nick @ cr_lf @ ''USER '' @ cfg_login cfg @ '' 8 * :'' @
      cfg_name cfg @ cr_lf"
proof -
  have "length (concat [''NICK '', nick, cr_lf @ ''USER '', cfg_login cfg, '' 8 * :'', cfg_name cfg, cr_lf])
      \<le> fifo_room wb"
    using assms(4) by (simp add: cr_lf_def)
  moreover have "\<forall>s \<in> set [''NICK '', nick, cr_lf @ ''USER '', cfg_login cfg, '' 8 * :'', cfg_name cfg, cr_lf].
      length s < 2 ^ 64"
    using assms(2,3) by (simp add: cfg_sizes_def cr_lf_def)
  ultimately show ?thesis
    using puts_append [OF assms(1), of "[''NICK '', nick, cr_lf @ ''USER '', cfg_login cfg, '' 8 * :'',
      cfg_name cfg, cr_lf]"] assms(3) by (auto simp: onconnect_seq simp del: put_seq.simps)
qed

theorem onconnect_registers_witness:
  "\<exists>wb. rp_irc_onconnect sample_config reply_fifo = Inr wb \<and>
     fifo_bytes wb = ''NICK bot'' @ cr_lf @ ''USER b 8 * :Bot'' @ cr_lf"
proof -
  have c: "cfg_nicks sample_config = ''bot'' # [''bot_'']" "cfg_login sample_config = ''b''"
    "cfg_name sample_config = ''Bot''" by (simp_all add: sample_config_def)
  have "21 + length ''bot'' + length (cfg_login sample_config) + length (cfg_name sample_config) \<le> fifo_room reply_fifo"
    by (simp add: c reply_fifo_ok)
  from onconnect_registers [OF reply_fifo_ok(1) sample_config_sizes c(1) this] show ?thesis
    by (auto simp: c reply_fifo_ok)
qed

text \<open>
  The configuration is not checked: without a nick the registration dereferences a null
  pointer when the connection comes up, without a channel the answer to 004 does.
\<close>

theorem incomplete_config_crashes:
  assumes "msg_ok (ic_msg ctx)" "ic_hash ctx = default_hash" "msg_code (ic_msg ctx) = ''004''"
  shows "(cfg_nicks cfg = [] \<longrightarrow> rp_irc_onconnect cfg wb = Inl NullDeref) \<and>
    (cfg_channels cfg = [] \<longrightarrow> rp_irc_handle cfg ctx wb = Inl NullDeref)"
  using assms
  by (simp add: rp_irc_onconnect_def rp_irc_handle_def str_at_code hash_find_def default_hash_def handle_auth_def)

theorem incomplete_config_crashes_witness:
  "rp_irc_onconnect empty_config reply_fifo = Inl NullDeref \<and>
   rp_irc_handle empty_config (ready_ctx\<lparr>ic_msg := fresh_msg\<lparr>code_ptr := ''004'', code_len := 3\<rparr>\<rparr>)
     reply_fifo = Inl NullDeref"
proof -
  let ?ctx = "ready_ctx\<lparr>ic_msg := fresh_msg\<lparr>code_ptr := ''004'', code_len := 3\<rparr>\<rparr>"
  have m: "msg_ok (ic_msg ?ctx)" "ic_hash ?ctx = default_hash" "msg_code (ic_msg ?ctx) = ''004''"
    using fresh_msg_ok by (simp_all add: msg_ok_def msg_sizes_def ready_ctx_def msg_code_def)
  from incomplete_config_crashes [OF m, of empty_config reply_fifo] show ?thesis
    by (simp add: empty_config_def)
qed

end
