(* ===== verification/Rp_Event.thy ===== *)
theory Rp_Event
  imports Rp_Fifo Rp_Config
begin

text \<open>
  The event loop of rp_event.c: name resolution, connecting, socket reads and writes
  through the two fifos, signals, and one round of polling. The kernel is a parameter: the
  result of a system call may depend on all calls made before, which the context records
  with their results in \<open>ev_hist\<close>.
\<close>

unbundle bit_operations_syntax

section \<open>System calls\<close>

text \<open>The address list of a resolution; \<open>ai_next\<close> is the rest of the list.\<close>

record addrinfo =
  ai_family :: int
  ai_socktype :: int
  ai_protocol :: int
  ai_addr :: bytes

datatype read_result = R_data bytes | R_errno int
datatype write_result = W_count nat | W_errno int
datatype poll_result = P_events "(int \<times> 32 word) list" | P_errno int

text \<open>
  A read of the signal descriptor: a full record with the signal number and, when
  \<open>ssi_ptr\<close> points to a request, that request's \<open>ar_result\<close>; a short read; end of file;
  an error.
\<close>

datatype sig_read = S_info nat "addrinfo list option" | S_short | S_eof | S_errno int

datatype sigaction_result = SA_errno int | SA_old bool nat

datatype syscall =
    C_read int nat read_result
  | C_write int bytes write_result
  | C_close int
  | C_epoll_add int "32 word" | C_epoll_mod int "32 word" | C_epoll_del int
  | C_socket int int int int
  | C_getfl int | C_setfl int int
  | C_connect int bytes int
  | C_getaddrinfo bytes bytes int
  | C_freeaddrinfo "addrinfo list"
  | C_epoll_wait int poll_result
  | C_sigread int
  | C_sigaction int
  | C_sigprocmask "int list" | C_signalfd "int list" | C_epoll_create

type_synonym history = "syscall list"

text \<open>
  The kernel: what each call returns after a history. \<open>k_connect\<close> is 0 or the negated
  errno; \<open>k_sigreads\<close> are the reads of the signal descriptor until it would block.
\<close>

record kernel =
  k_read :: "history \<Rightarrow> int \<Rightarrow> nat \<Rightarrow> read_result"
  k_write :: "history \<Rightarrow> int \<Rightarrow> bytes \<Rightarrow> write_result"
  k_socket :: "history \<Rightarrow> addrinfo \<Rightarrow> int"
  k_setfl :: "history \<Rightarrow> int \<Rightarrow> int"
  k_connect :: "history \<Rightarrow> int \<Rightarrow> bytes \<Rightarrow> int"
  k_epoll_mod :: "history \<Rightarrow> int \<Rightarrow> int"
  k_epoll_wait :: "history \<Rightarrow> int \<Rightarrow> poll_result"
  k_sigreads :: "history \<Rightarrow> sig_read list"
  k_sigaction :: "history \<Rightarrow> int \<Rightarrow> sigaction_result"
  k_sigprocmask :: "history \<Rightarrow> int"
  k_signalfd :: "history \<Rightarrow> int"
  k_epoll_create :: "history \<Rightarrow> int"

definition EINTR :: int where "EINTR = 4"
definition EAGAIN :: int where "EAGAIN = 11"
definition EINPROGRESS :: int where "EINPROGRESS = 115"
definition SIGINT :: nat where "SIGINT = 2"
definition SIGRTMIN :: int where "SIGRTMIN = 34"
definition SIGRTMAX :: int where "SIGRTMAX = 64"
definition O_NONBLOCK :: int where "O_NONBLOCK = 2048"

definition EPOLLIN :: "32 word" where "EPOLLIN = 0x1"
definition EPOLLOUT :: "32 word" where "EPOLLOUT = 0x4"
definition EPOLLERR :: "32 word" where "EPOLLERR = 0x8"
definition EPOLLHUP :: "32 word" where "EPOLLHUP = 0x10"
definition EPOLLRDHUP :: "32 word" where "EPOLLRDHUP = 0x2000"
definition EPOLLET :: "32 word" where "EPOLLET = 0x80000000"

text \<open>What \<open>read\<close> and \<open>write\<close> promise: never more bytes than asked for.\<close>

definition sys_read :: "kernel \<Rightarrow> history \<Rightarrow> int \<Rightarrow> nat \<Rightarrow> read_result" where
  "sys_read k h fd n = (case k_read k h fd n of R_data d \<Rightarrow> R_data (take n d) | R_errno e \<Rightarrow> R_errno e)"

definition sys_write :: "kernel \<Rightarrow> history \<Rightarrow> int \<Rightarrow> bytes \<Rightarrow> write_result" where
  "sys_write k h fd d = (case k_write k h fd d of W_count n \<Rightarrow> W_count (min n (length d)) | W_errno e \<Rightarrow> W_errno e)"

section \<open>State\<close>

datatype conn_state = DISCONNECTED | RESOLVING | RESOLVED | CONNECTING | CONNECTED

text \<open>
  \<open>ev_res\<close> is a suffix of \<open>ev_res0\<close>, empty for null. The fifos are those of the program's
  context. \<open>now\<close> in the operations is \<open>rp_current_msec\<close>.
\<close>

record rp_event_ctx =
  ev_next_conn_msec :: size_t
  ev_conn_timeout_msec :: size_t
  ev_res0 :: "addrinfo list"
  ev_res :: "addrinfo list"
  ev_ar_name :: bytes
  ev_ar_service :: bytes
  ev_state :: conn_state
  ev_addr_sig :: int
  ev_sock_fd :: int
  ev_sig_fd :: int
  ev_epoll_fd :: int
  ev_read_full :: bool
  ev_write_full :: bool
  ev_read_buf :: rp_fifo
  ev_write_buf :: rp_fifo
  ev_hist :: history

record rp_events =
  evs_connected :: bool
  evs_disconnected :: bool
  evs_sig_int :: bool

definition no_events :: rp_events where
  "no_events = \<lparr>evs_connected = False, evs_disconnected = False, evs_sig_int = False\<rparr>"

definition IRC_CONNECT_TIMEOUT :: size_t where "IRC_CONNECT_TIMEOUT = 5 * 1000"
definition IRC_RETRY_DELAY :: size_t where "IRC_RETRY_DELAY = 30 * 1000"
definition MAX_EVENTS :: nat where "MAX_EVENTS = 64"

definition log :: "syscall \<Rightarrow> rp_event_ctx \<Rightarrow> rp_event_ctx" where
  "log c ctx = ctx\<lparr>ev_hist := ev_hist ctx @ [c]\<rparr>"

section \<open>Start\<close>

definition rp_freeaddrinfo :: "rp_event_ctx \<Rightarrow> rp_event_ctx" where
  "rp_freeaddrinfo ctx =
     (if ev_res0 ctx \<noteq> [] then log (C_freeaddrinfo (ev_res0 ctx)) ctx else ctx)\<lparr>ev_res0 := [], ev_res := []\<rparr>"

text \<open>The search repeats a call that was interrupted, so it may not end.\<close>

partial_function (option) find_rt_signal_from :: "kernel \<Rightarrow> history \<Rightarrow> int \<Rightarrow> (history \<times> int) option" where
  "find_rt_signal_from k h sig =
     (if sig \<le> SIGRTMAX then
        case k_sigaction k h sig of
          SA_errno e \<Rightarrow>
            if e = EINTR then find_rt_signal_from k (h @ [C_sigaction sig]) sig
            else find_rt_signal_from k (h @ [C_sigaction sig]) (sig + 1)
        | SA_old siginfo handler \<Rightarrow>
            if handler = 0 then Some (h @ [C_sigaction sig], sig)
            else find_rt_signal_from k (h @ [C_sigaction sig]) (sig + 1)
      else Some (h, - 1))"

definition find_rt_signal :: "kernel \<Rightarrow> history \<Rightarrow> (history \<times> int) option" where
  "find_rt_signal k h = find_rt_signal_from k h SIGRTMIN"

definition sig_init :: "kernel \<Rightarrow> rp_event_ctx \<Rightarrow> rp_event_ctx res" where
  "sig_init k ctx =
     (let mask = [int SIGINT, ev_addr_sig ctx];
          r = k_sigprocmask k (ev_hist ctx);
          ctx1 = log (C_sigprocmask mask) ctx
      in if r = - 1 then Inl Aborted
         else let fd = k_signalfd k (ev_hist ctx1);
                  ctx2 = (log (C_signalfd mask) ctx1)\<lparr>ev_sig_fd := fd\<rparr>
           in if fd = - 1 then Inl Aborted
              else Inr (log (C_epoll_add fd (EPOLLIN OR EPOLLRDHUP OR EPOLLERR OR EPOLLET)) ctx2))"

text \<open>
  The two name buffers are the objects that the pool returns (256 and 32 bytes), empty if
  null. \<open>None\<close>: the signal search does not end.
\<close>

definition rp_event_init :: "kernel \<Rightarrow> bool \<Rightarrow> bytes \<Rightarrow> bytes \<Rightarrow> rp_fifo \<Rightarrow> rp_fifo \<Rightarrow> history \<Rightarrow>
    rp_event_ctx res option" where
  "rp_event_init k c_ok name_obj service_obj read_buf write_buf h =
     (if \<not> c_ok then Some (Inl NullDeref)
      else let efd = k_epoll_create k h; h1 = h @ [C_epoll_create] in
        if efd = - 1 then Some (Inl Aborted)
        else do {
          (h2, sig) \<leftarrow> find_rt_signal k h1;
          Some (if sig = - 1 then Inl Aborted
                else sig_init k \<lparr>ev_next_conn_msec = 0, ev_conn_timeout_msec = 0, ev_res0 = [], ev_res = [],
                  ev_ar_name = name_obj, ev_ar_service = service_obj, ev_state = DISCONNECTED,
                  ev_addr_sig = sig, ev_sock_fd = - 1, ev_sig_fd = - 1, ev_epoll_fd = efd,
                  ev_read_full = False, ev_write_full = False,
                  ev_read_buf = read_buf, ev_write_buf = write_buf, ev_hist = h2\<rparr>)
        })"

section \<open>Connecting\<close>

text \<open>\<open>memcpy\<close> of a string into a name buffer and a null character behind it.\<close>

definition set_name :: "bytes \<Rightarrow> bytes \<Rightarrow> bytes res" where
  "set_name buf s = res_bind (res_of_option OutOfBounds (mem_write buf 0 s))
     (\<lambda>b. res_of_option OutOfBounds (mem_write b (length s) [CHR 0x00]))"

definition start_resolve :: "rp_config \<Rightarrow> rp_event_ctx \<Rightarrow> rp_event_ctx res" where
  "start_resolve cfg ctx =
     (case cfg_servers cfg of
        [] \<Rightarrow> Inl NullDeref
      | server # _ \<Rightarrow>
          res_bind (set_name (ev_ar_name ctx) (srv_host server)) (\<lambda>name.
          res_bind (set_name (ev_ar_service ctx) (srv_port server)) (\<lambda>service.
            Inr (log (C_getaddrinfo name service (ev_addr_sig ctx))
                  (ctx\<lparr>ev_ar_name := name, ev_ar_service := service\<rparr>)))))"

definition rp_disconnect :: "size_t \<Rightarrow> rp_event_ctx \<Rightarrow> rp_event_ctx" where
  "rp_disconnect now ctx =
     (let ctx1 = log (C_close (ev_sock_fd ctx)) (log (C_epoll_del (ev_sock_fd ctx)) ctx)
      in rp_freeaddrinfo (ctx1\<lparr>ev_sock_fd := - 1, ev_state := DISCONNECTED,
           ev_next_conn_msec := now + IRC_RETRY_DELAY\<rparr>))"

text \<open>The label \<open>conn_fail\<close>: the descriptor is closed but stays in \<open>sock_fd\<close>.\<close>

definition conn_fail :: "size_t \<Rightarrow> rp_event_ctx \<Rightarrow> rp_event_ctx \<times> int" where
  "conn_fail now ctx =
     (let ctx1 = (if ev_sock_fd ctx \<noteq> - 1 then log (C_close (ev_sock_fd ctx)) ctx else ctx)
      in (ctx1\<lparr>ev_next_conn_msec := now + IRC_RETRY_DELAY\<rparr>, - 1))"

definition rp_tryconnect :: "kernel \<Rightarrow> size_t \<Rightarrow> rp_event_ctx \<Rightarrow> rp_event_ctx \<times> int" where
  "rp_tryconnect k now ctx0 =
     (let ctx = ctx0\<lparr>ev_res := (if ev_res ctx0 = [] then ev_res0 ctx0 else tl (ev_res ctx0))\<rparr>
      in case ev_res ctx of
           [] \<Rightarrow> (rp_disconnect now ctx, 0)
         | a # _ \<Rightarrow>
             (let fd = k_socket k (ev_hist ctx) a;
                  ctx1 = (log (C_socket (ai_family a) (ai_socktype a) (ai_protocol a) fd) ctx)\<lparr>ev_sock_fd := fd\<rparr>
              in if fd = - 1 then conn_fail now ctx1
                 else let ctx2 = log (C_getfl fd) ctx1; flags = 0;
                          r = k_setfl k (ev_hist ctx2) fd;
                          ctx3 = log (C_setfl fd (flags OR O_NONBLOCK)) ctx2
                   in if r = - 1 then conn_fail now ctx3
                      else let c = k_connect k (ev_hist ctx3) fd (ai_addr a);
                               ctx4 = log (C_connect fd (ai_addr a) c) ctx3
                        in if c = 0 then conn_fail now ctx4
                           else if c \<noteq> - EINPROGRESS then conn_fail now ctx4
                           else let ctx5 = ctx4\<lparr>ev_state := CONNECTING,
                                      ev_conn_timeout_msec := now + IRC_CONNECT_TIMEOUT\<rparr>
                             in (log (C_epoll_add fd (EPOLLIN OR EPOLLOUT OR EPOLLRDHUP OR EPOLLERR OR EPOLLET)) ctx5,
                                 0)))"

section \<open>Reading and writing\<close>

text \<open>
  The loops of \<open>do_read\<close> and \<open>do_write\<close>. They end without any assumption: each round
  takes at least one byte of the free space, or of the content.
\<close>

function do_read :: "kernel \<Rightarrow> rp_event_ctx \<Rightarrow> rp_event_ctx res" where
  "do_read k ctx =
     (let b = ev_read_buf ctx; (p, max_read) = rp_fifo_raw_w b;
          r = sys_read k (ev_hist ctx) (ev_sock_fd ctx) (unat max_read);
          ctx1 = log (C_read (ev_sock_fd ctx) (unat max_read) r) ctx
      in case r of
           R_errno e \<Rightarrow> if e \<noteq> EAGAIN then Inl Aborted else Inr ctx1
         | R_data d \<Rightarrow>
             if d = [] then Inl Aborted
             else (case mem_write (f_buffer b) (unat p) d of
                 None \<Rightarrow> Inl OutOfBounds
               | Some m \<Rightarrow>
                   (let b' = rp_fifo_reserve (b\<lparr>f_buffer := m\<rparr>) (of_nat (length d));
                        ctx2 = ctx1\<lparr>ev_read_buf := b'\<rparr>
                    in if rp_fifo_bytes_free b' = 0 then Inr (ctx2\<lparr>ev_read_full := True\<rparr>)
                       else do_read k ctx2)))"
  by pat_completeness auto

lemma sys_read_le: "sys_read k h fd n = R_data d \<Longrightarrow> length d \<le> n"
  by (auto simp: sys_read_def split: read_result.splits)

lemma sys_write_le: "sys_write k h fd d = W_count n \<Longrightarrow> n \<le> length d"
  by (auto simp: sys_write_def split: write_result.splits)

lemma reserve_free_less:
  assumes "d \<noteq> []" "length d \<le> unat (snd (rp_fifo_raw_w b))"
  shows "unat (rp_fifo_bytes_free (rp_fifo_reserve (b\<lparr>f_buffer := m\<rparr>) (of_nat (length d))))
    < unat (rp_fifo_bytes_free b)"
proof -
  let ?n = "of_nat (length d) :: size_t"
  have le: "length d \<le> unat (rp_fifo_bytes_free b)"
    using assms(2) by (simp add: rp_fifo_raw_w_def)
  then have n: "unat ?n = length d" by (rule unat_of_nat_le)
  have e: "rp_fifo_bytes_free (rp_fifo_reserve (b\<lparr>f_buffer := m\<rparr>) ?n) = rp_fifo_bytes_free b - ?n"
    by (simp add: rp_fifo_bytes_free_def rp_fifo_reserve_fields)
  moreover have "unat (rp_fifo_bytes_free b - ?n) = unat (rp_fifo_bytes_free b) - length d"
    using le n by (subst unat_diff_le) (auto simp: word_le_nat_alt)
  moreover have "0 < length d" using assms(1) by simp
  ultimately show ?thesis using le unfolding e by linarith
qed

termination do_read
proof (relation "measure (\<lambda>(k, ctx). unat (rp_fifo_bytes_free (ev_read_buf ctx)))", goal_cases)
  case (2 k ctx b y p max_read r ctx1 d m b' ctx2)
  then have "length d \<le> unat (snd (rp_fifo_raw_w b))"
    using sys_read_le by (metis snd_conv)
  with 2 reserve_free_less [of d b m] show ?case by (simp add: log_def)
qed simp

declare do_read.simps [simp del]

function do_write :: "kernel \<Rightarrow> rp_event_ctx \<Rightarrow> rp_event_ctx res" where
  "do_write k ctx =
     (let b = ev_write_buf ctx; (p, max_write) = rp_fifo_raw_r b
      in case mem_read (f_buffer b) (unat p) (unat max_write) of
           None \<Rightarrow> Inl OutOfBounds
         | Some d \<Rightarrow>
             (let r = sys_write k (ev_hist ctx) (ev_sock_fd ctx) d;
                  ctx1 = log (C_write (ev_sock_fd ctx) d r) ctx
              in case r of
                   W_errno e \<Rightarrow> if e \<noteq> EAGAIN then Inl Aborted else Inr (ctx1\<lparr>ev_write_full := True\<rparr>)
                 | W_count n \<Rightarrow>
                     if n = 0 then Inl Aborted
                     else let b' = rp_fifo_consume b (of_nat n); ctx2 = ctx1\<lparr>ev_write_buf := b'\<rparr>
                       in if rp_fifo_count b' = 0 then Inr ctx2 else do_write k ctx2))"
  by pat_completeness auto

lemma consume_count_less:
  assumes "n \<noteq> 0" "n \<le> unat (snd (rp_fifo_raw_r b))"
  shows "unat (rp_fifo_count (rp_fifo_consume b (of_nat n))) < unat (rp_fifo_count b)"
proof -
  have le: "n \<le> unat (rp_fifo_count b)" using assms(2) by (simp add: rp_fifo_raw_r_def)
  then have n: "unat (of_nat n :: size_t) = n" by (rule unat_of_nat_le)
  have "unat (f_count b - of_nat n) = unat (f_count b) - n"
    using le n by (subst unat_diff_le) (auto simp: word_le_nat_alt rp_fifo_count_def)
  with assms(1) le show ?thesis by (simp add: rp_fifo_count_def rp_fifo_consume_fields)
qed

lemma mem_read_length: "mem_read m p n = Some d \<Longrightarrow> length d = n"
  by (auto simp: mem_read_def split: if_splits)

termination do_write
proof (relation "measure (\<lambda>(k, ctx). unat (rp_fifo_count (ev_write_buf ctx)))", goal_cases)
  case (2 k ctx b y p max_write d r ctx1 n b' ctx2)
  then have "n \<le> unat (snd (rp_fifo_raw_r b))"
    using sys_write_le mem_read_length by (metis snd_conv)
  with 2 consume_count_less [of n b] show ?case by (simp add: log_def)
qed simp

declare do_write.simps [simp del]

section \<open>Handling events\<close>

definition has_flag :: "32 word \<Rightarrow> 32 word \<Rightarrow> bool" where
  "has_flag e f \<longleftrightarrow> e AND f \<noteq> 0"

definition handle_sock_event :: "kernel \<Rightarrow> size_t \<Rightarrow> 32 word \<Rightarrow> rp_event_ctx \<times> rp_events \<Rightarrow>
    (rp_event_ctx \<times> rp_events) res" where
  "handle_sock_event k now e = (\<lambda>(ctx, evs).
     if has_flag e EPOLLRDHUP \<or> has_flag e EPOLLERR \<or> has_flag e EPOLLHUP
     then Inr (rp_disconnect now ctx, evs\<lparr>evs_disconnected := True\<rparr>)
     else res_bind
       (if has_flag e EPOLLIN \<and> rp_fifo_bytes_free (ev_read_buf ctx) > 0 then do_read k ctx else Inr ctx)
       (\<lambda>ctx1.
         if has_flag e EPOLLOUT then
           if ev_state ctx1 = CONNECTING then
             Inr ((log (C_epoll_mod (ev_sock_fd ctx1) (EPOLLIN OR EPOLLRDHUP OR EPOLLERR OR EPOLLET)) ctx1)
                    \<lparr>ev_state := CONNECTED\<rparr>, evs\<lparr>evs_connected := True\<rparr>)
           else if rp_fifo_count (ev_write_buf ctx1) > 0 then
             res_bind (do_write k ctx1) (\<lambda>ctx2. Inr (ctx2, evs))
           else Inr (ctx1, evs)
         else Inr (ctx1, evs)))"

text \<open>
  The read loop of \<open>handle_sig_event\<close>, over the reads until the descriptor would block.
\<close>

fun sig_loop :: "sig_read list \<Rightarrow> rp_event_ctx \<times> rp_events \<Rightarrow> (rp_event_ctx \<times> rp_events) res" where
  "sig_loop [] (ctx, evs) = Inr (log (C_sigread (ev_sig_fd ctx)) ctx, evs)"
| "sig_loop (r # rs) (ctx, evs) =
     (let ctx1 = log (C_sigread (ev_sig_fd ctx)) ctx
      in case r of
           S_errno e \<Rightarrow> if e \<noteq> EAGAIN then Inl Aborted else Inr (ctx1, evs)
         | S_eof \<Rightarrow> Inl Aborted
         | S_short \<Rightarrow> Inl Aborted
         | S_info signo ptr \<Rightarrow>
             if signo = SIGINT then sig_loop rs (ctx1, evs\<lparr>evs_sig_int := True\<rparr>)
             else if int signo = ev_addr_sig ctx then
               (case ptr of
                  None \<Rightarrow> Inl NullDeref
                | Some ar_result \<Rightarrow>
                    sig_loop rs (ctx1\<lparr>ev_res0 := ar_result, ev_res := [], ev_state := RESOLVED\<rparr>, evs))
             else sig_loop rs (ctx1, evs))"

definition handle_sig_event :: "kernel \<Rightarrow> 32 word \<Rightarrow> rp_event_ctx \<times> rp_events \<Rightarrow>
    (rp_event_ctx \<times> rp_events) res" where
  "handle_sig_event k e = (\<lambda>(ctx, evs).
     if has_flag e EPOLLRDHUP \<or> has_flag e EPOLLERR \<or> has_flag e EPOLLHUP then Inl Aborted
     else if has_flag e EPOLLIN then sig_loop (k_sigreads k (ev_hist ctx)) (ctx, evs)
     else Inr (ctx, evs))"

section \<open>Polling\<close>

text \<open>\<open>rp_tryflush\<close>: the result of the function is ignored by its caller.\<close>

definition rp_tryflush :: "kernel \<Rightarrow> rp_event_ctx \<Rightarrow> (rp_event_ctx \<times> int) res" where
  "rp_tryflush k ctx =
     (let events0 = EPOLLIN OR EPOLLRDHUP OR EPOLLERR OR EPOLLET in
      res_bind
        (if rp_fifo_bytes_free (ev_read_buf ctx) > 0 then
           if ev_read_full ctx then Inr (ctx, True)
           else res_bind (do_read k ctx) (\<lambda>c. Inr (c, False))
         else Inr (ctx, False))
        (\<lambda>(ctx1, update1).
          res_bind
            (if rp_fifo_count (ev_write_buf ctx1) > 0 then
               if ev_write_full ctx1 then
                 if \<not> has_flag events0 EPOLLOUT then Inr (ctx1, True, events0 OR EPOLLOUT)
                 else Inr (ctx1, update1, events0)
               else res_bind (do_write k ctx1) (\<lambda>c. Inr (c, update1, events0))
             else if has_flag events0 EPOLLOUT then Inr (ctx1, True, events0 AND NOT EPOLLOUT)
             else Inr (ctx1, update1, events0))
            (\<lambda>(ctx2, update, events).
              if update then
                Inr (log (C_epoll_mod (ev_sock_fd ctx2) events) ctx2,
                     k_epoll_mod k (ev_hist ctx2) (ev_sock_fd ctx2))
              else Inr (ctx2, 0))))"

fun handle_events :: "kernel \<Rightarrow> size_t \<Rightarrow> (int \<times> 32 word) list \<Rightarrow> rp_event_ctx \<times> rp_events \<Rightarrow>
    (rp_event_ctx \<times> rp_events) res" where
  "handle_events k now [] s = Inr s"
| "handle_events k now ((fd, e) # es) s =
     (if fd = ev_sock_fd (fst s) then res_bind (handle_sock_event k now e s) (handle_events k now es)
      else if fd = ev_sig_fd (fst s) then res_bind (handle_sig_event k e s) (handle_events k now es)
      else handle_events k now es s)"

text \<open>The switch on the state that ends a round.\<close>

definition poll_state :: "kernel \<Rightarrow> rp_config \<Rightarrow> size_t \<Rightarrow> rp_event_ctx \<Rightarrow> rp_event_ctx res" where
  "poll_state k cfg now ctx = (case ev_state ctx of
       DISCONNECTED \<Rightarrow>
         if now \<ge> ev_next_conn_msec ctx
         then res_bind (start_resolve cfg ctx) (\<lambda>c. Inr (c\<lparr>ev_state := RESOLVING\<rparr>))
         else Inr ctx
     | CONNECTING \<Rightarrow>
         if now \<ge> ev_conn_timeout_msec ctx then Inr (fst (rp_tryconnect k now ctx)) else Inr ctx
     | RESOLVED \<Rightarrow> Inr (fst (rp_tryconnect k now ctx))
     | _ \<Rightarrow> Inr ctx)"

definition rp_event_poll :: "kernel \<Rightarrow> rp_config \<Rightarrow> size_t \<Rightarrow> int \<Rightarrow> rp_event_ctx \<times> rp_events \<Rightarrow>
    (rp_event_ctx \<times> rp_events \<times> int) res" where
  "rp_event_poll k cfg now timeout = (\<lambda>(ctx, evs).
     res_bind (if ev_state ctx = CONNECTED then res_bind (rp_tryflush k ctx) (\<lambda>(c, _). Inr c) else Inr ctx)
       (\<lambda>ctx1.
         let r = k_epoll_wait k (ev_hist ctx1) timeout; ctx2 = log (C_epoll_wait timeout r) ctx1
         in case r of
              P_errno e \<Rightarrow> if e = EINTR then Inr (ctx2, evs, 0) else Inr (ctx2, evs, - 1)
            | P_events events \<Rightarrow>
                (let es = take MAX_EVENTS events in
                 res_bind (handle_events k now es (ctx2, evs)) (\<lambda>(ctx3, evs').
                 res_bind (poll_state k cfg now ctx3) (\<lambda>ctx4.
                   Inr (ctx4, evs', if es = [] then 0 else 1))))))"

end
