(* ===== verification/Event_Io.thy ===== *)
theory Event_Io
  imports Rp_Event
begin

text \<open>
  What the socket loops do to the fifos, read off the history of system calls; and the
  invariant of the event context that every operation of rp_event.c keeps.
\<close>

section \<open>Histories\<close>

fun read_data :: "history \<Rightarrow> bytes" where
  "read_data [] = []"
| "read_data (C_read fd n (R_data d) # cs) = d @ read_data cs"
| "read_data (c # cs) = read_data cs"

fun written :: "history \<Rightarrow> bytes" where
  "written [] = []"
| "written (C_write fd d (W_count n) # cs) = take n d @ written cs"
| "written (c # cs) = written cs"

text \<open>Calls of \<open>read\<close> and \<open>write\<close> on a descriptor, never for zero bytes.\<close>

fun good_read :: "int \<Rightarrow> syscall \<Rightarrow> bool" where
  "good_read fd (C_read fd' n r) \<longleftrightarrow> fd' = fd \<and> 0 < n"
| "good_read fd _ \<longleftrightarrow> False"

fun good_write :: "int \<Rightarrow> syscall \<Rightarrow> bool" where
  "good_write fd (C_write fd' d r) \<longleftrightarrow> fd' = fd \<and> d \<noteq> []"
| "good_write fd _ \<longleftrightarrow> False"

lemma log_simps [simp]:
  "ev_hist (log c ctx) = ev_hist ctx @ [c]"
  "ev_read_buf (log c ctx) = ev_read_buf ctx" "ev_write_buf (log c ctx) = ev_write_buf ctx"
  "ev_state (log c ctx) = ev_state ctx" "ev_sock_fd (log c ctx) = ev_sock_fd ctx"
  "ev_sig_fd (log c ctx) = ev_sig_fd ctx" "ev_res0 (log c ctx) = ev_res0 ctx"
  "ev_res (log c ctx) = ev_res ctx" "ev_ar_name (log c ctx) = ev_ar_name ctx"
  "ev_ar_service (log c ctx) = ev_ar_service ctx" "ev_addr_sig (log c ctx) = ev_addr_sig ctx"
  "ev_next_conn_msec (log c ctx) = ev_next_conn_msec ctx"
  "ev_conn_timeout_msec (log c ctx) = ev_conn_timeout_msec ctx"
  "ev_read_full (log c ctx) = ev_read_full ctx" "ev_write_full (log c ctx) = ev_write_full ctx"
  by (simp_all add: log_def)

section \<open>do_read\<close>

text \<open>All that \<open>do_read\<close> may change.\<close>

definition same_but_read :: "rp_event_ctx \<Rightarrow> rp_event_ctx \<Rightarrow> bool" where
  "same_but_read ctx ctx' \<longleftrightarrow>
     ctx' = ctx\<lparr>ev_read_buf := ev_read_buf ctx', ev_read_full := ev_read_full ctx', ev_hist := ev_hist ctx'\<rparr>"

lemma do_read_step [consumes 1, case_names err eof data]:
  fixes k :: kernel
  assumes ok: "fifo_ok (ev_read_buf ctx)"
  defines "n \<equiv> unat (snd (rp_fifo_raw_w (ev_read_buf ctx)))"
  defines "r \<equiv> sys_read k (ev_hist ctx) (ev_sock_fd ctx) n"
  defines "ctx1 \<equiv> log (C_read (ev_sock_fd ctx) n r) ctx"
  obtains (err) e where "r = R_errno e"
      "do_read k ctx = (if e \<noteq> EAGAIN then Inl Aborted else Inr ctx1)"
    | (eof) "r = R_data []" "do_read k ctx = Inl Aborted"
    | (data) d b where "r = R_data d" "d \<noteq> []" "fifo_ok b"
      "fifo_bytes b = fifo_bytes (ev_read_buf ctx) @ d" "fifo_room b < fifo_room (ev_read_buf ctx)"
      "do_read k ctx = (if fifo_room b = 0 then Inr (ctx1\<lparr>ev_read_buf := b, ev_read_full := True\<rparr>)
                        else do_read k (ctx1\<lparr>ev_read_buf := b\<rparr>))"
proof (cases r)
  case (R_errno e)
  then have "do_read k ctx = (if e \<noteq> EAGAIN then Inl Aborted else Inr ctx1)"
    by (subst do_read.simps) (simp add: Let_def split_beta r_def n_def ctx1_def)
  with R_errno show thesis by (rule err)
next
  case (R_data d)
  let ?b = "ev_read_buf ctx"
  show thesis
  proof (cases "d = []")
    case True
    with R_data have "do_read k ctx = Inl Aborted"
      by (subst do_read.simps) (simp add: Let_def split_beta r_def n_def)
    with True R_data show thesis by (auto intro: eof)
  next
    case False
    have le: "length d \<le> unat (snd (rp_fifo_raw_w ?b))"
      using R_data sys_read_le unfolding r_def n_def by blast
    have "unat (f_tail ?b) + length d \<le> length (f_buffer ?b)"
      using le fifo_offsets [OF ok] unat_raw_w [OF ok] by linarith
    then obtain m where m: "mem_write (f_buffer ?b) (unat (f_tail ?b)) d = Some m"
      by (simp add: mem_write_def)
    let ?b' = "rp_fifo_reserve (?b\<lparr>f_buffer := m\<rparr>) (of_nat (length d))"
    note b' = reserve_ok [OF ok le m]
    have "fst (rp_fifo_raw_w ?b) = f_tail ?b" by (simp add: rp_fifo_raw_w_def)
    then have "do_read k ctx = (if rp_fifo_bytes_free ?b' = 0
        then Inr (ctx1\<lparr>ev_read_buf := ?b', ev_read_full := True\<rparr>) else do_read k (ctx1\<lparr>ev_read_buf := ?b'\<rparr>))"
      using R_data False m by (subst do_read.simps) (simp add: Let_def split_beta r_def n_def ctx1_def)
    moreover have "rp_fifo_bytes_free ?b' = 0 \<longleftrightarrow> fifo_room ?b' = 0"
      using fifo_room_unat [OF b'(1)] by (simp add: word_unat_eq_iff)
    moreover have "fifo_room ?b' < fifo_room ?b"
      using reserve_free_less [OF False le, of m] by (simp add: fifo_room_unat ok b'(1))
    ultimately show thesis using data [OF R_data False b'] by simp
  qed
qed

lemma do_read_ok:
  assumes "fifo_ok (ev_read_buf ctx)" "0 < fifo_room (ev_read_buf ctx)"
  shows "do_read k ctx = Inl Aborted \<or>
    (\<exists>ctx' cs. do_read k ctx = Inr ctx' \<and> same_but_read ctx ctx' \<and> ev_hist ctx' = ev_hist ctx @ cs \<and> cs \<noteq> [] \<and>
      (\<forall>c \<in> set cs. good_read (ev_sock_fd ctx) c) \<and> fifo_ok (ev_read_buf ctx') \<and>
      fifo_bytes (ev_read_buf ctx') = fifo_bytes (ev_read_buf ctx) @ read_data cs \<and>
      (fifo_room (ev_read_buf ctx') = 0 \<longrightarrow> ev_read_full ctx') \<and>
      (fifo_room (ev_read_buf ctx') \<noteq> 0 \<longrightarrow> ev_read_full ctx' = ev_read_full ctx \<and>
        (\<exists>n. last cs = C_read (ev_sock_fd ctx) n (R_errno EAGAIN))))"
    (is "_ \<or> ?P ctx")
  using assms
proof (induction "fifo_room (ev_read_buf ctx)" arbitrary: ctx rule: less_induct)
  case less
  let ?n = "unat (snd (rp_fifo_raw_w (ev_read_buf ctx)))"
  let ?r = "sys_read k (ev_hist ctx) (ev_sock_fd ctx) ?n"
  let ?c = "C_read (ev_sock_fd ctx) ?n ?r"
  have n: "0 < ?n" using raw_w_pos [OF less.prems] .
  show ?case
    using less.prems(1)
  proof (cases rule: do_read_step [where k = k])
    case (err e)
    show ?thesis
    proof (cases "e = EAGAIN")
      case True
      then have "?P ctx"
        using err n less.prems by (intro exI [of _ "log ?c ctx"] exI [of _ "[?c]"]) (simp add: same_but_read_def log_def)
      then show ?thesis ..
    qed (use err in simp)
  next
    case (data d b)
    let ?ctx = "(log ?c ctx)\<lparr>ev_read_buf := b\<rparr>"
    show ?thesis
    proof (cases "fifo_room b = 0")
      case True
      then have "?P ctx"
        using data n by (intro exI [of _ "?ctx\<lparr>ev_read_full := True\<rparr>"] exI [of _ "[?c]"])
          (simp add: same_but_read_def log_def)
      then show ?thesis ..
    next
      case False
      then have eq: "do_read k ctx = do_read k ?ctx" using data by simp
      have "do_read k ?ctx = Inl Aborted \<or> ?P ?ctx"
        using data False by (intro less.hyps) simp_all
      then show ?thesis
      proof
        assume "?P ?ctx"
        then obtain ctx' cs where c: "do_read k ?ctx = Inr ctx'" "same_but_read ?ctx ctx'"
          "ev_hist ctx' = ev_hist ?ctx @ cs" "cs \<noteq> []" "\<forall>c \<in> set cs. good_read (ev_sock_fd ctx) c"
          "fifo_ok (ev_read_buf ctx')" "fifo_bytes (ev_read_buf ctx') = fifo_bytes b @ read_data cs"
          "fifo_room (ev_read_buf ctx') = 0 \<longrightarrow> ev_read_full ctx'"
          "fifo_room (ev_read_buf ctx') \<noteq> 0 \<longrightarrow> ev_read_full ctx' = ev_read_full ctx \<and>
             (\<exists>n. last cs = C_read (ev_sock_fd ctx) n (R_errno EAGAIN))" by auto
        with eq c data n have "?P ctx"
          by (intro exI [of _ ctx'] exI [of _ "?c # cs"]) (auto simp: same_but_read_def log_def)
        then show ?thesis ..
      qed (use eq in simp)
    qed
  qed simp
qed

section \<open>do_write\<close>

definition same_but_write :: "rp_event_ctx \<Rightarrow> rp_event_ctx \<Rightarrow> bool" where
  "same_but_write ctx ctx' \<longleftrightarrow>
     ctx' = ctx\<lparr>ev_write_buf := ev_write_buf ctx', ev_write_full := ev_write_full ctx', ev_hist := ev_hist ctx'\<rparr>"

lemma do_write_step [consumes 1, case_names err stuck data]:
  fixes k :: kernel
  assumes ok: "fifo_ok (ev_write_buf ctx)"
  defines "d \<equiv> take (unat (snd (rp_fifo_raw_r (ev_write_buf ctx)))) (fifo_bytes (ev_write_buf ctx))"
  defines "r \<equiv> sys_write k (ev_hist ctx) (ev_sock_fd ctx) d"
  defines "ctx1 \<equiv> log (C_write (ev_sock_fd ctx) d r) ctx"
  obtains (err) e where "r = W_errno e"
      "do_write k ctx = (if e \<noteq> EAGAIN then Inl Aborted else Inr (ctx1\<lparr>ev_write_full := True\<rparr>))"
    | (stuck) "r = W_count 0" "do_write k ctx = Inl Aborted"
    | (data) n b where "r = W_count n" "n \<noteq> 0" "n \<le> length d" "fifo_ok b"
      "fifo_bytes (ev_write_buf ctx) = take n d @ fifo_bytes b"
      "do_write k ctx = (if fifo_bytes b = [] then Inr (ctx1\<lparr>ev_write_buf := b\<rparr>)
                         else do_write k (ctx1\<lparr>ev_write_buf := b\<rparr>))"
proof -
  let ?b = "ev_write_buf ctx"
  have rd: "mem_read (f_buffer ?b) (unat (fst (rp_fifo_raw_r ?b))) (unat (snd (rp_fifo_raw_r ?b))) = Some d"
    using view_eq [OF ok] by (simp add: rp_fifo_view_def split_beta d_def)
  show thesis
  proof (cases r)
    case (W_errno e)
    then have "do_write k ctx = (if e \<noteq> EAGAIN then Inl Aborted else Inr (ctx1\<lparr>ev_write_full := True\<rparr>))"
      using rd by (subst do_write.simps) (simp add: Let_def split_beta r_def ctx1_def)
    with W_errno show thesis by (rule err)
  next
    case (W_count n)
    show thesis
    proof (cases "n = 0")
      case True
      with W_count rd have "do_write k ctx = Inl Aborted"
        by (subst do_write.simps) (simp add: Let_def split_beta r_def)
      with True W_count show thesis by (auto intro: stuck)
    next
      case False
      have le: "n \<le> length d" using W_count sys_write_le unfolding r_def by blast
      have dl: "length d \<le> unat (snd (rp_fifo_raw_r ?b))" by (simp add: d_def)
      have un: "unat (of_nat n :: size_t) = n"
        using le dl unat_of_nat_le by (meson order_trans)
      let ?b' = "rp_fifo_consume ?b (of_nat n)"
      have "of_nat n \<le> snd (rp_fifo_raw_r ?b)" using le dl un by (simp add: word_le_nat_alt)
      note b' = consume_ok [OF ok this]
      have bytes: "fifo_bytes ?b = take n d @ fifo_bytes ?b'"
      proof -
        have "take n d = take n (fifo_bytes ?b)"
          using order_trans [OF le dl] by (simp add: d_def min_absorb1)
        then show ?thesis using b'(2) by (simp add: un)
      qed
      have "rp_fifo_count ?b' = 0 \<longleftrightarrow> fifo_bytes ?b' = []"
        using length_fifo_bytes [OF b'(1)] by (auto simp: rp_fifo_count_def word_unat_eq_iff)
      then have "do_write k ctx = (if fifo_bytes ?b' = [] then Inr (ctx1\<lparr>ev_write_buf := ?b'\<rparr>)
          else do_write k (ctx1\<lparr>ev_write_buf := ?b'\<rparr>))"
        using W_count False rd by (subst do_write.simps) (simp add: Let_def split_beta r_def ctx1_def)
      from data [OF W_count False le b'(1) bytes this] show thesis .
    qed
  qed
qed

lemma do_write_ok:
  assumes "fifo_ok (ev_write_buf ctx)" "fifo_bytes (ev_write_buf ctx) \<noteq> []"
  shows "do_write k ctx = Inl Aborted \<or>
    (\<exists>ctx' cs. do_write k ctx = Inr ctx' \<and> same_but_write ctx ctx' \<and> ev_hist ctx' = ev_hist ctx @ cs \<and> cs \<noteq> [] \<and>
      (\<forall>c \<in> set cs. good_write (ev_sock_fd ctx) c) \<and> fifo_ok (ev_write_buf ctx') \<and>
      fifo_bytes (ev_write_buf ctx) = written cs @ fifo_bytes (ev_write_buf ctx') \<and>
      (fifo_bytes (ev_write_buf ctx') \<noteq> [] \<longrightarrow> ev_write_full ctx' \<and>
        (\<exists>d. last cs = C_write (ev_sock_fd ctx) d (W_errno EAGAIN))))"
    (is "_ \<or> ?P ctx")
  using assms
proof (induction "length (fifo_bytes (ev_write_buf ctx))" arbitrary: ctx rule: less_induct)
  case less
  let ?d = "take (unat (snd (rp_fifo_raw_r (ev_write_buf ctx)))) (fifo_bytes (ev_write_buf ctx))"
  let ?r = "sys_write k (ev_hist ctx) (ev_sock_fd ctx) ?d"
  let ?c = "C_write (ev_sock_fd ctx) ?d ?r"
  have d: "?d \<noteq> []" using raw_r_pos [OF less.prems] less.prems(2) by simp
  show ?case
    using less.prems(1)
  proof (cases rule: do_write_step [where k = k])
    case (err e)
    show ?thesis
    proof (cases "e = EAGAIN")
      case True
      then have "?P ctx"
        using err d less.prems
        by (intro exI [of _ "(log ?c ctx)\<lparr>ev_write_full := True\<rparr>"] exI [of _ "[?c]"])
          (simp add: same_but_write_def log_def)
      then show ?thesis ..
    qed (use err in simp)
  next
    case (data n b)
    let ?ctx = "(log ?c ctx)\<lparr>ev_write_buf := b\<rparr>"
    show ?thesis
    proof (cases "fifo_bytes b = []")
      case True
      then have "?P ctx"
        using data d by (intro exI [of _ ?ctx] exI [of _ "[?c]"]) (simp add: same_but_write_def log_def)
      then show ?thesis ..
    next
      case False
      then have eq: "do_write k ctx = do_write k ?ctx" using data by simp
      have "length (fifo_bytes (ev_write_buf ctx)) = n + length (fifo_bytes b)"
        using arg_cong [OF data(5), of length] data(3) by simp
      then have "length (fifo_bytes b) < length (fifo_bytes (ev_write_buf ctx))"
        using data(2) by linarith
      then have "do_write k ?ctx = Inl Aborted \<or> ?P ?ctx"
        using data False by (intro less.hyps) simp_all
      then show ?thesis
      proof
        assume "?P ?ctx"
        then obtain ctx' cs where c: "do_write k ?ctx = Inr ctx'" "same_but_write ?ctx ctx'"
          "ev_hist ctx' = ev_hist ?ctx @ cs" "cs \<noteq> []" "\<forall>c \<in> set cs. good_write (ev_sock_fd ctx) c"
          "fifo_ok (ev_write_buf ctx')" "fifo_bytes b = written cs @ fifo_bytes (ev_write_buf ctx')"
          "fifo_bytes (ev_write_buf ctx') \<noteq> [] \<longrightarrow> ev_write_full ctx' \<and>
             (\<exists>d. last cs = C_write (ev_sock_fd ctx) d (W_errno EAGAIN))" by auto
        have "fifo_bytes (ev_write_buf ctx) = written (?c # cs) @ fifo_bytes (ev_write_buf ctx')"
          using data(1,5) c(7) by simp
        with eq c data(1,2) d have "?P ctx"
          by (intro exI [of _ ctx'] exI [of _ "?c # cs"]) (simp add: same_but_write_def log_def)
        then show ?thesis ..
      qed (use eq in simp)
    qed
  qed simp
qed

section \<open>The invariant\<close>

text \<open>
  Both fifos are well-formed; the name buffers have their sizes; while there is no
  connection attempt there is no socket.
\<close>

definition ev_ok :: "rp_event_ctx \<Rightarrow> bool" where
  "ev_ok ctx \<longleftrightarrow> fifo_ok (ev_read_buf ctx) \<and> fifo_ok (ev_write_buf ctx) \<and>
     length (ev_ar_name ctx) = 256 \<and> length (ev_ar_service ctx) = 32 \<and>
     (ev_state ctx \<in> {DISCONNECTED, RESOLVING} \<longrightarrow> ev_sock_fd ctx = - 1)"

text \<open>A fault that the code chooses: \<open>abort()\<close>.\<close>

definition res_ok :: "('a \<Rightarrow> bool) \<Rightarrow> 'a res \<Rightarrow> bool" where
  "res_ok P r \<longleftrightarrow> r = Inl Aborted \<or> (\<exists>x. r = Inr x \<and> P x)"

lemma res_ok_simps [simp]:
  "res_ok P (Inr x) \<longleftrightarrow> P x" "res_ok P (Inl e) \<longleftrightarrow> e = Aborted"
  by (auto simp: res_ok_def)

lemma res_ok_bind:
  "res_ok P r \<Longrightarrow> (\<And>x. P x \<Longrightarrow> res_ok Q (f x)) \<Longrightarrow> res_ok Q (res_bind r f)"
  by (cases r) simp_all

lemma room_free: "fifo_ok b \<Longrightarrow> rp_fifo_bytes_free b > 0 \<longleftrightarrow> 0 < fifo_room b"
  using fifo_room_unat [of b] by (simp add: word_less_nat_alt)

lemma bytes_count: "fifo_ok b \<Longrightarrow> rp_fifo_count b > 0 \<longleftrightarrow> fifo_bytes b \<noteq> []"
  using length_fifo_bytes [of b] length_greater_0_conv [of "fifo_bytes b"]
  by (simp add: rp_fifo_count_def word_less_nat_alt)

text \<open>What neither socket loop touches.\<close>

definition same_conn :: "rp_event_ctx \<Rightarrow> rp_event_ctx \<Rightarrow> bool" where
  "same_conn ctx c \<longleftrightarrow> ev_state c = ev_state ctx \<and> ev_sock_fd c = ev_sock_fd ctx \<and>
     ev_sig_fd c = ev_sig_fd ctx \<and> ev_addr_sig c = ev_addr_sig ctx \<and> ev_res0 c = ev_res0 ctx \<and>
     ev_res c = ev_res ctx \<and> ev_ar_name c = ev_ar_name ctx \<and> ev_ar_service c = ev_ar_service ctx \<and>
     ev_next_conn_msec c = ev_next_conn_msec ctx \<and> ev_conn_timeout_msec c = ev_conn_timeout_msec ctx"

lemma same_conn_refl [simp]: "same_conn ctx ctx"
  by (simp add: same_conn_def)

lemma same_conn_trans: "same_conn a b \<Longrightarrow> same_conn b c \<Longrightarrow> same_conn a c"
  by (simp add: same_conn_def)

lemma same_but_read_conn:
  assumes "same_but_read ctx c"
  shows "same_conn ctx c \<and> ev_write_buf c = ev_write_buf ctx \<and> ev_write_full c = ev_write_full ctx"
proof -
  have "same_conn ctx (ctx\<lparr>ev_read_buf := b, ev_read_full := f, ev_hist := h\<rparr>)" for b f h
    by (simp add: same_conn_def)
  then show ?thesis
    using assms unfolding same_but_read_def
    by (metis rp_event_ctx.select_convs(13,15) rp_event_ctx.surjective rp_event_ctx.update_convs(12,14,16))
qed

lemma same_but_write_conn:
  assumes "same_but_write ctx c"
  shows "same_conn ctx c \<and> ev_read_buf c = ev_read_buf ctx \<and> ev_read_full c = ev_read_full ctx"
proof -
  have "same_conn ctx (ctx\<lparr>ev_write_buf := b, ev_write_full := f, ev_hist := h\<rparr>)" for b f h
    by (simp add: same_conn_def)
  then show ?thesis
    using assms unfolding same_but_write_def
    by (metis rp_event_ctx.select_convs(12,14) rp_event_ctx.surjective rp_event_ctx.update_convs(13,15,16))
qed

lemma do_read_inv:
  assumes "ev_ok ctx" "rp_fifo_bytes_free (ev_read_buf ctx) > 0"
  shows "res_ok (\<lambda>c. ev_ok c \<and> same_conn ctx c \<and> ev_write_buf c = ev_write_buf ctx) (do_read k ctx)"
proof -
  have "0 < fifo_room (ev_read_buf ctx)" "fifo_ok (ev_read_buf ctx)"
    using assms by (auto simp: ev_ok_def room_free)
  with do_read_ok [of ctx k] consider "do_read k ctx = Inl Aborted"
    | c where "do_read k ctx = Inr c" "same_but_read ctx c" "fifo_ok (ev_read_buf c)" by blast
  then show ?thesis
    by cases (use assms(1) same_but_read_conn in \<open>auto simp: ev_ok_def same_conn_def\<close>)
qed

lemma do_write_inv:
  assumes "ev_ok ctx" "rp_fifo_count (ev_write_buf ctx) > 0"
  shows "res_ok (\<lambda>c. ev_ok c \<and> same_conn ctx c \<and> ev_read_buf c = ev_read_buf ctx) (do_write k ctx)"
proof -
  have "fifo_bytes (ev_write_buf ctx) \<noteq> []" "fifo_ok (ev_write_buf ctx)"
    using assms by (auto simp: ev_ok_def bytes_count)
  with do_write_ok [of ctx k] consider "do_write k ctx = Inl Aborted"
    | c where "do_write k ctx = Inr c" "same_but_write ctx c" "fifo_ok (ev_write_buf c)" by blast
  then show ?thesis
    by cases (use assms(1) same_but_write_conn in \<open>auto simp: ev_ok_def same_conn_def\<close>)
qed

end
