(* ===== verification/Event_States.thy ===== *)
theory Event_States
  imports Event_Io
begin

text \<open>
  The connection's state machine: the steps that single events and the switch at the end
  of \<open>rp_event_poll\<close> can make, the invariant of the event context over whole runs, and
  the functional behaviour of resolving, connecting, disconnecting and flushing.
\<close>

section \<open>Steps of the state machine\<close>

text \<open>What one epoll event can do to the state.\<close>

inductive event_step :: "conn_state \<Rightarrow> conn_state \<Rightarrow> bool" where
  hangup: "event_step s DISCONNECTED"
| resolved: "event_step s RESOLVED"
| connected: "event_step CONNECTING CONNECTED"

text \<open>What the switch at the end of a round can do.\<close>

inductive switch_step :: "conn_state \<Rightarrow> conn_state \<Rightarrow> bool" where
  start: "switch_step DISCONNECTED RESOLVING"
| try_address: "switch_step RESOLVED CONNECTING"
| next_address: "switch_step CONNECTING CONNECTING"
| no_address: "s \<in> {RESOLVED, CONNECTING} \<Longrightarrow> switch_step s DISCONNECTED"
| stay: "switch_step s s"

inductive_cases event_stepE: "event_step s t"
inductive_cases switch_stepE: "switch_step s t"
inductive_simps event_step_to_connected [simp]: "event_step s CONNECTED"
inductive_simps event_step_to_connecting [simp]: "event_step s CONNECTING"
inductive_simps event_step_to_resolving [simp]: "event_step s RESOLVING"
inductive_simps switch_step_to_connected [simp]: "switch_step s CONNECTED"
inductive_simps switch_step_to_resolving [simp]: "switch_step s RESOLVING"

lemma event_steps_to:
  "event_step\<^sup>*\<^sup>* s CONNECTING \<longleftrightarrow> s = CONNECTING"
  "event_step\<^sup>*\<^sup>* s RESOLVING \<longleftrightarrow> s = RESOLVING"
  "event_step\<^sup>*\<^sup>* s CONNECTED \<longleftrightarrow> s = CONNECTED \<or> s = CONNECTING"
proof -
  show 1: "event_step\<^sup>*\<^sup>* s CONNECTING \<longleftrightarrow> s = CONNECTING"
    by (auto elim: rtranclp.cases)
  show "event_step\<^sup>*\<^sup>* s RESOLVING \<longleftrightarrow> s = RESOLVING"
    by (auto elim: rtranclp.cases)
  show "event_step\<^sup>*\<^sup>* s CONNECTED \<longleftrightarrow> s = CONNECTED \<or> s = CONNECTING"
    using 1 by (auto elim: rtranclp.cases intro: connected)
qed

section \<open>Operations keep the invariant\<close>

lemma freeaddrinfo_fields:
  "rp_freeaddrinfo ctx = ctx\<lparr>ev_res0 := [], ev_res := [], ev_hist := ev_hist (rp_freeaddrinfo ctx)\<rparr>"
  by (simp add: rp_freeaddrinfo_def log_def)

lemma freeaddrinfo_simps [simp]:
  "ev_read_buf (rp_freeaddrinfo ctx) = ev_read_buf ctx" "ev_write_buf (rp_freeaddrinfo ctx) = ev_write_buf ctx"
  "ev_state (rp_freeaddrinfo ctx) = ev_state ctx" "ev_sock_fd (rp_freeaddrinfo ctx) = ev_sock_fd ctx"
  "ev_ar_name (rp_freeaddrinfo ctx) = ev_ar_name ctx"
  "ev_ar_service (rp_freeaddrinfo ctx) = ev_ar_service ctx"
  "ev_next_conn_msec (rp_freeaddrinfo ctx) = ev_next_conn_msec ctx"
  "ev_res0 (rp_freeaddrinfo ctx) = []" "ev_res (rp_freeaddrinfo ctx) = []"
  by (simp_all add: rp_freeaddrinfo_def)

lemma disconnect_simps [simp]:
  "ev_state (rp_disconnect now ctx) = DISCONNECTED" "ev_sock_fd (rp_disconnect now ctx) = - 1"
  "ev_read_buf (rp_disconnect now ctx) = ev_read_buf ctx"
  "ev_write_buf (rp_disconnect now ctx) = ev_write_buf ctx"
  "ev_ar_name (rp_disconnect now ctx) = ev_ar_name ctx"
  "ev_ar_service (rp_disconnect now ctx) = ev_ar_service ctx"
  "ev_next_conn_msec (rp_disconnect now ctx) = now + IRC_RETRY_DELAY"
  "ev_res0 (rp_disconnect now ctx) = []" "ev_res (rp_disconnect now ctx) = []"
  by (simp_all add: rp_disconnect_def Let_def)

lemma disconnect_ok: "ev_ok ctx \<Longrightarrow> ev_ok (rp_disconnect now ctx)"
  by (simp add: ev_ok_def)

lemma conn_fail_fields:
  "ev_state (fst (conn_fail now ctx)) = ev_state ctx" "ev_sock_fd (fst (conn_fail now ctx)) = ev_sock_fd ctx"
  "ev_read_buf (fst (conn_fail now ctx)) = ev_read_buf ctx"
  "ev_write_buf (fst (conn_fail now ctx)) = ev_write_buf ctx"
  "ev_ar_name (fst (conn_fail now ctx)) = ev_ar_name ctx"
  "ev_ar_service (fst (conn_fail now ctx)) = ev_ar_service ctx"
  "snd (conn_fail now ctx) = - 1"
  by (simp_all add: conn_fail_def Let_def)

lemma tryconnect_fields:
  "ev_read_buf (fst (rp_tryconnect k now ctx)) = ev_read_buf ctx"
  "ev_write_buf (fst (rp_tryconnect k now ctx)) = ev_write_buf ctx"
  "ev_ar_name (fst (rp_tryconnect k now ctx)) = ev_ar_name ctx"
  "ev_ar_service (fst (rp_tryconnect k now ctx)) = ev_ar_service ctx"
  by (simp_all add: rp_tryconnect_def Let_def conn_fail_fields split: list.split)

lemma tryconnect_state:
  "ev_state (fst (rp_tryconnect k now ctx)) = DISCONNECTED \<and> ev_sock_fd (fst (rp_tryconnect k now ctx)) = - 1 \<or>
   ev_state (fst (rp_tryconnect k now ctx)) \<in> {CONNECTING, ev_state ctx}"
  by (simp add: rp_tryconnect_def Let_def conn_fail_fields split: list.split)

lemma tryconnect_ok:
  assumes "ev_ok ctx" "ev_state ctx \<in> {RESOLVED, CONNECTING}"
  shows "ev_ok (fst (rp_tryconnect k now ctx)) \<and>
    switch_step (ev_state ctx) (ev_state (fst (rp_tryconnect k now ctx)))"
  using tryconnect_state [of k now ctx] assms
  by (auto simp: ev_ok_def tryconnect_fields intro: switch_step.intros)

lemma set_name_ok:
  assumes "length s < length buf"
  shows "\<exists>b. set_name buf s = Inr b \<and> length b = length buf \<and> take (length s + 1) b = s @ [CHR 0x00]"
  using assms by (simp add: set_name_def mem_write_def overwrite_def)

lemma set_name_overflow:
  assumes "length buf \<le> length s"
  shows "set_name buf s = Inl OutOfBounds"
proof (cases "length buf < length s")
  case False
  then have "length (overwrite 0 s buf) = length s" using assms by simp
  with False assms show ?thesis by (simp add: set_name_def mem_write_def)
qed (simp add: set_name_def mem_write_def)

text \<open>The first server's names fit the buffers.\<close>

definition server_fits :: "rp_config \<Rightarrow> bool" where
  "server_fits cfg \<longleftrightarrow> cfg_servers cfg \<noteq> [] \<and> length (srv_host (hd (cfg_servers cfg))) < 256 \<and>
     length (srv_port (hd (cfg_servers cfg))) < 32"

lemma start_resolve_ok:
  assumes "ev_ok ctx" "server_fits cfg"
  shows "\<exists>c. start_resolve cfg ctx = Inr c \<and> ev_ok c \<and> ev_state c = ev_state ctx \<and> ev_sock_fd c = ev_sock_fd ctx"
proof -
  obtain s ss where s: "cfg_servers cfg = s # ss" using assms(2) by (auto simp: server_fits_def neq_Nil_conv)
  have "length (srv_host s) < length (ev_ar_name ctx)" "length (srv_port s) < length (ev_ar_service ctx)"
    using assms s by (auto simp: server_fits_def ev_ok_def)
  from set_name_ok [OF this(1)] set_name_ok [OF this(2)] obtain n v where
    "set_name (ev_ar_name ctx) (srv_host s) = Inr n" "length n = length (ev_ar_name ctx)"
    "set_name (ev_ar_service ctx) (srv_port s) = Inr v" "length v = length (ev_ar_service ctx)" by blast
  with assms(1) s show ?thesis by (simp add: start_resolve_def ev_ok_def)
qed

lemma poll_state_ok:
  assumes "ev_ok ctx" "server_fits cfg"
  shows "\<exists>c. poll_state k cfg now ctx = Inr c \<and> ev_ok c \<and> switch_step (ev_state ctx) (ev_state c)"
proof (cases "ev_state ctx")
  case DISCONNECTED
  from start_resolve_ok [OF assms] obtain c where "start_resolve cfg ctx = Inr c" "ev_ok c"
    "ev_sock_fd c = ev_sock_fd ctx" by blast
  with DISCONNECTED assms(1) show ?thesis
    by (auto simp: poll_state_def ev_ok_def intro: switch_step.intros)
next
  case RESOLVED
  with tryconnect_ok [OF assms(1), of k now] show ?thesis by (simp add: poll_state_def)
next
  case CONNECTING
  with tryconnect_ok [OF assms(1), of k now] assms(1) show ?thesis
    by (simp add: poll_state_def switch_step.stay)
qed (use assms(1) in \<open>simp_all add: poll_state_def switch_step.stay\<close>)

section \<open>Events\<close>

text \<open>
  What the handling of events may do between two points of a round: the state moves by
  event steps, and a connection is reported only when an attempt was under way.
\<close>

definition events_ok :: "rp_event_ctx \<times> rp_events \<Rightarrow> rp_event_ctx \<times> rp_events \<Rightarrow> bool" where
  "events_ok s s' \<longleftrightarrow> ev_ok (fst s') \<and> ev_addr_sig (fst s') = ev_addr_sig (fst s) \<and>
     event_step\<^sup>*\<^sup>* (ev_state (fst s)) (ev_state (fst s')) \<and>
     (evs_connected (snd s') \<longrightarrow> evs_connected (snd s) \<or> ev_state (fst s) = CONNECTING)"

lemma events_ok_refl: "ev_ok (fst s) \<Longrightarrow> events_ok s s"
  by (simp add: events_ok_def)

lemma events_ok_trans: "events_ok s t \<Longrightarrow> events_ok t u \<Longrightarrow> events_ok s u"
  by (auto simp: events_ok_def event_steps_to(1) intro: rtranclp_trans)

lemma events_ok_same:
  "ev_ok c \<Longrightarrow> same_conn ctx c \<Longrightarrow> events_ok (ctx, evs) (c, evs)"
  by (simp add: events_ok_def same_conn_def)

lemma res_ok_mono: "res_ok P r \<Longrightarrow> (\<And>x. P x \<Longrightarrow> Q x) \<Longrightarrow> res_ok Q r"
  by (auto simp: res_ok_def)

lemma disconnect_addr_sig [simp]: "ev_addr_sig (rp_disconnect now ctx) = ev_addr_sig ctx"
  by (simp add: rp_disconnect_def rp_freeaddrinfo_def Let_def)

lemma handle_sock_event_ok:
  assumes "ev_ok ctx"
  shows "res_ok (events_ok (ctx, evs)) (handle_sock_event k now e (ctx, evs))"
proof (cases "has_flag e EPOLLRDHUP \<or> has_flag e EPOLLERR \<or> has_flag e EPOLLHUP")
  case True
  then show ?thesis
    using disconnect_ok [OF assms, of now]
    by (simp add: handle_sock_event_def events_ok_def r_into_rtranclp hangup)
next
  case False
  have rd: "res_ok (\<lambda>c. ev_ok c \<and> same_conn ctx c)
      (if has_flag e EPOLLIN \<and> rp_fifo_bytes_free (ev_read_buf ctx) > 0 then do_read k ctx else Inr ctx)"
    using assms by (auto intro: res_ok_mono [OF do_read_inv])
  have wr: "res_ok (events_ok (ctx, evs)) (res_bind (do_write k c) (\<lambda>c2. Inr (c2, evs)))"
    if "ev_ok c" "same_conn ctx c" "rp_fifo_count (ev_write_buf c) > 0" for c
    using that(2) by (intro res_ok_bind [OF do_write_inv [OF that(1,3)]])
      (auto intro: events_ok_same same_conn_trans)
  have up: "events_ok (ctx, evs) ((log x c)\<lparr>ev_state := CONNECTED\<rparr>, evs\<lparr>evs_connected := True\<rparr>)"
    if "ev_ok c" "same_conn ctx c" "ev_state c = CONNECTING" for c x
    using that by (auto simp: events_ok_def ev_ok_def same_conn_def intro: r_into_rtranclp connected)
  show ?thesis
    unfolding handle_sock_event_def prod.case if_not_P [OF False]
    using wr up by (intro res_ok_bind [OF rd]) (auto intro: events_ok_same)
qed

text \<open>A resolution signal carries the request that it completes.\<close>

definition sig_valid :: "kernel \<Rightarrow> int \<Rightarrow> bool" where
  "sig_valid k sig \<longleftrightarrow> (\<forall>h n. int n = sig \<longrightarrow> S_info n None \<notin> set (k_sigreads k h))"

lemma sig_loop_ok:
  assumes "ev_ok ctx" "\<forall>n. int n = ev_addr_sig ctx \<longrightarrow> S_info n None \<notin> set rs"
  shows "res_ok (events_ok (ctx, evs)) (sig_loop rs (ctx, evs))"
  using assms
proof (induction rs arbitrary: ctx evs)
  case Nil
  then show ?case by (simp add: events_ok_def ev_ok_def)
next
  case (Cons r rs)
  let ?c = "log (C_sigread (ev_sig_fd ctx)) ctx"
  have ok: "ev_ok ?c" using Cons.prems(1) by (simp add: ev_ok_def)
  have step: "res_ok (events_ok (ctx, evs)) (sig_loop rs (c, evs'))"
    if "events_ok (ctx, evs) (c, evs')" for c evs'
  proof (rule res_ok_mono)
    show "res_ok (events_ok (c, evs')) (sig_loop rs (c, evs'))"
      using Cons.prems(2) that by (intro Cons.IH) (auto simp: events_ok_def)
  qed (rule events_ok_trans [OF that])
  have same: "events_ok (ctx, evs) (?c, evs)" "events_ok (ctx, evs) (?c, evs\<lparr>evs_sig_int := True\<rparr>)"
    "events_ok (ctx, evs) (?c\<lparr>ev_res0 := as, ev_res := [], ev_state := RESOLVED\<rparr>, evs)" for as
    using Cons.prems(1) by (auto simp: events_ok_def ev_ok_def intro: r_into_rtranclp resolved)
  show ?case
  proof (cases r)
    case (S_info n ptr)
    show ?thesis
    proof (cases "int n = ev_addr_sig ctx \<and> n \<noteq> SIGINT")
      case True
      with Cons.prems(2) S_info obtain as where "ptr = Some as" by (cases ptr) auto
      with True S_info step [OF same(3)] show ?thesis by (simp add: Let_def)
    next
      case False
      with S_info step [OF same(1)] step [OF same(2)] show ?thesis by (auto simp: Let_def)
    qed
  qed (use same in \<open>simp_all add: Let_def\<close>)
qed

lemma handle_sig_event_ok:
  assumes "ev_ok ctx" "sig_valid k (ev_addr_sig ctx)"
  shows "res_ok (events_ok (ctx, evs)) (handle_sig_event k e (ctx, evs))"
  using sig_loop_ok [OF assms(1), of "k_sigreads k (ev_hist ctx)" evs] assms
  by (auto simp: handle_sig_event_def sig_valid_def events_ok_refl)

lemma handle_events_ok:
  assumes "ev_ok (fst s)" "sig_valid k (ev_addr_sig (fst s))"
  shows "res_ok (events_ok s) (handle_events k now es s)"
  using assms
proof (induction es arbitrary: s)
  case Nil
  then show ?case by (simp add: events_ok_refl)
next
  case (Cons x es)
  obtain fd e where x: "x = (fd, e)" by (cases x)
  have next_ok: "res_ok (events_ok s) (res_bind r (handle_events k now es))"
    if "res_ok (events_ok s) r" for r
  proof (rule res_ok_bind [OF that])
    fix t assume t: "events_ok s t"
    then have "res_ok (events_ok t) (handle_events k now es t)"
      using Cons.prems by (intro Cons.IH) (auto simp: events_ok_def)
    then show "res_ok (events_ok s) (handle_events k now es t)"
      by (rule res_ok_mono) (rule events_ok_trans [OF t])
  qed
  have "res_ok (events_ok s) (handle_sock_event k now e s)"
    "res_ok (events_ok s) (handle_sig_event k e s)"
    using handle_sock_event_ok [of "fst s" "snd s" k now e] handle_sig_event_ok [of "fst s" k "snd s" e]
      Cons.prems by simp_all
  with Cons next_ok show ?case by (simp add: x)
qed

section \<open>A whole round\<close>

lemma no_epollout: "\<not> has_flag (EPOLLIN OR EPOLLRDHUP OR EPOLLERR OR EPOLLET) EPOLLOUT"
  by (simp add: has_flag_def EPOLLIN_def EPOLLRDHUP_def EPOLLERR_def EPOLLET_def EPOLLOUT_def)

lemma tryflush_ok:
  assumes "ev_ok ctx"
  shows "res_ok (\<lambda>(c, _). ev_ok c \<and> same_conn ctx c) (rp_tryflush k ctx)"
proof -
  have rd: "res_ok (\<lambda>(c, _). ev_ok c \<and> same_conn ctx c)
      (if rp_fifo_bytes_free (ev_read_buf ctx) > 0 then
         if ev_read_full ctx then Inr (ctx, True) else res_bind (do_read k ctx) (\<lambda>c. Inr (c, False))
       else Inr (ctx, False))"
    using assms by (auto intro!: res_ok_bind [OF do_read_inv])
  have wr: "res_ok (\<lambda>(c, _, _). ev_ok c \<and> same_conn ctx c)
      (if rp_fifo_count (ev_write_buf c) > 0 then
         if ev_write_full c then
           if \<not> has_flag e EPOLLOUT then Inr (c, True, e OR EPOLLOUT) else Inr (c, u, e)
         else res_bind (do_write k c) (\<lambda>c. Inr (c, u, e))
       else if has_flag e EPOLLOUT then Inr (c, True, e AND NOT EPOLLOUT)
       else Inr (c, u, e))" if "ev_ok c" "same_conn ctx c" for c u e
    using that by (auto intro!: res_ok_bind [OF do_write_inv] intro: same_conn_trans)
  have fin: "ev_ok (log x c) \<and> same_conn ctx (log x c)" if "ev_ok c" "same_conn ctx c" for c x
    using that by (simp add: ev_ok_def same_conn_def)
  show ?thesis
    unfolding rp_tryflush_def Let_def
    by (rule res_ok_bind [OF rd], clarify, rule res_ok_bind [OF wr]) (use fin in auto)
qed

text \<open>What a round of polling does: event steps, then one step of the switch.\<close>

definition round_ok :: "rp_event_ctx \<times> rp_events \<Rightarrow> rp_event_ctx \<times> rp_events \<times> int \<Rightarrow> bool" where
  "round_ok s r \<longleftrightarrow> (case r of (ctx', evs', _) \<Rightarrow> ev_ok ctx' \<and> ev_addr_sig ctx' = ev_addr_sig (fst s) \<and>
     (\<exists>t. event_step\<^sup>*\<^sup>* (ev_state (fst s)) t \<and> switch_step t (ev_state ctx')) \<and>
     (evs_connected evs' \<longrightarrow> evs_connected (snd s) \<or> ev_state (fst s) = CONNECTING))"

lemma switch_addr_sig: "poll_state k cfg now ctx = Inr c \<Longrightarrow> ev_addr_sig c = ev_addr_sig ctx"
  by (auto simp: poll_state_def start_resolve_def rp_tryconnect_def conn_fail_def Let_def
      split: conn_state.splits list.splits if_splits)

lemma event_poll_ok:
  assumes "ev_ok ctx" "sig_valid k (ev_addr_sig ctx)" "server_fits cfg"
  shows "res_ok (round_ok (ctx, evs)) (rp_event_poll k cfg now timeout (ctx, evs))"
proof -
  have fl: "res_ok (\<lambda>c. ev_ok c \<and> same_conn ctx c)
      (if ev_state ctx = CONNECTED then res_bind (rp_tryflush k ctx) (\<lambda>(c, _). Inr c) else Inr ctx)"
    using assms(1) by (auto intro!: res_ok_bind [OF tryflush_ok])
  have same: "round_ok (ctx, evs) (log x c, evs, n)" if "ev_ok c" "same_conn ctx c" for c x n
    using that by (auto simp: round_ok_def ev_ok_def same_conn_def intro: switch_step.stay)
  have ev: "res_ok (round_ok (ctx, evs)) (res_bind (handle_events k now es (log x c, evs)) (\<lambda>(ctx3, evs').
      res_bind (poll_state k cfg now ctx3) (\<lambda>ctx4. Inr (ctx4, evs', n))))"
    if c: "ev_ok c" "same_conn ctx c" for c es x n
  proof (rule res_ok_bind)
    show "res_ok (events_ok (log x c, evs)) (handle_events k now es (log x c, evs))"
      using c assms(2) by (intro handle_events_ok) (auto simp: ev_ok_def same_conn_def)
  next
    fix t assume t: "events_ok (log x c, evs) t"
    then obtain d where "poll_state k cfg now (fst t) = Inr d" "ev_ok d"
      "switch_step (ev_state (fst t)) (ev_state d)"
      using poll_state_ok [OF _ assms(3), of "fst t" k now] by (auto simp: events_ok_def)
    with t c(2) switch_addr_sig [of k cfg now "fst t" d] show "res_ok (round_ok (ctx, evs)) (case t of (ctx3, evs') \<Rightarrow>
        res_bind (poll_state k cfg now ctx3) (\<lambda>ctx4. Inr (ctx4, evs', n)))"
      by (auto simp: round_ok_def events_ok_def same_conn_def split_beta)
  qed
  show ?thesis
    unfolding rp_event_poll_def prod.case Let_def
    by (rule res_ok_bind [OF fl]) (auto simp: same ev split: poll_result.split)
qed

end
