(* ===== verification/Event_Props.thy ===== *)
theory Event_Props
  imports Event_States
begin

text \<open>
  The properties of the event loop: what a run can reach, what one round of polling can
  do, how the sockets and the fifos are connected, and where the loop gives up.
\<close>

section \<open>Runs\<close>

text \<open>
  The contexts of a run: the loop is initialised, then rounds of polling alternate with
  the client's use of the fifos.
\<close>

inductive reachable :: "kernel \<Rightarrow> rp_config \<Rightarrow> int \<Rightarrow> rp_event_ctx \<Rightarrow> bool"
  for k :: kernel and cfg :: rp_config and sig :: int where
  init: "rp_event_init k True name service rb wb h = Some (Inr ctx) \<Longrightarrow> length name = 256 \<Longrightarrow>
    length service = 32 \<Longrightarrow> fifo_ok rb \<Longrightarrow> fifo_ok wb \<Longrightarrow> ev_addr_sig ctx = sig \<Longrightarrow>
    reachable k cfg sig ctx"
| poll: "reachable k cfg sig ctx \<Longrightarrow>
    rp_event_poll k cfg now timeout (ctx, no_events) = Inr (ctx', evs, r) \<Longrightarrow> reachable k cfg sig ctx'"
| client: "reachable k cfg sig ctx \<Longrightarrow> fifo_ok rb \<Longrightarrow> fifo_ok wb \<Longrightarrow>
    reachable k cfg sig (ctx\<lparr>ev_read_buf := rb, ev_write_buf := wb\<rparr>)"

lemma sig_init_ok:
  "sig_init k ctx = Inr c \<Longrightarrow> ev_ok ctx \<Longrightarrow> ev_ok c \<and> ev_state c = ev_state ctx \<and> ev_addr_sig c = ev_addr_sig ctx"
  by (auto simp: sig_init_def ev_ok_def Let_def split: if_splits)

lemma event_init_ok:
  assumes "rp_event_init k True name service rb wb h = Some (Inr ctx)" "length name = 256"
    "length service = 32" "fifo_ok rb" "fifo_ok wb"
  shows "ev_ok ctx \<and> ev_state ctx = DISCONNECTED"
proof -
  from assms(1) obtain efd h2 sig where "sig_init k \<lparr>ev_next_conn_msec = 0, ev_conn_timeout_msec = 0,
      ev_res0 = [], ev_res = [], ev_ar_name = name, ev_ar_service = service, ev_state = DISCONNECTED,
      ev_addr_sig = sig, ev_sock_fd = - 1, ev_sig_fd = - 1, ev_epoll_fd = efd, ev_read_full = False,
      ev_write_full = False, ev_read_buf = rb, ev_write_buf = wb, ev_hist = h2\<rparr> = Inr ctx"
    by (auto simp: rp_event_init_def Let_def bind_eq_Some_conv split: if_splits)
  with sig_init_ok [OF this] assms(2-5) show ?thesis by (simp add: ev_ok_def)
qed

lemma reachable_ok:
  assumes "reachable k cfg sig ctx" "sig_valid k sig" "server_fits cfg"
  shows "ev_ok ctx \<and> ev_addr_sig ctx = sig"
  using assms(1)
proof induction
  case (init name service rb wb h ctx)
  then show ?case using event_init_ok by blast
next
  case (poll ctx now timeout ctx' evs r)
  with event_poll_ok [of ctx k cfg no_events now timeout] assms(2,3) show ?case
    by (auto simp: res_ok_def round_ok_def)
next
  case (client ctx rb wb)
  then show ?case by (simp add: ev_ok_def)
qed

section \<open>Examples\<close>

definition quiet_kernel :: kernel where
  "quiet_kernel = \<lparr>k_read = (\<lambda>_ _ _. R_errno EAGAIN), k_write = (\<lambda>_ _ d. W_count (length d)),
     k_socket = (\<lambda>_ _. 5), k_setfl = (\<lambda>_ _. 0), k_connect = (\<lambda>_ _ _. - EINPROGRESS),
     k_epoll_mod = (\<lambda>_ _. 0), k_epoll_wait = (\<lambda>_ _. P_events []), k_sigreads = (\<lambda>_. []),
     k_sigaction = (\<lambda>_ _. SA_old False 0), k_sigprocmask = (\<lambda>_. 0), k_signalfd = (\<lambda>_. 4),
     k_epoll_create = (\<lambda>_. 3)\<rparr>"

definition io_fifo :: rp_fifo where
  "io_fifo = rp_fifo_init \<lparr>f_capacity = 8, f_count = 0, f_head = 0, f_tail = 0, f_end = 0,
     f_buffer = ''........''\<rparr>"

lemma io_fifo_ok: "fifo_ok io_fifo" "fifo_bytes io_fifo = []" "fifo_room io_fifo = 8"
  by (simp_all add: fifo_ok_def io_fifo_def rp_fifo_init_def fifo_bytes_def fifo_room_def)

definition idle_ctx :: rp_event_ctx where
  "idle_ctx = \<lparr>ev_next_conn_msec = 0, ev_conn_timeout_msec = 0, ev_res0 = [], ev_res = [],
     ev_ar_name = replicate 256 CHR 0x00, ev_ar_service = replicate 32 CHR 0x00,
     ev_state = DISCONNECTED, ev_addr_sig = 34, ev_sock_fd = - 1, ev_sig_fd = 4, ev_epoll_fd = 3,
     ev_read_full = False, ev_write_full = False, ev_read_buf = io_fifo, ev_write_buf = io_fifo,
     ev_hist = [C_epoll_create, C_sigaction 34, C_sigprocmask [2, 34], C_signalfd [2, 34],
       C_epoll_add 4 (EPOLLIN OR EPOLLRDHUP OR EPOLLERR OR EPOLLET)]\<rparr>"

lemma idle_init:
  "rp_event_init quiet_kernel True (replicate 256 CHR 0x00) (replicate 32 CHR 0x00) io_fifo io_fifo [] =
     Some (Inr idle_ctx)"
proof -
  have "find_rt_signal quiet_kernel [C_epoll_create] = Some ([C_epoll_create, C_sigaction 34], 34)"
    unfolding find_rt_signal_def
    by (subst find_rt_signal_from.simps) (simp add: quiet_kernel_def SIGRTMIN_def SIGRTMAX_def)
  moreover have "k_epoll_create quiet_kernel h = 3" "k_sigprocmask quiet_kernel h = 0"
    "k_signalfd quiet_kernel h = 4" for h
    by (simp_all add: quiet_kernel_def)
  ultimately show ?thesis
    by (simp add: rp_event_init_def sig_init_def idle_ctx_def log_def SIGINT_def Let_def)
qed

lemma idle_reachable: "reachable quiet_kernel cfg 34 idle_ctx"
proof (rule init [OF idle_init])
  show "ev_addr_sig idle_ctx = 34" by (simp add: idle_ctx_def)
qed (simp_all add: io_fifo_ok)

lemma quiet_sig_valid: "sig_valid quiet_kernel sig"
  by (simp add: sig_valid_def quiet_kernel_def)

lemma sample_server_fits: "server_fits sample_config"
  by (simp add: server_fits_def sample_config_def)

section \<open>Properties\<close>

text \<open>
  C1: Safety of the event loop: in every context that a run can reach (initialisation,
  rounds of polling with any time, timeout and kernel results, any use of the fifos by the
  client), with a configured server whose name and port fit the name buffers and
  resolution signals that carry their request, a round of polling either returns or calls
  \<open>abort()\<close>. It never accesses memory outside an object or through a null pointer, and it
  keeps the invariant: both fifos well-formed, the name buffers at their sizes, no socket
  while disconnected or resolving.
\<close>

theorem event_loop_safe:
  assumes "reachable k cfg sig ctx" "sig_valid k sig" "server_fits cfg"
  shows "rp_event_poll k cfg now timeout (ctx, no_events) = Inl Aborted \<or>
    (\<exists>ctx' evs r. rp_event_poll k cfg now timeout (ctx, no_events) = Inr (ctx', evs, r) \<and> ev_ok ctx')"
  using event_poll_ok [of ctx k cfg no_events now timeout] reachable_ok [OF assms] assms
  by (auto simp: res_ok_def round_ok_def)

theorem event_loop_safe_witness:
  "\<exists>ctx' evs r. rp_event_poll quiet_kernel sample_config 0 500 (idle_ctx, no_events) = Inr (ctx', evs, r) \<and>
     ev_ok ctx'"
proof -
  have "rp_event_poll quiet_kernel sample_config 0 500 (idle_ctx, no_events) \<noteq> Inl Aborted"
    by (simp add: rp_event_poll_def idle_ctx_def quiet_kernel_def poll_state_def start_resolve_def
        sample_config_def set_name_def mem_write_def log_def MAX_EVENTS_def Let_def)
  with event_loop_safe [OF idle_reachable quiet_sig_valid sample_server_fits, of 0 500] show ?thesis by blast
qed

text \<open>
  C20: The state machine: a round makes steps for its events (a hang-up disconnects, a
  resolution signal gives RESOLVED, a writable socket turns CONNECTING into CONNECTED) and
  then one step of the final switch. So CONNECTED is reached only from CONNECTING, a new
  connection is reported to the client only then, and CONNECTING and RESOLVING come only
  out of the switch.
\<close>

theorem poll_transitions:
  assumes "reachable k cfg sig ctx" "sig_valid k sig" "server_fits cfg"
    and "rp_event_poll k cfg now timeout (ctx, no_events) = Inr (ctx', evs, r)"
  shows "(\<exists>t. event_step\<^sup>*\<^sup>* (ev_state ctx) t \<and> switch_step t (ev_state ctx')) \<and>
    (ev_state ctx' = CONNECTED \<longrightarrow> ev_state ctx \<in> {CONNECTED, CONNECTING}) \<and>
    (evs_connected evs \<longrightarrow> ev_state ctx = CONNECTING)"
proof -
  have "round_ok (ctx, no_events) (ctx', evs, r)"
    using event_poll_ok [of ctx k cfg no_events now timeout] reachable_ok [OF assms(1-3)] assms(2-4)
    by (auto simp: res_ok_def)
  then have "\<exists>t. event_step\<^sup>*\<^sup>* (ev_state ctx) t \<and> switch_step t (ev_state ctx')"
    and "evs_connected evs \<longrightarrow> ev_state ctx = CONNECTING"
    by (auto simp: round_ok_def no_events_def)
  then show ?thesis by (auto simp: event_steps_to)
qed

lemma idle_poll:
  "\<exists>ctx'. rp_event_poll quiet_kernel sample_config 0 500 (idle_ctx, no_events) = Inr (ctx', no_events, 0) \<and>
     ev_state ctx' = RESOLVING"
  by (simp add: rp_event_poll_def idle_ctx_def quiet_kernel_def poll_state_def start_resolve_def
      sample_config_def set_name_def mem_write_def overwrite_def log_def MAX_EVENTS_def Let_def)

theorem poll_transitions_witness:
  "\<exists>t. event_step\<^sup>*\<^sup>* DISCONNECTED t \<and> switch_step t RESOLVING"
proof -
  from idle_poll obtain ctx' where "rp_event_poll quiet_kernel sample_config 0 500 (idle_ctx, no_events) =
      Inr (ctx', no_events, 0)" "ev_state ctx' = RESOLVING" by blast
  with poll_transitions [OF idle_reachable quiet_sig_valid sample_server_fits this(1)] show ?thesis
    by (simp add: idle_ctx_def)
qed

text \<open>
  C21: \<open>do_read\<close> on a fifo with room: it calls \<open>read\<close> only for a positive number of bytes,
  appends everything it reads to the fifo in order, changes nothing else, and stops when
  the fifo is full (and then sets \<open>read_full\<close>) or the socket has no more data; any other
  result of \<open>read\<close>, the end of the stream included, aborts the program.
\<close>

theorem do_read_fills:
  assumes "fifo_ok (ev_read_buf ctx)" "0 < fifo_room (ev_read_buf ctx)"
  shows "do_read k ctx = Inl Aborted \<or>
    (\<exists>ctx' cs. do_read k ctx = Inr ctx' \<and> same_but_read ctx ctx' \<and> ev_hist ctx' = ev_hist ctx @ cs \<and> cs \<noteq> [] \<and>
      (\<forall>c \<in> set cs. good_read (ev_sock_fd ctx) c) \<and> fifo_ok (ev_read_buf ctx') \<and>
      fifo_bytes (ev_read_buf ctx') = fifo_bytes (ev_read_buf ctx) @ read_data cs \<and>
      (fifo_room (ev_read_buf ctx') = 0 \<longrightarrow> ev_read_full ctx') \<and>
      (fifo_room (ev_read_buf ctx') \<noteq> 0 \<longrightarrow> ev_read_full ctx' = ev_read_full ctx \<and>
        (\<exists>n. last cs = C_read (ev_sock_fd ctx) n (R_errno EAGAIN))))"
  by (rule do_read_ok [OF assms])

definition one_read_kernel :: kernel where
  "one_read_kernel = quiet_kernel\<lparr>k_read := (\<lambda>h _ _. if length h = 5 then R_data ''PING'' else R_errno EAGAIN)\<rparr>"

theorem do_read_fills_witness:
  "\<exists>ctx'. do_read one_read_kernel idle_ctx = Inr ctx' \<and> fifo_bytes (ev_read_buf ctx') = ''PING'' \<and>
     fifo_ok (ev_read_buf ctx')"
proof -
  have r: "case do_read one_read_kernel idle_ctx of Inr c \<Rightarrow> fifo_bytes (ev_read_buf c) = ''PING'' | _ \<Rightarrow> False"
    by code_simp
  have "ev_read_buf idle_ctx = io_fifo" by (simp add: idle_ctx_def)
  then have "fifo_ok (ev_read_buf idle_ctx)" "0 < fifo_room (ev_read_buf idle_ctx)"
    by (simp_all add: io_fifo_ok)
  from do_read_fills [OF this, of one_read_kernel] r show ?thesis by auto
qed

text \<open>
  C22: \<open>do_write\<close> on a fifo with content: it calls \<open>write\<close> only with a positive number of
  bytes; what the socket accepted is exactly the front of the content, the rest stays; it
  stops when the fifo is empty, or when the socket would block, and then sets
  \<open>write_full\<close>; any other result aborts the program.
\<close>

theorem do_write_drains:
  assumes "fifo_ok (ev_write_buf ctx)" "fifo_bytes (ev_write_buf ctx) \<noteq> []"
  shows "do_write k ctx = Inl Aborted \<or>
    (\<exists>ctx' cs. do_write k ctx = Inr ctx' \<and> same_but_write ctx ctx' \<and> ev_hist ctx' = ev_hist ctx @ cs \<and> cs \<noteq> [] \<and>
      (\<forall>c \<in> set cs. good_write (ev_sock_fd ctx) c) \<and> fifo_ok (ev_write_buf ctx') \<and>
      fifo_bytes (ev_write_buf ctx) = written cs @ fifo_bytes (ev_write_buf ctx') \<and>
      (fifo_bytes (ev_write_buf ctx') \<noteq> [] \<longrightarrow> ev_write_full ctx' \<and>
        (\<exists>d. last cs = C_write (ev_sock_fd ctx) d (W_errno EAGAIN))))"
  by (rule do_write_ok [OF assms])

definition full_fifo :: rp_fifo where
  "full_fifo = \<lparr>f_capacity = 4, f_count = 4, f_head = 2, f_tail = 2, f_end = 4, f_buffer = ''NGPI''\<rparr>"

lemma full_fifo_ok: "fifo_ok full_fifo" "fifo_bytes full_fifo = ''PING''"
  by (simp_all add: fifo_ok_def full_fifo_def) code_simp

theorem do_write_drains_witness:
  "\<exists>ctx' cs. do_write quiet_kernel (idle_ctx\<lparr>ev_write_buf := full_fifo\<rparr>) = Inr ctx' \<and>
     ''PING'' = written cs @ fifo_bytes (ev_write_buf ctx') \<and> ev_hist ctx' = ev_hist idle_ctx @ cs"
proof -
  let ?ctx = "idle_ctx\<lparr>ev_write_buf := full_fifo\<rparr>"
  have r: "case do_write quiet_kernel ?ctx of Inr c \<Rightarrow> True | _ \<Rightarrow> False" by code_simp
  have "fifo_ok (ev_write_buf ?ctx)" "fifo_bytes (ev_write_buf ?ctx) \<noteq> []" "fifo_bytes (ev_write_buf ?ctx) = ''PING''"
    by (simp_all add: full_fifo_ok)
  with do_write_drains [OF this(1,2), of quiet_kernel] r show ?thesis by auto
qed

text \<open>
  C29: Reconnecting: after a disconnect at time \<open>t\<close>, a round without events at time \<open>now\<close>
  starts a resolution of the first server exactly when 30 seconds have passed; before
  that it only waits. Nothing is left of the old connection.
\<close>

theorem reconnect_delay:
  assumes "ev_ok ctx" "server_fits cfg" "\<forall>h t. k_epoll_wait k h t = P_events []"
    and "unat t + 30000 < 2 ^ 64"
  shows "\<exists>ctx'. rp_event_poll k cfg now timeout (rp_disconnect t ctx, no_events) = Inr (ctx', no_events, 0) \<and>
    ev_sock_fd ctx' = - 1 \<and> ev_res0 ctx' = [] \<and>
    (if unat t + 30000 \<le> unat now
     then ev_state ctx' = RESOLVING \<and> (\<exists>n s. last (ev_hist ctx') = C_getaddrinfo n s (ev_addr_sig ctx) \<and>
       take (length (srv_host (hd (cfg_servers cfg))) + 1) n = srv_host (hd (cfg_servers cfg)) @ [CHR 0x00] \<and>
       take (length (srv_port (hd (cfg_servers cfg))) + 1) s = srv_port (hd (cfg_servers cfg)) @ [CHR 0x00])
     else ev_state ctx' = DISCONNECTED \<and> last (ev_hist ctx') = C_epoll_wait timeout (P_events []))"
proof -
  let ?d = "log (C_epoll_wait timeout (P_events [])) (rp_disconnect t ctx)"
  have ok: "ev_ok ?d" using disconnect_ok [OF assms(1)] by (simp add: ev_ok_def)
  have delay: "t + IRC_RETRY_DELAY \<le> now \<longleftrightarrow> unat t + 30000 \<le> unat now"
    using assms(4) by (simp add: word_le_nat_alt unat_add_less IRC_RETRY_DELAY_def)
  obtain s ss where s: "cfg_servers cfg = s # ss" using assms(2) by (auto simp: server_fits_def neq_Nil_conv)
  have "length (srv_host s) < length (ev_ar_name ?d)" "length (srv_port s) < length (ev_ar_service ?d)"
    using assms(1,2) s by (auto simp: server_fits_def ev_ok_def)
  from set_name_ok [OF this(1)] set_name_ok [OF this(2)] obtain n v where nv:
    "set_name (ev_ar_name ?d) (srv_host s) = Inr n" "take (length (srv_host s) + 1) n = srv_host s @ [CHR 0x00]"
    "set_name (ev_ar_service ?d) (srv_port s) = Inr v" "take (length (srv_port s) + 1) v = srv_port s @ [CHR 0x00]"
    by blast
  have poll: "rp_event_poll k cfg now timeout (rp_disconnect t ctx, no_events) =
      res_bind (poll_state k cfg now ?d) (\<lambda>ctx4. Inr (ctx4, no_events, 0))"
    using assms(3) by (simp add: rp_event_poll_def Let_def)
  show ?thesis
  proof (cases "unat t + 30000 \<le> unat now")
    case True
    with nv s delay show ?thesis
      unfolding poll by (simp add: poll_state_def start_resolve_def)
  next
    case False
    with delay show ?thesis unfolding poll by (simp add: poll_state_def)
  qed
qed

lemma idle_ok: "ev_ok idle_ctx"
  by (simp add: ev_ok_def idle_ctx_def io_fifo_ok)

theorem reconnect_delay_witness:
  "\<exists>ctx'. rp_event_poll quiet_kernel sample_config 30007 500 (rp_disconnect 7 idle_ctx, no_events) =
      Inr (ctx', no_events, 0) \<and> ev_state ctx' = RESOLVING"
proof -
  have "\<forall>h t. k_epoll_wait quiet_kernel h t = P_events []" by (simp add: quiet_kernel_def)
  from reconnect_delay [OF idle_ok sample_server_fits this, of 7 30007 500] show ?thesis by auto
qed

text \<open>
  \<open>start_resolve\<close> trusts the configuration: without a server it dereferences a null
  pointer, and a host of 256 or more, or a port of 32 or more characters is copied past
  the end of the name buffers.
\<close>

theorem start_resolve_overflow:
  assumes "ev_ok ctx"
  shows "(cfg_servers cfg = [] \<longrightarrow> start_resolve cfg ctx = Inl NullDeref) \<and>
    (cfg_servers cfg \<noteq> [] \<longrightarrow>
      (start_resolve cfg ctx = Inl OutOfBounds \<longleftrightarrow>
        256 \<le> length (srv_host (hd (cfg_servers cfg))) \<or> 32 \<le> length (srv_port (hd (cfg_servers cfg)))))"
proof (cases "cfg_servers cfg")
  case (Cons s ss)
  have sz: "length (ev_ar_name ctx) = 256" "length (ev_ar_service ctx) = 32" using assms by (auto simp: ev_ok_def)
  consider (name) "256 \<le> length (srv_host s)" | (port) "length (srv_host s) < 256" "32 \<le> length (srv_port s)"
    | (fits) "length (srv_host s) < 256" "length (srv_port s) < 32" by linarith
  then show ?thesis
  proof cases
    case name
    then show ?thesis using sz set_name_overflow [of "ev_ar_name ctx" "srv_host s"] Cons
      by (simp add: start_resolve_def)
  next
    case port
    then show ?thesis
      using sz set_name_ok [of "srv_host s" "ev_ar_name ctx"] set_name_overflow [of "ev_ar_service ctx" "srv_port s"] Cons
      by (auto simp: start_resolve_def)
  next
    case fits
    then show ?thesis
      using sz set_name_ok [of "srv_host s" "ev_ar_name ctx"] set_name_ok [of "srv_port s" "ev_ar_service ctx"] Cons
      by (auto simp: start_resolve_def)
  qed
qed (simp add: start_resolve_def)

theorem start_resolve_overflow_witness:
  "start_resolve empty_config idle_ctx = Inl NullDeref"
  using start_resolve_overflow [OF idle_ok, of empty_config] by (simp add: empty_config_def)

section \<open>Trying the addresses\<close>

fun socket_calls :: "history \<Rightarrow> (int \<times> int \<times> int) list" where
  "socket_calls [] = []"
| "socket_calls (C_socket f t p fd # cs) = (f, t, p) # socket_calls cs"
| "socket_calls (c # cs) = socket_calls cs"

lemma socket_calls_append [simp]: "socket_calls (xs @ ys) = socket_calls xs @ socket_calls ys"
  by (induction xs rule: socket_calls.induct) auto

definition addr_key :: "addrinfo \<Rightarrow> int \<times> int \<times> int" where
  "addr_key a = (ai_family a, ai_socktype a, ai_protocol a)"

text \<open>The addresses that \<open>connect\<close> was called with.\<close>

fun connects :: "history \<Rightarrow> bytes list" where
  "connects [] = []"
| "connects (C_connect fd addr e # cs) = addr # connects cs"
| "connects (c # cs) = connects cs"

lemma connects_append [simp]: "connects (xs @ ys) = connects xs @ connects ys"
  by (induction xs rule: connects.induct) auto

text \<open>
  The calls of one failed attempt at an address: no socket of its family, or a socket that
  cannot be made non-blocking, or one on which connecting to this address fails; a socket
  is closed again.
\<close>

definition opened :: "addrinfo \<Rightarrow> int \<Rightarrow> history" where
  "opened a fd = [C_socket (ai_family a) (ai_socktype a) (ai_protocol a) fd, C_getfl fd, C_setfl fd O_NONBLOCK]"

inductive tried :: "addrinfo \<Rightarrow> history \<Rightarrow> bool" where
  no_socket: "tried a [C_socket (ai_family a) (ai_socktype a) (ai_protocol a) (- 1)]"
| no_flags: "fd \<noteq> - 1 \<Longrightarrow> tried a (opened a fd @ [C_close fd])"
| no_connection: "fd \<noteq> - 1 \<Longrightarrow> tried a (opened a fd @ [C_connect fd (ai_addr a) e, C_close fd])"

lemma tried_socket: "tried a cs \<Longrightarrow> socket_calls cs = [addr_key a]"
  by (induction rule: tried.induct) (simp_all add: opened_def addr_key_def)

text \<open>A kernel that opens sockets and makes them non-blocking.\<close>

definition sockets_open :: "kernel \<Rightarrow> bool" where
  "sockets_open k \<longleftrightarrow> (\<forall>h b. k_socket k h b \<noteq> - 1) \<and> (\<forall>h fd. k_setfl k h fd \<noteq> - 1)"

text \<open>Calls of \<open>rp_tryconnect\<close>, one per round, at the given times.\<close>

definition try_rounds :: "kernel \<Rightarrow> size_t list \<Rightarrow> rp_event_ctx \<Rightarrow> rp_event_ctx" where
  "try_rounds k nows ctx = foldl (\<lambda>c now. fst (rp_tryconnect k now c)) ctx nows"

definition all_fail :: "kernel \<Rightarrow> bool" where
  "all_fail k \<longleftrightarrow> (\<forall>h fd b. k_connect k h fd b \<noteq> - EINPROGRESS)"

lemma tryconnect_fails:
  assumes "all_fail k"
    and "(if ev_res ctx = [] then ev_res0 ctx else tl (ev_res ctx)) = a # as"
  shows "\<exists>cs. ev_hist (fst (rp_tryconnect k now ctx)) = ev_hist ctx @ cs \<and> tried a cs \<and>
    (sockets_open k \<longrightarrow> connects cs = [ai_addr a]) \<and>
    ev_res (fst (rp_tryconnect k now ctx)) = a # as \<and> ev_res0 (fst (rp_tryconnect k now ctx)) = ev_res0 ctx"
proof -
  define fd where "fd = k_socket k (ev_hist ctx) a"
  note run = rp_tryconnect_def conn_fail_def Let_def log_def fd_def [symmetric] assms(2)
  consider "fd = - 1" | "fd \<noteq> - 1" "k_setfl k (ev_hist ctx @ butlast (opened a fd)) fd = - 1"
    | "fd \<noteq> - 1" "k_setfl k (ev_hist ctx @ butlast (opened a fd)) fd \<noteq> - 1" by blast
  then show ?thesis
  proof cases
    case 1
    then have "\<not> sockets_open k" by (auto simp: sockets_open_def fd_def)
    with 1 show ?thesis using no_socket [of a] by (intro exI conjI) (auto simp: run)
  next
    case 2
    then show ?thesis using no_flags [of fd a]
      by (intro exI [of _ "opened a fd @ [C_close fd]"]) (auto simp: run opened_def sockets_open_def)
  next
    case 3
    let ?e = "k_connect k (ev_hist ctx @ opened a fd) fd (ai_addr a)"
    show ?thesis using 3 assms(1) no_connection [of fd a ?e]
      by (intro exI [of _ "opened a fd @ [C_connect fd (ai_addr a) ?e, C_close fd]"])
        (auto simp: run opened_def all_fail_def)
  qed
qed

lemma tryconnect_gives_up:
  assumes "(if ev_res ctx = [] then ev_res0 ctx else tl (ev_res ctx)) = []"
  shows "rp_tryconnect k now ctx = (rp_disconnect now (ctx\<lparr>ev_res := []\<rparr>), 0)"
  using assms by (simp add: rp_tryconnect_def Let_def)

text \<open>The rounds after the address that is tried next.\<close>

lemma try_addresses:
  assumes "all_fail k" "(if ev_res ctx = [] then ev_res0 ctx else tl (ev_res ctx)) = as" "ev_res0 ctx \<noteq> []"
    and "ev_res ctx \<noteq> [] \<or> as \<noteq> []" "length nows = length as + 1"
  shows "\<exists>css fd. list_all2 tried as css \<and> (sockets_open k \<longrightarrow> connects (concat css) = map ai_addr as) \<and>
    ev_hist (try_rounds k nows ctx) =
      ev_hist ctx @ concat css @ [C_epoll_del fd, C_close fd, C_freeaddrinfo (ev_res0 ctx)] \<and>
    ev_state (try_rounds k nows ctx) = DISCONNECTED \<and> ev_res0 (try_rounds k nows ctx) = [] \<and>
    ev_next_conn_msec (try_rounds k nows ctx) = last nows + IRC_RETRY_DELAY"
  using assms(2-5)
proof (induction as arbitrary: ctx nows)
  case Nil
  then obtain now where "nows = [now]" by (cases nows) auto
  with Nil show ?case
    by (simp add: try_rounds_def tryconnect_gives_up rp_disconnect_def rp_freeaddrinfo_def Let_def log_def)
next
  case (Cons a as)
  from Cons.prems(4) obtain now nows' where n: "nows = now # nows'" "length nows' = length as + 1"
    by (cases nows) auto
  have ne: "nows' \<noteq> []" using n(2) by auto
  let ?c = "fst (rp_tryconnect k now ctx)"
  from tryconnect_fails [OF assms(1) Cons.prems(1), of now] obtain cs where
    t: "ev_hist ?c = ev_hist ctx @ cs" "tried a cs" "sockets_open k \<longrightarrow> connects cs = [ai_addr a]"
      "ev_res ?c = a # as" "ev_res0 ?c = ev_res0 ctx" by blast
  have "(if ev_res ?c = [] then ev_res0 ?c else tl (ev_res ?c)) = as" "ev_res0 ?c \<noteq> []" "ev_res ?c \<noteq> [] \<or> as \<noteq> []"
    using t(4,5) Cons.prems(2) by simp_all
  from Cons.IH [OF this n(2)] obtain css fd where
    c: "list_all2 tried as css" "sockets_open k \<longrightarrow> connects (concat css) = map ai_addr as"
      "ev_hist (try_rounds k nows' ?c) = ev_hist ?c @ concat css @ [C_epoll_del fd, C_close fd, C_freeaddrinfo (ev_res0 ?c)]"
      "ev_state (try_rounds k nows' ?c) = DISCONNECTED" "ev_res0 (try_rounds k nows' ?c) = []"
      "ev_next_conn_msec (try_rounds k nows' ?c) = last nows' + IRC_RETRY_DELAY" by blast
  have r: "try_rounds k nows ctx = try_rounds k nows' ?c" by (simp add: try_rounds_def n(1))
  show ?case unfolding r
    by (rule exI [of _ "cs # css"], rule exI [of _ fd]) (use t(1,2,3,5) c n(1) ne in auto)
qed

text \<open>
  C30: The addresses of a resolution are tried in their order, each once, one per round: the
  calls of the rounds are those of one attempt at each address after the other, with a
  socket of the family of this address and a connection to no other, and every address is
  connected to where sockets can be opened. When every attempt fails, the round after the
  last gives up: the client is disconnected, the list is freed, and the next resolution
  waits for 30 seconds.
\<close>

theorem addresses_in_order:
  assumes "all_fail k" "ev_res ctx = []" "ev_res0 ctx = as" "as \<noteq> []" "length nows = length as + 1"
  shows "\<exists>css fd. ev_hist (try_rounds k nows ctx) =
      ev_hist ctx @ concat css @ [C_epoll_del fd, C_close fd, C_freeaddrinfo as] \<and> list_all2 tried as css \<and>
    socket_calls (ev_hist (try_rounds k nows ctx)) = socket_calls (ev_hist ctx) @ map addr_key as \<and>
    (sockets_open k \<longrightarrow> connects (ev_hist (try_rounds k nows ctx)) = connects (ev_hist ctx) @ map ai_addr as) \<and>
    ev_state (try_rounds k nows ctx) = DISCONNECTED \<and> ev_res0 (try_rounds k nows ctx) = [] \<and>
    ev_next_conn_msec (try_rounds k nows ctx) = last nows + IRC_RETRY_DELAY"
proof -
  have "(if ev_res ctx = [] then ev_res0 ctx else tl (ev_res ctx)) = as" "ev_res0 ctx \<noteq> []" "ev_res ctx \<noteq> [] \<or> as \<noteq> []"
    using assms(2-4) by simp_all
  from try_addresses [OF assms(1) this assms(5)] obtain css fd where
    c: "list_all2 tried as css" "sockets_open k \<longrightarrow> connects (concat css) = map ai_addr as"
      "ev_hist (try_rounds k nows ctx) = ev_hist ctx @ concat css @ [C_epoll_del fd, C_close fd, C_freeaddrinfo as]"
      "ev_state (try_rounds k nows ctx) = DISCONNECTED" "ev_res0 (try_rounds k nows ctx) = []"
      "ev_next_conn_msec (try_rounds k nows ctx) = last nows + IRC_RETRY_DELAY" by (auto simp: assms(3))
  from c(1) have "socket_calls (concat css) = map addr_key as"
    by (induction rule: list_all2_induct) (simp_all add: tried_socket)
  with c show ?thesis by (intro exI [of _ css] exI [of _ fd]) simp
qed

definition refusing_kernel :: kernel where
  "refusing_kernel = quiet_kernel\<lparr>k_connect := (\<lambda>_ _ _. - 111)\<rparr>"

lemma refusing_fails: "all_fail refusing_kernel"
  by (simp add: all_fail_def refusing_kernel_def EINPROGRESS_def)

definition v4 :: addrinfo where
  "v4 = \<lparr>ai_family = 2, ai_socktype = 1, ai_protocol = 6, ai_addr = ''x''\<rparr>"

definition v6 :: addrinfo where
  "v6 = \<lparr>ai_family = 10, ai_socktype = 1, ai_protocol = 6, ai_addr = ''y''\<rparr>"

theorem addresses_in_order_witness:
  "connects (ev_hist (try_rounds refusing_kernel [1, 2, 3] (idle_ctx\<lparr>ev_state := RESOLVED, ev_res0 := [v6, v4]\<rparr>))) =
     [''y'', ''x''] \<and>
   ev_state (try_rounds refusing_kernel [1, 2, 3] (idle_ctx\<lparr>ev_state := RESOLVED, ev_res0 := [v6, v4]\<rparr>)) = DISCONNECTED"
proof -
  have "sockets_open refusing_kernel" by (simp add: sockets_open_def refusing_kernel_def quiet_kernel_def)
  with addresses_in_order [OF refusing_fails, of "idle_ctx\<lparr>ev_state := RESOLVED, ev_res0 := [v6, v4]\<rparr>" "[v6, v4]" "[1, 2, 3]"]
  show ?thesis by (auto simp: idle_ctx_def v4_def v6_def)
qed

text \<open>
  C33: A failed attempt closes the socket but leaves its number in \<open>sock_fd\<close>; when the
  address was the last one, the next round closes the same number again.
\<close>

theorem socket_closed_twice:
  assumes "all_fail k" "ev_res ctx = []" "ev_res0 ctx = [a]"
    and "\<forall>h b. k_socket k h b = fd" "\<forall>h. k_setfl k h fd = 0" "fd \<noteq> - 1"
  shows "\<exists>e. ev_hist (try_rounds k [t, u] ctx) = ev_hist ctx @
    [C_socket (ai_family a) (ai_socktype a) (ai_protocol a) fd, C_getfl fd, C_setfl fd O_NONBLOCK,
     C_connect fd (ai_addr a) e, C_close fd, C_epoll_del fd, C_close fd, C_freeaddrinfo [a]]"
  using assms
  by (auto simp: try_rounds_def rp_tryconnect_def conn_fail_def rp_disconnect_def rp_freeaddrinfo_def
      all_fail_def Let_def log_def)

theorem socket_closed_twice_witness:
  "\<exists>e. ev_hist (try_rounds refusing_kernel [1, 2] (idle_ctx\<lparr>ev_state := RESOLVED, ev_res0 := [v4], ev_hist := []\<rparr>)) =
    [C_socket 2 1 6 5, C_getfl 5, C_setfl 5 O_NONBLOCK, C_connect 5 ''x'' e, C_close 5, C_epoll_del 5, C_close 5,
     C_freeaddrinfo [v4]]"
  using socket_closed_twice [OF refusing_fails, of "idle_ctx\<lparr>ev_state := RESOLVED, ev_res0 := [v4], ev_hist := []\<rparr>" v4 5 1 2]
  by (simp add: idle_ctx_def refusing_kernel_def quiet_kernel_def v4_def)

text \<open>
  C32: An orderly shutdown by the server aborts the program: with room in the read buffer, a
  \<open>read\<close> that returns 0 before the hang-up event has been seen makes the flush at the start
  of the next round call \<open>abort()\<close>, whatever events are pending.
\<close>

theorem eof_aborts:
  assumes "ev_state ctx = CONNECTED" "fifo_ok (ev_read_buf ctx)" "0 < fifo_room (ev_read_buf ctx)"
    and "\<not> ev_read_full ctx" "\<forall>h fd n. k_read k h fd n = R_data []"
  shows "rp_event_poll k cfg now timeout (ctx, evs) = Inl Aborted"
proof -
  have "do_read k ctx = Inl Aborted"
    using assms(2)
    by (cases rule: do_read_step [where k = k]) (use assms(5) in \<open>auto simp: sys_read_def\<close>)
  with assms show ?thesis
    by (simp add: rp_event_poll_def rp_tryflush_def room_free Let_def)
qed

theorem eof_aborts_witness:
  "rp_event_poll (quiet_kernel\<lparr>k_read := (\<lambda>_ _ _. R_data [])\<rparr>) sample_config 0 500
     (idle_ctx\<lparr>ev_state := CONNECTED, ev_sock_fd := 5\<rparr>, no_events) = Inl Aborted"
  by (rule eof_aborts) (simp_all add: idle_ctx_def io_fifo_ok)

end
