(* ===== verification/Rpbot.thy ===== *)
theory Rpbot
  imports Rp_Irc Event_Props
begin

text \<open>
  The program rpbot.c, with the options of rp_options.c: start-up, the main loop that
  alternates polling and parsing, and the inner loop that drains the read buffer into the
  IRC parser. The clock, the kernel, the pool and the configuration library are
  parameters. A loop that does not end is \<open>None\<close>.
\<close>

section \<open>Start-up\<close>

text \<open>\<open>rp_updatetime\<close>: the value of \<open>rp_current_msec\<close> from the seconds and microseconds.\<close>

definition rp_updatetime :: "size_t \<times> size_t \<Rightarrow> size_t" where
  "rp_updatetime tv = (let (sec, usec) = tv; msec = usec div 1000 in sec * 1000 + msec)"

text \<open>The return value, and \<open>*config\<close> if it was set; \<open>argc\<close> is the length of \<open>argv\<close>.\<close>

definition rp_parse_opts :: "bytes list \<Rightarrow> int \<times> bytes option" where
  "rp_parse_opts argv = (if length argv < 2 then (1, None) else (0, Some (argv ! 1)))"

definition TIMEOUT :: int where "TIMEOUT = 500"
definition IRC_BUFFER_SZ :: nat where "IRC_BUFFER_SZ = 2048"

record 'p rp_ctx =
  rc_pool :: 'p
  rc_cfg :: rp_config
  rc_read_buf :: rp_fifo
  rc_write_buf :: rp_fifo

text \<open>
  What start-up needs from outside: the result of creating the pool, the configuration
  loader (return value, configuration, pool afterwards, as \<open>rp_config_load\<close> gives them)
  and the bytes that the two buffers happen to hold (2048 each).
\<close>

record 'p start_env =
  se_create :: "'p option"
  se_load :: "'p \<Rightarrow> bytes \<Rightarrow> (int \<times> rp_config \<times> 'p) res"
  se_read_obj :: bytes
  se_write_obj :: bytes

text \<open>A new fifo in an object whose header fields hold anything.\<close>

definition new_fifo :: "bytes \<Rightarrow> rp_fifo" where
  "new_fifo obj = rp_fifo_init \<lparr>f_capacity = of_nat IRC_BUFFER_SZ, f_count = 0, f_head = 0, f_tail = 0,
     f_end = 0, f_buffer = obj\<rparr>"

definition rp_init :: "'p palloc \<Rightarrow> 'p start_env \<Rightarrow> bytes list \<Rightarrow> (int \<times> 'p rp_ctx option) res" where
  "rp_init pal env argv =
     (case rp_parse_opts argv of
        (r, config_path) \<Rightarrow>
          if r \<noteq> 0 then Inr (1, None)
          else case se_create env of
              None \<Rightarrow> Inr (- 1, None)
            | Some pool \<Rightarrow>
                res_bind (se_load env pool (the config_path)) (\<lambda>(ret, cfg, p0).
                  if ret \<noteq> 0 then Inr (1, None)
                  else let (p1, rb_ok) = pal p0 (40 + IRC_BUFFER_SZ)
                    in if \<not> rb_ok then Inr (- 1, None)
                       else let (p2, wb_ok) = pal p1 (40 + IRC_BUFFER_SZ)
                         in if \<not> wb_ok then Inr (- 1, None)
                            else Inr (0, Some \<lparr>rc_pool = p2, rc_cfg = cfg,
                                   rc_read_buf = new_fifo (se_read_obj env),
                                   rc_write_buf = new_fifo (se_write_obj env)\<rparr>)))"

section \<open>The main loop\<close>

text \<open>The inner loop: parse what is in the read buffer, view by view.\<close>

partial_function (option) drain :: "rp_config \<Rightarrow> 'p rp_irc_ctx \<Rightarrow> rp_fifo \<Rightarrow> rp_fifo \<Rightarrow>
    ('p rp_irc_ctx \<times> rp_fifo \<times> rp_fifo) res option" where
  "drain cfg ctx rb wb =
     (if rp_fifo_count rb > 0 then
        case rp_fifo_view rb of
          None \<Rightarrow> Some (Inl OutOfBounds)
        | Some v \<Rightarrow>
            (case rp_irc_parse ctx v of
               Inl e \<Rightarrow> Some (Inl e)
             | Inr (complete, ctx1, len) \<Rightarrow>
                 (case (if complete then rp_irc_handle cfg ctx1 wb else Inr wb) of
                    Inl e \<Rightarrow> Some (Inl e)
                  | Inr wb1 \<Rightarrow> drain cfg ctx1 (rp_fifo_consume rb (of_nat len)) wb1))
      else Some (Inr (ctx, rb, wb)))"

datatype 'a round_result = Exit int | Next 'a

text \<open>
  One round of the main loop at a time \<open>now\<close>; the fifos are in the event context.
\<close>

definition main_round :: "kernel \<Rightarrow> rp_config \<Rightarrow> size_t \<Rightarrow> rp_event_ctx \<times> 'p rp_irc_ctx \<Rightarrow>
    (rp_event_ctx \<times> 'p rp_irc_ctx) round_result res option" where
  "main_round k cfg now = (\<lambda>(ev, irc).
     case rp_event_poll k cfg now TIMEOUT (ev, no_events) of
       Inl e \<Rightarrow> Some (Inl e)
     | Inr (ev1, evs, r) \<Rightarrow>
         if r < 0 then Some (Inr (Exit (- 1)))
         else (case (if r > 0 \<and> evs_connected evs then rp_irc_onconnect cfg (ev_write_buf ev1)
                     else Inr (ev_write_buf ev1)) of
                 Inl e \<Rightarrow> Some (Inl e)
               | Inr wb \<Rightarrow>
                   if r > 0 \<and> evs_sig_int evs then Some (Inr (Exit (- 1)))
                   else map_option (\<lambda>d. res_bind d (\<lambda>(irc', rb', wb').
                          Inr (Next (ev1\<lparr>ev_read_buf := rb', ev_write_buf := wb'\<rparr>, irc'))))
                        (drain cfg irc (ev_read_buf ev1) wb)))"

text \<open>\<open>tod\<close> is \<open>gettimeofday\<close>, which may depend on all that has happened.\<close>

partial_function (option) main_loop_from :: "kernel \<Rightarrow> (history \<Rightarrow> size_t \<times> size_t) \<Rightarrow> rp_config \<Rightarrow>
    rp_event_ctx \<times> 'p rp_irc_ctx \<Rightarrow> int res option" where
  "main_loop_from k tod cfg s =
     (case main_round k cfg (rp_updatetime (tod (ev_hist (fst s)))) s of
        None \<Rightarrow> None
      | Some (Inl e) \<Rightarrow> Some (Inl e)
      | Some (Inr (Exit r)) \<Rightarrow> Some (Inr r)
      | Some (Inr (Next s')) \<Rightarrow> main_loop_from k tod cfg s')"

text \<open>
  \<open>main_loop\<close>: the objects are the memory that the pool gives to the event loop (its two
  name buffers) and to the IRC client, and whether that memory happens to be zero.
\<close>

definition main_loop :: "'p palloc \<Rightarrow> kernel \<Rightarrow> (history \<Rightarrow> size_t \<times> size_t) \<Rightarrow> bytes \<times> bytes \<Rightarrow>
    bool \<Rightarrow> bytes \<times> bytes \<times> bytes \<Rightarrow> 'p rp_ctx \<Rightarrow> int res option" where
  "main_loop pal k tod names zeroed objs ctx =
     (let (p1, c_ok) = pal (rc_pool ctx) 272; (p2, name_ok) = pal p1 256; (p3, serv_ok) = pal p2 32
      in case rp_event_init k c_ok (if name_ok then fst names else []) (if serv_ok then snd names else [])
                (rc_read_buf ctx) (rc_write_buf ctx) [] of
           None \<Rightarrow> None
         | Some (Inl e) \<Rightarrow> Some (Inl e)
         | Some (Inr ev) \<Rightarrow>
             (case rp_irc_init pal zeroed objs p3 of
                Inl e \<Rightarrow> Some (Inl e)
              | Inr irc \<Rightarrow> main_loop_from k tod (rc_cfg ctx) (ev, irc)))"

text \<open>\<open>main\<close>: the value passed to \<open>exit\<close> or returned.\<close>

definition rpbot_main :: "'p palloc \<Rightarrow> 'p start_env \<Rightarrow> kernel \<Rightarrow> (history \<Rightarrow> size_t \<times> size_t) \<Rightarrow>
    bytes \<times> bytes \<Rightarrow> bool \<Rightarrow> bytes \<times> bytes \<times> bytes \<Rightarrow> bytes list \<Rightarrow> int res option" where
  "rpbot_main pal env k tod names zeroed objs argv =
     (case rp_init pal env argv of
        Inl e \<Rightarrow> Some (Inl e)
      | Inr (ret, ctx) \<Rightarrow>
          if ret \<noteq> 0 then (if ret < 0 then Some (Inr ret) else Some (Inr 0))
          else (case main_loop pal k tod names zeroed objs (the ctx) of
                  None \<Rightarrow> None
                | Some (Inl e) \<Rightarrow> Some (Inl e)
                | Some (Inr r) \<Rightarrow> Some (Inr 0)))"

section \<open>Draining as processing of a byte stream\<close>

text \<open>
  The specification of the inner loop on the whole content at once: message after message,
  each handled when complete. The flag says that the parser is in the error state with
  bytes left, where the loop would never end.
\<close>

function process :: "rp_config \<Rightarrow> 'p rp_irc_ctx \<Rightarrow> bytes \<Rightarrow> rp_fifo \<Rightarrow>
    ('p rp_irc_ctx \<times> rp_fifo \<times> bool) res" where
  "process cfg ctx s wb =
     (if s = [] then Inr (ctx, wb, False)
      else res_bind (rp_irc_parse ctx s) (\<lambda>(complete, ctx1, len).
        if \<not> complete then Inr (ctx1, wb, len < length s)
        else if len = 0 then Inr (ctx1, wb, True)
        else res_bind (rp_irc_handle cfg ctx1 wb) (\<lambda>wb1. process cfg ctx1 (drop len s) wb1)))"
  by pat_completeness auto
termination by (relation "measure (\<lambda>(cfg, ctx, s, wb). length s)") auto

declare process.simps [simp del]

lemma irc_parse_Inr:
  "rp_irc_parse ctx s = Inr (b, ctx', n) \<longleftrightarrow>
     (\<exists>m st. rp_ircsm_parse (ic_msg ctx) (ic_cs ctx) s = Inr (b, m, st, n) \<and> ctx' = ctx\<lparr>ic_msg := m, ic_cs := st\<rparr>)"
  by (auto simp: rp_irc_parse_def)

lemma irc_parse_append:
  assumes "irc_ok (ic_cs ctx)"
  shows "rp_irc_parse ctx (s @ t) =
    res_bind (rp_irc_parse ctx s) (\<lambda>(b, ctx', n). if b then Inr (b, ctx', n)
      else res_bind (rp_irc_parse ctx' t) (\<lambda>(b', ctx'', n'). Inr (b', ctx'', n + n')))"
  unfolding rp_irc_parse_def parse_append [OF assms]
  by (cases "rp_ircsm_parse (ic_msg ctx) (ic_cs ctx) s")
    (auto simp: res_bind_def split: sum.splits)

lemma irc_exec_moves:
  "irc_exec cs m s k = Inr (cs', m', n) \<Longrightarrow> final_state cs' \<Longrightarrow> \<not> final_state cs \<Longrightarrow> k < n"
proof (cases s)
  case (Cons c s')
  assume "irc_exec cs m s k = Inr (cs', m', n)" "final_state cs'"
  with Cons have "n = Suc k \<or> (\<exists>cs m. irc_exec cs m s' (Suc k) = Inr (cs', m', n))"
    by (auto simp: irc_exec.simps(2) Let_def final_state_def split: if_splits)
  then show ?thesis using irc_exec_bounds by fastforce
qed auto

text \<open>The state of the parser between two views.\<close>

lemma irc_parse_facts:
  assumes ok: "irc_ok (ic_cs ctx)" and p: "rp_irc_parse ctx s = Inr (b, ctx', n)"
  shows "irc_ok (ic_cs ctx')" and "n \<le> length s" and "b \<Longrightarrow> 0 < n"
    and "\<not> b \<Longrightarrow> ic_cs ctx' \<noteq> [] \<Longrightarrow> n = length s"
    and "\<not> b \<Longrightarrow> ic_cs ctx' = [] \<Longrightarrow> s \<noteq> [] \<Longrightarrow> n < length s"
    and "ic_hash ctx' = ic_hash ctx"
    and "msg_ok (ic_msg ctx) \<Longrightarrow> msg_ok (ic_msg ctx') \<and> same_buffers (ic_msg ctx) (ic_msg ctx')"
proof -
  from p obtain m st where ms: "rp_ircsm_parse (ic_msg ctx) (ic_cs ctx) s = Inr (b, m, st, n)"
    "ctx' = ctx\<lparr>ic_msg := m, ic_cs := st\<rparr>" unfolding irc_parse_Inr by blast
  then obtain cs where cs: "irc_exec (ic_cs ctx) (ic_msg ctx) s 0 = Inr (cs, m, n)" "b = final_state cs"
    "st = (if b then irc_start else cs)"
    by (cases "irc_exec (ic_cs ctx) (ic_msg ctx) s 0") (auto simp: rp_ircsm_parse_def split: if_splits)
  show "irc_ok (ic_cs ctx')" using parse_ok [OF ok ms(1)] ms(2) by simp
  show "n \<le> length s" using irc_exec_bounds [OF cs(1)] by simp
  show "b \<Longrightarrow> 0 < n" using irc_exec_moves [OF cs(1)] cs(2) ok by (simp add: irc_ok_def)
  show "\<not> b \<Longrightarrow> ic_cs ctx' \<noteq> [] \<Longrightarrow> n = length s"
    using irc_exec_stops [OF ok cs(1)] cs(2,3) ms(2) by simp
  show "\<not> b \<Longrightarrow> ic_cs ctx' = [] \<Longrightarrow> s \<noteq> [] \<Longrightarrow> n < length s"
    using irc_exec_error_stops [OF ok, of "ic_msg ctx" s 0 m n] cs ms(2) by auto
  show "ic_hash ctx' = ic_hash ctx" using ms(2) by simp
  show "msg_ok (ic_msg ctx) \<Longrightarrow> msg_ok (ic_msg ctx') \<and> same_buffers (ic_msg ctx) (ic_msg ctx')"
    using parse_msg_ok [OF _ ms(1)] ms(2) by simp
qed

section \<open>The inner loop refines the stream\<close>

lemma drain_empty: "fifo_ok rb \<Longrightarrow> fifo_bytes rb = [] \<Longrightarrow> drain cfg ctx rb wb = Some (Inr (ctx, rb, wb))"
  using length_fifo_bytes [of rb]
  by (subst drain.simps) (simp add: rp_fifo_count_def word_less_nat_alt)

text \<open>In the error state with bytes in the buffer the loop never ends.\<close>

lemma drain_stuck:
  assumes "ic_cs ctx = []" "fifo_ok rb" "fifo_bytes rb \<noteq> []"
  shows "drain cfg ctx rb wb = None"
proof -
  have "\<not> (ic_cs ctx = [] \<and> fifo_ok rb \<and> fifo_bytes rb \<noteq> [])" if "drain cfg ctx rb wb = Some y" for y
  proof (rule drain.raw_induct [OF _ that, where P = "\<lambda>cfg ctx rb wb y.
      \<not> (ic_cs ctx = [] \<and> fifo_ok rb \<and> fifo_bytes rb \<noteq> [])"], goal_cases)
    case 1: (1 f cfg ctx rb wb y)
    show ?case
    proof
      assume a: "ic_cs ctx = [] \<and> fifo_ok rb \<and> fifo_bytes rb \<noteq> []"
      then have cnt: "rp_fifo_count rb > 0"
        using length_fifo_bytes [of rb] length_greater_0_conv [of "fifo_bytes rb"]
        by (simp add: rp_fifo_count_def word_less_nat_alt)
      obtain v where v: "rp_fifo_view rb = Some v" using a fifo_source.view_some by metis
      have "rp_irc_parse ctx v = Inr (False, ctx, 0)"
        using a by (simp add: rp_irc_parse_def rp_ircsm_parse_def final_state_def)
      moreover have "rp_fifo_consume rb 0 = rb"
        using a by (cases rb) (auto simp: rp_fifo_consume_def Let_def fifo_ok_def)
      ultimately have "f cfg ctx rb wb = Some y"
        using 1(2) cnt v by simp
      from 1(1) [OF this] a show False by blast
    qed
  qed
  with assms show ?thesis by (cases "drain cfg ctx rb wb") auto
qed

lemma process_complete:
  assumes "irc_ok (ic_cs ctx)" "rp_irc_parse ctx v = Inr (True, ctx1, n)" "v \<noteq> []"
  shows "process cfg ctx (v @ t) wb =
    res_bind (rp_irc_handle cfg ctx1 wb) (\<lambda>wb1. process cfg ctx1 (drop n (v @ t)) wb1)"
  using assms irc_parse_facts(3) [OF assms(1,2)]
  by (subst process.simps) (simp add: irc_parse_append)

lemma process_partial:
  assumes "irc_ok (ic_cs ctx)" "rp_irc_parse ctx v = Inr (False, ctx1, n)" "v \<noteq> []" "ic_cs ctx1 \<noteq> []"
  shows "process cfg ctx (v @ t) wb = process cfg ctx1 t wb"
proof -
  have n: "n = length v" using irc_parse_facts(4) [OF assms(1,2)] assms(4) by simp
  show ?thesis
  proof (cases "t = []")
    case True
    with assms n show ?thesis by (simp add: process.simps)
  next
    case False
    have "drop (length v + k) (v @ t) = drop k t" for k by simp
    moreover have "\<forall>a k. rp_irc_parse ctx1 t = Inr (True, a, k) \<longrightarrow> 0 < k"
      using irc_parse_facts(3) [OF irc_parse_facts(1) [OF assms(1,2)], of t True] by blast
    ultimately show ?thesis using False assms n
      by (subst (1 2) process.simps)
        (cases "rp_irc_parse ctx1 t", auto simp: irc_parse_append split: prod.split)
  qed
qed

lemma process_error:
  assumes "irc_ok (ic_cs ctx)" "rp_irc_parse ctx v = Inr (False, ctx1, n)" "v \<noteq> []" "ic_cs ctx1 = []"
  shows "process cfg ctx (v @ t) wb = Inr (ctx1, wb, True)"
proof -
  have "rp_irc_parse ctx1 t = Inr (False, ctx1, 0)"
    using assms(4) by (simp add: rp_irc_parse_def rp_ircsm_parse_def final_state_def)
  moreover have "n < length v" using irc_parse_facts(5) [OF assms(1,2)] assms(3,4) by simp
  ultimately show ?thesis
    using assms by (subst process.simps) (simp add: irc_parse_append)
qed

lemma process_fault:
  assumes "irc_ok (ic_cs ctx)" "rp_irc_parse ctx v = Inl e" "v \<noteq> []"
  shows "process cfg ctx (v @ t) wb = Inl e"
  using assms by (subst process.simps) (simp add: irc_parse_append)

text \<open>What \<open>drain\<close> has to do, given what \<open>process\<close> makes of the content.\<close>

definition drained :: "('p rp_irc_ctx \<times> rp_fifo \<times> bool) res \<Rightarrow> nat \<Rightarrow>
    ('p rp_irc_ctx \<times> rp_fifo \<times> rp_fifo) res option \<Rightarrow> bool" where
  "drained p cap d \<longleftrightarrow> (case p of
       Inl e \<Rightarrow> d = Some (Inl e)
     | Inr (ctx', wb', stuck) \<Rightarrow>
         if stuck then d = None
         else \<exists>rb'. d = Some (Inr (ctx', rb', wb')) \<and> fifo_ok rb' \<and> fifo_bytes rb' = [] \<and>
                unat (f_capacity rb') = cap)"

lemma drain_process:
  assumes "irc_ok (ic_cs ctx)" "fifo_ok rb"
  shows "drained (process cfg ctx (fifo_bytes rb) wb) (unat (f_capacity rb)) (drain cfg ctx rb wb)"
  using assms
proof (induction "length (fifo_bytes rb)" arbitrary: ctx rb wb rule: less_induct)
  case less
  show ?case
  proof (cases "fifo_bytes rb = []")
    case True
    then show ?thesis
      using less.prems by (simp add: drain_empty process.simps drained_def)
  next
    case False
    obtain v where v: "rp_fifo_view rb = Some v" "fifo_bytes rb = v @ drop (length v) (fifo_bytes rb)"
      "v \<noteq> []" "length v < 2 ^ 64"
      using fifo_source.view_some [OF less.prems(2)] False by metis
    let ?t = "drop (length v) (fifo_bytes rb)"
    have cnt: "rp_fifo_count rb > 0"
      using length_fifo_bytes [OF less.prems(2)] False length_greater_0_conv [of "fifo_bytes rb"]
      by (simp add: rp_fifo_count_def word_less_nat_alt)
    have consume: "fifo_ok (rp_fifo_consume rb (of_nat n)) \<and>
        fifo_bytes (rp_fifo_consume rb (of_nat n)) = drop n (fifo_bytes rb) \<and>
        f_capacity (rp_fifo_consume rb (of_nat n)) = f_capacity rb" if "n \<le> length v" for n
    proof -
      have "unat (of_nat n :: size_t) = n" using that v(4) by (simp add: unat_of_nat)
      with fifo_source.consume_drops [OF less.prems(2) v(1), of "of_nat n"] that show ?thesis
        by (simp add: rp_fifo_consume_fields)
    qed
    have unfold: "drain cfg ctx rb wb = (case rp_irc_parse ctx v of Inl e \<Rightarrow> Some (Inl e)
        | Inr (complete, ctx1, len) \<Rightarrow> (case (if complete then rp_irc_handle cfg ctx1 wb else Inr wb) of
            Inl e \<Rightarrow> Some (Inl e) | Inr wb1 \<Rightarrow> drain cfg ctx1 (rp_fifo_consume rb (of_nat len)) wb1))"
      using cnt v(1) by (subst drain.simps) simp
    show ?thesis
    proof (cases "rp_irc_parse ctx v")
      case (Inl e)
      with process_fault [OF less.prems(1) Inl v(3), of cfg ?t wb] v(2) unfold show ?thesis
        by (simp add: drained_def)
    next
      case (Inr x)
      obtain b ctx1 n where x: "x = (b, ctx1, n)" by (cases x)
      note p = Inr [unfolded x]
      note facts = irc_parse_facts [OF less.prems(1) p]
      note c = consume [OF facts(2)]
      have IH: "drained (process cfg ctx1 (drop n (fifo_bytes rb)) wb1) (unat (f_capacity rb))
          (drain cfg ctx1 (rp_fifo_consume rb (of_nat n)) wb1)" if "0 < n" for wb1
      proof -
        have "length (fifo_bytes (rp_fifo_consume rb (of_nat n))) < length (fifo_bytes rb)"
          using c that False by (simp del: length_greater_0_conv) (simp add: False)
        from less.hyps [OF this facts(1)] c show ?thesis by simp
      qed
      consider (complete) "b" | (partial) "\<not> b" "ic_cs ctx1 \<noteq> []" | (error) "\<not> b" "ic_cs ctx1 = []"
        by blast
      then show ?thesis
      proof cases
        case complete
        have "process cfg ctx (fifo_bytes rb) wb =
            res_bind (rp_irc_handle cfg ctx1 wb) (\<lambda>wb1. process cfg ctx1 (drop n (fifo_bytes rb)) wb1)"
          using process_complete [OF less.prems(1) _ v(3), of ctx1 n cfg ?t wb] p complete v(2) by simp
        with IH facts(3) complete unfold p show ?thesis
          by (cases "rp_irc_handle cfg ctx1 wb") (auto simp: drained_def)
      next
        case partial
        have "n = length v" using facts(4) partial by simp
        moreover have "process cfg ctx (fifo_bytes rb) wb = process cfg ctx1 ?t wb"
          using process_partial [OF less.prems(1) _ v(3) partial(2), of n cfg ?t wb] p partial v(2) by simp
        ultimately show ?thesis using IH [of wb] v(3) unfold p partial by simp
      next
        case error
        have lt: "n < length v" using facts(5) error v(3) by simp
        moreover have "length v \<le> length (fifo_bytes rb)" using arg_cong [OF v(2), of length] by simp
        ultimately have "fifo_bytes (rp_fifo_consume rb (of_nat n)) \<noteq> []" using c by simp
        then have "drain cfg ctx1 (rp_fifo_consume rb (of_nat n)) wb = None"
          using c error(2) by (intro drain_stuck) simp_all
        moreover have "process cfg ctx (fifo_bytes rb) wb = Inr (ctx1, wb, True)"
          using process_error [OF less.prems(1) _ v(3) error(2), of n cfg ?t wb] p error v(2) by simp
        ultimately show ?thesis using unfold p error by (simp add: drained_def)
      qed
    qed
  qed
qed

section \<open>Invariant of the client\<close>

definition client_ok :: "'p rp_irc_ctx \<Rightarrow> bool" where
  "client_ok ctx \<longleftrightarrow> irc_ok (ic_cs ctx) \<and> msg_ok (ic_msg ctx) \<and> ic_hash ctx = default_hash"

text \<open>A configuration that the client can run with.\<close>

definition cfg_complete :: "rp_config \<Rightarrow> bool" where
  "cfg_complete cfg \<longleftrightarrow> cfg_sizes cfg \<and> cfg_nicks cfg \<noteq> [] \<and> cfg_channels cfg \<noteq> [] \<and> server_fits cfg"

lemma run_act_fault: "run_act c a m = Inl e \<Longrightarrow> e = OutOfBounds"
  by (cases a) (auto simp: store_at_def res_bind_def split: if_splits)

lemma run_acts_fault: "run_acts c as m = Inl e \<Longrightarrow> e = OutOfBounds"
proof (induction as arbitrary: m)
  case (Cons a as)
  then show ?case
    by (cases a; cases "run_act c (snd a) m") (auto dest: run_act_fault)
qed simp

lemma irc_exec_fault: "irc_exec cs m s k = Inl e \<Longrightarrow> e = OutOfBounds"
proof (induction s arbitrary: cs m k)
  case (Cons c s)
  then show ?case
    by (cases "run_acts c (step_acts c cs) m")
      (auto simp: irc_exec.simps(2) Let_def dest: run_acts_fault split: if_splits)
qed simp

lemma irc_parse_fault: "rp_irc_parse ctx s = Inl e \<Longrightarrow> e = OutOfBounds"
  by (cases "irc_exec (ic_cs ctx) (ic_msg ctx) s 0")
    (auto simp: rp_irc_parse_def rp_ircsm_parse_def dest: irc_exec_fault split: prod.splits if_splits)

lemma process_ok:
  assumes "client_ok ctx" "fifo_ok wb" "cfg_sizes cfg" "cfg_channels cfg \<noteq> []"
  shows "process cfg ctx s wb = Inl OutOfBounds \<or>
    (\<exists>ctx' wb' stuck. process cfg ctx s wb = Inr (ctx', wb', stuck) \<and> client_ok ctx' \<and> fifo_ok wb')"
  using assms(1,2)
proof (induction "length s" arbitrary: s ctx wb rule: less_induct)
  case less
  show ?case
  proof (cases "s = []")
    case True
    with less.prems show ?thesis by (auto simp: process.simps)
  next
    case False
    show ?thesis
    proof (cases "rp_irc_parse ctx s")
      case (Inl e)
      with irc_parse_fault [OF Inl] False show ?thesis by (simp add: process.simps)
    next
      case (Inr x)
      obtain b ctx1 n where x: "x = (b, ctx1, n)" by (cases x)
      note p = Inr [unfolded x]
      have "irc_ok (ic_cs ctx)" using less.prems by (simp add: client_ok_def)
      note facts = irc_parse_facts [OF this p]
      have ok1: "client_ok ctx1"
        using facts(1,6,7) less.prems(1) by (simp add: client_ok_def)
      show ?thesis
      proof (cases b)
        case True
        obtain wb1 where h: "rp_irc_handle cfg ctx1 wb = Inr wb1" "fifo_ok wb1"
          using handle_replies [of ctx1 wb cfg] ok1 less.prems(2) assms(3,4) by (auto simp: client_ok_def)
        have "0 < n" using facts(3) True by simp
        with less.hyps [of "drop n s" ctx1 wb1] ok1 h False show ?thesis
          by (subst (1 2) process.simps) (simp add: p True)
      next
        case b: False
        with ok1 less.prems(2) False p show ?thesis by (subst (1 2) process.simps) simp
      qed
    qed
  qed
qed

text \<open>What one line makes the client write, with \<open>ps\<close> the parameters of the message before.\<close>

fun line_replies :: "rp_config \<Rightarrow> bytes \<Rightarrow> irc_line list \<Rightarrow> bytes" where
  "line_replies cfg ps [] = []"
| "line_replies cfg ps (l # ls) =
     (let ps' = (if l_params l = [] then ps else strip_spaces (l_params l)) in
      (if l_code l = ''PING'' then ping_reply ps'
       else if l_code l = ''004'' then JOIN @ ch_name (hd (cfg_channels cfg)) @ cr_lf
       else []) @ line_replies cfg ps' ls)"

lemma fits_same: "same_buffers m m' \<Longrightarrow> fits m' l \<longleftrightarrow> fits m l"
  by (simp add: same_buffers_def fits_def split: option.split)

lemma take_twice: "take n a @ take (n - length a) b = take n (a @ b)"
  by simp

lemma process_lines:
  assumes "client_ok ctx" "ic_cs ctx = irc_start" "fifo_ok wb" "cfg_sizes cfg" "cfg_channels cfg \<noteq> []"
    and "\<forall>l \<in> set ls. wf_line l \<and> fits (ic_msg ctx) l"
  shows "\<exists>ctx' wb'. process cfg ctx (concat (map render ls)) wb = Inr (ctx', wb', False) \<and>
    client_ok ctx' \<and> ic_cs ctx' = irc_start \<and> fifo_ok wb' \<and>
    fifo_bytes wb' = fifo_bytes wb @ take (fifo_room wb) (line_replies cfg (msg_params (ic_msg ctx)) ls)"
  using assms(1-3,6)
proof (induction ls arbitrary: ctx wb)
  case Nil
  then show ?case by (simp add: process.simps)
next
  case (Cons l ls)
  have sz: "msg_sizes (ic_msg ctx)" "irc_ok (ic_cs ctx)"
    using Cons.prems(1) by (auto simp: client_ok_def msg_ok_def)
  let ?rest = "concat (map render ls)"
  from parse_line [of l, OF _ sz(1), of "[]"] Cons.prems obtain m' where m':
    "rp_ircsm_parse (ic_msg ctx) irc_start (render l) = Inr (True, m', irc_start, length (render l))"
    "stored l (ic_msg ctx) m'" by auto
  let ?ctx = "ctx\<lparr>ic_msg := m', ic_cs := irc_start\<rparr>"
  have p: "rp_irc_parse ctx (render l) = Inr (True, ?ctx, length (render l))"
    using m'(1) Cons.prems(2) by (simp add: rp_irc_parse_def)
  note facts = irc_parse_facts [OF sz(2) p]
  have ok1: "client_ok ?ctx" and same: "same_buffers (ic_msg ctx) (ic_msg ?ctx)"
    using facts(1,6,7) Cons.prems(1) by (auto simp: client_ok_def)
  have ne: "render l \<noteq> []" by (simp add: render_def cr_lf_def)
  have rp: "reply cfg (ic_msg ?ctx) = (let ps' = (if l_params l = [] then msg_params (ic_msg ctx)
      else strip_spaces (l_params l)) in if l_code l = ''PING'' then ping_reply ps'
      else if l_code l = ''004'' then JOIN @ ch_name (hd (cfg_channels cfg)) @ cr_lf else [])"
    using m'(2) by (simp add: reply_def stored_def)
  obtain wb1 where wb1: "rp_irc_handle cfg ?ctx wb = Inr wb1" "fifo_ok wb1"
    "fifo_bytes wb1 = fifo_bytes wb @ take (fifo_room wb) (reply cfg (ic_msg ?ctx))"
    "fifo_room wb1 = fifo_room wb - length (reply cfg (ic_msg ?ctx))"
    using handle_replies [of ?ctx wb cfg] ok1 Cons.prems(3) assms(4,5) by (auto simp: client_ok_def)
  have "\<forall>l \<in> set ls. wf_line l \<and> fits (ic_msg ?ctx) l"
    using Cons.prems(4) fits_same [OF same] by auto
  with Cons.IH [OF ok1 _ wb1(2)] obtain ctx' wb' where r: "process cfg ?ctx ?rest wb1 = Inr (ctx', wb', False)"
    "client_ok ctx'" "ic_cs ctx' = irc_start" "fifo_ok wb'"
    "fifo_bytes wb' = fifo_bytes wb1 @ take (fifo_room wb1) (line_replies cfg (msg_params (ic_msg ?ctx)) ls)" by auto
  have "process cfg ctx (concat (map render (l # ls))) wb = Inr (ctx', wb', False)"
    using process_complete [OF sz(2) p ne, of cfg ?rest wb] wb1(1) r(1) by simp
  moreover have "msg_params (ic_msg ?ctx) = (if l_params l = [] then msg_params (ic_msg ctx) else strip_spaces (l_params l))"
    using m'(2) by (simp add: stored_def)
  then have "line_replies cfg (msg_params (ic_msg ctx)) (l # ls) =
      reply cfg (ic_msg ?ctx) @ line_replies cfg (msg_params (ic_msg ?ctx)) ls"
    unfolding rp by (simp add: Let_def)
  then have "fifo_bytes wb' = fifo_bytes wb @ take (fifo_room wb) (line_replies cfg (msg_params (ic_msg ctx)) (l # ls))"
    unfolding r(5) wb1(3,4) by simp
  ultimately show ?case using r(2-4) by blast
qed

lemma onconnect_ok:
  assumes "cfg_sizes cfg" "cfg_nicks cfg \<noteq> []" "fifo_ok wb"
  shows "\<exists>wb'. rp_irc_onconnect cfg wb = Inr wb' \<and> fifo_ok wb'"
proof -
  obtain nick nicks where n: "cfg_nicks cfg = nick # nicks" using assms(2) by (auto simp: neq_Nil_conv)
  have "\<forall>s \<in> set [''NICK '', nick, cr_lf @ ''USER '', cfg_login cfg, '' 8 * :'', cfg_name cfg, cr_lf].
      length s < 2 ^ 64"
    using assms(1) n by (simp add: cfg_sizes_def cr_lf_def)
  from puts_append [OF assms(3) this] n show ?thesis
    by (auto simp: onconnect_seq simp del: put_seq.simps)
qed

lemma drain_ok:
  assumes "client_ok ctx" "fifo_ok rb" "fifo_ok wb" "cfg_sizes cfg" "cfg_channels cfg \<noteq> []"
  shows "drain cfg ctx rb wb = None \<or> drain cfg ctx rb wb = Some (Inl OutOfBounds) \<or>
    (\<exists>ctx' rb' wb'. drain cfg ctx rb wb = Some (Inr (ctx', rb', wb')) \<and> client_ok ctx' \<and>
      fifo_ok rb' \<and> fifo_bytes rb' = [] \<and> fifo_ok wb')"
proof -
  have ok: "irc_ok (ic_cs ctx)" using assms(1) by (simp add: client_ok_def)
  consider "process cfg ctx (fifo_bytes rb) wb = Inl OutOfBounds"
    | ctx' wb' stuck where "process cfg ctx (fifo_bytes rb) wb = Inr (ctx', wb', stuck)" "client_ok ctx'" "fifo_ok wb'"
    using process_ok [OF assms(1,3-5)] by blast
  then show ?thesis
    by cases (use drain_process [OF ok assms(2), of cfg wb] in \<open>auto simp: drained_def split: if_splits\<close>)
qed

section \<open>Properties\<close>

text \<open>
  C3: The inner loop of \<open>main_loop\<close> is a stream processor: whatever the position of the
  content in the ring buffer, and so wherever a message is split between two views, the
  loop does what parsing and handling the content in one piece does. It returns with the
  same client, the same write buffer and an empty read buffer, or faults in the same way,
  and it runs for ever exactly when the parser gets into its error state with bytes left.
\<close>

theorem drain_refines_stream:
  assumes "irc_ok (ic_cs ctx)" "fifo_ok rb"
  shows "case process cfg ctx (fifo_bytes rb) wb of
      Inl e \<Rightarrow> drain cfg ctx rb wb = Some (Inl e)
    | Inr (ctx', wb', True) \<Rightarrow> drain cfg ctx rb wb = None
    | Inr (ctx', wb', False) \<Rightarrow>
        \<exists>rb'. drain cfg ctx rb wb = Some (Inr (ctx', rb', wb')) \<and> fifo_ok rb' \<and> fifo_bytes rb' = []"
  using drain_process [OF assms, of cfg wb] by (auto simp: drained_def split: sum.splits bool.splits)

definition two_pings :: bytes where
  "two_pings = ''PING :abc'' @ cr_lf @ ''PING :abc'' @ cr_lf"

text \<open>A read buffer of 32 bytes in which the second message wraps around.\<close>

definition split_fifo :: rp_fifo where
  "split_fifo = \<lparr>f_capacity = 32, f_count = 22, f_head = 16, f_tail = 6, f_end = 32,
     f_buffer = drop 16 two_pings @ replicate 10 CHR ''.'' @ take 16 two_pings\<rparr>"

lemma split_fifo_ok: "fifo_ok split_fifo" "fifo_bytes split_fifo = concat (map render [ping_line, ping_line])"
proof -
  have "length two_pings = 22" by (simp add: two_pings_def cr_lf_def)
  then show "fifo_ok split_fifo" by (simp add: fifo_ok_def split_fifo_def)
  have "fifo_bytes split_fifo = two_pings" by code_simp
  then show "fifo_bytes split_fifo = concat (map render [ping_line, ping_line])"
    by (simp add: render_ping_line two_pings_def)
qed

lemma ready_client: "client_ok ready_ctx" "ic_cs ready_ctx = irc_start" "ic_msg ready_ctx = fresh_msg"
  using fresh_msg_ok irc_ok_start by (simp_all add: client_ok_def ready_ctx_def)

theorem drain_refines_stream_witness:
  "case process sample_config ready_ctx (fifo_bytes split_fifo) reply_fifo of
      Inl e \<Rightarrow> drain sample_config ready_ctx split_fifo reply_fifo = Some (Inl e)
    | Inr (ctx', wb', True) \<Rightarrow> drain sample_config ready_ctx split_fifo reply_fifo = None
    | Inr (ctx', wb', False) \<Rightarrow> \<exists>rb'. drain sample_config ready_ctx split_fifo reply_fifo =
        Some (Inr (ctx', rb', wb')) \<and> fifo_ok rb' \<and> fifo_bytes rb' = []"
proof -
  have "irc_ok (ic_cs ready_ctx)" using ready_client by (simp add: client_ok_def)
  from drain_refines_stream [OF this split_fifo_ok(1)] show ?thesis .
qed

text \<open>
  C7: From the read buffer to the write buffer: when the read buffer holds a sequence of
  messages that fit the parser's buffers, the loop returns with the read buffer empty and
  the parser ready, and the write buffer has got the replies to all of them in order, cut
  off only where the write buffer was full.
\<close>

theorem drain_answers:
  assumes "client_ok ctx" "ic_cs ctx = irc_start" "fifo_ok rb" "fifo_ok wb"
    and "cfg_sizes cfg" "cfg_channels cfg \<noteq> []"
    and "fifo_bytes rb = concat (map render ls)" "\<forall>l \<in> set ls. wf_line l \<and> fits (ic_msg ctx) l"
  shows "\<exists>ctx' rb' wb'. drain cfg ctx rb wb = Some (Inr (ctx', rb', wb')) \<and> ic_cs ctx' = irc_start \<and>
    fifo_bytes rb' = [] \<and> fifo_ok wb' \<and>
    fifo_bytes wb' = fifo_bytes wb @ take (fifo_room wb) (line_replies cfg (msg_params (ic_msg ctx)) ls)"
proof -
  have ok: "irc_ok (ic_cs ctx)" using assms(1) by (simp add: client_ok_def)
  from process_lines [OF assms(1,2,4-6,8)] drain_process [OF ok assms(3), of cfg wb] show ?thesis
    by (auto simp: assms(7) drained_def)
qed

theorem drain_answers_witness:
  "\<exists>ctx' rb' wb'. drain sample_config ready_ctx split_fifo reply_fifo = Some (Inr (ctx', rb', wb')) \<and>
     fifo_bytes wb' = ''PONG :abc'' @ cr_lf @ ''PONG :abc'' @ cr_lf"
proof -
  have "cfg_channels sample_config \<noteq> []" by (simp add: sample_config_def)
  moreover have "\<forall>l \<in> set [ping_line, ping_line]. wf_line l \<and> fits (ic_msg ready_ctx) l"
    by (simp add: ready_client ping_line_ok ping_line_fits)
  moreover have "line_replies cfg ps [ping_line, ping_line] = ''PONG :abc'' @ cr_lf @ ''PONG :abc'' @ cr_lf" for cfg ps
    by (simp add: ping_line_def strip_spaces_def ping_reply_def PONG_def)
  ultimately show ?thesis
    using drain_answers [OF ready_client(1,2) split_fifo_ok(1) reply_fifo_ok(1) sample_config_sizes _ split_fifo_ok(2)]
    by (fastforce simp: reply_fifo_ok cr_lf_def)
qed

text \<open>
  C31: Malformed input hangs the program: when the parser rejects some bytes that the server
  sent, it stays in its error state, consumes nothing, and the inner loop of \<open>main_loop\<close>
  runs for ever on the bytes that are left.
\<close>

theorem drain_hangs:
  assumes "irc_ok (ic_cs ctx)" "fifo_ok rb" "fifo_bytes rb = s @ t" "s \<noteq> []"
    and "rp_irc_parse ctx s = Inr (False, ctx1, n)" "ic_cs ctx1 = []"
  shows "drain cfg ctx rb wb = None"
  using drain_process [OF assms(1,2), of cfg wb] process_error [OF assms(1,5,4,6), of cfg t wb]
  by (simp add: assms(3) drained_def)

theorem drain_hangs_witness:
  "drain sample_config ready_ctx (small_fifo\<lparr>f_count := 1, f_tail := 1, f_buffer := ''!...''\<rparr>) reply_fifo = None"
proof -
  let ?rb = "small_fifo\<lparr>f_count := 1, f_tail := 1, f_buffer := ''!...''\<rparr>"
  have ok: "irc_ok (ic_cs ready_ctx)" using ready_client by (simp add: client_ok_def)
  have rb: "fifo_ok ?rb" "fifo_bytes ?rb = ''!'' @ []"
    by (simp_all add: fifo_ok_def small_fifo_simps fifo_bytes_def ring_def)
  have "step_state CHR ''!'' irc_start = []" by code_simp
  then have "rp_irc_parse ready_ctx ''!'' = Inr (False, ready_ctx\<lparr>ic_cs := []\<rparr>, 0)"
    by (simp add: rp_irc_parse_def rp_ircsm_parse_def irc_exec_Cons [OF irc_ok_start] final_state_def ready_client)
  from drain_hangs [OF ok rb _ this] show ?thesis by simp
qed

text \<open>
  C2: One round of the main loop with a complete configuration: from an intact event
  context and client it ends the program, aborts, hangs in the inner loop, overflows a
  parser buffer, or goes on with an intact event context, an intact client and an empty
  read buffer. No null pointer is dereferenced on the way.
\<close>

theorem main_round_safe:
  assumes "ev_ok ev" "sig_valid k (ev_addr_sig ev)" "cfg_complete cfg" "client_ok irc"
  shows "main_round k cfg now (ev, irc) \<in> {None, Some (Inl Aborted), Some (Inl OutOfBounds), Some (Inr (Exit (- 1)))} \<or>
    (\<exists>ev' irc'. main_round k cfg now (ev, irc) = Some (Inr (Next (ev', irc'))) \<and> ev_ok ev' \<and>
      client_ok irc' \<and> fifo_bytes (ev_read_buf ev') = [])"
proof -
  have cfg: "cfg_sizes cfg" "cfg_nicks cfg \<noteq> []" "cfg_channels cfg \<noteq> []" "server_fits cfg"
    using assms(3) by (auto simp: cfg_complete_def)
  consider "rp_event_poll k cfg now TIMEOUT (ev, no_events) = Inl Aborted"
    | ev1 evs r where "rp_event_poll k cfg now TIMEOUT (ev, no_events) = Inr (ev1, evs, r)" "ev_ok ev1"
    using event_poll_ok [OF assms(1,2) cfg(4), of no_events now TIMEOUT]
    by (auto simp: res_ok_def round_ok_def)
  then show ?thesis
  proof cases
    case 1
    then show ?thesis by (simp add: main_round_def)
  next
    case (2 ev1 evs r)
    then have bufs: "fifo_ok (ev_read_buf ev1)" "fifo_ok (ev_write_buf ev1)" by (simp_all add: ev_ok_def)
    obtain wb where wb: "(if r > 0 \<and> evs_connected evs then rp_irc_onconnect cfg (ev_write_buf ev1)
        else Inr (ev_write_buf ev1)) = Inr wb" "fifo_ok wb"
      using onconnect_ok [OF cfg(1,2) bufs(2)] bufs(2) by (cases "r > 0 \<and> evs_connected evs") auto
    have next_ok: "ev_ok (ev1\<lparr>ev_read_buf := rb', ev_write_buf := wb'\<rparr>)" if "fifo_ok rb'" "fifo_ok wb'" for rb' wb'
      using 2(2) that by (simp add: ev_ok_def)
    from drain_ok [OF assms(4) bufs(1) wb(2) cfg(1,3)] 2(1) wb(1) show ?thesis
      by (auto simp: main_round_def next_ok split: if_splits)
  qed
qed

theorem main_round_safe_witness:
  "main_round quiet_kernel sample_config 0 (idle_ctx, ready_ctx) \<in>
     {None, Some (Inl Aborted), Some (Inl OutOfBounds), Some (Inr (Exit (- 1)))} \<or>
   (\<exists>ev' irc'. main_round quiet_kernel sample_config 0 (idle_ctx, ready_ctx) = Some (Inr (Next (ev', irc'))) \<and>
      ev_ok ev' \<and> client_ok irc' \<and> fifo_bytes (ev_read_buf ev') = [])"
proof -
  have "cfg_complete sample_config"
    using sample_config_sizes sample_server_fits by (simp add: cfg_complete_def) (simp add: sample_config_def)
  from main_round_safe [OF idle_ok quiet_sig_valid this ready_client(1)] show ?thesis .
qed

text \<open>
  Start-up succeeds only with a configuration file argument, a pool, a loaded
  configuration and memory for both buffers; then both fifos are well-formed, empty and
  have room for 2048 bytes.
\<close>

theorem init_ready:
  assumes "rp_init pal env argv = Inr (0, Some ctx)"
    and "length (se_read_obj env) = 2048" "length (se_write_obj env) = 2048"
  shows "2 \<le> length argv \<and> (\<exists>pool p. se_create env = Some pool \<and>
      se_load env pool (argv ! 1) = Inr (0, rc_cfg ctx, p)) \<and>
    fifo_ok (rc_read_buf ctx) \<and> fifo_bytes (rc_read_buf ctx) = [] \<and> fifo_room (rc_read_buf ctx) = 2048 \<and>
    fifo_ok (rc_write_buf ctx) \<and> fifo_bytes (rc_write_buf ctx) = [] \<and> fifo_room (rc_write_buf ctx) = 2048"
proof -
  have new: "fifo_ok (new_fifo obj) \<and> fifo_bytes (new_fifo obj) = [] \<and> fifo_room (new_fifo obj) = 2048"
    if "length obj = 2048" for obj
    using that by (simp add: new_fifo_def rp_fifo_init_def fifo_ok_def fifo_bytes_def fifo_room_def IRC_BUFFER_SZ_def)
  from assms(1) show ?thesis
    using new assms(2,3)
    by (auto simp: rp_init_def rp_parse_opts_def Let_def split: if_splits option.splits prod.splits)
qed

definition sample_env :: "nat start_env" where
  "sample_env = \<lparr>se_create = Some 0, se_load = (\<lambda>p path. Inr (0, sample_config, p)),
     se_read_obj = replicate 2048 CHR 0x00, se_write_obj = replicate 2048 CHR 0x00\<rparr>"

theorem init_ready_witness:
  "\<exists>ctx. rp_init fixed_pal sample_env [''rpbot'', ''a.json''] = Inr (0, Some ctx) \<and>
     fifo_room (rc_write_buf ctx) = 2048"
proof -
  obtain ctx where "rp_init fixed_pal sample_env [''rpbot'', ''a.json''] = Inr (0, Some ctx)"
    by (simp add: rp_init_def rp_parse_opts_def sample_env_def fixed_pal_def Let_def)
  from init_ready [OF this] this show ?thesis by (simp add: sample_env_def)
qed

text \<open>
  A failed start looks like success to the shell: without an argument, and when the
  configuration cannot be loaded, the program exits with status 0.
\<close>

theorem failed_start_exits_0:
  assumes "length argv < 2 \<or> (se_create env = Some pool \<and> se_load env pool (argv ! 1) = Inr (ret, cfg, p) \<and> ret \<noteq> 0)"
  shows "rpbot_main pal env k tod names zeroed objs argv = Some (Inr 0)"
  using assms by (auto simp: rpbot_main_def rp_init_def rp_parse_opts_def)

theorem failed_start_exits_0_witness:
  "rpbot_main fixed_pal sample_env quiet_kernel (\<lambda>_. (0, 0)) ([], []) True ([], [], []) [''rpbot''] = Some (Inr 0)"
  by (rule failed_start_exits_0) simp

end
