(* ===== verification/Rp_Os.thy ===== *)
theory Rp_Os
  imports Prelude
begin

text \<open>
  The platform layer (util/rp_os.c and rp_os.h): the page size and its logarithm, the
  alignment macros on 64-bit addresses, and the allocator of the C library as a parameter
  that may depend on the history of the calls made to it. The history also says which
  objects are live, and so whether a call of \<open>free\<close> is allowed.
\<close>

type_synonym addr = "64 word"

section \<open>Page size\<close>

record os_globals =
  rp_pagesize :: addr
  rp_pagesize_shift :: addr

lemma unat_of_size: "n < 2 ^ 64 \<Longrightarrow> unat (of_nat n :: addr) = n"
  by (simp add: unat_of_nat take_bit_nat_eq_self)

text \<open>\<open>for (n = rp_pagesize; n >>= 1; rp_pagesize_shift++)\<close>\<close>

function shift_loop :: "addr \<Rightarrow> addr \<Rightarrow> addr" where
  "shift_loop n s = (let n' = drop_bit 1 n in if n' \<noteq> 0 then shift_loop n' (s + 1) else s)"
  by auto

termination
proof (relation "measure (\<lambda>(n, s). unat n)", simp, clarsimp)
  fix n :: addr
  assume "drop_bit (Suc 0) n \<noteq> 0"
  then have "0 < unat (drop_bit (Suc 0) n)" by (simp only: unat_gt_0 not_False_eq_True simp_thms)
  then show "unat (drop_bit (Suc 0) n) < unat n" unfolding unat_drop_bit by simp
qed

declare shift_loop.simps [simp del]

definition rp_os_init :: "addr \<Rightarrow> os_globals \<Rightarrow> os_globals" where
  "rp_os_init pagesize g =
     g\<lparr>rp_pagesize := pagesize, rp_pagesize_shift := shift_loop pagesize (rp_pagesize_shift g)\<rparr>"

lemma shift_loop_pow2: "k < 64 \<Longrightarrow> shift_loop (2 ^ k) s = s + of_nat k"
proof (induction k arbitrary: s)
  case 0
  show ?case by (subst shift_loop.simps) (simp add: drop_bit_Suc)
next
  case (Suc k)
  have "unat (drop_bit 1 (2 ^ Suc k :: addr)) = unat (2 ^ k :: addr)"
    unfolding unat_drop_bit using Suc.prems by (simp add: unat_pow2 del: power_Suc) simp
  then have "drop_bit 1 (2 ^ Suc k :: addr) = 2 ^ k" by (simp only: word_unat_eq_iff)
  moreover have "(2 ^ k :: addr) \<noteq> 0" using Suc.prems by simp
  ultimately show ?case using Suc by (subst shift_loop.simps) (simp add: add.assoc)
qed

section \<open>Alignment\<close>

unbundle bit_operations_syntax

text \<open>The macros \<open>rp_align\<close> and \<open>rp_align_ptr\<close> expand to the same arithmetic.\<close>

definition rp_align :: "addr \<Rightarrow> addr \<Rightarrow> addr" where
  "rp_align d a = (d + (a - 1)) AND NOT (a - 1)"

definition rp_align_ptr :: "addr \<Rightarrow> addr \<Rightarrow> addr" where
  "rp_align_ptr p a = (p + (a - 1)) AND NOT (a - 1)"

definition RP_ALIGNMENT :: addr where "RP_ALIGNMENT = 8"

lemma unat_and_not_mask: "unat (w AND NOT (mask n)) = unat w - unat w mod 2 ^ n" for w :: "'a::len word"
proof -
  have eq: "w AND NOT (mask n) = push_bit n (drop_bit n w)"
    by (rule bit_word_eqI) (auto simp: bit_simps)
  have "unat (w AND NOT (mask n)) = take_bit LENGTH('a) (unat w div 2 ^ n * 2 ^ n)"
    unfolding eq unsigned_push_bit_eq by (simp only: unat_drop_bit push_bit_eq_mult)
  also have "\<dots> = unat w div 2 ^ n * 2 ^ n"
    by (rule take_bit_nat_eq_self)
      (rule order_le_less_trans [OF div_times_less_eq_dividend unat_less_limit])
  finally show ?thesis by (simp add: minus_mod_eq_div_mult)
qed

definition align_up :: "nat \<Rightarrow> nat \<Rightarrow> nat" where
  "align_up a n = (n + (a - 1)) div a * a"

lemma align_up_props:
  assumes "0 < a"
  shows "n \<le> align_up a n" "align_up a n < n + a" "align_up a n mod a = 0"
proof -
  have "(n + (a - 1)) div a * a = n + (a - 1) - (n + (a - 1)) mod a" by (simp add: minus_mod_eq_div_mult)
  moreover have "(n + (a - 1)) mod a < a" using assms by simp
  ultimately show "n \<le> align_up a n" "align_up a n < n + a" using assms unfolding align_up_def by linarith+
qed (simp add: align_up_def)

lemma align_up_le: "n \<le> m \<Longrightarrow> m mod a = 0 \<Longrightarrow> 0 < a \<Longrightarrow> align_up a n \<le> m"
proof -
  assume a: "n \<le> m" "m mod a = 0" "0 < a"
  then obtain k where k: "m = a * k" by (auto simp: mod_eq_0_iff_dvd)
  with a have "n + (a - 1) < Suc k * a" by (simp add: algebra_simps)
  then have "(n + (a - 1)) div a < Suc k" by (rule less_mult_imp_div_less)
  then have "(n + (a - 1)) div a * a \<le> k * a" by (intro mult_le_mono1) linarith
  then show ?thesis by (simp only: align_up_def k mult.commute)
qed

lemma unat_align_pow2:
  assumes "k < 64" "unat p + 2 ^ k \<le> 2 ^ 64"
  shows "unat (rp_align_ptr p (2 ^ k)) = align_up (2 ^ k) (unat p)"
proof -
  have m: "(2 ^ k - 1 :: addr) = mask k" by (simp add: mask_eq_exp_minus_1)
  have "unat (mask k :: addr) = 2 ^ k - 1"
    using unat_pow2 [where 'a = 64, of k] assms(1) by (simp add: mask_eq_exp_minus_1 unat_minus_one)
  then have "unat (p + mask k) = unat p + (2 ^ k - 1)" using assms(2) by (subst unat_add_less) simp_all
  then show ?thesis
    by (simp only: rp_align_ptr_def m unat_and_not_mask) (simp add: align_up_def minus_mod_eq_div_mult)
qed

lemma unat_align_ptr:
  assumes "unat p + 7 < 2 ^ 64"
  shows "unat (rp_align_ptr p RP_ALIGNMENT) = align_up 8 (unat p)"
  using unat_align_pow2 [of 3 p] assms by (simp add: RP_ALIGNMENT_def)

text \<open>
  C35: Aligning an address to a power of two gives the first multiple at or after it, as
  long as the sum in the macro does not wrap around.
\<close>

theorem align_ptr_rounds_up:
  assumes "k < 64" "unat p + 2 ^ k \<le> 2 ^ 64"
  shows "p \<le> rp_align_ptr p (2 ^ k) \<and> unat (rp_align_ptr p (2 ^ k)) < unat p + 2 ^ k \<and>
    unat (rp_align_ptr p (2 ^ k)) mod 2 ^ k = 0 \<and>
    (\<forall>q. p \<le> q \<and> unat q mod 2 ^ k = 0 \<longrightarrow> rp_align_ptr p (2 ^ k) \<le> q)"
  using unat_align_pow2 [OF assms] align_up_props [of "2 ^ k" "unat p"] align_up_le [of "unat p" _ "2 ^ k"]
  by (simp add: word_le_nat_alt)

theorem align_ptr_rounds_up_witness: "rp_align_ptr 4100 (2 ^ 12) \<le> 8192"
proof -
  have "\<forall>q. 4100 \<le> q \<and> unat q mod 2 ^ 12 = 0 \<longrightarrow> rp_align_ptr 4100 (2 ^ 12) \<le> q"
    using align_ptr_rounds_up [of 12 4100] by simp
  from this [rule_format, of 8192] show ?thesis by simp
qed

text \<open>
  C36: \<open>rp_os_init\<close> stores the page size and, when it is a power of two, its exponent; the
  loop ends because every step halves the number.
\<close>

theorem os_init_pow2:
  assumes "k < 64" "rp_pagesize_shift g = 0"
  shows "rp_pagesize (rp_os_init (2 ^ k) g) = 2 ^ k \<and> rp_pagesize_shift (rp_os_init (2 ^ k) g) = of_nat k"
  using assms by (simp add: rp_os_init_def shift_loop_pow2)

theorem os_init_pow2_witness:
  "rp_pagesize_shift (rp_os_init 4096 \<lparr>rp_pagesize = 0, rp_pagesize_shift = 0\<rparr>) = 12"
  using os_init_pow2 [of 12 "\<lparr>rp_pagesize = 0, rp_pagesize_shift = 0\<rparr>"] by simp

section \<open>The C allocator\<close>

datatype mem_event =
  M_malloc size_t addr
| M_memalign size_t size_t addr
| M_free addr
| M_zero addr size_t

text \<open>The history of the calls, the newest first; \<open>M_zero\<close> is a \<open>memset\<close> to 0.\<close>

type_synonym mem_history = "mem_event list"

text \<open>
  \<open>malloc\<close> returns the address or 0; \<open>posix_memalign\<close> an error number and the address.
\<close>

record libc =
  c_malloc :: "mem_history \<Rightarrow> size_t \<Rightarrow> addr"
  c_memalign :: "mem_history \<Rightarrow> size_t \<Rightarrow> size_t \<Rightarrow> int \<times> addr"

definition rp_memalign :: "libc \<Rightarrow> size_t \<Rightarrow> size_t \<Rightarrow> mem_history \<Rightarrow> addr \<times> mem_history" where
  "rp_memalign os alignment sz h =
     (let (err, p) = c_memalign os h alignment sz; p' = if err \<noteq> 0 then 0 else p
      in (p', M_memalign alignment sz p' # h))"

definition rp_alloc :: "libc \<Rightarrow> size_t \<Rightarrow> mem_history \<Rightarrow> addr \<times> mem_history" where
  "rp_alloc os sz h = (let p = c_malloc os h sz in (p, M_malloc sz p # h))"

definition rp_calloc :: "libc \<Rightarrow> size_t \<Rightarrow> mem_history \<Rightarrow> addr \<times> mem_history" where
  "rp_calloc os sz h =
     (let (p, h1) = rp_alloc os sz h in if p \<noteq> 0 then (p, M_zero p sz # h1) else (p, h1))"

definition rp_free :: "addr \<Rightarrow> mem_history \<Rightarrow> mem_history" where
  "rp_free p h = M_free p # h"

subsection \<open>Live objects\<close>

fun live :: "mem_history \<Rightarrow> (addr \<times> size_t) list" where
  "live [] = []"
| "live (M_malloc n p # h) = (if p = 0 then live h else (p, n) # live h)"
| "live (M_memalign a n p # h) = (if p = 0 then live h else (p, n) # live h)"
| "live (M_free p # h) = filter (\<lambda>r. fst r \<noteq> p) (live h)"
| "live (M_zero p n # h) = live h"

text \<open>Every call of \<open>free\<close> got a live object or the null pointer.\<close>

fun frees_ok :: "mem_history \<Rightarrow> bool" where
  "frees_ok [] = True"
| "frees_ok (M_free p # h) = ((p = 0 \<or> p \<in> fst ` set (live h)) \<and> frees_ok h)"
| "frees_ok (M_malloc n p # h) = frees_ok h"
| "frees_ok (M_memalign a n p # h) = frees_ok h"
| "frees_ok (M_zero p n # h) = frees_ok h"

lemma live_free: "fst ` set (live (M_free p # h)) = fst ` set (live h) - {p}"
  by auto

definition region :: "addr \<Rightarrow> size_t \<Rightarrow> nat set" where
  "region p n = {unat p ..< unat p + unat n}"

text \<open>
  What the C library promises of a returned object: it is inside the address space, does
  not overlap a live object, its address is new, and it has the alignment.
\<close>

definition fresh_obj :: "mem_history \<Rightarrow> addr \<Rightarrow> size_t \<Rightarrow> bool" where
  "fresh_obj h p n \<longleftrightarrow> p \<noteq> 0 \<and> unat p + unat n < 2 ^ 64 \<and>
     (\<forall>(q, m) \<in> set (live h). p \<noteq> q \<and> region p n \<inter> region q m = {})"

definition libc_ok :: "libc \<Rightarrow> bool" where
  "libc_ok os \<longleftrightarrow>
     (\<forall>h n. c_malloc os h n \<noteq> 0 \<longrightarrow> fresh_obj h (c_malloc os h n) n \<and> unat (c_malloc os h n) mod 16 = 0) \<and>
     (\<forall>h a n p. c_memalign os h a n = (0, p) \<longrightarrow> p \<noteq> 0 \<longrightarrow> fresh_obj h p n \<and> unat p mod unat a = 0)"

lemma rp_memalign_cases [consumes 1, case_names fails obj]:
  assumes "libc_ok os"
  obtains "rp_memalign os a n h = (0, M_memalign a n 0 # h)"
  | p where "rp_memalign os a n h = (p, M_memalign a n p # h)" "fresh_obj h p n" "unat p mod unat a = 0" "p \<noteq> 0"
proof (cases "c_memalign os h a n")
  case (Pair err p)
  show ?thesis
  proof (cases "err = 0 \<and> p \<noteq> 0")
    case True
    with assms Pair have "fresh_obj h p n \<and> unat p mod unat a = 0" by (auto simp: libc_ok_def)
    with True Pair that(2) [of p] show ?thesis by (simp add: rp_memalign_def)
  next
    case False
    with Pair that(1) show ?thesis by (auto simp: rp_memalign_def)
  qed
qed

lemma rp_alloc_cases [consumes 1, case_names fails obj]:
  assumes "libc_ok os"
  obtains "rp_alloc os n h = (0, M_malloc n 0 # h)"
  | p where "rp_alloc os n h = (p, M_malloc n p # h)" "fresh_obj h p n" "unat p mod 16 = 0" "p \<noteq> 0"
proof (cases "c_malloc os h n = 0")
  case True
  with that(1) show ?thesis by (simp add: rp_alloc_def Let_def)
next
  case False
  with assms that(2) [of "c_malloc os h n"] show ?thesis by (simp add: rp_alloc_def libc_ok_def Let_def)
qed

lemma fresh_not_live: "fresh_obj h p n \<Longrightarrow> p \<notin> fst ` set (live h)"
  by (auto simp: fresh_obj_def)

end
