(* ===== verification/Rp_Palloc.thy ===== *)
theory Rp_Palloc
  imports Rp_Os
begin

text \<open>
  The pool allocator (util/rp_palloc.c): a chain of equal blocks that are filled from the
  front, and a list of large objects that come from \<open>malloc\<close>. Addresses are 64-bit words.
  The chain \<open>d.next\<close> is the list of blocks (each with its address), \<open>current\<close> an index
  into it, and the list of the large objects has the address of each node, because the
  nodes are allocated in the pool itself. A write to an object that the functions have just
  allocated is checked against the live objects of the history.
\<close>

section \<open>Data\<close>

record rp_pool_data =
  d_base :: addr
  d_last :: addr
  d_end :: addr
  d_failed :: addr

record rp_pool_large =
  l_at :: addr
  l_alloc :: addr

record rp_pool =
  p_chain :: "rp_pool_data list"
  p_max :: size_t
  p_current :: nat
  p_large :: "rp_pool_large list"

type_synonym pstate = "rp_pool \<times> mem_history"

text \<open>The sizes of \<open>rp_pool_t\<close>, \<open>rp_pool_data_t\<close> and \<open>rp_pool_large_t\<close>.\<close>

definition SIZEOF_POOL :: size_t where "SIZEOF_POOL = 56"
definition SIZEOF_POOL_DATA :: size_t where "SIZEOF_POOL_DATA = 32"
definition SIZEOF_POOL_LARGE :: size_t where "SIZEOF_POOL_LARGE = 16"

lemmas pool_sizes = SIZEOF_POOL_def SIZEOF_POOL_DATA_def SIZEOF_POOL_LARGE_def

definition RP_MAX_ALLOC_FROM_POOL :: "os_globals \<Rightarrow> size_t" where
  "RP_MAX_ALLOC_FROM_POOL g = rp_pagesize g - 1"

definition RP_DEFAULT_POOL_SIZE :: size_t where "RP_DEFAULT_POOL_SIZE = 16 * 1024"
definition RP_POOL_ALIGNMENT :: size_t where "RP_POOL_ALIGNMENT = 16"

text \<open>The \<open>n\<close> bytes at \<open>p\<close> are inside a live object.\<close>

definition within :: "mem_history \<Rightarrow> addr \<Rightarrow> size_t \<Rightarrow> bool" where
  "within h p n = list_ex (\<lambda>(q, m). unat q \<le> unat p \<and> unat p + unat n \<le> unat q + unat m) (live h)"

section \<open>Operations\<close>

definition rp_create_pool :: "libc \<Rightarrow> os_globals \<Rightarrow> size_t \<Rightarrow> mem_history \<Rightarrow> (rp_pool option \<times> mem_history) res" where
  "rp_create_pool os g sz h =
     (let (p, h1) = rp_memalign os RP_POOL_ALIGNMENT sz h
      in if p = 0 then Inr (None, h1)
         else if \<not> within h1 p SIZEOF_POOL then Inl OutOfBounds
         else let room = sz - SIZEOF_POOL
           in Inr (Some \<lparr>p_chain = [\<lparr>d_base = p, d_last = p + SIZEOF_POOL, d_end = p + sz, d_failed = 0\<rparr>],
                   p_max = (if room < RP_MAX_ALLOC_FROM_POOL g then room else RP_MAX_ALLOC_FROM_POOL g),
                   p_current = 0, p_large = []\<rparr>, h1))"

fun free_larges :: "rp_pool_large list \<Rightarrow> mem_history \<Rightarrow> mem_history" where
  "free_larges [] h = h"
| "free_larges (l # ls) h = free_larges ls (if l_alloc l \<noteq> 0 then rp_free (l_alloc l) h else h)"

fun free_blocks :: "rp_pool_data list \<Rightarrow> mem_history \<Rightarrow> mem_history" where
  "free_blocks [] h = h"
| "free_blocks (d # ds) h = free_blocks ds (rp_free (d_base d) h)"

definition rp_destroy_pool :: "pstate \<Rightarrow> mem_history" where
  "rp_destroy_pool = (\<lambda>(pool, h). free_blocks (p_chain pool) (free_larges (p_large pool) h))"

definition rp_reset_pool :: "pstate \<Rightarrow> pstate" where
  "rp_reset_pool = (\<lambda>(pool, h).
     (pool\<lparr>p_chain := map (\<lambda>d. d\<lparr>d_last := d_base d + SIZEOF_POOL, d_failed := 0\<rparr>) (p_chain pool),
           p_current := 0, p_large := []\<rparr>,
      free_larges (p_large pool) h))"

text \<open>
  The loop over the blocks: in \<open>rp_palloc\<close> with the start aligned, in \<open>rp_pnalloc\<close> without.
  The room \<open>end - m\<close> is an unsigned difference.
\<close>

fun pool_scan :: "bool \<Rightarrow> size_t \<Rightarrow> rp_pool_data list \<Rightarrow> (addr \<times> rp_pool_data list) option" where
  "pool_scan al sz [] = None"
| "pool_scan al sz (d # ds) =
     (let m = (if al then rp_align_ptr (d_last d) RP_ALIGNMENT else d_last d)
      in if d_end d - m \<ge> sz then Some (m, d\<lparr>d_last := m + sz\<rparr> # ds)
         else map_option (\<lambda>(m, ds'). (m, d # ds')) (pool_scan al sz ds))"

text \<open>
  The loop of \<open>rp_palloc_block\<close> from \<open>current\<close> to the last block: \<open>i\<close> is the index of the
  first block of the list, \<open>cur\<close> the value of \<open>current\<close> so far.
\<close>

fun bump_failed :: "nat \<Rightarrow> nat \<Rightarrow> rp_pool_data list \<Rightarrow> nat \<times> rp_pool_data list" where
  "bump_failed i cur (d # e # ds) =
     (let (cur', ds') = bump_failed (i + 1) (if d_failed d > 4 then i + 1 else cur) (e # ds)
      in (cur', d\<lparr>d_failed := d_failed d + 1\<rparr> # ds'))"
| "bump_failed i cur ds = (cur, ds)"

definition rp_palloc_block :: "libc \<Rightarrow> size_t \<Rightarrow> pstate \<Rightarrow> (addr \<times> pstate) res" where
  "rp_palloc_block os sz = (\<lambda>(pool, h).
     case p_chain pool of
       [] \<Rightarrow> Inl NullDeref
     | first # _ \<Rightarrow>
         let psize = d_end first - d_base first;
             (new, h1) = rp_memalign os RP_POOL_ALIGNMENT psize h
         in if new = 0 then Inr (0, (pool, h1))
            else if \<not> within h1 new SIZEOF_POOL_DATA then Inl OutOfBounds
            else if \<not> p_current pool < length (p_chain pool) then Inl NullDeref
            else let m = rp_align_ptr (new + SIZEOF_POOL_DATA) RP_ALIGNMENT;
                     (cur, ds) = bump_failed (p_current pool) (p_current pool) (drop (p_current pool) (p_chain pool))
              in Inr (m, (pool\<lparr>p_chain := take (p_current pool) (p_chain pool) @ ds @
                       [\<lparr>d_base = new, d_last = m + sz, d_end = new + psize, d_failed = 0\<rparr>],
                     p_current := cur\<rparr>, h1)))"

text \<open>A request that is not larger than \<open>max\<close>.\<close>

definition palloc_small :: "bool \<Rightarrow> libc \<Rightarrow> size_t \<Rightarrow> pstate \<Rightarrow> (addr \<times> pstate) res" where
  "palloc_small al os sz = (\<lambda>(pool, h).
     if \<not> p_current pool < length (p_chain pool) then Inl NullDeref
     else case pool_scan al sz (drop (p_current pool) (p_chain pool)) of
            Some (m, ds) \<Rightarrow> Inr (m, (pool\<lparr>p_chain := take (p_current pool) (p_chain pool) @ ds\<rparr>, h))
          | None \<Rightarrow> rp_palloc_block os sz (pool, h))"

text \<open>The search for an empty node among the first five of the list.\<close>

fun large_slot :: "addr \<Rightarrow> nat \<Rightarrow> rp_pool_large list \<Rightarrow> rp_pool_large list option" where
  "large_slot p n [] = None"
| "large_slot p n (l # ls) =
     (if l_alloc l = 0 then Some (l\<lparr>l_alloc := p\<rparr> # ls)
      else if n > 3 then None
      else map_option (\<lambda>ls'. l # ls') (large_slot p (n + 1) ls))"

text \<open>What \<open>rp_palloc_large\<close> and \<open>rp_pmemalign\<close> do after they have asked for a node.\<close>

definition large_link :: "addr \<Rightarrow> (addr \<times> pstate) res \<Rightarrow> (addr \<times> pstate) res" where
  "large_link p r = res_bind r (\<lambda>(l, pool, h).
     if l = 0 then Inr (0, (pool, rp_free p h))
     else if \<not> within h l SIZEOF_POOL_LARGE then Inl OutOfBounds
     else Inr (p, (pool\<lparr>p_large := \<lparr>l_at = l, l_alloc = p\<rparr> # p_large pool\<rparr>, h)))"

text \<open>
  \<open>rp_palloc\<close> and \<open>rp_palloc_large\<close> call each other, so that nothing in the code bounds
  the recursion; the second is expanded in the first.
\<close>

partial_function (option) rp_palloc :: "libc \<Rightarrow> size_t \<Rightarrow> pstate \<Rightarrow> (addr \<times> pstate) res option" where
  "rp_palloc os sz s =
     (if sz \<le> p_max (fst s) then Some (palloc_small True os sz s)
      else let (p, h1) = rp_alloc os sz (snd s)
        in if p = 0 then Some (Inr (0, (fst s, h1)))
           else case large_slot p 0 (p_large (fst s)) of
                  Some ls \<Rightarrow> Some (Inr (p, ((fst s)\<lparr>p_large := ls\<rparr>, h1)))
                | None \<Rightarrow> Option.bind (rp_palloc os SIZEOF_POOL_LARGE (fst s, h1)) (\<lambda>r. Some (large_link p r)))"

definition rp_palloc_large :: "libc \<Rightarrow> size_t \<Rightarrow> pstate \<Rightarrow> (addr \<times> pstate) res option" where
  "rp_palloc_large os sz s =
     (let (p, h1) = rp_alloc os sz (snd s)
      in if p = 0 then Some (Inr (0, (fst s, h1)))
         else case large_slot p 0 (p_large (fst s)) of
                Some ls \<Rightarrow> Some (Inr (p, ((fst s)\<lparr>p_large := ls\<rparr>, h1)))
              | None \<Rightarrow> Option.bind (rp_palloc os SIZEOF_POOL_LARGE (fst s, h1)) (\<lambda>r. Some (large_link p r)))"

definition rp_pnalloc :: "libc \<Rightarrow> size_t \<Rightarrow> pstate \<Rightarrow> (addr \<times> pstate) res option" where
  "rp_pnalloc os sz s =
     (if sz \<le> p_max (fst s) then Some (palloc_small False os sz s) else rp_palloc_large os sz s)"

definition rp_pmemalign :: "libc \<Rightarrow> size_t \<Rightarrow> size_t \<Rightarrow> pstate \<Rightarrow> (addr \<times> pstate) res option" where
  "rp_pmemalign os sz alignment s =
     (let (p, h1) = rp_memalign os alignment sz (snd s)
      in if p = 0 then Some (Inr (0, (fst s, h1)))
         else Option.bind (rp_palloc os SIZEOF_POOL_LARGE (fst s, h1)) (\<lambda>r. Some (large_link p r)))"

fun pfree_loop :: "addr \<Rightarrow> rp_pool_large list \<Rightarrow> mem_history \<Rightarrow> (rp_pool_large list \<times> mem_history) option" where
  "pfree_loop p [] h = None"
| "pfree_loop p (l # ls) h =
     (if p = l_alloc l then Some (l\<lparr>l_alloc := 0\<rparr> # ls, rp_free (l_alloc l) h)
      else map_option (\<lambda>(ls', h'). (l # ls', h')) (pfree_loop p ls h))"

definition rp_pfree :: "addr \<Rightarrow> pstate \<Rightarrow> int \<times> pstate" where
  "rp_pfree p = (\<lambda>(pool, h).
     case pfree_loop p (p_large pool) h of
       Some (ls, h') \<Rightarrow> (0, (pool\<lparr>p_large := ls\<rparr>, h'))
     | None \<Rightarrow> (- 1, (pool, h)))"

definition rp_pcalloc :: "libc \<Rightarrow> size_t \<Rightarrow> pstate \<Rightarrow> (addr \<times> pstate) res option" where
  "rp_pcalloc os sz s =
     map_option (\<lambda>r. res_bind r (\<lambda>(p, pool, h).
       if p \<noteq> 0 then (if within h p sz then Inr (p, (pool, M_zero p sz # h)) else Inl OutOfBounds)
       else Inr (p, (pool, h)))) (rp_palloc os sz s)"

lemma rp_palloc_unfold:
  "rp_palloc os sz s = (if sz \<le> p_max (fst s) then Some (palloc_small True os sz s) else rp_palloc_large os sz s)"
  by (subst rp_palloc.simps) (simp add: rp_palloc_large_def)

end
