(* ===== verification/Region_Alloc.thy ===== *)
theory Region_Alloc
  imports Rp_Os
begin

text \<open>
  What the clients of an allocator rely on, as locales: every region it returns is new, so
  that a run of requests gets pairwise disjoint regions; and releasing a region keeps the
  others. \<open>Palloc_Props\<close> and \<open>Slab_Props\<close> interpret them on the two allocators.
\<close>

section \<open>Runs of requests\<close>

text \<open>The results of a run of requests, each with its request.\<close>

fun serve_all :: "('r \<Rightarrow> 's \<Rightarrow> (addr \<times> 's) res option) \<Rightarrow> 'r list \<Rightarrow> 's \<Rightarrow> ((addr \<times> 'r) list \<times> 's) res option" where
  "serve_all serve [] s = Some (Inr ([], s))"
| "serve_all serve (r # rs) s =
     (case serve r s of
        None \<Rightarrow> None
      | Some (Inl e) \<Rightarrow> Some (Inl e)
      | Some (Inr (p, s1)) \<Rightarrow>
          map_option (\<lambda>res. res_bind res (\<lambda>(out, s2). Inr ((p, r) # out, s2))) (serve_all serve rs s1))"

text \<open>The regions of the requests that were served.\<close>

definition regions :: "('r \<Rightarrow> size_t) \<Rightarrow> (addr \<times> 'r) list \<Rightarrow> nat set list" where
  "regions need out = map (\<lambda>(p, r). region p (need r)) (filter (\<lambda>(p, r). p \<noteq> 0) out)"

fun disjoint_all :: "'a set list \<Rightarrow> bool" where
  "disjoint_all [] = True"
| "disjoint_all (A # As) = ((\<forall>B \<in> set As. A \<inter> B = {}) \<and> disjoint_all As)"

locale region_allocator =
  fixes inv :: "'s \<Rightarrow> bool"
    and occ :: "'s \<Rightarrow> nat set"
    and good :: "'r \<Rightarrow> bool"
    and need :: "'r \<Rightarrow> size_t"
    and serve :: "'r \<Rightarrow> 's \<Rightarrow> (addr \<times> 's) res option"
  assumes serves: "inv s \<Longrightarrow> good r \<Longrightarrow>
    \<exists>p s'. serve r s = Some (Inr (p, s')) \<and> inv s' \<and> occ s \<subseteq> occ s' \<and>
      (p \<noteq> 0 \<longrightarrow> region p (need r) \<subseteq> occ s' - occ s)"
begin

lemma serve_all_disjoint:
  assumes "inv s" "\<forall>r \<in> set rs. good r"
  shows "\<exists>out s'. serve_all serve rs s = Some (Inr (out, s')) \<and> inv s' \<and> occ s \<subseteq> occ s' \<and>
    map snd out = rs \<and> disjoint_all (regions need out) \<and> (\<forall>A \<in> set (regions need out). A \<subseteq> occ s' - occ s)"
  using assms
proof (induction rs arbitrary: s)
  case Nil
  then show ?case by (simp add: regions_def)
next
  case (Cons r rs)
  from serves [OF Cons.prems(1), of r] Cons.prems(2) obtain p s1 where
    1: "serve r s = Some (Inr (p, s1))" "inv s1" "occ s \<subseteq> occ s1"
      "p \<noteq> 0 \<longrightarrow> region p (need r) \<subseteq> occ s1 - occ s" by auto
  from Cons.IH [OF 1(2)] Cons.prems(2) obtain out s' where
    2: "serve_all serve rs s1 = Some (Inr (out, s'))" "inv s'" "occ s1 \<subseteq> occ s'" "map snd out = rs"
      "disjoint_all (regions need out)" "\<forall>A \<in> set (regions need out). A \<subseteq> occ s' - occ s1" by auto
  have head: "regions need ((p, r) # out) = (if p = 0 then [] else [region p (need r)]) @ regions need out"
    by (simp add: regions_def)
  have "disjoint_all (regions need ((p, r) # out))" using 1(4) 2(5,6) by (auto simp: head)
  moreover have "\<forall>A \<in> set (regions need ((p, r) # out)). A \<subseteq> occ s' - occ s"
    using 1(3,4) 2(3,6) by (auto simp: head)
  ultimately show ?case using 1 2 by auto
qed

end

text \<open>An allocator that can also take a region back.\<close>

locale freeing_allocator = region_allocator inv occ good need serve
  for inv :: "'s \<Rightarrow> bool" and occ :: "'s \<Rightarrow> nat set" and good :: "'r \<Rightarrow> bool"
    and need :: "'r \<Rightarrow> size_t" and serve :: "'r \<Rightarrow> 's \<Rightarrow> (addr \<times> 's) res option" +
  fixes release :: "addr \<Rightarrow> 's \<Rightarrow> 's option"
    and extent :: "'s \<Rightarrow> addr \<Rightarrow> nat set"
  assumes releases: "inv s \<Longrightarrow> release p s = Some s' \<Longrightarrow> inv s' \<and> occ s' = occ s - extent s p"
begin

text \<open>Releasing one region and serving new requests leaves every other region alone.\<close>

lemma release_keeps:
  assumes "inv s" "release p s = Some s'" "A \<subseteq> occ s" "A \<inter> extent s p = {}" "\<forall>r \<in> set rs. good r"
  shows "\<exists>out s''. serve_all serve rs s' = Some (Inr (out, s'')) \<and> inv s'' \<and> A \<subseteq> occ s'' \<and>
    (\<forall>B \<in> set (regions need out). A \<inter> B = {})"
proof -
  from releases [OF assms(1,2)] have s': "inv s'" "occ s' = occ s - extent s p" by auto
  with assms(3,4) have A: "A \<subseteq> occ s'" by auto
  from serve_all_disjoint [OF s'(1) assms(5)] obtain out s'' where
    o: "serve_all serve rs s' = Some (Inr (out, s''))" "inv s''" "occ s' \<subseteq> occ s''"
      "\<forall>B \<in> set (regions need out). B \<subseteq> occ s'' - occ s'" by auto
  with A have "\<forall>B \<in> set (regions need out). A \<inter> B = {}" by blast
  with o A show ?thesis by blast
qed

end

end
