(* ===== verification/Palloc_Inv.thy ===== *)
theory Palloc_Inv
  imports Rp_Palloc Region_Alloc
begin

text \<open>
  The invariant of a pool (for blocks of \<open>n\<close> bytes), the bytes it occupies, and how one
  step of an allocation changes both.
\<close>

section \<open>The heap\<close>

definition heap_ok :: "mem_history \<Rightarrow> bool" where
  "heap_ok h \<longleftrightarrow> frees_ok h \<and> distinct (map fst (live h)) \<and> 0 \<notin> fst ` set (live h) \<and>
     (\<forall>(p, a) \<in> set (live h). unat p + unat a < 2 ^ 64 \<and>
        (\<forall>(q, b) \<in> set (live h). p \<noteq> q \<longrightarrow> region p a \<inter> region q b = {}))"

lemma heap_ok_Nil: "heap_ok []"
  by (simp add: heap_ok_def)

text \<open>A new object, and a call that does not change the live objects.\<close>

lemma heap_ok_fresh:
  assumes "heap_ok h" "fresh_obj h p a" "live h' = (p, a) # live h" "frees_ok h' = frees_ok h"
  shows "heap_ok h'"
  using assms by (fastforce simp: heap_ok_def fresh_obj_def)

lemma heap_ok_same:
  assumes "heap_ok h" "live h' = live h" "frees_ok h' = frees_ok h"
  shows "heap_ok h'"
  using assms by (simp add: heap_ok_def)

lemma heap_ok_free:
  assumes "heap_ok h" "p \<in> fst ` set (live h)"
  shows "heap_ok (M_free p # h)"
proof -
  have "\<forall>(q, a) \<in> set (live (M_free p # h)). unat q + unat a < 2 ^ 64 \<and>
      (\<forall>(r, b) \<in> set (live (M_free p # h)). q \<noteq> r \<longrightarrow> region q a \<inter> region r b = {})"
    using assms(1) unfolding heap_ok_def by simp fast
  moreover have "distinct (map fst (live (M_free p # h)))" "frees_ok (M_free p # h)"
    using assms by (simp_all add: heap_ok_def distinct_map_filter)
  moreover have "0 \<notin> fst ` set (live (M_free p # h))" using assms(1) by (auto simp: heap_ok_def)
  ultimately show ?thesis unfolding heap_ok_def by blast
qed

lemma live_disjoint:
  assumes "heap_ok h" "(p, a) \<in> set (live h)" "(q, b) \<in> set (live h)" "p \<noteq> q"
  shows "region p a \<inter> region q b = {}"
  using assms unfolding heap_ok_def by fast

lemma live_unique:
  assumes "heap_ok h" "(p, a) \<in> set (live h)" "(p, b) \<in> set (live h)"
  shows "a = b"
  using assms by (auto simp: heap_ok_def dest: eq_key_imp_eq_value)

section \<open>Blocks\<close>

definition block_ok :: "nat \<Rightarrow> mem_history \<Rightarrow> rp_pool_data \<Rightarrow> bool" where
  "block_ok n h d \<longleftrightarrow> (d_base d, of_nat n) \<in> set (live h) \<and> unat (d_base d) mod 16 = 0 \<and>
     unat (d_base d) + n < 2 ^ 64 \<and> unat (d_end d) = unat (d_base d) + n \<and>
     unat (d_base d) + 32 \<le> unat (d_last d) \<and> unat (d_last d) \<le> unat (d_end d)"

definition body :: "nat \<Rightarrow> rp_pool_data \<Rightarrow> nat set" where
  "body n d = {unat (d_base d) ..< unat (d_base d) + n}"

definition tail :: "rp_pool_data \<Rightarrow> nat set" where
  "tail d = {unat (d_last d) ..< unat (d_end d)}"

lemma tail_body: "block_ok n h d \<Longrightarrow> tail d \<subseteq> body n d"
  by (auto simp: block_ok_def tail_def body_def)

lemma body_region: "block_ok n h d \<Longrightarrow> body n d = region (d_base d) (of_nat n)"
  by (simp add: block_ok_def body_def region_def unat_of_nat take_bit_nat_eq_self)

lemma bodies_disjoint:
  assumes "heap_ok h" "block_ok n h d" "block_ok n h e" "d_base d \<noteq> d_base e"
  shows "body n d \<inter> body n e = {}"
  unfolding body_region [OF assms(2)] body_region [OF assms(3)]
  using assms by (intro live_disjoint [OF assms(1)]) (auto simp: block_ok_def)

definition strip :: "rp_pool_data \<Rightarrow> rp_pool_data" where
  "strip d = d\<lparr>d_failed := 0\<rparr>"

lemma strip_simps [simp]:
  "d_base (strip d) = d_base d" "d_last (strip d) = d_last d" "d_end (strip d) = d_end d"
  "strip (d\<lparr>d_failed := x\<rparr>) = strip d"
  "block_ok n h (strip d) = block_ok n h d" "body n (strip d) = body n d" "tail (strip d) = tail d"
  by (simp_all add: strip_def block_ok_def body_def tail_def)

text \<open>The counter \<open>failed\<close> and \<open>current\<close> only steer the search.\<close>

lemma bump_failed_ok:
  assumes "bump_failed i cur ds = (cur', ds')" "ds \<noteq> []" "cur < i + length ds"
  shows "map strip ds' = map strip ds \<and> cur' < i + length ds"
  using assms
proof (induction i cur ds arbitrary: cur' ds' rule: bump_failed.induct)
  case (1 i cur d e ds)
  obtain c es where b: "bump_failed (i + 1) (if d_failed d > 4 then i + 1 else cur) (e # ds) = (c, es)"
    by (cases "bump_failed (i + 1) (if d_failed d > 4 then i + 1 else cur) (e # ds)")
  from "1.IH" [OF b] "1.prems" have "map strip es = map strip (e # ds)" "c < i + 1 + length (e # ds)" by auto
  with "1.prems" b show ?case by auto
qed auto

definition chain_ok :: "nat \<Rightarrow> mem_history \<Rightarrow> rp_pool_data list \<Rightarrow> bool" where
  "chain_ok n h c \<longleftrightarrow> c \<noteq> [] \<and> (\<forall>d \<in> set c. block_ok n h d) \<and> distinct (map d_base c) \<and>
     unat (d_base (hd c)) + 56 \<le> unat (d_last (hd c))"

definition tails :: "rp_pool_data list \<Rightarrow> nat set" where
  "tails c = (\<Union>d \<in> set c. tail d)"

definition node_in :: "rp_pool_data list \<Rightarrow> addr \<Rightarrow> bool" where
  "node_in c a \<longleftrightarrow> (\<exists>d \<in> set c. unat (d_base d) + 32 \<le> unat a \<and> unat a + 16 \<le> unat (d_last d))"

lemma strip_chain [simp]:
  "chain_ok n h (map strip c) = chain_ok n h c" "tails (map strip c) = tails c"
  "node_in (map strip c) = node_in c" "map d_base (map strip c) = map d_base c"
  by (cases c) (auto simp: chain_ok_def tails_def node_in_def comp_def fun_eq_iff)

lemma strip_cong:
  assumes "map strip c' = map strip c"
  shows "chain_ok n h c' = chain_ok n h c" "tails c' = tails c" "node_in c' = node_in c"
    "map d_base c' = map d_base c" "length c' = length c"
  using assms map_eq_imp_length_eq [OF assms] by (metis strip_chain)+

section \<open>Pools\<close>

definition larges_ok :: "mem_history \<Rightarrow> rp_pool_data list \<Rightarrow> rp_pool_large list \<Rightarrow> bool" where
  "larges_ok h c ls \<longleftrightarrow> (\<forall>l \<in> set ls. node_in c (l_at l) \<and>
       (l_alloc l \<noteq> 0 \<longrightarrow> l_alloc l \<in> fst ` set (live h) \<and> l_alloc l \<notin> d_base ` set c)) \<and>
     distinct (filter (\<lambda>p. p \<noteq> 0) (map l_alloc ls))"

definition pool_ok :: "nat \<Rightarrow> pstate \<Rightarrow> bool" where
  "pool_ok n = (\<lambda>(pool, h). heap_ok h \<and> chain_ok n h (p_chain pool) \<and> larges_ok h (p_chain pool) (p_large pool) \<and>
     n mod 8 = 0 \<and> 72 \<le> n \<and> p_current pool < length (p_chain pool) \<and>
     16 \<le> unat (p_max pool) \<and> unat (p_max pool) + 56 \<le> n)"

text \<open>The bytes in use: all of the live objects but the free ends of the blocks.\<close>

definition all_live :: "mem_history \<Rightarrow> nat set" where
  "all_live h = (\<Union>(q, m) \<in> set (live h). region q m)"

definition occ :: "pstate \<Rightarrow> nat set" where
  "occ = (\<lambda>(pool, h). all_live h - tails (p_chain pool))"

definition large_objs :: "rp_pool_large list \<Rightarrow> addr set" where
  "large_objs ls = l_alloc ` set ls - {0}"

definition objs :: "rp_pool \<Rightarrow> addr set" where
  "objs pool = d_base ` set (p_chain pool) \<union> large_objs (p_large pool)"

text \<open>The live objects that the pool does not own.\<close>

definition rest :: "pstate \<Rightarrow> (addr \<times> size_t) list" where
  "rest = (\<lambda>(pool, h). filter (\<lambda>r. fst r \<notin> objs pool) (live h))"

text \<open>One allocation of \<open>sz\<close> bytes at \<open>p\<close>, or none if \<open>p\<close> is 0.\<close>

definition step_ok :: "nat \<Rightarrow> size_t \<Rightarrow> pstate \<Rightarrow> addr \<Rightarrow> pstate \<Rightarrow> bool" where
  "step_ok n sz s p s' \<longleftrightarrow> pool_ok n s' \<and> rest s' = rest s \<and> p_max (fst s') = p_max (fst s) \<and> occ s \<subseteq> occ s' \<and>
     (p \<noteq> 0 \<longrightarrow> region p sz \<subseteq> occ s' - occ s \<and> unat p + unat sz < 2 ^ 64)"

end
