(* ===== verification/Palloc_Steps.thy ===== *)
theory Palloc_Steps
  imports Palloc_Inv
begin

text \<open>
  Every allocation of the pool, as a step in the sense of \<open>step_ok\<close>: growing a block,
  adding a block, and getting a large object with its node.
\<close>

section \<open>Growing a block\<close>

lemma block_aligned:
  assumes "block_ok n h d" "n mod 8 = 0"
  shows "unat (d_end d) mod 8 = 0" "unat (d_last d) + 7 < 2 ^ 64"
proof -
  have d: "unat (d_base d) mod 16 = 0" "unat (d_end d) = unat (d_base d) + n" "unat (d_end d) < 2 ^ 64"
    "unat (d_last d) \<le> unat (d_end d)"
    using assms(1) by (auto simp: block_ok_def)
  then show e: "unat (d_end d) mod 8 = 0" using assms(2) by presburger
  have "unat (d_end d) + 7 < 2 ^ 64" using e d(3) by simp presburger
  then show "unat (d_last d) + 7 < 2 ^ 64" using d(4) by linarith
qed

lemma scan_start:
  assumes "block_ok n h d" "n mod 8 = 0" "m = (if al then rp_align_ptr (d_last d) RP_ALIGNMENT else d_last d)"
  shows "unat (d_last d) \<le> unat m \<and> unat m \<le> unat (d_end d) \<and> (al \<longrightarrow> unat m mod 8 = 0)"
proof -
  have "unat (d_last d) \<le> unat (d_end d)" using assms(1) by (simp add: block_ok_def)
  with assms(3) unat_align_ptr [OF block_aligned(2) [OF assms(1,2)]] align_up_props [of 8 "unat (d_last d)"]
    align_up_le [OF _ block_aligned(1) [OF assms(1,2)], of "unat (d_last d)"]
  show ?thesis by simp
qed

lemma pool_scan_found:
  assumes "pool_scan al sz ds = Some (m, ds')" "\<forall>d \<in> set ds. block_ok n h d" "n mod 8 = 0"
  shows "\<exists>xs d ys. ds = xs @ d # ys \<and> ds' = xs @ d\<lparr>d_last := m + sz\<rparr> # ys \<and>
    unat (d_last d) \<le> unat m \<and> unat m + unat sz \<le> unat (d_end d) \<and> (al \<longrightarrow> unat m mod 8 = 0)"
  using assms
proof (induction al sz ds arbitrary: m ds' rule: pool_scan.induct)
  case (2 al sz d ds)
  define k where "k = (if al then rp_align_ptr (d_last d) RP_ALIGNMENT else d_last d)"
  from 2(3) have "block_ok n h d" by simp
  note k = scan_start [OF this 2(4) k_def]
  show ?case
  proof (cases "d_end d - k \<ge> sz")
    case True
    then have "unat sz \<le> unat (d_end d) - unat k"
      using k by (simp add: word_le_nat_alt unat_sub)
    with True k 2(2) show ?thesis by (intro exI [of _ "[]"]) (auto simp: k_def [symmetric] Let_def)
  next
    case False
    with 2(2) obtain es where "pool_scan al sz ds = Some (m, es)" "ds' = d # es"
      by (auto simp: k_def [symmetric] Let_def)
    with 2(1) [OF k_def] False 2(3,4) show ?thesis by (fastforce intro: exI [of _ "d # _"])
  qed
qed simp

lemma body_live: "block_ok n h d \<Longrightarrow> body n d \<subseteq> all_live h"
  by (auto simp: body_region all_live_def block_ok_def)

lemma other_bodies:
  assumes "heap_ok h" "chain_ok n h (xs @ d # ys)" "e \<in> set (xs @ ys)"
  shows "body n d \<inter> body n e = {}"
proof (rule bodies_disjoint [OF assms(1)])
  show "block_ok n h d" "block_ok n h e" using assms(2,3) by (auto simp: chain_ok_def)
  show "d_base d \<noteq> d_base e" using assms(2,3) by (auto simp: chain_ok_def)
qed

lemma tails_insert: "tails (xs @ d # ys) = tail d \<union> tails (xs @ ys)"
  by (auto simp: tails_def)

lemma tails_others:
  assumes "heap_ok h" "chain_ok n h (xs @ d # ys)"
  shows "body n d \<inter> tails (xs @ ys) = {}"
proof -
  have "body n d \<inter> tail e = {}" if "e \<in> set (xs @ ys)" for e
  proof -
    have "block_ok n h e" using assms(2) that by (auto simp: chain_ok_def)
    from tail_body [OF this] other_bodies [OF assms that] show ?thesis by blast
  qed
  then show ?thesis by (auto simp: tails_def)
qed

lemma grow_ok:
  assumes ok: "pool_ok n (pool, h)" and c: "p_chain pool = xs @ d # ys"
    and m: "unat (d_last d) \<le> unat m" "unat m + unat sz \<le> unat (d_end d)"
  shows "step_ok n sz (pool, h) m (pool\<lparr>p_chain := xs @ d\<lparr>d_last := m + sz\<rparr> # ys\<rparr>, h)"
proof -
  let ?d = "d\<lparr>d_last := m + sz\<rparr>"
  from ok c have h: "heap_ok h" and ch: "chain_ok n h (xs @ d # ys)" and lg: "larges_ok h (xs @ d # ys) (p_large pool)"
    by (simp_all add: pool_ok_def)
  from ch have d: "block_ok n h d" by (simp add: chain_ok_def)
  have s: "unat (m + sz) = unat m + unat sz" by (rule unat_add_bounded [OF m(2)])
  have d': "block_ok n h ?d" using d m by (simp add: block_ok_def s)
  have ch': "chain_ok n h (xs @ ?d # ys)"
    using ch d' m(1) by (cases xs) (auto simp: chain_ok_def s)
  have "node_in (xs @ d # ys) a \<Longrightarrow> node_in (xs @ ?d # ys) a" for a
    using m(1) by (auto simp: node_in_def s)
  then have lg': "larges_ok h (xs @ ?d # ys) (p_large pool)" using lg by (auto simp: larges_ok_def)
  have tails: "tails (xs @ ?d # ys) \<subseteq> tails (xs @ d # ys)"
    using m(1) by (auto simp: tails_insert [of xs] tail_def s)
  have "region m sz \<subseteq> tail d" using m by (auto simp: region_def tail_def)
  moreover have "region m sz \<inter> tail ?d = {}" by (auto simp: region_def tail_def s)
  moreover note tail_body [OF d] body_live [OF d] tails_others [OF h ch]
  ultimately have "region m sz \<subseteq> (all_live h - tails (xs @ ?d # ys)) - (all_live h - tails (xs @ d # ys))"
    unfolding tails_insert [of xs] by blast
  moreover have "unat m + unat sz < 2 ^ 64" using m(2) unat_less_limit [of "d_end d"] by simp
  ultimately show ?thesis
    using ok c ch' lg' tails by (auto simp: step_ok_def pool_ok_def occ_def rest_def objs_def)
qed

section \<open>Adding a block\<close>

lemma live_mono:
  assumes "set (live h) \<subseteq> set (live h')"
  shows "block_ok n h d \<Longrightarrow> block_ok n h' d" "chain_ok n h c \<Longrightarrow> chain_ok n h' c"
    "larges_ok h c ls \<Longrightarrow> larges_ok h' c ls"
proof -
  show b: "block_ok n h d \<Longrightarrow> block_ok n h' d" for d using assms by (auto simp: block_ok_def)
  show "chain_ok n h c \<Longrightarrow> chain_ok n h' c" using b by (simp add: chain_ok_def)
  have "fst ` set (live h) \<subseteq> fst ` set (live h')" using assms by blast
  then show "larges_ok h c ls \<Longrightarrow> larges_ok h' c ls" unfolding larges_ok_def by blast
qed

lemma tails_all_live: "chain_ok n h c \<Longrightarrow> tails c \<subseteq> all_live h"
  using body_live tail_body unfolding chain_ok_def tails_def by fast

lemma pool_objs_live:
  assumes "pool_ok n (pool, h)"
  shows "objs pool \<subseteq> fst ` set (live h)"
proof -
  have "d_base d \<in> fst ` set (live h)" if "d \<in> set (p_chain pool)" for d
  proof -
    have "block_ok n h d" using assms that by (simp add: pool_ok_def chain_ok_def)
    then have "(d_base d, of_nat n) \<in> set (live h)" by (simp add: block_ok_def)
    then show ?thesis by (metis fst_conv imageI)
  qed
  moreover have "large_objs (p_large pool) \<subseteq> fst ` set (live h)"
    using assms unfolding pool_ok_def larges_ok_def large_objs_def by auto
  ultimately show ?thesis by (auto simp: objs_def)
qed

lemma fresh_region: "fresh_obj h p a \<Longrightarrow> region p a \<inter> all_live h = {}"
  by (fastforce simp: fresh_obj_def all_live_def)

text \<open>A call of the C allocator that fails, and one that returns an object that the pool
  does not own yet.\<close>

lemma history_ok:
  assumes "pool_ok n (pool, h)" "live h' = live h" "frees_ok h' = frees_ok h"
  shows "pool_ok n (pool, h') \<and> rest (pool, h') = rest (pool, h) \<and> occ (pool, h') = occ (pool, h)"
  using assms heap_ok_same [of h h'] live_mono [of h h']
  by (auto simp: pool_ok_def rest_def occ_def all_live_def)

lemma fresh_ok:
  assumes "pool_ok n (pool, h)" "fresh_obj h p a" "live h' = (p, a) # live h" "frees_ok h' = frees_ok h"
  shows "pool_ok n (pool, h') \<and> p \<notin> objs pool \<and> rest (pool, h') = (p, a) # rest (pool, h) \<and>
    occ (pool, h') = occ (pool, h) \<union> region p a \<and> region p a \<inter> occ (pool, h) = {}"
proof -
  have h': "heap_ok h'" using assms heap_ok_fresh [of h p a h'] by (simp add: pool_ok_def)
  have "objs pool \<subseteq> fst ` set (live h)"
    using assms(1) by (rule pool_objs_live)
  then have p: "p \<notin> objs pool" using fresh_not_live [OF assms(2)] by blast
  have "tails (p_chain pool) \<subseteq> all_live h" using assms(1) tails_all_live by (auto simp: pool_ok_def)
  then have "occ (pool, h') = occ (pool, h) \<union> region p a"
    using fresh_region [OF assms(2)] by (auto simp: occ_def all_live_def assms(3))
  moreover have "pool_ok n (pool, h')"
  proof -
    have "set (live h) \<subseteq> set (live h')" by (auto simp: assms(3))
    from assms(1) h' live_mono [OF this] show ?thesis by (simp add: pool_ok_def)
  qed
  moreover have "region p a \<inter> occ (pool, h) = {}"
    using fresh_region [OF assms(2)] by (auto simp: occ_def)
  ultimately show ?thesis using p by (simp add: rest_def assms(3))
qed

definition placed :: "rp_pool_data list \<Rightarrow> addr \<Rightarrow> size_t \<Rightarrow> bool" where
  "placed c a sz \<longleftrightarrow> (\<exists>d \<in> set c. unat (d_base d) + 32 \<le> unat a \<and> unat a + unat sz \<le> unat (d_last d))"

lemma placed_node: "placed c a SIZEOF_POOL_LARGE = node_in c a"
  by (simp add: placed_def node_in_def pool_sizes)

lemma within_placed:
  assumes "placed c a sz" "\<forall>d \<in> set c. block_ok n h d"
  shows "within h a sz"
proof -
  obtain d where d: "d \<in> set c" "unat (d_base d) + 32 \<le> unat a" "unat a + unat sz \<le> unat (d_last d)"
    using assms(1) by (auto simp: placed_def)
  with assms(2) have b: "(d_base d, of_nat n) \<in> set (live h)" "unat (d_base d) + n < 2 ^ 64"
    "unat (d_last d) \<le> unat (d_base d) + n" by (auto simp: block_ok_def)
  then have "unat (of_nat n :: size_t) = n" by (intro unat_of_size) simp
  with b(1,3) d show ?thesis unfolding within_def list_ex_iff by (intro bexI [of _ "(d_base d, of_nat n)"]) auto
qed

lemma filter_fresh:
  "p \<notin> fst ` set xs \<Longrightarrow> filter (\<lambda>x. Q x \<and> fst x \<noteq> p) xs = filter Q xs"
  by (intro filter_cong) auto

lemma add_block_ok:
  assumes ok: "pool_ok n (pool, h)" and fresh: "fresh_obj h p (of_nat n)" "unat p mod 16 = 0"
    and h1: "live h1 = (p, of_nat n) # live h" "frees_ok h1 = frees_ok h"
    and sz: "sz \<le> p_max pool" and c: "map strip c = map strip (p_chain pool)" and cur: "cur < length c"
    and m: "m = rp_align_ptr (p + SIZEOF_POOL_DATA) RP_ALIGNMENT"
    and new: "new = \<lparr>d_base = p, d_last = m + sz, d_end = p + of_nat n, d_failed = 0\<rparr>"
  shows "step_ok n sz (pool, h) m (pool\<lparr>p_chain := c @ [new], p_current := cur\<rparr>, h1)"
    and "placed (c @ [new]) m sz" "unat m mod 8 = 0"
proof -
  have n: "n < 2 ^ 64" "unat sz + 56 \<le> n"
    using ok sz by (cases "p_chain pool"; fastforce simp: pool_ok_def chain_ok_def block_ok_def word_le_nat_alt)+
  then have un: "unat (of_nat n :: size_t) = n" by (intro unat_of_size)
  with fresh(1) have p: "p \<noteq> 0" "unat p + n < 2 ^ 64" by (simp_all add: fresh_obj_def)
  have p32: "unat (p + SIZEOF_POOL_DATA) = unat p + 32"
    using p(2) n(2) unat_add_less [of p SIZEOF_POOL_DATA] by (simp add: pool_sizes)
  have "unat m = align_up 8 (unat p + 32)"
    unfolding m using p(2) n(2) by (subst unat_align_ptr) (simp_all add: p32)
  moreover have "align_up 8 (unat p + 32) = unat p + 32"
  proof (rule antisym)
    show "align_up 8 (unat p + 32) \<le> unat p + 32" using fresh(2) by (intro align_up_le) (simp, presburger, simp)
    show "unat p + 32 \<le> align_up 8 (unat p + 32)" by (simp add: align_up_props)
  qed
  ultimately have um: "unat m = unat p + 32" by simp
  then show "unat m mod 8 = 0" using fresh(2) by presburger
  have ul: "unat (m + sz) = unat p + 32 + unat sz"
    using n p(2) unat_add_less [of m sz] by (simp add: um)
  have ue: "unat (p + of_nat n) = unat p + n"
    using p(2) un unat_add_less [of p "of_nat n"] by simp
  have b: "block_ok n h1 new"
    using fresh(2) p n by (simp add: block_ok_def new h1 um ul ue)
  from fresh_ok [OF ok fresh(1) h1] have f: "pool_ok n (pool, h1)" "p \<notin> objs pool"
    "rest (pool, h1) = (p, of_nat n) # rest (pool, h)" "occ (pool, h1) = occ (pool, h) \<union> region p (of_nat n)"
    "region p (of_nat n) \<inter> occ (pool, h) = {}" by auto
  note cs = strip_cong [OF c]
  have "p \<notin> d_base ` set c" using f(2) cs(4) by (metis UnI1 objs_def set_map)
  moreover have "chain_ok n h1 c" using f(1) cs(1) by (simp add: pool_ok_def)
  ultimately have ch: "chain_ok n h1 (c @ [new])"
    using b by (auto simp: chain_ok_def new)
  have "larges_ok h1 c (p_large pool)"
    using f(1) cs(3,4) by (simp add: pool_ok_def larges_ok_def flip: set_map)
  then have lg: "larges_ok h1 (c @ [new]) (p_large pool)"
    using f(2) by (auto simp: larges_ok_def node_in_def new objs_def large_objs_def)
  have tl: "tails (c @ [new]) = tails (p_chain pool) \<union> tail new"
    using cs(2) by (auto simp: tails_def)
  have tn: "tail new \<subseteq> region p (of_nat n)" "region m sz \<subseteq> region p (of_nat n)" "region m sz \<inter> tail new = {}"
    using n(2) by (auto simp: tail_def region_def new um ul ue un)
  have "tails (p_chain pool) \<inter> region p (of_nat n) = {}"
    using ok fresh_region [OF fresh(1)] tails_all_live by (fastforce simp: pool_ok_def)
  moreover have oc: "occ (pool\<lparr>p_chain := c @ [new], p_current := cur\<rparr>, h1) = occ (pool, h1) - tail new"
    by (auto simp: occ_def tl)
  ultimately have "region m sz \<subseteq> occ (pool\<lparr>p_chain := c @ [new], p_current := cur\<rparr>, h1) - occ (pool, h)"
    "occ (pool, h) \<subseteq> occ (pool\<lparr>p_chain := c @ [new], p_current := cur\<rparr>, h1)"
    using tn f(4,5) by blast+
  moreover have "rest (pool\<lparr>p_chain := c @ [new], p_current := cur\<rparr>, h1) = rest (pool, h)"
  proof -
    have "objs (pool\<lparr>p_chain := c @ [new], p_current := cur\<rparr>) = insert p (objs pool)"
      using cs(4) by (simp add: objs_def new flip: set_map)
    then have "rest (pool\<lparr>p_chain := c @ [new], p_current := cur\<rparr>, h1) =
        filter (\<lambda>r. fst r \<noteq> p) (rest (pool, h1))" by (auto simp: rest_def intro: filter_cong)
    also have "\<dots> = rest (pool, h)"
      using fresh_not_live [OF fresh(1)] unfolding f(3)
      by (simp add: rest_def filter_fresh)
    finally show ?thesis .
  qed
  moreover have "unat m + unat sz < 2 ^ 64" using n(2) p(2) um by simp
  ultimately show "step_ok n sz (pool, h) m (pool\<lparr>p_chain := c @ [new], p_current := cur\<rparr>, h1)"
    using ok f(1) ch lg cur by (simp add: step_ok_def pool_ok_def)
  show "placed (c @ [new]) m sz" by (auto simp: placed_def new um ul)
qed

lemma block_step:
  assumes os: "libc_ok os" and ok: "pool_ok n (pool, h)" and sz: "sz \<le> p_max pool"
  shows "\<exists>m s'. rp_palloc_block os sz (pool, h) = Inr (m, s') \<and> step_ok n sz (pool, h) m s' \<and>
    unat m mod 8 = 0 \<and> (m \<noteq> 0 \<longrightarrow> placed (p_chain (fst s')) m sz)"
proof -
  let ?i = "p_current pool" and ?c = "p_chain pool"
  obtain first ds where c: "?c = first # ds" using ok by (cases ?c) (auto simp: pool_ok_def chain_ok_def)
  with ok have first: "block_ok n h first" by (simp add: pool_ok_def chain_ok_def)
  then have "unat (d_end first - d_base first) = n" by (subst unat_diff_le) (auto simp: block_ok_def word_le_nat_alt)
  moreover have "n < 2 ^ 64" using first by (simp add: block_ok_def)
  ultimately have psize: "d_end first - d_base first = of_nat n" by (simp only: word_unat_eq_iff unat_of_size)
  have n: "n < 2 ^ 64" "32 \<le> n" "?i < length ?c" using first ok by (auto simp: block_ok_def pool_ok_def)
  from os show ?thesis
  proof (cases rule: rp_memalign_cases [where a = RP_POOL_ALIGNMENT and n = "of_nat n" and h = h])
    case fails
    then have "rp_palloc_block os sz (pool, h) = Inr (0, (pool, M_memalign RP_POOL_ALIGNMENT (of_nat n) 0 # h))"
      by (simp add: rp_palloc_block_def c psize)
    with history_ok [OF ok, of "M_memalign RP_POOL_ALIGNMENT (of_nat n) 0 # h"] show ?thesis
      by (simp add: step_ok_def)
  next
    case (obj p)
    let ?h = "M_memalign RP_POOL_ALIGNMENT (of_nat n) p # h"
    obtain cur es where b: "bump_failed ?i ?i (drop ?i ?c) = (cur, es)" by (cases "bump_failed ?i ?i (drop ?i ?c)")
    from bump_failed_ok [OF b] n(3) have es: "map strip es = map strip (drop ?i ?c)" "cur < length ?c" by auto
    have m: "map strip (take ?i ?c @ es) = map strip ?c"
      by (simp only: map_append es(1)) (simp flip: map_append)
    have cl: "cur < length (take ?i ?c @ es)" using es(2) map_eq_imp_length_eq [OF m] by simp
    have um: "unat p mod 16 = 0" using obj(3) by (simp add: RP_POOL_ALIGNMENT_def)
    have w: "within ?h p SIZEOF_POOL_DATA"
      using obj(4) n by (simp add: within_def pool_sizes unat_of_size)
    have eq: "rp_palloc_block os sz (pool, h) =
        Inr (rp_align_ptr (p + SIZEOF_POOL_DATA) RP_ALIGNMENT, pool\<lparr>p_chain := (take ?i ?c @ es) @
          [\<lparr>d_base = p, d_last = rp_align_ptr (p + SIZEOF_POOL_DATA) RP_ALIGNMENT + sz, d_end = p + of_nat n,
             d_failed = 0\<rparr>], p_current := cur\<rparr>, ?h)"
      using w obj(1,4) n(3) b by (simp add: rp_palloc_block_def c psize Let_def)
    have lv: "live ?h = (p, of_nat n) # live h" "frees_ok ?h = frees_ok h" using obj(4) by simp_all
    from add_block_ok [OF ok obj(2) um lv sz m cl refl refl] show ?thesis unfolding eq by simp
  qed
qed

lemma small_step:
  assumes os: "libc_ok os" and ok: "pool_ok n (pool, h)" and sz: "sz \<le> p_max pool"
  shows "\<exists>m s'. palloc_small al os sz (pool, h) = Inr (m, s') \<and> step_ok n sz (pool, h) m s' \<and>
    (al \<longrightarrow> unat m mod 8 = 0) \<and> (m \<noteq> 0 \<longrightarrow> placed (p_chain (fst s')) m sz)"
proof (cases "pool_scan al sz (drop (p_current pool) (p_chain pool))")
  case None
  with block_step [OF os ok sz] ok show ?thesis by (auto simp: palloc_small_def pool_ok_def)
next
  case (Some r)
  obtain m ds where r: "r = (m, ds)" by (cases r)
  let ?t = "take (p_current pool) (p_chain pool)"
  have "\<forall>d \<in> set (drop (p_current pool) (p_chain pool)). block_ok n h d"
    using ok by (auto simp: pool_ok_def chain_ok_def dest: in_set_dropD)
  from pool_scan_found [OF Some [unfolded r] this] ok obtain xs d ys where
    d: "drop (p_current pool) (p_chain pool) = xs @ d # ys" "ds = xs @ d\<lparr>d_last := m + sz\<rparr> # ys"
      "unat (d_last d) \<le> unat m" "unat m + unat sz \<le> unat (d_end d)" "al \<longrightarrow> unat m mod 8 = 0"
    by (auto simp: pool_ok_def)
  then have c: "p_chain pool = (?t @ xs) @ d # ys" by (metis append_assoc append_take_drop_id)
  have "block_ok n h d" using ok c by (metis (no_types, lifting) chain_ok_def in_set_conv_decomp pool_ok_def case_prod_conv)
  then have "placed (?t @ ds) m sz"
    using d(3,4) unat_add_bounded [OF d(4)] by (auto simp: placed_def d(2) block_ok_def)
  with grow_ok [OF ok c d(3,4)] d(5) Some ok show ?thesis
    by (simp add: palloc_small_def r d(2) pool_ok_def)
qed

section \<open>Large objects\<close>

lemma large_slot_found:
  "large_slot p k ls = Some ls' \<Longrightarrow>
    \<exists>xs l ys. ls = xs @ l # ys \<and> l_alloc l = 0 \<and> ls' = xs @ l\<lparr>l_alloc := p\<rparr> # ys"
proof (induction p k ls arbitrary: ls' rule: large_slot.induct)
  case (2 p k l ls)
  show ?case
  proof (cases "l_alloc l = 0")
    case True
    with 2(2) show ?thesis by (intro exI [of _ "[]"]) auto
  next
    case False
    with 2(2) obtain es where "large_slot p (k + 1) ls = Some es" "ls' = l # es" "\<not> k > 3"
      by (auto split: if_splits)
    with 2(1) False show ?thesis by (fastforce intro: exI [of _ "l # _"])
  qed
qed simp

text \<open>The pool takes over a live object, or a foreign object is freed.\<close>

lemma own_large:
  assumes "pool_ok n (pool, h)" "p \<noteq> 0" "p \<in> fst ` set (rest (pool, h))"
    and ls: "large_objs ls = insert p (large_objs (p_large pool))" "\<forall>l \<in> set ls. node_in (p_chain pool) (l_at l)"
      "distinct (filter (\<lambda>p. p \<noteq> 0) (map l_alloc ls))"
  shows "pool_ok n (pool\<lparr>p_large := ls\<rparr>, h)" "occ (pool\<lparr>p_large := ls\<rparr>, h) = occ (pool, h)"
    "rest (pool\<lparr>p_large := ls\<rparr>, h) = filter (\<lambda>r. fst r \<noteq> p) (rest (pool, h))"
proof -
  from assms(3) have p: "p \<in> fst ` set (live h)" "p \<notin> objs pool" by (auto simp: rest_def)
  have "l_alloc l \<in> insert p (large_objs (p_large pool))" if "l \<in> set ls" "l_alloc l \<noteq> 0" for l
    using that ls(1) by (auto simp: large_objs_def)
  moreover have "q \<in> fst ` set (live h) \<and> q \<notin> d_base ` set (p_chain pool)"
    if "q \<in> insert p (large_objs (p_large pool))" for q
    using that p assms(1) by (auto simp: larges_ok_def pool_ok_def large_objs_def objs_def)
  ultimately have "larges_ok h (p_chain pool) ls" using ls(2,3) unfolding larges_ok_def by blast
  with assms(1) show "pool_ok n (pool\<lparr>p_large := ls\<rparr>, h)" by (simp add: pool_ok_def)
  show "occ (pool\<lparr>p_large := ls\<rparr>, h) = occ (pool, h)" by (simp add: occ_def)
  have "objs (pool\<lparr>p_large := ls\<rparr>) = insert p (objs pool)" by (simp add: objs_def ls(1))
  then show "rest (pool\<lparr>p_large := ls\<rparr>, h) = filter (\<lambda>r. fst r \<noteq> p) (rest (pool, h))"
    by (auto simp: rest_def intro: filter_cong)
qed

lemma all_live_free:
  assumes "heap_ok h" "(p, a) \<in> set (live h)"
  shows "all_live (M_free p # h) = all_live h - region p a"
proof -
  have "region q b \<inter> region p a = {}" if "(q, b) \<in> set (live h)" "q \<noteq> p" for q b
    using live_disjoint [OF assms(1) that(1) assms(2) that(2)] .
  moreover have "region p b = region p a" if "(p, b) \<in> set (live h)" for b
    using live_unique [OF assms(1) that assms(2)] by simp
  ultimately show ?thesis by (fastforce simp: all_live_def)
qed

lemma free_foreign:
  assumes "pool_ok n (pool, h)" "(p, a) \<in> set (rest (pool, h))"
  shows "pool_ok n (pool, M_free p # h)" "occ (pool, M_free p # h) = occ (pool, h) - region p a"
    "rest (pool, M_free p # h) = filter (\<lambda>r. fst r \<noteq> p) (rest (pool, h))"
proof -
  from assms(2) have p: "(p, a) \<in> set (live h)" "p \<notin> objs pool" by (auto simp: rest_def)
  then have pl: "p \<in> fst ` set (live h)" by (metis fst_conv imageI)
  have h: "heap_ok h" "heap_ok (M_free p # h)"
    using assms(1) heap_ok_free [OF _ pl] by (auto simp: pool_ok_def)
  have "block_ok n (M_free p # h) d" if "d \<in> set (p_chain pool)" for d
    using assms(1) p(2) that by (auto simp: pool_ok_def chain_ok_def block_ok_def objs_def)
  then have "chain_ok n (M_free p # h) (p_chain pool)"
    using assms(1) by (simp add: pool_ok_def chain_ok_def)
  moreover have "larges_ok (M_free p # h) (p_chain pool) (p_large pool)"
  proof -
    from assms(1) have lg: "larges_ok h (p_chain pool) (p_large pool)" by (simp add: pool_ok_def)
    have "l_alloc l \<noteq> p" if "l \<in> set (p_large pool)" "l_alloc l \<noteq> 0" for l
      using p(2) that by (auto simp: objs_def large_objs_def)
    with lg show ?thesis unfolding larges_ok_def live_free by simp
  qed
  ultimately show "pool_ok n (pool, M_free p # h)" using assms(1) h by (simp add: pool_ok_def)
  show "occ (pool, M_free p # h) = occ (pool, h) - region p a"
    unfolding occ_def using all_live_free [OF h(1) p(1)] by auto
  show "rest (pool, M_free p # h) = filter (\<lambda>r. fst r \<noteq> p) (rest (pool, h))"
    by (simp add: rest_def conj_commute)
qed

lemma rest_fresh: "p \<notin> fst ` set (live h) \<Longrightarrow> filter (\<lambda>r. fst r \<noteq> p) (rest (pool, h)) = rest (pool, h)"
  by (auto simp: rest_def conj_commute intro!: filter_cong)

text \<open>Asking for a node and linking a new object into the list.\<close>

lemma link_step:
  assumes os: "libc_ok os" and ok: "pool_ok n (pool, h)" and p: "fresh_obj h p a"
    and h1: "live h1 = (p, a) # live h" "frees_ok h1 = frees_ok h"
  shows "\<exists>q s'. Option.bind (rp_palloc os SIZEOF_POOL_LARGE (pool, h1)) (\<lambda>r. Some (large_link p r)) = Some (Inr (q, s')) \<and>
    step_ok n a (pool, h) q s' \<and> (q = 0 \<or> q = p \<and> within (snd s') q a)"
proof -
  from fresh_ok [OF ok p h1] have f: "pool_ok n (pool, h1)" "rest (pool, h1) = (p, a) # rest (pool, h)"
    "occ (pool, h1) = occ (pool, h) \<union> region p a" "region p a \<inter> occ (pool, h) = {}" by auto
  have p0: "p \<noteq> 0" "unat p + unat a < 2 ^ 64" using p by (auto simp: fresh_obj_def)
  have sz: "SIZEOF_POOL_LARGE \<le> p_max pool" using ok by (simp add: pool_ok_def pool_sizes word_le_nat_alt)
  from small_step [OF os f(1) sz, of True] obtain l pool2 h2 where
    l: "palloc_small True os SIZEOF_POOL_LARGE (pool, h1) = Inr (l, (pool2, h2))"
      "step_ok n SIZEOF_POOL_LARGE (pool, h1) l (pool2, h2)" "l \<noteq> 0 \<longrightarrow> placed (p_chain pool2) l SIZEOF_POOL_LARGE"
    by auto
  then have call: "rp_palloc os SIZEOF_POOL_LARGE (pool, h1) = Some (Inr (l, (pool2, h2)))"
    using sz by (simp add: rp_palloc_unfold)
  from l(2) have s2: "pool_ok n (pool2, h2)" "rest (pool2, h2) = (p, a) # rest (pool, h)"
    "p_max pool2 = p_max pool" "occ (pool, h1) \<subseteq> occ (pool2, h2)"
    by (auto simp: step_ok_def f(2))
  have fr: "filter (\<lambda>r. fst r \<noteq> p) (rest (pool2, h2)) = rest (pool, h)"
    using rest_fresh [OF fresh_not_live [OF p]] by (simp add: s2(2))
  show ?thesis
  proof (cases "l = 0")
    case True
    have "(p, a) \<in> set (rest (pool2, h2))" by (simp add: s2(2))
    from free_foreign [OF s2(1) this] s2 f call fr True show ?thesis
      by (auto simp: large_link_def rp_free_def step_ok_def)
  next
    case False
    with l(3) have pl: "placed (p_chain pool2) l SIZEOF_POOL_LARGE" by simp
    have w: "within h2 l SIZEOF_POOL_LARGE"
      using within_placed [OF pl] s2(1) by (auto simp: pool_ok_def chain_ok_def)
    let ?ls = "\<lparr>l_at = l, l_alloc = p\<rparr> # p_large pool2"
    have pr: "p \<in> fst ` set (rest (pool2, h2))" by (simp add: s2(2))
    then have "p \<notin> objs pool2" by (auto simp: rest_def)
    with s2(1) pl p0 have "distinct (filter (\<lambda>p. p \<noteq> 0) (map l_alloc ?ls))" "\<forall>l \<in> set ?ls. node_in (p_chain pool2) (l_at l)"
      by (auto simp: pool_ok_def larges_ok_def objs_def large_objs_def placed_node)
    moreover have "large_objs ?ls = insert p (large_objs (p_large pool2))" using p0 by (auto simp: large_objs_def)
    ultimately have own: "pool_ok n (pool2\<lparr>p_large := ?ls\<rparr>, h2)" "occ (pool2\<lparr>p_large := ?ls\<rparr>, h2) = occ (pool2, h2)"
      "rest (pool2\<lparr>p_large := ?ls\<rparr>, h2) = rest (pool, h)"
      using own_large [OF s2(1) p0(1) pr, of ?ls] fr by auto
    have "step_ok n a (pool, h) p (pool2\<lparr>p_large := ?ls\<rparr>, h2)"
      using own s2(3,4) f(3,4) p0(2) by (auto simp: step_ok_def)
    moreover have "within h2 p a"
    proof -
      have "(p, a) \<in> set (rest (pool2, h2))" by (simp add: s2(2))
      then have "(p, a) \<in> set (live h2)" by (simp add: rest_def)
      then show ?thesis unfolding within_def list_ex_iff by blast
    qed
    ultimately show ?thesis using call False w by (simp add: large_link_def)
  qed
qed

lemma large_step:
  assumes os: "libc_ok os" and ok: "pool_ok n (pool, h)"
  shows "\<exists>q s'. rp_palloc_large os sz (pool, h) = Some (Inr (q, s')) \<and> step_ok n sz (pool, h) q s' \<and> unat q mod 16 = 0 \<and>
    (q \<noteq> 0 \<longrightarrow> within (snd s') q sz)"
  using os
proof (cases rule: rp_alloc_cases [where n = sz and h = h])
  case fails
  with history_ok [OF ok, of "M_malloc sz 0 # h"] show ?thesis
    by (simp add: rp_palloc_large_def step_ok_def)
next
  case (obj p)
  let ?h = "M_malloc sz p # h"
  have h1: "live ?h = (p, sz) # live h" "frees_ok ?h = frees_ok h" using obj(4) by simp_all
  show ?thesis
  proof (cases "large_slot p 0 (p_large pool)")
    case None
    from link_step [OF os ok obj(2) h1] obj None show ?thesis by (auto simp: rp_palloc_large_def)
  next
    case (Some ls)
    from large_slot_found [OF Some] obtain xs l ys where
      ls: "p_large pool = xs @ l # ys" "l_alloc l = 0" "ls = xs @ l\<lparr>l_alloc := p\<rparr> # ys" by auto
    from fresh_ok [OF ok obj(2) h1] have f: "pool_ok n (pool, ?h)" "p \<notin> objs pool"
      "rest (pool, ?h) = (p, sz) # rest (pool, h)"
      "occ (pool, ?h) = occ (pool, h) \<union> region p sz" "region p sz \<inter> occ (pool, h) = {}" by auto
    have "p \<in> fst ` set (rest (pool, ?h))" by (simp add: f(3))
    moreover have "large_objs ls = insert p (large_objs (p_large pool))" using obj(4) ls by (auto simp: large_objs_def)
    moreover have "\<forall>l \<in> set ls. node_in (p_chain pool) (l_at l)"
      using ok by (auto simp: pool_ok_def larges_ok_def ls)
    moreover have "distinct (filter (\<lambda>p. p \<noteq> 0) (map l_alloc ls))"
      using ok f(2) ls(2) obj(4) by (auto simp: pool_ok_def larges_ok_def ls(1,3) objs_def large_objs_def)
    ultimately have own: "pool_ok n (pool\<lparr>p_large := ls\<rparr>, ?h)" "occ (pool\<lparr>p_large := ls\<rparr>, ?h) = occ (pool, ?h)"
      "rest (pool\<lparr>p_large := ls\<rparr>, ?h) = filter (\<lambda>r. fst r \<noteq> p) (rest (pool, ?h))"
      using own_large [OF f(1) obj(4)] by auto
    moreover have "unat p + unat sz < 2 ^ 64" using obj(2) by (simp add: fresh_obj_def)
    ultimately have "step_ok n sz (pool, h) p (pool\<lparr>p_large := ls\<rparr>, ?h)"
      using f rest_fresh [OF fresh_not_live [OF obj(2)]] by (auto simp: step_ok_def)
    moreover have "within ?h p sz" using obj(4) by (simp add: within_def)
    ultimately show ?thesis using obj Some by (simp add: rp_palloc_large_def)
  qed
qed

lemma palloc_step:
  assumes "libc_ok os" "pool_ok n s"
  shows "\<exists>q s'. rp_palloc os sz s = Some (Inr (q, s')) \<and> step_ok n sz s q s' \<and> unat q mod 8 = 0 \<and>
    (q \<noteq> 0 \<longrightarrow> within (snd s') q sz)"
proof (cases s)
  case (Pair pool h)
  note ok = assms(2) [unfolded Pair]
  show ?thesis
  proof (cases "sz \<le> p_max pool")
    case True
    from small_step [OF assms(1) ok True, of True] obtain m pool' h' where
      m: "palloc_small True os sz (pool, h) = Inr (m, (pool', h'))" "step_ok n sz (pool, h) m (pool', h')"
        "unat m mod 8 = 0" "m \<noteq> 0 \<longrightarrow> placed (p_chain pool') m sz" by auto
    moreover have "\<forall>d \<in> set (p_chain pool'). block_ok n h' d"
      using m(2) by (simp add: step_ok_def pool_ok_def chain_ok_def)
    ultimately show ?thesis using True within_placed by (auto simp: Pair rp_palloc_unfold)
  next
    case False
    from large_step [OF assms(1) ok, of sz] obtain q s' where
      "rp_palloc_large os sz s = Some (Inr (q, s'))" "step_ok n sz s q s'" "unat q mod 16 = 0"
      "q \<noteq> 0 \<longrightarrow> within (snd s') q sz" by (auto simp: Pair)
    moreover from this(3) have "unat q mod 8 = 0" by presburger
    ultimately show ?thesis using False by (auto simp: Pair rp_palloc_unfold)
  qed
qed

lemma pnalloc_step:
  assumes "libc_ok os" "pool_ok n s"
  shows "\<exists>q s'. rp_pnalloc os sz s = Some (Inr (q, s')) \<and> step_ok n sz s q s'"
proof (cases s)
  case (Pair pool h)
  note ok = assms(2) [unfolded Pair]
  from small_step [OF assms(1) ok, of sz False] large_step [OF assms(1) ok, of sz] show ?thesis
    by (cases "sz \<le> p_max pool") (auto simp: Pair rp_pnalloc_def)
qed

lemma pmemalign_step:
  assumes "libc_ok os" "pool_ok n s"
  shows "\<exists>q s'. rp_pmemalign os sz al s = Some (Inr (q, s')) \<and> step_ok n sz s q s' \<and> unat q mod unat al = 0"
proof (cases s)
  case (Pair pool h)
  note ok = assms(2) [unfolded Pair]
  from assms(1) show ?thesis
  proof (cases rule: rp_memalign_cases [where a = al and n = sz and h = h])
    case fails
    with history_ok [OF ok, of "M_memalign al sz 0 # h"] show ?thesis
      by (simp add: rp_pmemalign_def step_ok_def Pair)
  next
    case (obj p)
    have h1: "live (M_memalign al sz p # h) = (p, sz) # live h" "frees_ok (M_memalign al sz p # h) = frees_ok h"
      using obj(4) by simp_all
    from link_step [OF assms(1) ok obj(2) h1] obj show ?thesis by (auto simp: rp_pmemalign_def Pair)
  qed
qed

lemma zero_ok:
  assumes "pool_ok n (pool, h)"
  shows "pool_ok n (pool, M_zero p sz # h) \<and> rest (pool, M_zero p sz # h) = rest (pool, h) \<and>
    occ (pool, M_zero p sz # h) = occ (pool, h)"
  using history_ok [OF assms, of "M_zero p sz # h"] by simp

lemma pcalloc_step:
  assumes "libc_ok os" "pool_ok n s"
  shows "\<exists>q s'. rp_pcalloc os sz s = Some (Inr (q, s')) \<and> step_ok n sz s q s' \<and> unat q mod 8 = 0 \<and>
    (q \<noteq> 0 \<longrightarrow> hd (snd s') = M_zero q sz)"
proof -
  from palloc_step [OF assms, of sz] obtain q pool h where
    q: "rp_palloc os sz s = Some (Inr (q, (pool, h)))" "step_ok n sz s q (pool, h)" "unat q mod 8 = 0"
      "q \<noteq> 0 \<longrightarrow> within h q sz" by auto
  show ?thesis
  proof (cases "q = 0")
    case True
    with q show ?thesis by (simp add: rp_pcalloc_def)
  next
    case False
    have "pool_ok n (pool, h)" using q(2) by (simp add: step_ok_def)
    from zero_ok [OF this, of q sz] q False show ?thesis by (simp add: rp_pcalloc_def step_ok_def)
  qed
qed

end
