(* ===== verification/Palloc_Props.thy ===== *)
theory Palloc_Props
  imports Palloc_Steps
begin

text \<open>
  What the pool allocator promises: the regions of any run of requests are disjoint, the
  memory of a pool is given back exactly once, and the two inputs for which the code goes
  wrong (a block size that is not a multiple of 8, a pool that is too small for the nodes
  of its list of large objects).
\<close>

section \<open>Creating a pool\<close>

lemma create_ok:
  assumes os: "libc_ok os" and h: "heap_ok h"
    and sz: "unat sz mod 8 = 0" "72 \<le> unat sz" and pg: "17 \<le> unat (rp_pagesize g)"
  shows "(\<exists>h1. rp_create_pool os g sz h = Inr (None, h1) \<and> heap_ok h1 \<and> live h1 = live h) \<or>
    (\<exists>pool h1. rp_create_pool os g sz h = Inr (Some pool, h1) \<and> pool_ok (unat sz) (pool, h1) \<and>
      rest (pool, h1) = live h \<and> p_large pool = [])"
  using os
proof (cases rule: rp_memalign_cases [where a = RP_POOL_ALIGNMENT and n = sz and h = h])
  case fails
  with heap_ok_same [OF h] show ?thesis by (simp add: rp_create_pool_def)
next
  case (obj p)
  let ?h = "M_memalign RP_POOL_ALIGNMENT sz p # h"
  have w: "within ?h p SIZEOF_POOL" using obj(4) sz(2) by (simp add: within_def pool_sizes)
  have p: "unat p + unat sz < 2 ^ 64" "p \<notin> fst ` set (live h)" "unat p mod 16 = 0"
    using obj(2,3) fresh_not_live by (auto simp: fresh_obj_def RP_POOL_ALIGNMENT_def)
  have hok: "heap_ok ?h" using heap_ok_fresh [OF h obj(2)] obj(4) by simp
  have u: "unat (p + SIZEOF_POOL) = unat p + 56" "unat (p + sz) = unat p + unat sz" "unat (sz - SIZEOF_POOL) = unat sz - 56"
    using p(1) sz(2) unat_add_less [of p SIZEOF_POOL] unat_add_less [of p sz] unat_diff_le [of SIZEOF_POOL sz]
    by (auto simp: pool_sizes word_le_nat_alt)
  define d where "d = \<lparr>d_base = p, d_last = p + SIZEOF_POOL, d_end = p + sz, d_failed = 0\<rparr>"
  define mx where "mx = (if sz - SIZEOF_POOL < RP_MAX_ALLOC_FROM_POOL g then sz - SIZEOF_POOL else RP_MAX_ALLOC_FROM_POOL g)"
  have d: "chain_ok (unat sz) ?h [d]"
    using obj(4) p sz u by (auto simp: chain_ok_def block_ok_def d_def)
  have "unat (RP_MAX_ALLOC_FROM_POOL g) = unat (rp_pagesize g) - 1"
    using pg unat_diff_le [of 1 "rp_pagesize g"] by (simp add: RP_MAX_ALLOC_FROM_POOL_def word_le_nat_alt)
  then have mx: "16 \<le> unat mx" "unat mx + 56 \<le> unat sz"
    using sz(2) pg u(3) by (auto simp: mx_def word_less_nat_alt)
  let ?pool = "\<lparr>p_chain = [d], p_max = mx, p_current = 0, p_large = []\<rparr>"
  have "rp_create_pool os g sz h = Inr (Some ?pool, ?h)"
    using obj(1,4) w by (simp add: rp_create_pool_def d_def mx_def Let_def)
  moreover have "pool_ok (unat sz) (?pool, ?h)"
    using hok d mx sz by (simp add: pool_ok_def larges_ok_def)
  moreover have "rest (?pool, ?h) = live h"
    using p(2) obj(4) by (auto simp: rest_def objs_def large_objs_def d_def intro!: filter_True)
  ultimately show ?thesis by auto
qed

section \<open>Giving memory back\<close>

lemma pfree_loop_Some:
  "pfree_loop p ls h = Some (ls', h') \<Longrightarrow>
    \<exists>xs l ys. ls = xs @ l # ys \<and> l_alloc l = p \<and> ls' = xs @ l\<lparr>l_alloc := 0\<rparr> # ys \<and> h' = M_free p # h"
proof (induction p ls h arbitrary: ls' rule: pfree_loop.induct)
  case (2 p l ls h)
  show ?case
  proof (cases "p = l_alloc l")
    case True
    with 2(2) show ?thesis by (intro exI [of _ "[]"]) (auto simp: rp_free_def)
  next
    case False
    with 2(2) obtain es where "pfree_loop p ls h = Some (es, h')" "ls' = l # es" by auto
    with 2(1) [OF False] show ?thesis by (fastforce intro: exI [of _ "l # _"])
  qed
qed simp

lemma pfree_loop_None: "pfree_loop p ls h = None \<longleftrightarrow> p \<notin> l_alloc ` set ls"
  by (induction p ls h rule: pfree_loop.induct) auto

text \<open>The bytes of the live object at \<open>p\<close>.\<close>

definition extent :: "pstate \<Rightarrow> addr \<Rightarrow> nat set" where
  "extent s p = (\<Union>(q, a) \<in> set (live (snd s)). if q = p then region q a else {})"

lemma extent_live:
  assumes "heap_ok h" "(p, a) \<in> set (live h)"
  shows "extent (pool, h) p = region p a"
proof -
  have "(if q = p then region q b else {}) \<subseteq> region p a" if "(q, b) \<in> set (live h)" for q b
    using live_unique [OF assms(1) _ assms(2), of b] that by auto
  then have "extent (pool, h) p \<subseteq> region p a" by (fastforce simp: extent_def)
  moreover have "region p a \<subseteq> extent (pool, h) p" using assms(2) by (auto simp: extent_def)
  ultimately show ?thesis by blast
qed

lemma free_null_ok:
  assumes "pool_ok n (pool, h)"
  shows "live (M_free 0 # h) = live h" "frees_ok (M_free 0 # h) = frees_ok h"
proof -
  have "0 \<notin> fst ` set (live h)" using assms by (simp add: pool_ok_def heap_ok_def)
  then show "live (M_free 0 # h) = live h" by (auto intro!: filter_True)
qed simp

lemma pfree_ok:
  assumes ok: "pool_ok n (pool, h)" and f: "pfree_loop p (p_large pool) h = Some (ls, h')"
  shows "pool_ok n (pool\<lparr>p_large := ls\<rparr>, h') \<and> rest (pool\<lparr>p_large := ls\<rparr>, h') = rest (pool, h) \<and>
    occ (pool\<lparr>p_large := ls\<rparr>, h') = occ (pool, h) - extent (pool, h) p"
proof -
  from pfree_loop_Some [OF f] obtain xs l ys where
    l: "p_large pool = xs @ l # ys" "l_alloc l = p" "ls = xs @ l\<lparr>l_alloc := 0\<rparr> # ys" "h' = M_free p # h" by auto
  have heap: "heap_ok h" and lg: "larges_ok h (p_chain pool) (xs @ l # ys)"
    using ok by (simp_all add: pool_ok_def l(1))
  show ?thesis
  proof (cases "p = 0")
    case True
    have "0 \<notin> fst ` set (live h)" using heap by (simp add: heap_ok_def)
    then have e: "extent (pool, h) 0 = {}" by (auto simp: extent_def image_iff split: if_splits)
    have "l\<lparr>l_alloc := 0\<rparr> = l" using l(2) True by (cases l) simp
    then have "ls = p_large pool" using l(1,3) by simp
    with history_ok [OF ok free_null_ok [OF ok]] e l(4) True show ?thesis by simp
  next
    case False
    then have p: "p \<in> fst ` set (live h)" "p \<notin> d_base ` set (p_chain pool)" using lg l(2) by (auto simp: larges_ok_def)
    then obtain a where a: "(p, a) \<in> set (live h)" by auto
    have uniq: "p \<notin> l_alloc ` set (xs @ ys)"
    proof -
      have "filter (\<lambda>p. p \<noteq> 0) (map l_alloc (xs @ l # ys)) =
          filter (\<lambda>p. p \<noteq> 0) (map l_alloc xs) @ p # filter (\<lambda>p. p \<noteq> 0) (map l_alloc ys)"
        using l(2) False by simp
      with lg have "p \<notin> set (filter (\<lambda>p. p \<noteq> 0) (map l_alloc xs)) \<union> set (filter (\<lambda>p. p \<noteq> 0) (map l_alloc ys))"
        by (simp add: larges_ok_def)
      with False show ?thesis by auto
    qed
    have "block_ok n h' d" if "d \<in> set (p_chain pool)" for d
      using ok p(2) that by (auto simp: pool_ok_def chain_ok_def block_ok_def l(4))
    then have ch: "chain_ok n h' (p_chain pool)" using ok by (simp add: pool_ok_def chain_ok_def)
    have al: "fst ` set (live h') = fst ` set (live h) - {p}" by (auto simp: l(4))
    have "larges_ok h' (p_chain pool) ls"
      using lg uniq unfolding larges_ok_def al by (auto simp: l(3) split: if_splits)
    moreover have "heap_ok h'" using heap_ok_free [OF heap p(1)] by (simp add: l(4))
    ultimately have "pool_ok n (pool\<lparr>p_large := ls\<rparr>, h')" using ok ch by (simp add: pool_ok_def)
    moreover have "occ (pool\<lparr>p_large := ls\<rparr>, h') = occ (pool, h) - extent (pool, h) p"
      using all_live_free [OF heap a] extent_live [OF heap a] by (auto simp: occ_def l(4))
    moreover have "rest (pool\<lparr>p_large := ls\<rparr>, h') = rest (pool, h)"
    proof -
      have "objs pool = insert p (objs (pool\<lparr>p_large := ls\<rparr>))"
        using uniq l(1,2,3) False by (auto simp: objs_def large_objs_def)
      then show ?thesis by (auto simp: rest_def l(4) intro!: filter_cong)
    qed
    ultimately show ?thesis by blast
  qed
qed

lemma free_larges_ok:
  assumes "heap_ok h" "large_objs ls \<subseteq> fst ` set (live h)" "distinct (filter (\<lambda>p. p \<noteq> 0) (map l_alloc ls))"
  shows "heap_ok (free_larges ls h) \<and> live (free_larges ls h) = filter (\<lambda>r. fst r \<notin> large_objs ls) (live h)"
  using assms
proof (induction ls arbitrary: h)
  case (Cons l ls)
  let ?h = "if l_alloc l \<noteq> 0 then M_free (l_alloc l) # h else h"
  have sub: "large_objs ls \<subseteq> fst ` set (live h)" "l_alloc l \<noteq> 0 \<longrightarrow> l_alloc l \<in> fst ` set (live h)"
    using Cons.prems(2) by (auto simp: large_objs_def)
  have lo: "large_objs (l # ls) = (if l_alloc l = 0 then large_objs ls else insert (l_alloc l) (large_objs ls))"
    by (auto simp: large_objs_def)
  have "l_alloc l \<noteq> 0 \<longrightarrow> l_alloc l \<notin> large_objs ls" using Cons.prems(3) by (auto simp: large_objs_def)
  then have "large_objs ls \<subseteq> fst ` set (live ?h)" using sub(1) by (cases "l_alloc l = 0") (auto simp del: live.simps simp: live_free)
  moreover have "heap_ok ?h" using Cons.prems(1) heap_ok_free sub(2) by auto
  ultimately show ?case
    using Cons.IH [of ?h] Cons.prems(3) lo by (auto simp: rp_free_def intro!: filter_cong split: if_splits)
qed (simp add: large_objs_def)

lemma free_blocks_ok:
  assumes "heap_ok h" "d_base ` set ds \<subseteq> fst ` set (live h)" "distinct (map d_base ds)"
  shows "heap_ok (free_blocks ds h) \<and> live (free_blocks ds h) = filter (\<lambda>r. fst r \<notin> d_base ` set ds) (live h)"
  using assms
proof (induction ds arbitrary: h)
  case (Cons d ds)
  let ?h = "M_free (d_base d) # h"
  have "heap_ok ?h" using Cons.prems heap_ok_free by simp
  moreover have "d_base ` set ds \<subseteq> fst ` set (live ?h)" using Cons.prems(2,3) unfolding live_free by (auto simp: image_iff)
  ultimately show ?case using Cons.IH [of ?h] Cons.prems(3) by (auto simp: rp_free_def intro!: filter_cong)
qed simp

lemma larges_freed:
  assumes "pool_ok n (pool, h)"
  shows "heap_ok (free_larges (p_large pool) h)"
    "live (free_larges (p_large pool) h) = filter (\<lambda>r. fst r \<notin> large_objs (p_large pool)) (live h)"
    "d_base ` set (p_chain pool) \<inter> large_objs (p_large pool) = {}"
proof -
  from assms have lg: "heap_ok h" "larges_ok h (p_chain pool) (p_large pool)" by (simp_all add: pool_ok_def)
  then have "large_objs (p_large pool) \<subseteq> fst ` set (live h)"
    "distinct (filter (\<lambda>p. p \<noteq> 0) (map l_alloc (p_large pool)))"
    unfolding larges_ok_def large_objs_def by auto
  from free_larges_ok [OF lg(1) this] show "heap_ok (free_larges (p_large pool) h)"
    "live (free_larges (p_large pool) h) = filter (\<lambda>r. fst r \<notin> large_objs (p_large pool)) (live h)" by auto
  show "d_base ` set (p_chain pool) \<inter> large_objs (p_large pool) = {}"
  proof (rule equals0I)
    fix q assume "q \<in> d_base ` set (p_chain pool) \<inter> large_objs (p_large pool)"
    then have q: "q \<in> d_base ` set (p_chain pool)" "q \<in> l_alloc ` set (p_large pool)" "q \<noteq> 0"
      by (simp_all add: large_objs_def)
    from q(2) obtain l where l: "l \<in> set (p_large pool)" "q = l_alloc l" by (rule imageE)
    have "node_in (p_chain pool) (l_at l) \<and> (l_alloc l \<noteq> 0 \<longrightarrow>
        l_alloc l \<in> fst ` set (live h) \<and> l_alloc l \<notin> d_base ` set (p_chain pool))"
      using lg(2) l(1) unfolding larges_ok_def by (elim conjE) (rule bspec)
    with l q show False by simp
  qed
qed

lemma reset_ok:
  assumes "pool_ok n s"
  shows "pool_ok n (rp_reset_pool s) \<and> rest (rp_reset_pool s) = rest s"
proof -
  obtain pool h where s: "s = (pool, h)" by (cases s)
  note ok = assms [unfolded s]
  note fr = larges_freed [OF ok]
  let ?h = "free_larges (p_large pool) h"
  let ?f = "\<lambda>d. d\<lparr>d_last := d_base d + SIZEOF_POOL, d_failed := 0\<rparr>"
  have b: "block_ok n ?h (?f d)" and l: "unat (d_last (?f d)) = unat (d_base d) + 56" if "d \<in> set (p_chain pool)" for d
  proof -
    have d: "block_ok n h d" "72 \<le> n" "d_base d \<notin> large_objs (p_large pool)"
      using ok fr(3) that by (auto simp: pool_ok_def chain_ok_def)
    then show *: "unat (d_last (?f d)) = unat (d_base d) + 56"
      using unat_add_less [of "d_base d" SIZEOF_POOL] by (simp add: block_ok_def pool_sizes)
    from d * show "block_ok n ?h (?f d)" by (simp add: block_ok_def fr(2))
  qed
  have "chain_ok n ?h (map ?f (p_chain pool))"
    using ok b l by (auto simp: pool_ok_def chain_ok_def comp_def hd_map)
  moreover have "large_objs [] = {}" by (simp add: large_objs_def)
  moreover have "rest (pool\<lparr>p_chain := map ?f (p_chain pool), p_current := 0, p_large := []\<rparr>, ?h) = rest (pool, h)"
    by (auto simp: rest_def objs_def large_objs_def fr(2) image_image intro!: filter_cong)
  ultimately show ?thesis
    using ok fr(1) by (auto simp: s rp_reset_pool_def pool_ok_def larges_ok_def)
qed

lemma destroy_ok:
  assumes "pool_ok n s"
  shows "heap_ok (rp_destroy_pool s) \<and> live (rp_destroy_pool s) = rest s"
proof -
  obtain pool h where s: "s = (pool, h)" by (cases s)
  note ok = assms [unfolded s]
  note fr = larges_freed [OF ok]
  have "d_base ` set (p_chain pool) \<subseteq> fst ` set (live h)"
    using pool_objs_live [OF ok] by (auto simp: objs_def)
  then have "d_base ` set (p_chain pool) \<subseteq> fst ` set (live (free_larges (p_large pool) h))"
    using fr(3) by (force simp: fr(2))
  moreover have "distinct (map d_base (p_chain pool))" using ok by (simp add: pool_ok_def chain_ok_def)
  ultimately show ?thesis
    using free_blocks_ok [OF fr(1), of "p_chain pool"]
    by (auto simp: s rp_destroy_pool_def rest_def objs_def fr(2) intro!: filter_cong)
qed

section \<open>A C library for the examples\<close>

text \<open>Every object is put behind all the live ones, as long as there are addresses left.\<close>

definition top_addr :: "mem_history \<Rightarrow> nat" where
  "top_addr h = foldr (\<lambda>(q, m) t. max (unat q + unat m) t) (live h) 0"

definition bump_libc :: libc where
  "bump_libc = \<lparr>
     c_malloc = (\<lambda>h n. let p = align_up 16 (top_addr h + 1) in if p + unat n < 2 ^ 64 then of_nat p else 0),
     c_memalign = (\<lambda>h a n. let p = align_up (unat a) (top_addr h + 1)
       in if a \<noteq> 0 \<and> p + unat n < 2 ^ 64 then (0, of_nat p) else (12, 0))\<rparr>"

lemma top_addr_ge: "(q, m) \<in> set (live h) \<Longrightarrow> unat q + unat m \<le> top_addr h"
proof -
  have "(q, m) \<in> set xs \<Longrightarrow> unat q + unat m \<le> foldr (\<lambda>(q, m) t. max (unat q + unat m) t) xs 0"
    for xs :: "(addr \<times> size_t) list"
    by (induction xs) auto
  then show "(q, m) \<in> set (live h) \<Longrightarrow> unat q + unat m \<le> top_addr h" by (simp add: top_addr_def)
qed

lemma bump_fresh:
  assumes "0 < a" "p = align_up a (top_addr h + 1)" "p + unat n < 2 ^ 64"
  shows "fresh_obj h (of_nat p) n \<and> unat (of_nat p :: addr) mod a = 0"
proof -
  have u: "unat (of_nat p :: addr) = p" using assms(3) by (intro unat_of_size) simp
  have p: "top_addr h < p" "p mod a = 0"
    using align_up_props [OF assms(1), of "top_addr h + 1"] assms(2) by auto
  have "(of_nat p :: addr) \<noteq> q \<and> region (of_nat p) n \<inter> region q m = {}" if "(q, m) \<in> set (live h)" for q m
    using top_addr_ge [OF that] p(1) u by (auto simp: region_def)
  moreover have "(of_nat p :: addr) \<noteq> 0" using u p(1) by (metis gr_implies_not0 unsigned_0)
  ultimately show ?thesis using u p(2) assms(3) by (auto simp: fresh_obj_def)
qed

lemma bump_libc_ok: "libc_ok bump_libc"
proof -
  have "fresh_obj h (of_nat (align_up 16 (top_addr h + 1))) n \<and>
      unat (of_nat (align_up 16 (top_addr h + 1)) :: addr) mod 16 = 0"
    if "align_up 16 (top_addr h + 1) + unat n < 2 ^ 64" for h n
    using bump_fresh [of 16, OF _ refl that] by simp
  moreover have "fresh_obj h (of_nat (align_up (unat a) (top_addr h + 1))) n \<and>
      unat (of_nat (align_up (unat a) (top_addr h + 1)) :: addr) mod unat a = 0"
    if "a \<noteq> 0" "align_up (unat a) (top_addr h + 1) + unat n < 2 ^ 64" for h n and a :: size_t
    using bump_fresh [OF _ refl that(2)] that(1) by (simp add: unat_gt_0)
  ultimately show ?thesis
    by (auto simp: libc_ok_def bump_libc_def Let_def split: if_splits)
qed

definition page4k :: os_globals where
  "page4k = \<lparr>rp_pagesize = 4096, rp_pagesize_shift = 12\<rparr>"

definition first_pool :: rp_pool where
  "first_pool = \<lparr>p_chain = [\<lparr>d_base = 16, d_last = 72, d_end = 16400, d_failed = 0\<rparr>], p_max = 4095,
     p_current = 0, p_large = []\<rparr>"

lemma first_pool: "rp_create_pool bump_libc page4k RP_DEFAULT_POOL_SIZE [] =
    Inr (Some first_pool, [M_memalign 16 RP_DEFAULT_POOL_SIZE 16])"
  by (simp add: rp_create_pool_def rp_memalign_def bump_libc_def top_addr_def align_up_def within_def page4k_def
      first_pool_def RP_DEFAULT_POOL_SIZE_def RP_POOL_ALIGNMENT_def RP_MAX_ALLOC_FROM_POOL_def pool_sizes)

lemma first_pool_ok: "pool_ok 16384 (first_pool, [M_memalign 16 RP_DEFAULT_POOL_SIZE 16])"
  using create_ok [OF bump_libc_ok heap_ok_Nil, of RP_DEFAULT_POOL_SIZE page4k] first_pool
  by (auto simp: page4k_def RP_DEFAULT_POOL_SIZE_def)

section \<open>Requests\<close>

datatype request = Palloc size_t | Pnalloc size_t | Pcalloc size_t | Pmemalign size_t size_t

fun need :: "request \<Rightarrow> size_t" where
  "need (Palloc n) = n"
| "need (Pnalloc n) = n"
| "need (Pcalloc n) = n"
| "need (Pmemalign n a) = n"

fun serve :: "libc \<Rightarrow> request \<Rightarrow> pstate \<Rightarrow> (addr \<times> pstate) res option" where
  "serve os (Palloc n) = rp_palloc os n"
| "serve os (Pnalloc n) = rp_pnalloc os n"
| "serve os (Pcalloc n) = rp_pcalloc os n"
| "serve os (Pmemalign n a) = rp_pmemalign os n a"

definition release :: "addr \<Rightarrow> pstate \<Rightarrow> pstate option" where
  "release p s = (case rp_pfree p s of (r, s') \<Rightarrow> if r = 0 then Some s' else None)"

lemma serve_step:
  assumes "libc_ok os" "pool_ok n s"
  shows "\<exists>q s'. serve os r s = Some (Inr (q, s')) \<and> step_ok n (need r) s q s'"
  using palloc_step [OF assms] pnalloc_step [OF assms] pcalloc_step [OF assms] pmemalign_step [OF assms]
  by (cases r) (simp_all, blast+)

text \<open>The invariant with the objects \<open>R\<close> that do not belong to the pool.\<close>

definition pool_inv :: "libc \<Rightarrow> nat \<Rightarrow> (addr \<times> size_t) list \<Rightarrow> pstate \<Rightarrow> bool" where
  "pool_inv os n R s \<longleftrightarrow> libc_ok os \<and> pool_ok n s \<and> rest s = R"

interpretation pool: freeing_allocator "pool_inv os n R" occ "\<lambda>_. True" need "serve os" release extent
  for os n R
proof (unfold_locales, goal_cases)
  case (1 s r)
  with serve_step [of os n s r] show ?case by (fastforce simp: pool_inv_def step_ok_def)
next
  case (2 s p s')
  obtain pool h where s: "s = (pool, h)" by (cases s)
  from 2(2) obtain ls h' where "pfree_loop p (p_large pool) h = Some (ls, h')" "s' = (pool\<lparr>p_large := ls\<rparr>, h')"
    by (auto simp: release_def rp_pfree_def s split: if_splits option.splits)
  with pfree_ok [of n pool h p ls h'] 2(1) show ?case by (simp add: pool_inv_def s)
qed

text \<open>
  C23: Every run of requests to a well-formed pool returns (no fault, no endless recursion
  between \<open>rp_palloc\<close> and \<open>rp_palloc_large\<close>), keeps the pool well-formed and the objects of
  others alive, and the regions that were handed out are pairwise disjoint and overlap
  neither the headers nor the nodes nor anything in use before.
\<close>

theorem pool_serves_disjoint:
  assumes "libc_ok os" "pool_ok n s"
  shows "\<exists>out s'. serve_all (serve os) rs s = Some (Inr (out, s')) \<and> pool_ok n s' \<and> rest s' = rest s \<and>
    map snd out = rs \<and> disjoint_all (regions need out) \<and> (\<forall>A \<in> set (regions need out). A \<subseteq> occ s' - occ s)"
proof -
  have "pool_inv os n (rest s) s" using assms by (simp add: pool_inv_def)
  from pool.serve_all_disjoint [OF this, of rs] show ?thesis by (auto simp: pool_inv_def)
qed

theorem pool_serves_disjoint_witness:
  "\<exists>out s'. serve_all (serve bump_libc) [Palloc 100, Pnalloc 3, Pcalloc 5000, Palloc 16000]
     (first_pool, [M_memalign 16 RP_DEFAULT_POOL_SIZE 16]) = Some (Inr (out, s')) \<and> disjoint_all (regions need out)"
  using pool_serves_disjoint [OF bump_libc_ok first_pool_ok] by blast

text \<open>
  One allocation: the result of \<open>rp_palloc\<close> and \<open>rp_pcalloc\<close> is aligned to 8 bytes, that
  of \<open>rp_pmemalign\<close> as asked for; a region that is returned was not in use and is in use
  afterwards, and what \<open>rp_pcalloc\<close> returns has been cleared.
\<close>

theorem palloc_aligned_fresh:
  assumes "libc_ok os" "pool_ok n s"
  shows "(\<exists>q s'. rp_palloc os sz s = Some (Inr (q, s')) \<and> step_ok n sz s q s' \<and> unat q mod 8 = 0) \<and>
    (\<exists>q s'. rp_pcalloc os sz s = Some (Inr (q, s')) \<and> step_ok n sz s q s' \<and> unat q mod 8 = 0 \<and>
       (q \<noteq> 0 \<longrightarrow> hd (snd s') = M_zero q sz)) \<and>
    (\<exists>q s'. rp_pmemalign os sz al s = Some (Inr (q, s')) \<and> step_ok n sz s q s' \<and> unat q mod unat al = 0)"
  using palloc_step [OF assms, of sz] pcalloc_step [OF assms, of sz] pmemalign_step [OF assms, of sz al]
  by iprover

theorem palloc_aligned_fresh_witness:
  "\<exists>q s'. rp_palloc bump_libc 100 (first_pool, [M_memalign 16 RP_DEFAULT_POOL_SIZE 16]) = Some (Inr (q, s')) \<and>
     unat q mod 8 = 0"
  using palloc_aligned_fresh [OF bump_libc_ok first_pool_ok, of 100] by iprover

text \<open>
  \<open>rp_pfree\<close> of a large object takes exactly its bytes out of use: a region that does not
  overlap it stays in use, and no later request gets a part of that region.
\<close>

theorem pfree_keeps_others:
  assumes "libc_ok os" "pool_ok n s" "rp_pfree p s = (0, s')" "A \<subseteq> occ s" "A \<inter> extent s p = {}"
  shows "\<exists>out s''. serve_all (serve os) rs s' = Some (Inr (out, s'')) \<and> pool_ok n s'' \<and> A \<subseteq> occ s'' \<and>
    (\<forall>B \<in> set (regions need out). A \<inter> B = {})"
proof -
  have "pool_inv os n (rest s) s" using assms(1,2) by (simp add: pool_inv_def)
  moreover have "release p s = Some s'" by (simp add: release_def assms(3))
  ultimately show ?thesis using pool.release_keeps [of os n "rest s" s p s' A rs] assms(4,5)
    by (auto simp: pool_inv_def)
qed

text \<open>The first pool with one large object.\<close>

definition large_pool :: pstate where
  "large_pool = (first_pool\<lparr>p_chain := [\<lparr>d_base = 16, d_last = 88, d_end = 16400, d_failed = 0\<rparr>],
     p_large := [\<lparr>l_at = 72, l_alloc = 16416\<rparr>]\<rparr>, [M_malloc 5000 16416, M_memalign 16 RP_DEFAULT_POOL_SIZE 16])"

lemma large_pool: "rp_palloc bump_libc 5000 (first_pool, [M_memalign 16 RP_DEFAULT_POOL_SIZE 16]) = Some (Inr (16416, large_pool))"
  by (subst rp_palloc.simps, subst rp_palloc.simps)
    (simp add: first_pool_def large_pool_def rp_alloc_def bump_libc_def top_addr_def align_up_def Let_def palloc_small_def
      rp_align_ptr_def RP_ALIGNMENT_def large_link_def within_def RP_DEFAULT_POOL_SIZE_def pool_sizes)

lemma large_pool_ok: "pool_ok 16384 large_pool"
  using palloc_step [OF bump_libc_ok first_pool_ok, of 5000] by (simp add: large_pool step_ok_def)

theorem pfree_keeps_others_witness:
  "\<exists>out s''. serve_all (serve bump_libc) [Palloc 100, Palloc 5000] (snd (rp_pfree 16416 large_pool)) =
     Some (Inr (out, s'')) \<and> region 72 16 \<subseteq> occ s''"
proof -
  have f: "rp_pfree 16416 large_pool = (0, snd (rp_pfree 16416 large_pool))"
    by (simp add: rp_pfree_def large_pool_def first_pool_def)
  have A: "region 72 16 \<subseteq> occ large_pool" "region 72 16 \<inter> extent large_pool 16416 = {}"
    by (auto simp: occ_def all_live_def tails_def tail_def extent_def region_def large_pool_def first_pool_def
        RP_DEFAULT_POOL_SIZE_def)
  from pfree_keeps_others [OF bump_libc_ok large_pool_ok f A, of "[Palloc 100, Palloc 5000]"] show ?thesis by iprover
qed

section \<open>Lifetimes\<close>

datatype pool_op = Request request | Free addr | Reset

fun run_pool :: "libc \<Rightarrow> pool_op list \<Rightarrow> pstate \<Rightarrow> pstate res option" where
  "run_pool os [] s = Some (Inr s)"
| "run_pool os (Request r # ops) s =
     (case serve os r s of
        None \<Rightarrow> None
      | Some (Inl e) \<Rightarrow> Some (Inl e)
      | Some (Inr (p, s1)) \<Rightarrow> run_pool os ops s1)"
| "run_pool os (Free p # ops) s = run_pool os ops (snd (rp_pfree p s))"
| "run_pool os (Reset # ops) s = run_pool os ops (rp_reset_pool s)"

lemma pfree_inv:
  assumes "pool_inv os n R s"
  shows "pool_inv os n R (snd (rp_pfree p s))"
proof (cases "release p s")
  case None
  then show ?thesis using assms by (auto simp: release_def rp_pfree_def split: prod.splits option.splits if_splits)
next
  case (Some s')
  then have "snd (rp_pfree p s) = s'" by (auto simp: release_def split: prod.splits if_splits)
  with pool.releases [OF assms Some] show ?thesis by simp
qed

lemma run_pool_inv:
  assumes "pool_inv os n R s"
  shows "\<exists>s'. run_pool os ops s = Some (Inr s') \<and> pool_inv os n R s'"
  using assms
proof (induction ops arbitrary: s)
  case (Cons op ops)
  show ?case
  proof (cases op)
    case (Request r)
    from pool.serves [OF Cons.prems TrueI, of r] obtain p s1 where
      "serve os r s = Some (Inr (p, s1))" "pool_inv os n R s1" by blast
    with Cons.IH [of s1] show ?thesis by (simp add: Request)
  next
    case (Free p)
    with Cons.IH [OF pfree_inv [OF Cons.prems, of p]] show ?thesis by simp
  next
    case Reset
    have "pool_inv os n R (rp_reset_pool s)" using Cons.prems reset_ok [of n s] by (simp add: pool_inv_def)
    with Cons.IH Reset show ?thesis by simp
  qed
qed simp

text \<open>
  C24: No leak and no double free: whatever is allocated, freed and reset between the
  creation of a pool and its destruction, afterwards exactly the objects are live that were
  live before, and \<open>free\<close> has only been called with live objects (or the null pointer).
\<close>

theorem pool_lifetime:
  assumes "libc_ok os" "heap_ok h" "17 \<le> unat (rp_pagesize g)" "unat sz mod 8 = 0" "72 \<le> unat sz"
    and "rp_create_pool os g sz h = Inr (Some pool, h1)"
  shows "\<exists>s. run_pool os ops (pool, h1) = Some (Inr s) \<and> live (rp_destroy_pool s) = live h \<and>
    frees_ok (rp_destroy_pool s)"
proof -
  from create_ok [OF assms(1,2,4,5,3)] assms(6) have "pool_inv os (unat sz) (live h) (pool, h1)"
    using assms(1) by (auto simp: pool_inv_def)
  from run_pool_inv [OF this] obtain s where "run_pool os ops (pool, h1) = Some (Inr s)" "pool_inv os (unat sz) (live h) s"
    by blast
  with destroy_ok [of "unat sz" s] show ?thesis by (auto simp: pool_inv_def heap_ok_def)
qed

theorem pool_lifetime_witness:
  "\<exists>s. run_pool bump_libc [Request (Palloc 100), Request (Palloc 5000), Free 16400, Reset, Request (Pcalloc 4000)]
      (first_pool, [M_memalign 16 RP_DEFAULT_POOL_SIZE 16]) = Some (Inr s) \<and>
    live (rp_destroy_pool s) = [] \<and> frees_ok (rp_destroy_pool s)"
proof -
  have c: "17 \<le> unat (rp_pagesize page4k)" "unat RP_DEFAULT_POOL_SIZE mod 8 = 0" "72 \<le> unat RP_DEFAULT_POOL_SIZE"
    by (simp_all add: page4k_def RP_DEFAULT_POOL_SIZE_def)
  show ?thesis using pool_lifetime [OF bump_libc_ok heap_ok_Nil c first_pool] by (simp only: live.simps(1))
qed

section \<open>Where the code goes wrong\<close>

text \<open>
  C39: When the end of a block is not aligned, the unsigned difference in \<open>rp_palloc\<close> wraps
  around as soon as the block is filled beyond the last aligned address: a request of any
  size up to \<open>max\<close> is then served with an address behind the end of the block.
\<close>

theorem palloc_past_end:
  assumes "p_current pool < length (p_chain pool)" "d = p_chain pool ! p_current pool"
    and "unat (d_last d) \<le> unat (d_end d)" "unat (d_end d) < align_up 8 (unat (d_last d))" "unat (d_last d) + 7 < 2 ^ 64"
    and "sz \<le> p_max pool" "unat sz \<le> 2 ^ 64 - 8"
  shows "\<exists>m pool'. rp_palloc os sz (pool, h) = Some (Inr (m, (pool', h))) \<and> unat (d_end d) < unat m"
proof -
  let ?m = "rp_align_ptr (d_last d) RP_ALIGNMENT"
  have m: "unat ?m = align_up 8 (unat (d_last d))" by (rule unat_align_ptr [OF assms(5)])
  have "unat ?m < unat (d_end d) + 8" using assms(3) align_up_props(2) [of 8 "unat (d_last d)"] by (simp add: m)
  then have "2 ^ 64 - 8 < unat (d_end d - ?m)"
    using assms(4) m by (simp add: unat_sub_if')
  then have fit: "sz \<le> d_end d - ?m" using assms(7) by (simp add: word_le_nat_alt)
  have "drop (p_current pool) (p_chain pool) = d # drop (Suc (p_current pool)) (p_chain pool)"
    using Cons_nth_drop_Suc [OF assms(1)] assms(2) by simp
  then show ?thesis
    using assms(1,4,6) fit m by (simp add: rp_palloc_unfold palloc_small_def Let_def)
qed

text \<open>A pool of 75 bytes: the second request for one byte gets the byte behind the pool.\<close>

definition odd_pool :: rp_pool where
  "odd_pool = \<lparr>p_chain = [\<lparr>d_base = 16, d_last = 89, d_end = 91, d_failed = 0\<rparr>], p_max = 19,
     p_current = 0, p_large = []\<rparr>"

theorem palloc_past_end_witness:
  "\<exists>m pool'. rp_palloc bump_libc 1 (odd_pool, []) = Some (Inr (m, (pool', []))) \<and> 91 < unat m"
  using palloc_past_end [of odd_pool _ 1 bump_libc "[]", OF _ refl] by (simp add: odd_pool_def align_up_def)

text \<open>
  A pool whose \<open>max\<close> is smaller than a node of the list of large objects (blocks of less
  than 72 bytes) can never serve a large request: \<open>rp_palloc\<close> and \<open>rp_palloc_large\<close> call
  each other, each time for another object from \<open>malloc\<close>, until \<open>malloc\<close> fails; only then
  the call can return, with a null pointer.
\<close>

theorem small_pool_exhausts:
  assumes "p_max pool < SIZEOF_POOL_LARGE" "p_max pool < sz" "p_large pool = []"
    and "rp_palloc os sz (pool, h) = Some r"
  shows "\<exists>pool' h' n. r = Inr (0, (pool', h')) \<and> M_malloc n 0 \<in> set h'"
proof -
  have "p_max (fst s) < SIZEOF_POOL_LARGE \<longrightarrow> p_max (fst s) < sz \<longrightarrow> p_large (fst s) = [] \<longrightarrow>
      (\<exists>pool' h' n. r = Inr (0, (pool', h')) \<and> M_malloc n 0 \<in> set h')"
    if "rp_palloc os sz s = Some r" for os sz s r
  proof (rule rp_palloc.raw_induct [OF _ that, where P = "\<lambda>os sz s r. p_max (fst s) < SIZEOF_POOL_LARGE \<longrightarrow>
      p_max (fst s) < sz \<longrightarrow> p_large (fst s) = [] \<longrightarrow>
      (\<exists>pool' h' n. r = Inr (0, (pool', h')) \<and> M_malloc n 0 \<in> set h')"], goal_cases)
    case (1 f os sz s r)
    show ?case
    proof (intro impI)
      assume s: "p_max (fst s) < SIZEOF_POOL_LARGE" "p_max (fst s) < sz" "p_large (fst s) = []"
      then have nle: "\<not> sz \<le> p_max (fst s)" by (simp add: not_le)
      show "\<exists>pool' h' n. r = Inr (0, (pool', h')) \<and> M_malloc n 0 \<in> set h'"
      proof (cases "c_malloc os (snd s) sz = 0")
        case True
        then have "rp_alloc os sz (snd s) = (0, M_malloc sz 0 # snd s)" by (simp add: rp_alloc_def Let_def)
        with 1(2) nle have "r = Inr (0, (fst s, M_malloc sz 0 # snd s))" by auto
        then show ?thesis by auto
      next
        case False
        with 1(2) nle s(3) obtain q where q: "f os SIZEOF_POOL_LARGE (fst s, M_malloc sz (c_malloc os (snd s) sz) # snd s) = Some q"
          "r = large_link (c_malloc os (snd s) sz) q"
          by (auto simp: rp_alloc_def Let_def bind_eq_Some_conv)
        from 1(1) [OF q(1)] s obtain pool' h' n where "q = Inr (0, (pool', h'))" "M_malloc n 0 \<in> set h'" by auto
        then show ?thesis by (auto simp: q(2) large_link_def rp_free_def)
      qed
    qed
  qed
  from this [OF assms(4)] assms(1-3) show ?thesis by simp
qed

text \<open>A pool of 64 bytes; \<open>malloc\<close> gives two objects and then nothing.\<close>

definition tiny_pool :: rp_pool where
  "tiny_pool = \<lparr>p_chain = [\<lparr>d_base = 16, d_last = 72, d_end = 80, d_failed = 0\<rparr>], p_max = 8, p_current = 0, p_large = []\<rparr>"

definition two_objects :: libc where
  "two_objects = \<lparr>c_malloc = (\<lambda>h n. if length h < 2 then of_nat (100 * length h + 112) else 0), c_memalign = (\<lambda>_ _ _. (12, 0))\<rparr>"

lemma tiny_pool_run: "\<exists>r. rp_palloc two_objects 20 (tiny_pool, []) = Some r"
  by (subst rp_palloc.simps, subst rp_palloc.simps, subst rp_palloc.simps)
    (simp add: two_objects_def tiny_pool_def rp_alloc_def Let_def pool_sizes)

theorem small_pool_exhausts_witness:
  "\<exists>pool' h' n. rp_palloc two_objects 20 (tiny_pool, []) = Some (Inr (0, (pool', h'))) \<and> M_malloc n 0 \<in> set h'"
proof -
  from tiny_pool_run obtain r where r: "rp_palloc two_objects 20 (tiny_pool, []) = Some r" ..
  have "p_max tiny_pool < SIZEOF_POOL_LARGE" "p_max tiny_pool < 20" "p_large tiny_pool = []"
    by (simp_all add: tiny_pool_def pool_sizes)
  from small_pool_exhausts [OF this r] r show ?thesis by auto
qed

end
