(* ===== verification/Rp_Slab.thy ===== *)
theory Rp_Slab
  imports Rp_Os
begin

text \<open>
  The slab allocator (util/rp_slab.c): a pool of pages with a descriptor each. Runs of free
  pages are in a doubly linked list, whole pages are handed out for large sizes, and pages
  that are cut into chunks of one power of two are in one list per size as long as they
  have a free chunk. A chunk map is in the descriptor (exact and big chunks) or at the
  start of the page (small chunks).

  A pointer to a descriptor is a \<open>pref\<close>: the head \<open>free\<close> of the free list, a slot, or the
  descriptor of a page; the low two bits of \<open>prev\<close>, which hold the type of the page, are a
  number of their own. A descriptor index outside the arrays is a fault, and so is the use
  of a list head as the descriptor of a page.
\<close>

section \<open>Data\<close>

datatype pref = Null | FreeHead | Slot nat | Page nat

record slab_page =
  slab :: "64 word"
  nxt :: pref
  prv :: "pref \<times> nat"

record slab_pool =
  min_size :: size_t
  min_shift :: size_t
  s_slots :: "slab_page list"
  s_pages :: "slab_page list"
  s_free :: slab_page
  s_start :: addr
  s_end :: addr
  s_bits :: "nat \<Rightarrow> nat \<Rightarrow> 64 word"

text \<open>The static variables \<open>rp_slab_max_size\<close>, \<open>rp_slab_exact_size\<close>, \<open>rp_slab_exact_shift\<close>.\<close>

record slab_globals =
  slab_max_size :: size_t
  slab_exact_size :: size_t
  slab_exact_shift :: size_t

definition RP_SLAB_PAGE :: nat where "RP_SLAB_PAGE = 0"
definition RP_SLAB_BIG :: nat where "RP_SLAB_BIG = 1"
definition RP_SLAB_EXACT :: nat where "RP_SLAB_EXACT = 2"
definition RP_SLAB_SMALL :: nat where "RP_SLAB_SMALL = 3"

lemmas slab_types = RP_SLAB_PAGE_def RP_SLAB_BIG_def RP_SLAB_EXACT_def RP_SLAB_SMALL_def

definition RP_SLAB_PAGE_FREE :: "64 word" where "RP_SLAB_PAGE_FREE = 0"
definition RP_SLAB_PAGE_BUSY :: "64 word" where "RP_SLAB_PAGE_BUSY = 0xffffffffffffffff"
definition RP_SLAB_PAGE_START :: "64 word" where "RP_SLAB_PAGE_START = 0x8000000000000000"
definition RP_SLAB_SHIFT_MASK :: "64 word" where "RP_SLAB_SHIFT_MASK = 0x000000000000000f"
definition RP_SLAB_MAP_MASK :: "64 word" where "RP_SLAB_MAP_MASK = 0xffffffff00000000"
definition RP_SLAB_MAP_SHIFT :: nat where "RP_SLAB_MAP_SHIFT = 32"
definition RP_SLAB_BUSY :: "64 word" where "RP_SLAB_BUSY = 0xffffffffffffffff"

lemmas slab_consts = RP_SLAB_PAGE_FREE_def RP_SLAB_PAGE_BUSY_def RP_SLAB_PAGE_START_def
  RP_SLAB_SHIFT_MASK_def RP_SLAB_MAP_MASK_def RP_SLAB_MAP_SHIFT_def RP_SLAB_BUSY_def

text \<open>The sizes of \<open>struct rp_slab_page\<close> and \<open>rp_slab_pool_t\<close>.\<close>

definition SIZEOF_SLAB_PAGE :: size_t where "SIZEOF_SLAB_PAGE = 24"
definition SIZEOF_SLAB_POOL :: size_t where "SIZEOF_SLAB_POOL = 64"

definition zero_page :: slab_page where
  "zero_page = \<lparr>slab = 0, nxt = Null, prv = (Null, 0)\<rparr>"

section \<open>Access to descriptors\<close>

fun pg :: "slab_pool \<Rightarrow> pref \<Rightarrow> slab_page res" where
  "pg st Null = Inl NullDeref"
| "pg st FreeHead = Inr (s_free st)"
| "pg st (Slot i) = (if i < length (s_slots st) then Inr (s_slots st ! i) else Inl OutOfBounds)"
| "pg st (Page i) = (if i < length (s_pages st) then Inr (s_pages st ! i) else Inl OutOfBounds)"

fun upd :: "pref \<Rightarrow> (slab_page \<Rightarrow> slab_page) \<Rightarrow> slab_pool \<Rightarrow> slab_pool res" where
  "upd Null f st = Inl NullDeref"
| "upd FreeHead f st = Inr (st\<lparr>s_free := f (s_free st)\<rparr>)"
| "upd (Slot i) f st =
     (if i < length (s_slots st) then Inr (st\<lparr>s_slots := (s_slots st)[i := f (s_slots st ! i)]\<rparr>) else Inl OutOfBounds)"
| "upd (Page i) f st =
     (if i < length (s_pages st) then Inr (st\<lparr>s_pages := (s_pages st)[i := f (s_pages st ! i)]\<rparr>) else Inl OutOfBounds)"

text \<open>\<open>(struct rp_slab_page *) page->prev\<close>: not a pointer to a descriptor with a type in it.\<close>

definition raw_prev :: "slab_page \<Rightarrow> pref res" where
  "raw_prev q = (if snd (prv q) = 0 then Inr (fst (prv q)) else Inl OutOfBounds)"

section \<open>Initialisation\<close>

definition rp_slab_globals_init :: "os_globals \<Rightarrow> slab_globals \<Rightarrow> slab_globals" where
  "rp_slab_globals_init g sg =
     (if slab_max_size sg = 0 then
        let exact = rp_pagesize g div (8 * 8)
        in \<lparr>slab_max_size = rp_pagesize g div 2, slab_exact_size = exact,
             slab_exact_shift = shift_loop exact (slab_exact_shift sg)\<rparr>
      else sg)"

text \<open>\<open>1 << k\<close> and \<open>2 << k\<close> are computed in \<open>int\<close>.\<close>

definition int_shl :: "32 word \<Rightarrow> nat \<Rightarrow> 64 word" where
  "int_shl b k = scast (push_bit k b)"

text \<open>
  \<open>base\<close> is the address of the pool, whose fields \<open>min_shift\<close> and \<open>end\<close> the caller has set.
  The descriptors must fit before \<open>end\<close>; the first one is written even if there is no page.
\<close>

definition rp_slab_init :: "os_globals \<Rightarrow> addr \<Rightarrow> slab_pool \<Rightarrow> slab_pool res" where
  "rp_slab_init g base st =
     (let p = base + SIZEOF_SLAB_POOL;
          sz = s_end st - p;
          n = rp_pagesize_shift g - min_shift st;
          slots = map (\<lambda>i. \<lparr>slab = 0, nxt = Slot i, prv = (Null, 0)\<rparr>) [0 ..< unat n];
          p1 = p + n * SIZEOF_SLAB_PAGE;
          pages = sz div (rp_pagesize g + SIZEOF_SLAB_PAGE);
          start = rp_align_ptr (p1 + pages * SIZEOF_SLAB_PAGE) (rp_pagesize g);
          m = sint (pages - (s_end st - start) div rp_pagesize g);
          pages' = (if m > 0 then pages - of_int m else pages)
      in if unat (s_end st) < unat p + unat n * 24 + max 1 (unat pages) * 24 then Inl OutOfBounds
         else Inr (st\<lparr>min_size := int_shl 1 (unat (min_shift st)),
                s_slots := slots,
                s_pages := \<lparr>slab = pages', nxt = FreeHead, prv = (FreeHead, 0)\<rparr> # replicate (unat pages - 1) zero_page,
                s_free := \<lparr>slab = slab (s_free st), nxt = Page 0, prv = (Null, 0)\<rparr>,
                s_start := start\<rparr>))"

section \<open>Pages\<close>

text \<open>First fit: the first run of at least \<open>n\<close> pages in the free list.\<close>

partial_function (option) find_run :: "slab_pool \<Rightarrow> 64 word \<Rightarrow> pref \<Rightarrow> nat option res option" where
  "find_run st n p =
     (case p of
        FreeHead \<Rightarrow> Some (Inr None)
      | Page i \<Rightarrow>
          (case pg st (Page i) of
             Inl e \<Rightarrow> Some (Inl e)
           | Inr q \<Rightarrow> if slab q \<ge> n then Some (Inr (Some i)) else find_run st n (nxt q))
      | Null \<Rightarrow> Some (Inl NullDeref)
      | Slot i \<Rightarrow> Some (Inl OutOfBounds))"

text \<open>The rest of a run takes the place of the run in the list, or the run is unlinked.\<close>

definition split_run :: "nat \<Rightarrow> 64 word \<Rightarrow> slab_page \<Rightarrow> slab_pool \<Rightarrow> slab_pool res" where
  "split_run i n q st =
     res_bind (upd (Page (i + unat n)) (\<lambda>_. \<lparr>slab = slab q - n, nxt = nxt q, prv = prv q\<rparr>) st) (\<lambda>st1.
     res_bind (raw_prev q) (\<lambda>p.
     res_bind (upd p (nxt_update (\<lambda>_. Page (i + unat n))) st1) (\<lambda>st2.
     res_bind (pg st2 (Page i)) (\<lambda>q2.
     upd (nxt q2) (prv_update (\<lambda>_. (Page (i + unat n), 0))) st2))))"

definition unlink_run :: "nat \<Rightarrow> slab_page \<Rightarrow> slab_pool \<Rightarrow> slab_pool res" where
  "unlink_run i q st =
     res_bind (raw_prev q) (\<lambda>p.
     res_bind (upd p (nxt_update (\<lambda>_. nxt q)) st) (\<lambda>st1.
     res_bind (pg st1 (Page i)) (\<lambda>q1.
     upd (nxt q1) (prv_update (\<lambda>_. prv q1)) st1)))"

fun mark_busy :: "nat \<Rightarrow> nat \<Rightarrow> slab_pool \<Rightarrow> slab_pool res" where
  "mark_busy i 0 st = Inr st"
| "mark_busy i (Suc k) st =
     res_bind (upd (Page i) (\<lambda>_. \<lparr>slab = RP_SLAB_PAGE_BUSY, nxt = Null, prv = (Null, RP_SLAB_PAGE)\<rparr>) st)
       (mark_busy (i + 1) k)"

definition take_run :: "nat \<Rightarrow> 64 word \<Rightarrow> slab_pool \<Rightarrow> slab_pool res" where
  "take_run i n st =
     res_bind (pg st (Page i)) (\<lambda>q.
     res_bind (if slab q > n then split_run i n q st else unlink_run i q st) (\<lambda>st1.
     res_bind (upd (Page i) (\<lambda>_. \<lparr>slab = n OR RP_SLAB_PAGE_START, nxt = Null, prv = (Null, RP_SLAB_PAGE)\<rparr>) st1)
       (mark_busy (i + 1) (unat (n - 1)))))"

definition rp_slab_alloc_pages :: "slab_pool \<Rightarrow> 64 word \<Rightarrow> (nat option \<times> slab_pool) res option" where
  "rp_slab_alloc_pages st n =
     (case find_run st n (nxt (s_free st)) of
        None \<Rightarrow> None
      | Some (Inl e) \<Rightarrow> Some (Inl e)
      | Some (Inr None) \<Rightarrow> Some (Inr (None, st))
      | Some (Inr (Some i)) \<Rightarrow> Some (res_bind (take_run i n st) (\<lambda>st'. Inr (Some i, st'))))"

fun clear_pages :: "nat \<Rightarrow> nat \<Rightarrow> slab_pool \<Rightarrow> slab_pool res" where
  "clear_pages i 0 st = Inr st"
| "clear_pages i (Suc k) st = res_bind (upd (Page i) (\<lambda>_. zero_page) st) (clear_pages (i + 1) k)"

definition rp_slab_free_pages :: "nat \<Rightarrow> 64 word \<Rightarrow> slab_pool \<Rightarrow> slab_pool res" where
  "rp_slab_free_pages i n st =
     res_bind (upd (Page i) (slab_update (\<lambda>_. n)) st) (\<lambda>st1.
     res_bind (clear_pages (i + 1) (unat (n - 1)) st1) (\<lambda>st2.
     res_bind (pg st2 (Page i)) (\<lambda>q.
     res_bind (if nxt q \<noteq> Null then
         res_bind (upd (fst (prv q)) (nxt_update (\<lambda>_. nxt q)) st2) (\<lambda>st3.
         res_bind (pg st3 (fst (prv q))) (\<lambda>r.
         res_bind (pg st3 (Page i)) (\<lambda>q3.
         upd (nxt r) (prv_update (\<lambda>_. prv q3)) st3)))
       else Inr st2) (\<lambda>st4.
     res_bind (upd (Page i) (\<lambda>q. q\<lparr>prv := (FreeHead, 0), nxt := nxt (s_free st4)\<rparr>) st4) (\<lambda>st5.
     res_bind (pg st5 (Page i)) (\<lambda>q5.
     res_bind (upd (nxt q5) (prv_update (\<lambda>_. (Page i, 0))) st5) (\<lambda>st6.
     upd FreeHead (nxt_update (\<lambda>_. Page i)) st6)))))))"

section \<open>Chunks\<close>

text \<open>The address of the page at index \<open>i\<close>.\<close>

definition page_addr :: "os_globals \<Rightarrow> slab_pool \<Rightarrow> nat \<Rightarrow> addr" where
  "page_addr g st i = s_start st + push_bit (unat (rp_pagesize_shift g)) (of_nat i)"

definition set_bits :: "nat \<Rightarrow> nat \<Rightarrow> 64 word \<Rightarrow> slab_pool \<Rightarrow> slab_pool" where
  "set_bits i n w st = st\<lparr>s_bits := (s_bits st)(i := (s_bits st i)(n := w))\<rparr>"

text \<open>A page that has become full leaves its slot list; its \<open>prev\<close> keeps only the type.\<close>

definition unlink_full :: "nat \<Rightarrow> nat \<Rightarrow> slab_pool \<Rightarrow> slab_pool res" where
  "unlink_full ty i st =
     res_bind (pg st (Page i)) (\<lambda>q.
     res_bind (upd (fst (prv q)) (nxt_update (\<lambda>_. nxt q)) st) (\<lambda>st1.
     res_bind (pg st1 (Page i)) (\<lambda>q1.
     res_bind (upd (nxt q1) (prv_update (\<lambda>_. prv q1)) st1) (\<lambda>st2.
     upd (Page i) (\<lambda>q. q\<lparr>nxt := Null, prv := (Null, ty)\<rparr>) st2))))"

text \<open>The first clear bit; the loops shift \<open>m\<close> until it is 0 or outside the mask.\<close>

definition clear_bit :: "64 word \<Rightarrow> nat option" where
  "clear_bit w = List.find (\<lambda>i. w AND push_bit i 1 = 0) [0 ..< 64]"

definition map_words :: "os_globals \<Rightarrow> size_t \<Rightarrow> nat" where
  "map_words g shift = unat (int_shl 1 (unat (rp_pagesize_shift g - shift)) div (8 * 8))"

text \<open>One page of the list of small chunks: the first clear bit of its map.\<close>

definition small_chunk :: "os_globals \<Rightarrow> size_t \<Rightarrow> slab_pool \<Rightarrow> nat \<Rightarrow> (addr \<times> slab_pool) option res" where
  "small_chunk g shift st i =
     (let mp = map_words g shift
      in case List.find (\<lambda>n. s_bits st i n \<noteq> RP_SLAB_BUSY) [0 ..< mp] of
           None \<Rightarrow> Inr None
         | Some n \<Rightarrow>
             (case clear_bit (s_bits st i n) of
                None \<Rightarrow> Inr None
              | Some k \<Rightarrow>
                  let w = s_bits st i n OR push_bit k 1;
                      st1 = set_bits i n w st;
                      off = push_bit (unat shift) (of_nat (n * 8 * 8)) + push_bit (unat shift) (of_nat k);
                      full = (w = RP_SLAB_BUSY \<and> (\<forall>j \<in> set [n + 1 ..< mp]. s_bits st i j = RP_SLAB_BUSY))
                  in res_bind (if full then unlink_full RP_SLAB_SMALL i st1 else Inr st1)
                       (\<lambda>st2. Inr (Some (page_addr g st i + off, st2)))))"

definition exact_chunk :: "os_globals \<Rightarrow> size_t \<Rightarrow> slab_pool \<Rightarrow> nat \<Rightarrow> (addr \<times> slab_pool) option res" where
  "exact_chunk g shift st i =
     res_bind (pg st (Page i)) (\<lambda>q.
     if slab q = RP_SLAB_BUSY then Inr None
     else case clear_bit (slab q) of
            None \<Rightarrow> Inr None
          | Some k \<Rightarrow>
              let w = slab q OR push_bit k 1
              in res_bind (upd (Page i) (slab_update (\<lambda>_. w)) st) (\<lambda>st1.
                 res_bind (if w = RP_SLAB_BUSY then unlink_full RP_SLAB_EXACT i st1 else Inr st1) (\<lambda>st2.
                 Inr (Some (page_addr g st i + push_bit (unat shift) (of_nat k), st2)))))"

text \<open>The mask of the chunk map of the big chunks in a page with the descriptor \<open>q\<close>.\<close>

definition big_mask :: "os_globals \<Rightarrow> slab_page \<Rightarrow> 64 word" where
  "big_mask g q =
     push_bit RP_SLAB_MAP_SHIFT
       (push_bit (unat (int_shl 1 (unat (rp_pagesize_shift g - (slab q AND RP_SLAB_SHIFT_MASK))))) 1 - 1)"

definition big_clear_bit :: "64 word \<Rightarrow> 64 word \<Rightarrow> nat option" where
  "big_clear_bit mk w =
     List.find (\<lambda>i. w AND push_bit (RP_SLAB_MAP_SHIFT + i) 1 = 0)
       (takeWhile (\<lambda>i. push_bit (RP_SLAB_MAP_SHIFT + i) 1 AND mk \<noteq> 0) [0 ..< 32])"

definition big_chunk :: "os_globals \<Rightarrow> size_t \<Rightarrow> 64 word \<Rightarrow> slab_pool \<Rightarrow> nat \<Rightarrow> (addr \<times> slab_pool) option res" where
  "big_chunk g shift mk st i =
     res_bind (pg st (Page i)) (\<lambda>q.
     if slab q AND RP_SLAB_MAP_MASK = mk then Inr None
     else case big_clear_bit mk (slab q) of
            None \<Rightarrow> Inr None
          | Some k \<Rightarrow>
              let w = slab q OR push_bit (RP_SLAB_MAP_SHIFT + k) 1
              in res_bind (upd (Page i) (slab_update (\<lambda>_. w)) st) (\<lambda>st1.
                 res_bind (if w AND RP_SLAB_MAP_MASK = mk then unlink_full RP_SLAB_BIG i st1 else Inr st1) (\<lambda>st2.
                 Inr (Some (page_addr g st i + push_bit (unat shift) (of_nat k), st2)))))"

text \<open>The three loops over the pages of a slot list.\<close>

partial_function (option) slot_loop ::
    "(nat \<Rightarrow> (addr \<times> slab_pool) option res) \<Rightarrow> slab_pool \<Rightarrow> pref \<Rightarrow> (addr \<times> slab_pool) option res option" where
  "slot_loop f st p =
     (case p of
        Null \<Rightarrow> Some (Inr None)
      | Page i \<Rightarrow>
          (case f i of
             Inl e \<Rightarrow> Some (Inl e)
           | Inr (Some r) \<Rightarrow> Some (Inr (Some r))
           | Inr None \<Rightarrow>
               (case pg st (Page i) of
                  Inl e \<Rightarrow> Some (Inl e)
                | Inr q \<Rightarrow> slot_loop f st (nxt q)))
      | FreeHead \<Rightarrow> Some (Inl OutOfBounds)
      | Slot i \<Rightarrow> Some (Inl OutOfBounds))"

text \<open>A fresh page for a slot: its map with the first chunk taken, and the link.\<close>

definition link_slot :: "nat \<Rightarrow> nat \<Rightarrow> 64 word \<Rightarrow> nat \<Rightarrow> slab_pool \<Rightarrow> slab_pool res" where
  "link_slot slot ty w i st =
     res_bind (upd (Page i) (\<lambda>_. \<lparr>slab = w, nxt = Slot slot, prv = (Slot slot, ty)\<rparr>) st)
       (upd (Slot slot) (nxt_update (\<lambda>_. Page i)))"

text \<open>The number of chunks that the map of a small page takes.\<close>

definition map_chunks :: "os_globals \<Rightarrow> size_t \<Rightarrow> 64 word" where
  "map_chunks g shift =
     (let n = int_shl 1 (unat (rp_pagesize_shift g - shift)) div 8 div int_shl 1 (unat shift)
      in if n = 0 then 1 else n)"

definition new_small :: "os_globals \<Rightarrow> size_t \<Rightarrow> nat \<Rightarrow> nat \<Rightarrow> slab_pool \<Rightarrow> (addr \<times> slab_pool) res" where
  "new_small g shift slot i st =
     (let n = map_chunks g shift;
          st1 = st\<lparr>s_bits := (s_bits st)(i := (\<lambda>j. if j = 0 then int_shl 2 (unat n) - 1
                    else if j < map_words g shift then 0 else s_bits st i j))\<rparr>
      in res_bind (link_slot slot RP_SLAB_SMALL shift i st1) (\<lambda>st2.
         Inr (page_addr g st i + int_shl 1 (unat shift) * n, st2)))"

definition rp_slab_alloc :: "os_globals \<Rightarrow> slab_globals \<Rightarrow> size_t \<Rightarrow> slab_pool \<Rightarrow> (addr \<times> slab_pool) res option" where
  "rp_slab_alloc g sg sz st =
     (if sz \<ge> slab_max_size sg then
        (case rp_slab_alloc_pages st (drop_bit (unat (rp_pagesize_shift g)) sz + (if sz mod rp_pagesize g \<noteq> 0 then 1 else 0)) of
           None \<Rightarrow> None
         | Some (Inl e) \<Rightarrow> Some (Inl e)
         | Some (Inr (None, st1)) \<Rightarrow> Some (Inr (0, st1))
         | Some (Inr (Some i, st1)) \<Rightarrow> Some (Inr (page_addr g st1 i, st1)))
      else
        let shift = (if sz > min_size st then shift_loop (sz - 1) 1 else min_shift st);
            slot = (if sz > min_size st then unat (shift - min_shift st) else 0);
            exact = slab_exact_shift sg
        in case pg st (Slot slot) of
             Inl e \<Rightarrow> Some (Inl e)
           | Inr hd_slot \<Rightarrow>
          (case pg st (nxt hd_slot) of
             Inl e \<Rightarrow> Some (Inl e)
           | Inr first \<Rightarrow>
          (case (if nxt first \<noteq> nxt hd_slot then
                   (if shift < exact then slot_loop (small_chunk g shift st) st (nxt hd_slot)
                    else if shift = exact then slot_loop (exact_chunk g shift st) st (nxt hd_slot)
                    else slot_loop (big_chunk g shift (big_mask g first) st) st (nxt hd_slot))
                 else Some (Inr None)) of
             None \<Rightarrow> None
           | Some (Inl e) \<Rightarrow> Some (Inl e)
           | Some (Inr (Some r)) \<Rightarrow> Some (Inr r)
           | Some (Inr None) \<Rightarrow>
               (case rp_slab_alloc_pages st 1 of
                  None \<Rightarrow> None
                | Some (Inl e) \<Rightarrow> Some (Inl e)
                | Some (Inr (None, st1)) \<Rightarrow> Some (Inr (0, st1))
                | Some (Inr (Some i, st1)) \<Rightarrow> Some (
                    if shift < exact then new_small g shift slot i st1
                    else if shift = exact then
                      res_bind (link_slot slot RP_SLAB_EXACT 1 i st1) (\<lambda>st2. Inr (page_addr g st1 i, st2))
                    else
                      res_bind (link_slot slot RP_SLAB_BIG (push_bit RP_SLAB_MAP_SHIFT 1 OR shift) i st1)
                        (\<lambda>st2. Inr (page_addr g st1 i, st2)))))))"

section \<open>Freeing\<close>

text \<open>The messages that \<open>rp_slab_free\<close> prints, or none.\<close>

datatype free_result = Freed | OutsidePool | WrongChunk | ChunkFree | PageFree | WrongPage

text \<open>A full page returns to the list of its slot.\<close>

definition relink :: "nat \<Rightarrow> nat \<Rightarrow> nat \<Rightarrow> slab_pool \<Rightarrow> slab_pool res" where
  "relink slot ty i st =
     res_bind (pg st (Slot slot)) (\<lambda>sl.
     res_bind (upd (Page i) (nxt_update (\<lambda>_. nxt sl)) st) (\<lambda>st1.
     res_bind (upd (Slot slot) (nxt_update (\<lambda>_. Page i)) st1) (\<lambda>st2.
     res_bind (upd (Page i) (prv_update (\<lambda>_. (Slot slot, ty))) st2) (\<lambda>st3.
     res_bind (pg st3 (Page i)) (\<lambda>q.
     upd (nxt q) (prv_update (\<lambda>_. (Page i, ty))) st3)))))"

definition free_small :: "os_globals \<Rightarrow> nat \<Rightarrow> addr \<Rightarrow> slab_page \<Rightarrow> slab_pool \<Rightarrow> (free_result \<times> slab_pool) res" where
  "free_small g i p q st =
     (let shift = slab q AND RP_SLAB_SHIFT_MASK;
          sz = int_shl 1 (unat shift)
      in if p AND (sz - 1) \<noteq> 0 then Inr (WrongChunk, st)
         else
           let k = drop_bit (unat shift) (p AND (rp_pagesize g - 1));
               m = push_bit (unat (k AND (8 * 8 - 1))) 1;
               n = unat (k div (8 * 8));
               b = unat (drop_bit (unat (rp_pagesize_shift g)) ((p AND NOT (rp_pagesize g - 1)) - s_start st))
           in if s_bits st b n AND m = 0 then Inr (ChunkFree, st)
              else res_bind (if nxt q = Null then relink (unat (shift - min_shift st)) RP_SLAB_SMALL i st else Inr st) (\<lambda>st1.
                let st2 = set_bits b n (s_bits st1 b n AND NOT m) st1
                in if s_bits st2 b 0 AND NOT (push_bit (unat (map_chunks g shift)) 1 - 1) \<noteq> 0 then Inr (Freed, st2)
                   else if \<exists>j \<in> set [1 ..< map_words g shift]. s_bits st2 b j \<noteq> 0 then Inr (Freed, st2)
                   else res_bind (rp_slab_free_pages i 1 st2) (\<lambda>st3. Inr (Freed, st3))))"

definition free_exact :: "os_globals \<Rightarrow> slab_globals \<Rightarrow> nat \<Rightarrow> addr \<Rightarrow> slab_page \<Rightarrow> slab_pool \<Rightarrow>
    (free_result \<times> slab_pool) res" where
  "free_exact g sg i p q st =
     (let m = push_bit (unat (drop_bit (unat (slab_exact_shift sg)) (p AND (rp_pagesize g - 1)))) 1
      in if p AND (slab_exact_size sg - 1) \<noteq> 0 then Inr (WrongChunk, st)
         else if slab q AND m = 0 then Inr (ChunkFree, st)
         else res_bind (if slab q = RP_SLAB_BUSY then relink (unat (slab_exact_shift sg - min_shift st)) RP_SLAB_EXACT i st
                        else Inr st) (\<lambda>st1.
           res_bind (upd (Page i) (slab_update (\<lambda>w. w AND NOT m)) st1) (\<lambda>st2.
           res_bind (pg st2 (Page i)) (\<lambda>q2.
           if slab q2 \<noteq> 0 then Inr (Freed, st2)
           else res_bind (rp_slab_free_pages i 1 st2) (\<lambda>st3. Inr (Freed, st3))))))"

definition free_big :: "os_globals \<Rightarrow> nat \<Rightarrow> addr \<Rightarrow> slab_page \<Rightarrow> slab_pool \<Rightarrow> (free_result \<times> slab_pool) res" where
  "free_big g i p q st =
     (let shift = slab q AND RP_SLAB_SHIFT_MASK;
          m = push_bit (unat (drop_bit (unat shift) (p AND (rp_pagesize g - 1)) + of_nat RP_SLAB_MAP_SHIFT)) 1
      in if p AND (int_shl 1 (unat shift) - 1) \<noteq> 0 then Inr (WrongChunk, st)
         else if slab q AND m = 0 then Inr (ChunkFree, st)
         else res_bind (if nxt q = Null then relink (unat (shift - min_shift st)) RP_SLAB_BIG i st else Inr st) (\<lambda>st1.
           res_bind (upd (Page i) (slab_update (\<lambda>w. w AND NOT m)) st1) (\<lambda>st2.
           res_bind (pg st2 (Page i)) (\<lambda>q2.
           if slab q2 AND RP_SLAB_MAP_MASK \<noteq> 0 then Inr (Freed, st2)
           else res_bind (rp_slab_free_pages i 1 st2) (\<lambda>st3. Inr (Freed, st3))))))"

definition free_page :: "os_globals \<Rightarrow> nat \<Rightarrow> addr \<Rightarrow> slab_page \<Rightarrow> slab_pool \<Rightarrow> (free_result \<times> slab_pool) res" where
  "free_page g i p q st =
     (if p AND (rp_pagesize g - 1) \<noteq> 0 then Inr (WrongChunk, st)
      else if slab q = RP_SLAB_PAGE_FREE then Inr (PageFree, st)
      else if slab q = RP_SLAB_PAGE_BUSY then Inr (WrongPage, st)
      else res_bind (rp_slab_free_pages i (slab q AND NOT RP_SLAB_PAGE_START) st) (\<lambda>st1. Inr (Freed, st1)))"

definition rp_slab_free :: "os_globals \<Rightarrow> slab_globals \<Rightarrow> addr \<Rightarrow> slab_pool \<Rightarrow> (free_result \<times> slab_pool) res" where
  "rp_slab_free g sg p st =
     (if p < s_start st \<or> p > s_end st then Inr (OutsidePool, st)
      else
        let i = unat (drop_bit (unat (rp_pagesize_shift g)) (p - s_start st))
        in res_bind (pg st (Page i)) (\<lambda>q.
           if snd (prv q) = RP_SLAB_SMALL then free_small g i p q st
           else if snd (prv q) = RP_SLAB_EXACT then free_exact g sg i p q st
           else if snd (prv q) = RP_SLAB_BIG then free_big g i p q st
           else free_page g i p q st))"

end
