(* ===== verification/Slab_Links.thy ===== *)
theory Slab_Links
  imports Rp_Slab
begin

text \<open>
  The doubly linked lists of the slab allocator: descriptors as nodes of a heap, the
  predicate \<open>dll\<close> (a ring through a list head with a list of pages, all of one type), its
  frame property, and what unlinking a page and pushing one to the front do to it.
\<close>

section \<open>Descriptors as nodes\<close>

fun node :: "slab_pool \<Rightarrow> pref \<Rightarrow> slab_page" where
  "node st Null = zero_page"
| "node st FreeHead = s_free st"
| "node st (Slot i) = s_slots st ! i"
| "node st (Page i) = s_pages st ! i"

fun valid :: "slab_pool \<Rightarrow> pref \<Rightarrow> bool" where
  "valid st Null = False"
| "valid st FreeHead = True"
| "valid st (Slot i) = (i < length (s_slots st))"
| "valid st (Page i) = (i < length (s_pages st))"

fun setn :: "pref \<Rightarrow> (slab_page \<Rightarrow> slab_page) \<Rightarrow> slab_pool \<Rightarrow> slab_pool" where
  "setn Null f st = st"
| "setn FreeHead f st = st\<lparr>s_free := f (s_free st)\<rparr>"
| "setn (Slot i) f st = st\<lparr>s_slots := (s_slots st)[i := f (s_slots st ! i)]\<rparr>"
| "setn (Page i) f st = st\<lparr>s_pages := (s_pages st)[i := f (s_pages st ! i)]\<rparr>"

lemma pg_valid [simp]: "valid st r \<Longrightarrow> pg st r = Inr (node st r)"
  by (cases r) simp_all

lemma upd_valid [simp]: "valid st r \<Longrightarrow> upd r f st = Inr (setn r f st)"
  by (cases r) simp_all

lemma valid_setn [simp]: "valid (setn r f st) r' = valid st r'"
  by (cases r; cases r') simp_all

lemma node_setn: "valid st r \<Longrightarrow> node (setn r f st) r' = (if r' = r then f (node st r) else node st r')"
  by (cases r; cases r') (auto simp: nth_list_update)

lemma setn_fields [simp]:
  "length (s_pages (setn r f st)) = length (s_pages st)" "length (s_slots (setn r f st)) = length (s_slots st)"
  "min_size (setn r f st) = min_size st" "min_shift (setn r f st) = min_shift st"
  "s_start (setn r f st) = s_start st" "s_end (setn r f st) = s_end st" "s_bits (setn r f st) = s_bits st"
  by (cases r; simp)+

declare setn.simps [simp del] upd.simps [simp del] pg.simps [simp del]

section \<open>Rings\<close>

fun path :: "(pref \<Rightarrow> pref) \<Rightarrow> pref \<Rightarrow> nat list \<Rightarrow> pref \<Rightarrow> bool" where
  "path nx a [] z = (nx a = z)"
| "path nx a (x # xs) z = (nx a = Page x \<and> path nx (Page x) xs z)"

fun backs :: "(pref \<Rightarrow> pref \<times> nat) \<Rightarrow> nat \<Rightarrow> pref \<Rightarrow> nat list \<Rightarrow> bool" where
  "backs pv ty a [] = True"
| "backs pv ty a (x # xs) = (pv (Page x) = (a, ty) \<and> backs pv ty (Page x) xs)"

definition dll :: "slab_pool \<Rightarrow> pref \<Rightarrow> nat \<Rightarrow> nat list \<Rightarrow> bool" where
  "dll st s ty xs \<longleftrightarrow> path (\<lambda>r. nxt (node st r)) s xs s \<and> backs (\<lambda>r. prv (node st r)) ty s xs \<and>
     distinct xs \<and> (\<forall>x \<in> set xs. x < length (s_pages st)) \<and> valid st s \<and> (\<forall>x. s \<noteq> Page x)"

lemma path_append:
  "path nx a (xs @ x # ys) z \<longleftrightarrow> path nx a xs (Page x) \<and> path nx (Page x) ys z"
  by (induction xs arbitrary: a) auto

lemma backs_append:
  "backs pv ty a (xs @ x # ys) \<longleftrightarrow> backs pv ty a xs \<and> pv (Page x) = (last (a # map Page xs), ty) \<and> backs pv ty (Page x) ys"
  by (induction xs arbitrary: a) (auto simp: last_map)

lemma path_frame:
  "\<forall>r \<in> insert a (Page ` set xs). nx' r = nx r \<Longrightarrow> path nx' a xs z = path nx a xs z"
  by (induction xs arbitrary: a) auto

lemma backs_frame: "\<forall>x \<in> set xs. pv' (Page x) = pv (Page x) \<Longrightarrow> backs pv' ty a xs = backs pv ty a xs"
  by (induction xs arbitrary: a) auto

text \<open>A ring does not change as long as its own nodes keep their links.\<close>

lemma dll_frame:
  assumes "dll st s ty xs" "length (s_pages st') = length (s_pages st)" "valid st' s"
    and "nxt (node st' s) = nxt (node st s)"
    and "\<forall>x \<in> set xs. nxt (node st' (Page x)) = nxt (node st (Page x)) \<and> prv (node st' (Page x)) = prv (node st (Page x))"
  shows "dll st' s ty xs"
proof -
  have "path (\<lambda>r. nxt (node st' r)) s xs s = path (\<lambda>r. nxt (node st r)) s xs s"
    using assms(4,5) by (intro path_frame) auto
  moreover have "backs (\<lambda>r. prv (node st' r)) ty s xs = backs (\<lambda>r. prv (node st r)) ty s xs"
    using assms(5) by (intro backs_frame) auto
  ultimately show ?thesis using assms(1-3) by (simp add: dll_def)
qed

lemma path_retarget:
  assumes "path nx a xs y" "distinct xs" "a \<notin> Page ` set xs"
    and "\<forall>r \<in> insert a (Page ` set xs). nx' r = (if r = last (a # map Page xs) then z else nx r)"
  shows "path nx' a xs z"
  using assms
proof (induction xs arbitrary: a)
  case (Cons x xs)
  have "last (a # map Page (x # xs)) = last (Page x # map Page xs)" by simp
  moreover have "a \<noteq> last (Page x # map Page xs)" using Cons.prems(3) last_in_set [of "Page x # map Page xs"] by auto
  ultimately have "nx' a = Page x" using Cons.prems(1,4) by auto
  moreover have "path nx' (Page x) xs z"
    using Cons.prems by (intro Cons.IH) auto
  ultimately show ?case by simp
qed simp

text \<open>The neighbours of a page in a ring.\<close>

lemma dll_neighbours:
  assumes "dll st s ty (xs @ x # ys)"
  shows "prv (node st (Page x)) = (last (s # map Page xs), ty)"
    "nxt (node st (Page x)) = hd (map Page ys @ [s])"
    "valid st (last (s # map Page xs))" "valid st (hd (map Page ys @ [s]))" "valid st (Page x)"
proof -
  have p: "path (\<lambda>r. nxt (node st r)) (Page x) ys s" "backs (\<lambda>r. prv (node st r)) ty s (xs @ x # ys)"
    "\<forall>y \<in> set (xs @ x # ys). y < length (s_pages st)" "valid st s"
    using assms by (auto simp: dll_def path_append)
  show "prv (node st (Page x)) = (last (s # map Page xs), ty)" using p(2) by (simp add: backs_append)
  show "nxt (node st (Page x)) = hd (map Page ys @ [s])" using p(1) by (cases ys) auto
  show "valid st (last (s # map Page xs))" using p(3,4) by (cases xs rule: rev_cases) auto
  show "valid st (hd (map Page ys @ [s]))" using p(3,4) by (cases ys) auto
  show "valid st (Page x)" using p(3) by simp
qed

text \<open>
  A page \<open>x\<close> leaves its place in a ring, to the pages \<open>zs\<close>: none when it is unlinked, one
  when it is replaced. The new links at the two ends and in \<open>zs\<close> make a ring again.
\<close>

lemma dll_splice:
  assumes d: "dll st s ty (xs @ x # ys)" and len: "length (s_pages st') = length (s_pages st)" "valid st' s"
    and zs: "distinct (xs @ zs @ ys)" "\<forall>z \<in> set zs. z < length (s_pages st)" "length zs \<le> 1"
    and nx: "\<forall>r \<in> insert s (Page ` set (xs @ ys)). nxt (node st' r) =
      (if r = last (s # map Page xs) then hd (map Page (zs @ ys) @ [s]) else nxt (node st r))"
    and pv: "\<forall>y \<in> set (xs @ ys). prv (node st' (Page y)) =
      (if Page y = hd (map Page ys @ [s]) then (last (s # map Page (xs @ zs)), ty) else prv (node st (Page y)))"
    and new: "\<forall>z \<in> set zs. nxt (node st' (Page z)) = hd (map Page ys @ [s]) \<and>
      prv (node st' (Page z)) = (last (s # map Page xs), ty)"
  shows "dll st' s ty (xs @ zs @ ys)"
proof -
  let ?nx = "\<lambda>r. nxt (node st r)" and ?nx' = "\<lambda>r. nxt (node st' r)"
  let ?pv = "\<lambda>r. prv (node st r)" and ?pv' = "\<lambda>r. prv (node st' r)"
  have p: "path ?nx s xs (Page x)" "path ?nx (Page x) ys s" "distinct (xs @ x # ys)" "\<forall>y. s \<noteq> Page y"
    "backs ?pv ty s xs" "backs ?pv ty (Page x) ys"
    using d by (auto simp: dll_def path_append backs_append)
  have last_xs: "last (s # map Page xs) \<in> insert s (Page ` set xs)" by (cases xs rule: rev_cases) auto
  have 1: "path ?nx' s xs (hd (map Page (zs @ ys) @ [s]))"
    using p nx by (intro path_retarget [OF p(1)]) auto
  have 2: "path ?nx' (Page y) ys' s" if "ys = y # ys'" for y ys'
  proof -
    have "?nx' (Page r) = ?nx (Page r)" if "r \<in> set ys" for r
    proof -
      have "Page r \<noteq> last (s # map Page xs)" using p(3,4) last_xs that by (metis (no_types, lifting)
          IntI distinct_append emptyE image_iff insertE list.set_intros(2) pref.inject(2))
      with nx that show ?thesis by (auto simp del: node.simps)
    qed
    then have "path ?nx' (Page y) ys' s = path ?nx (Page y) ys' s"
      unfolding that by (intro path_frame) auto
    then show ?thesis using p(2) that by simp
  qed
  have tail: "path ?nx' a ys s" if "?nx' a = hd (map Page ys @ [s])" for a
    using that 2 by (cases ys) auto
  have "path ?nx' s (xs @ zs @ ys) s"
  proof (cases zs)
    case Nil
    with 1 2 show ?thesis by (cases ys) (auto simp: path_append)
  next
    case (Cons z zs')
    with zs(3) 1 new tail [of "Page z"] show ?thesis by (simp add: path_append del: node.simps)
  qed
  moreover have "backs ?pv' ty s (xs @ zs @ ys)"
  proof -
    have xs: "backs ?pv' ty s xs"
      using p(3-5) pv by (subst backs_frame [of _ _ ?pv]) (cases ys; auto)+
    have ys: "backs ?pv' ty (last (s # map Page (xs @ zs))) ys"
    proof (cases ys)
      case (Cons y ys')
      have "backs ?pv' ty (Page y) ys' = backs ?pv ty (Page y) ys'"
        using p(3) pv Cons by (intro backs_frame) auto
      with p(6) pv Cons show ?thesis by simp
    qed simp
    show ?thesis
    proof (cases zs)
      case Nil
      with xs ys show ?thesis by (cases ys) (auto simp: backs_append simp del: node.simps)
    next
      case (Cons z zs')
      with zs(3) xs ys new show ?thesis by (simp add: backs_append del: node.simps)
    qed
  qed
  ultimately show ?thesis using d len zs by (auto simp: dll_def)
qed

text \<open>Pushing a page to the front.\<close>

lemma dll_push:
  assumes d: "dll st s ty xs" and len: "length (s_pages st') = length (s_pages st)" "valid st' s"
    and x: "x \<notin> set xs" "x < length (s_pages st)"
    and nx: "nxt (node st' s) = Page x" "nxt (node st' (Page x)) = hd (map Page xs @ [s])"
      "\<forall>y \<in> set xs. nxt (node st' (Page y)) = nxt (node st (Page y))"
    and pv: "prv (node st' (Page x)) = (s, ty)"
      "\<forall>y \<in> set xs. prv (node st' (Page y)) = (if Page y = hd (map Page xs @ [s]) then (Page x, ty) else prv (node st (Page y)))"
  shows "dll st' s ty (x # xs)"
proof -
  have s: "\<forall>y. s \<noteq> Page y" "distinct xs" using d by (auto simp: dll_def)
  have "path (\<lambda>r. nxt (node st' r)) (Page x) xs s \<and> backs (\<lambda>r. prv (node st' r)) ty (Page x) xs"
  proof (cases xs)
    case (Cons y ys)
    have "path (\<lambda>r. nxt (node st' r)) (Page y) ys s = path (\<lambda>r. nxt (node st r)) (Page y) ys s"
      using nx(3) Cons by (intro path_frame) auto
    moreover have "backs (\<lambda>r. prv (node st' r)) ty (Page y) ys = backs (\<lambda>r. prv (node st r)) ty (Page y) ys"
      using pv(2) s(2) Cons by (intro backs_frame) auto
    ultimately show ?thesis using d nx(2) pv(2) Cons by (simp add: dll_def)
  qed (use nx(2) in simp)
  then show ?thesis using d len x nx(1) pv(1) by (simp add: dll_def)
qed

lemma dll_first: "dll st s ty xs \<Longrightarrow> nxt (node st s) = hd (map Page xs @ [s])"
  by (cases xs) (auto simp: dll_def)

text \<open>The rings of two list heads have no page in common.\<close>

lemma backs_prv: "backs pv ty a xs \<Longrightarrow> x \<in> set xs \<Longrightarrow> \<exists>b. pv (Page x) = (b, ty) \<and> b \<in> insert a (Page ` set xs)"
  by (induction xs arbitrary: a) fastforce+

lemma dll_prv: "dll st s ty xs \<Longrightarrow> x \<in> set xs \<Longrightarrow> \<exists>b. prv (node st (Page x)) = (b, ty) \<and> b \<in> insert s (Page ` set xs)"
  using backs_prv [of "\<lambda>r. prv (node st r)"] by (fastforce simp: dll_def)

section \<open>All the rings of a pool\<close>

definition slot_type :: "nat \<Rightarrow> nat" where
  "slot_type k = (if k < 3 then RP_SLAB_SMALL else if k = 3 then RP_SLAB_EXACT else RP_SLAB_BIG)"

lemma slot_type_pos: "slot_type k \<noteq> 0"
  by (simp add: slot_type_def slab_types)

definition heads :: "pref set" where
  "heads = insert FreeHead (Slot ` {..<9})"

fun ring_type :: "pref \<Rightarrow> nat" where
  "ring_type (Slot k) = slot_type k"
| "ring_type r = 0"

text \<open>The pages of each ring, by its head.\<close>

definition rings :: "slab_pool \<Rightarrow> (pref \<Rightarrow> nat list) \<Rightarrow> bool" where
  "rings st L \<longleftrightarrow> (\<forall>s \<in> heads. dll st s (ring_type s) (L s)) \<and>
     (\<forall>s \<in> heads. \<forall>t \<in> heads. s \<noteq> t \<longrightarrow> set (L s) \<inter> set (L t) = {})"

lemma rings_dll: "rings st L \<Longrightarrow> s \<in> heads \<Longrightarrow> dll st s (ring_type s) (L s)"
  by (simp add: rings_def)

lemma rings_disjoint: "rings st L \<Longrightarrow> s \<in> heads \<Longrightarrow> t \<in> heads \<Longrightarrow> j \<in> set (L s) \<Longrightarrow> j \<in> set (L t) \<Longrightarrow> s = t"
  unfolding rings_def by blast

lemma heads_not_Page: "s \<in> heads \<Longrightarrow> s \<noteq> Page x"
  by (auto simp: heads_def)

lemma rings_update:
  assumes r: "rings st L" and s: "s \<in> heads" and new: "dll st' s (ring_type s) xs"
    and old: "\<And>t. t \<in> heads \<Longrightarrow> t \<noteq> s \<Longrightarrow> dll st' t (ring_type t) (L t)"
    and sub: "\<And>j. j \<in> set xs \<Longrightarrow> j \<in> set (L s) \<or> (\<forall>t \<in> heads. j \<notin> set (L t))"
  shows "rings st' (L(s := xs))"
  unfolding rings_def
proof (intro conjI ballI impI)
  fix t assume "t \<in> heads"
  with new old show "dll st' t (ring_type t) ((L(s := xs)) t)" by simp
next
  fix t u assume tu: "t \<in> heads" "u \<in> heads" "t \<noteq> u"
  have x: "set xs \<inter> set (L v) = {}" if "v \<in> heads" "v \<noteq> s" for v
    using sub rings_disjoint [OF r that(1) s] that by blast
  have "set (L t) \<inter> set (L u) = {}" using rings_disjoint [OF r tu(1,2)] tu(3) by blast
  with x [OF tu(1)] x [OF tu(2)] tu(3) show "set ((L(s := xs)) t) \<inter> set ((L(s := xs)) u) = {}"
    by (auto simp: Int_commute)
qed

lemma rings_unlink:
  assumes r: "rings st L" and s: "s \<in> heads" "L s = xs @ i # ys"
    and len: "length (s_pages st') = length (s_pages st)" "\<forall>r. valid st' r = valid st r"
    and nx: "\<forall>r. r \<noteq> Page i \<longrightarrow> nxt (node st' r) = (if r = fst (prv (node st (Page i))) then nxt (node st (Page i)) else nxt (node st r))"
    and pv: "\<forall>r. r \<noteq> Page i \<longrightarrow> prv (node st' r) = (if r = nxt (node st (Page i)) then prv (node st (Page i)) else prv (node st r))"
  shows "rings st' (L(s := xs @ ys))"
proof -
  have d: "dll st s (ring_type s) (xs @ i # ys)" using rings_dll [OF r s(1)] s(2) by simp
  note nb = dll_neighbours [OF d]
  have dist: "distinct (xs @ i # ys)" using d by (simp add: dll_def)
  have "dll st' s (ring_type s) (xs @ [] @ ys)"
  proof (rule dll_splice [OF d len(1)])
    show "valid st' s" using d len(2) by (simp add: dll_def)
    show "\<forall>r \<in> insert s (Page ` set (xs @ ys)). nxt (node st' r) =
      (if r = last (s # map Page xs) then hd (map Page ([] @ ys) @ [s]) else nxt (node st r))"
    proof
      fix r assume "r \<in> insert s (Page ` set (xs @ ys))"
      then have "r \<noteq> Page i" using dist heads_not_Page [OF s(1)] by auto
      with nx [rule_format, of r] show "nxt (node st' r) =
          (if r = last (s # map Page xs) then hd (map Page ([] @ ys) @ [s]) else nxt (node st r))"
        unfolding nb(1,2) by simp
    qed
    show "\<forall>y \<in> set (xs @ ys). prv (node st' (Page y)) = (if Page y = hd (map Page ys @ [s])
      then (last (s # map Page (xs @ [])), ring_type s) else prv (node st (Page y)))"
    proof
      fix y assume "y \<in> set (xs @ ys)"
      then have "Page y \<noteq> Page i" using dist by auto
      with pv [rule_format, of "Page y"] show "prv (node st' (Page y)) = (if Page y = hd (map Page ys @ [s])
          then (last (s # map Page (xs @ [])), ring_type s) else prv (node st (Page y)))"
        unfolding nb(1,2) by simp
    qed
  qed (use dist in auto)
  moreover have "dll st' t (ring_type t) (L t)" if t: "t \<in> heads" "t \<noteq> s" for t
  proof -
    have ne: "t \<noteq> last (s # map Page xs)" "t \<noteq> Page i"
      using t heads_not_Page [OF t(1)] by (cases xs rule: rev_cases; auto)+
    have "Page j \<noteq> last (s # map Page xs)" "Page j \<noteq> hd (map Page ys @ [s])" "Page j \<noteq> Page i" if "j \<in> set (L t)" for j
    proof -
      have j: "j \<notin> set (xs @ i # ys)" using rings_disjoint [OF r t(1) s(1) that] t(2) s(2) by auto
      show "Page j \<noteq> last (s # map Page xs)" using j heads_not_Page [OF s(1), of j] by (cases xs rule: rev_cases) auto
      show "Page j \<noteq> hd (map Page ys @ [s])" using j heads_not_Page [OF s(1), of j] by (cases ys) auto
      show "Page j \<noteq> Page i" using j by simp
    qed
    then show ?thesis
      using ne nx pv len(2) rings_dll [OF r t(1)] unfolding nb(1,2) fst_conv
      by (intro dll_frame [OF rings_dll [OF r t(1)] len(1)]) (auto simp: dll_def simp del: node.simps)
  qed
  ultimately show ?thesis using s(2) by (intro rings_update [OF r s(1)]) auto
qed

lemma rings_push:
  assumes r: "rings st L" and s: "s \<in> heads" and i: "\<forall>t \<in> heads. i \<notin> set (L t)" "i < length (s_pages st)"
    and len: "length (s_pages st') = length (s_pages st)" "\<forall>r. valid st' r = valid st r"
    and nx: "\<forall>r. nxt (node st' r) = (if r = s then Page i else if r = Page i then nxt (node st s) else nxt (node st r))"
    and pv: "\<forall>r. prv (node st' r) = (if r = Page i then (s, ring_type s)
      else if r = nxt (node st s) then (Page i, ring_type s) else prv (node st r))"
  shows "rings st' (L(s := i # L s))"
proof -
  note d = rings_dll [OF r s]
  note f = dll_first [OF d]
  have iS: "i \<notin> set (L s)" using i(1) s by blast
  have "dll st' s (ring_type s) (i # L s)"
  proof (rule dll_push [OF d len(1) _ iS i(2)])
    show "valid st' s" using d len(2) by (simp add: dll_def)
    show "nxt (node st' s) = Page i" by (simp only: nx [rule_format] if_True refl)
    show "nxt (node st' (Page i)) = hd (map Page (L s) @ [s])"
      using heads_not_Page [OF s, of i] nx [rule_format, of "Page i"] f by auto
    show "\<forall>y \<in> set (L s). nxt (node st' (Page y)) = nxt (node st (Page y))"
    proof
      fix y assume "y \<in> set (L s)"
      then have "Page y \<noteq> s" "Page y \<noteq> Page i" using iS heads_not_Page [OF s, of y] by auto
      with nx [rule_format, of "Page y"] show "nxt (node st' (Page y)) = nxt (node st (Page y))" by simp
    qed
    show "prv (node st' (Page i)) = (s, ring_type s)" by (simp only: pv [rule_format] if_True refl)
    show "\<forall>y \<in> set (L s). prv (node st' (Page y)) =
        (if Page y = hd (map Page (L s) @ [s]) then (Page i, ring_type s) else prv (node st (Page y)))"
    proof
      fix y assume "y \<in> set (L s)"
      then have "Page y \<noteq> Page i" using iS by auto
      with pv [rule_format, of "Page y"] show "prv (node st' (Page y)) =
          (if Page y = hd (map Page (L s) @ [s]) then (Page i, ring_type s) else prv (node st (Page y)))"
        unfolding f by simp
    qed
  qed
  moreover have "dll st' t (ring_type t) (L t)" if t: "t \<in> heads" "t \<noteq> s" for t
  proof (rule dll_frame [OF rings_dll [OF r t(1)] len(1)])
    show "valid st' t" using rings_dll [OF r t(1)] len(2) by (simp add: dll_def)
    show "nxt (node st' t) = nxt (node st t)" using nx [rule_format, of t] t heads_not_Page [OF t(1), of i] by simp
    show "\<forall>j \<in> set (L t). nxt (node st' (Page j)) = nxt (node st (Page j)) \<and> prv (node st' (Page j)) = prv (node st (Page j))"
    proof
      fix j assume j: "j \<in> set (L t)"
      then have "j \<notin> set (L s)" "j \<noteq> i" using rings_disjoint [OF r t(1) s j] t i(1) by auto
      then have "Page j \<noteq> nxt (node st s)" "Page j \<noteq> s" "Page j \<noteq> Page i"
        using heads_not_Page [OF s, of j] unfolding f by (cases "L s"; auto)+
      with nx [rule_format, of "Page j"] pv [rule_format, of "Page j"]
      show "nxt (node st' (Page j)) = nxt (node st (Page j)) \<and> prv (node st' (Page j)) = prv (node st (Page j))" by simp
    qed
  qed
  ultimately show ?thesis using i(1) by (intro rings_update [OF r s]) auto
qed

end
