(* ===== verification/Slab_Inv.thy ===== *)
theory Slab_Inv
  imports Slab_Links
begin

text \<open>
  The invariant of a slab pool, for pages of 4096 bytes and chunks of 8 bytes and more, and
  the bytes that are allocated in it. The ghost parameters are the lists \<open>L\<close> of the pages
  of each ring: the free runs \<open>F\<close> in the order of the free list, and the pages \<open>S k\<close> in slot \<open>k\<close>.
\<close>

unbundle bit_operations_syntax

section \<open>Geometry\<close>

definition geo :: "os_globals \<Rightarrow> slab_globals \<Rightarrow> slab_pool \<Rightarrow> bool" where
  "geo g sg st \<longleftrightarrow> rp_pagesize g = 4096 \<and> rp_pagesize_shift g = 12 \<and>
     slab_max_size sg = 2048 \<and> slab_exact_size sg = 64 \<and> slab_exact_shift sg = 6 \<and>
     min_shift st = 3 \<and> min_size st = 8 \<and> length (s_slots st) = 9 \<and>
     unat (s_start st) mod 4096 = 0 \<and> 0 < unat (s_start st) \<and>
     s_start st \<le> s_end st"

text \<open>
  The pages that lie before \<open>end\<close>: alignment can leave less room than there are descriptors,
  and the room behind the last descriptor is not used.
\<close>

definition usable :: "slab_pool \<Rightarrow> nat" where
  "usable st = min (length (s_pages st)) ((unat (s_end st) - unat (s_start st)) div 4096)"

lemma usable_le: "usable st \<le> length (s_pages st)" "i < usable st \<Longrightarrow> i < length (s_pages st)"
  by (simp_all add: usable_def)

lemma usable_eq:
  "length (s_pages st') = length (s_pages st) \<Longrightarrow> s_start st' = s_start st \<Longrightarrow> s_end st' = s_end st \<Longrightarrow> usable st' = usable st"
  by (simp add: usable_def)

lemma pages_bound: "usable st < 2 ^ 52"
  using unat_less_limit [of "s_end st"] by (simp add: usable_def less_mult_imp_div_less min_less_iff_disj)

lemma usable_end:
  assumes "geo g sg st" "j \<le> usable st"
  shows "unat (s_start st) + j * 4096 \<le> unat (s_end st)"
proof -
  have "j \<le> (unat (s_end st) - unat (s_start st)) div 4096" using assms(2) by (simp add: usable_def)
  then have "j * 4096 \<le> unat (s_end st) - unat (s_start st)" by (simp add: less_eq_div_iff_mult_less_eq)
  moreover have "unat (s_start st) \<le> unat (s_end st)" using assms(1) by (simp add: geo_def word_le_nat_alt)
  ultimately show ?thesis by linarith
qed

section \<open>Pages\<close>

definition busy_page :: slab_page where
  "busy_page = \<lparr>slab = RP_SLAB_PAGE_BUSY, nxt = Null, prv = (Null, RP_SLAB_PAGE)\<rparr>"

text \<open>The pages that the descriptor \<open>j\<close> speaks for.\<close>

definition run_len :: "nat list \<Rightarrow> slab_pool \<Rightarrow> nat \<Rightarrow> nat" where
  "run_len F st j = (let q = s_pages st ! j in
     if j \<in> set F then unat (slab q)
     else if snd (prv q) \<noteq> 0 then 1
     else if slab q = 0 \<or> slab q = RP_SLAB_PAGE_BUSY then 0
     else unat (slab q AND NOT RP_SLAB_PAGE_START))"

subsection \<open>Chunks of a page\<close>

text \<open>The slot of a page with chunks; the chunks have \<open>2 ^ (slot + 3)\<close> bytes.\<close>

definition page_slot :: "slab_page \<Rightarrow> nat" where
  "page_slot q = (if snd (prv q) = RP_SLAB_EXACT then 3 else unat (slab q AND RP_SLAB_SHIFT_MASK) - 3)"

definition chunk_count :: "nat \<Rightarrow> nat" where "chunk_count k = 2 ^ (9 - k)"
definition chunk_size :: "nat \<Rightarrow> nat" where "chunk_size k = 2 ^ (k + 3)"

text \<open>The chunks that the map of a small page takes: 64 bytes, 16 bytes, 4 bytes.\<close>

definition reserved :: "nat \<Rightarrow> nat" where
  "reserved k = (if k = 0 then 8 else if k = 1 then 2 else if k = 2 then 1 else 0)"

definition used :: "slab_pool \<Rightarrow> nat \<Rightarrow> nat \<Rightarrow> bool" where
  "used st j c = (let q = s_pages st ! j in
     if snd (prv q) = RP_SLAB_SMALL then bit (s_bits st j (c div 64)) (c mod 64)
     else if snd (prv q) = RP_SLAB_EXACT then bit (slab q) c
     else bit (slab q) (32 + c))"

definition chunk_ok :: "slab_pool \<Rightarrow> (nat \<Rightarrow> nat list) \<Rightarrow> nat \<Rightarrow> bool" where
  "chunk_ok st S j \<longleftrightarrow> (let q = s_pages st ! j; k = page_slot q in
     k < 9 \<and> snd (prv q) = slot_type k \<and>
     (snd (prv q) = RP_SLAB_SMALL \<longrightarrow> slab q = of_nat (k + 3)) \<and>
     (snd (prv q) = RP_SLAB_BIG \<longrightarrow> slab q AND RP_SLAB_SHIFT_MASK = of_nat (k + 3) \<and>
        (\<forall>b. bit (slab q) b \<longrightarrow> b < 4 \<or> 32 \<le> b \<and> b < 32 + chunk_count k)) \<and>
     (\<forall>c < reserved k. used st j c) \<and> (\<exists>c. reserved k \<le> c \<and> c < chunk_count k \<and> used st j c) \<and>
     (if \<forall>c < chunk_count k. used st j c then nxt q = Null \<and> fst (prv q) = Null else j \<in> set (S k)))"

subsection \<open>Descriptors\<close>

definition run_ok :: "slab_page \<Rightarrow> bool" where
  "run_ok q \<longleftrightarrow> prv q = (Null, 0) \<and> nxt q = Null \<and>
     (slab q = 0 \<or> slab q = RP_SLAB_PAGE_BUSY \<or>
      (\<exists>n. slab q = n OR RP_SLAB_PAGE_START \<and> 0 < n \<and> unat n < 2 ^ 63 - 1))"

definition desc_ok :: "slab_pool \<Rightarrow> nat list \<Rightarrow> (nat \<Rightarrow> nat list) \<Rightarrow> nat \<Rightarrow> bool" where
  "desc_ok st F S j \<longleftrightarrow>
     run_len F st j \<le> usable st - j \<and>
     (\<forall>t. j < t \<and> t < j + run_len F st j \<longrightarrow> s_pages st ! t = (if j \<in> set F then zero_page else busy_page)) \<and>
     (if j \<in> set F then slab (s_pages st ! j) \<noteq> 0
      else if snd (prv (s_pages st ! j)) = 0 then run_ok (s_pages st ! j)
      else chunk_ok st S j)"

text \<open>The pages in \<open>X\<close> are being changed.\<close>

abbreviation slot_lists :: "(pref \<Rightarrow> nat list) \<Rightarrow> nat \<Rightarrow> nat list" where
  "slot_lists L \<equiv> \<lambda>k. L (Slot k)"

definition slab_inv :: "os_globals \<Rightarrow> slab_globals \<Rightarrow> slab_pool \<Rightarrow> (pref \<Rightarrow> nat list) \<Rightarrow> nat set \<Rightarrow> bool" where
  "slab_inv g sg st L X \<longleftrightarrow> geo g sg st \<and> rings st L \<and>
     (\<forall>k < 9. \<forall>j \<in> set (L (Slot k)). page_slot (s_pages st ! j) = k) \<and>
     (\<forall>j < length (s_pages st). j \<notin> X \<longrightarrow> desc_ok st (L FreeHead) (slot_lists L) j)"

section \<open>Allocated bytes\<close>

definition page_start :: "slab_pool \<Rightarrow> nat \<Rightarrow> nat" where
  "page_start st j = unat (s_start st) + j * 4096"

definition chunk_bytes :: "slab_pool \<Rightarrow> nat \<Rightarrow> nat \<Rightarrow> nat set" where
  "chunk_bytes st j c = (let sz = chunk_size (page_slot (s_pages st ! j)) in
     {page_start st j + c * sz ..< page_start st j + (c + 1) * sz})"

definition page_occ :: "slab_pool \<Rightarrow> nat \<Rightarrow> nat set" where
  "page_occ st j = (let q = s_pages st ! j; k = page_slot q in
     if snd (prv q) \<noteq> 0 then (\<Union>c \<in> {c. reserved k \<le> c \<and> c < chunk_count k \<and> used st j c}. chunk_bytes st j c)
     else if prv q = (Null, 0) \<and> slab q \<noteq> 0 \<and> slab q \<noteq> RP_SLAB_PAGE_BUSY
     then {page_start st j ..< page_start st j + unat (slab q AND NOT RP_SLAB_PAGE_START) * 4096}
     else {})"

definition slab_occ :: "slab_pool \<Rightarrow> nat set" where
  "slab_occ st = (\<Union>j < length (s_pages st). page_occ st j)"

section \<open>Facts about descriptors\<close>

lemma free_head [simp]: "FreeHead \<in> heads" and slot_head [simp]: "Slot k \<in> heads \<longleftrightarrow> k < 9"
  by (auto simp: heads_def)

lemma inv_rings:
  assumes "slab_inv g sg st L X"
  shows "dll st FreeHead 0 (L FreeHead)" "k < 9 \<Longrightarrow> dll st (Slot k) (slot_type k) (L (Slot k))"
proof -
  have r: "rings st L" using assms by (simp add: slab_inv_def)
  from rings_dll [OF r free_head] show "dll st FreeHead 0 (L FreeHead)" by simp
  from rings_dll [OF r, of "Slot k"] show "k < 9 \<Longrightarrow> dll st (Slot k) (slot_type k) (L (Slot k))" by simp
qed

lemma free_prv: "dll st FreeHead 0 F \<Longrightarrow> j \<in> set F \<Longrightarrow> snd (prv (s_pages st ! j)) = 0 \<and> fst (prv (s_pages st ! j)) \<noteq> Null"
  using dll_prv [of st FreeHead 0 F j] by auto

lemma slot_prv: "dll st (Slot k) (slot_type k) xs \<Longrightarrow> j \<in> set xs \<Longrightarrow>
    snd (prv (s_pages st ! j)) = slot_type k \<and> fst (prv (s_pages st ! j)) \<noteq> Null"
  using dll_prv [of st "Slot k" "slot_type k" xs j] by auto

lemma tail_pages: "prv zero_page = (Null, 0)" "prv busy_page = (Null, 0)" "nxt zero_page = Null" "nxt busy_page = Null"
    "slab zero_page = 0" "slab busy_page = RP_SLAB_PAGE_BUSY"
  by (simp_all add: zero_page_def busy_page_def slab_types)

lemma tail_len:
  assumes "dll st FreeHead 0 F" "s_pages st ! t \<in> {zero_page, busy_page}"
  shows "t \<notin> set F" "run_len F st t = 0"
proof -
  show t: "t \<notin> set F" using free_prv [OF assms(1), of t] assms(2) tail_pages by auto
  with assms(2) show "run_len F st t = 0" by (auto simp: run_len_def tail_pages)
qed

text \<open>The runs of two descriptors are disjoint.\<close>

lemma runs_disjoint:
  assumes "dll st FreeHead 0 F" "desc_ok st F S i" "desc_ok st F S j" "i \<noteq> j" "0 < run_len F st i" "0 < run_len F st j"
  shows "{i ..< i + run_len F st i} \<inter> {j ..< j + run_len F st j} = {}"
proof -
  have "\<not> (i < j \<and> j < i + run_len F st i)" if "desc_ok st F S i" "0 < run_len F st j" for i j
  proof
    assume "i < j \<and> j < i + run_len F st i"
    with that(1) have "s_pages st ! j \<in> {zero_page, busy_page}" unfolding desc_ok_def by auto
    from tail_len(2) [OF assms(1) this] that(2) show False by simp
  qed
  from this [OF assms(2,6)] this [OF assms(3,5)] assms(4) show ?thesis by auto
qed

text \<open>
  A descriptor stays correct when its contents do not change, apart from the links of a
  page that is in a ring.
\<close>

lemma used_frame:
  assumes "slab (s_pages st' ! j) = slab (s_pages st ! j)" "snd (prv (s_pages st' ! j)) = snd (prv (s_pages st ! j))"
    "s_bits st' j = s_bits st j"
  shows "used st' j = used st j"
  using assms by (simp add: used_def fun_eq_iff Let_def)

lemma page_slot_frame:
  assumes "slab q' = slab q" "snd (prv q') = snd (prv q)"
  shows "page_slot q' = page_slot q"
  using assms by (simp add: page_slot_def)

lemma chunk_frame:
  assumes ok: "chunk_ok st S j" and same: "slab (s_pages st' ! j) = slab (s_pages st ! j)"
      "snd (prv (s_pages st' ! j)) = snd (prv (s_pages st ! j))" "s_bits st' j = s_bits st j"
    and S: "\<forall>k < 9. j \<in> set (S k) \<longrightarrow> j \<in> set (S' k)"
    and link: "\<forall>k < 9. j \<in> set (S k) \<longrightarrow> fst (prv (s_pages st ! j)) \<noteq> Null"
    and free: "(\<forall>k < 9. j \<notin> set (S k)) \<longrightarrow> s_pages st' ! j = s_pages st ! j"
  shows "chunk_ok st' S' j"
proof -
  note u = used_frame [OF same] and k = page_slot_frame [OF same(1,2)]
  have "nxt (s_pages st' ! j) = Null \<and> fst (prv (s_pages st' ! j)) = Null"
    if "\<forall>c < chunk_count (page_slot (s_pages st ! j)). used st j c"
  proof -
    have "nxt (s_pages st ! j) = Null \<and> fst (prv (s_pages st ! j)) = Null"
      using ok that by (simp add: chunk_ok_def Let_def)
    with link free show ?thesis by auto
  qed
  moreover have "page_slot (s_pages st ! j) < 9" using ok by (simp add: chunk_ok_def Let_def)
  ultimately show ?thesis
    using ok S unfolding chunk_ok_def Let_def u k same(1,2) by (simp split: if_splits)
qed

lemma desc_frame:
  assumes ok: "desc_ok st F S j" and len: "usable st' = usable st" and F: "j \<in> set F' \<longleftrightarrow> j \<in> set F"
    and same: "slab (s_pages st' ! j) = slab (s_pages st ! j)" "snd (prv (s_pages st' ! j)) = snd (prv (s_pages st ! j))"
      "s_bits st' j = s_bits st j"
    and S: "\<forall>k < 9. j \<in> set (S k) \<longrightarrow> j \<in> set (S' k)"
    and link: "\<forall>k < 9. j \<in> set (S k) \<longrightarrow> fst (prv (s_pages st ! j)) \<noteq> Null"
    and free: "j \<notin> set F \<and> (\<forall>k < 9. j \<notin> set (S k)) \<longrightarrow> s_pages st' ! j = s_pages st ! j"
    and tails: "\<forall>t. j < t \<and> t < j + run_len F st j \<longrightarrow> s_pages st' ! t = s_pages st ! t"
  shows "desc_ok st' F' S' j"
proof -
  have r: "run_len F' st' j = run_len F st j" using F same by (simp add: run_len_def Let_def)
  have "run_ok (s_pages st' ! j)" if "run_ok (s_pages st ! j)" "j \<notin> set F"
  proof -
    have "fst (prv (s_pages st ! j)) = Null" using that(1) by (simp add: run_ok_def)
    with link free that show ?thesis by auto
  qed
  moreover have "chunk_ok st' S' j" if "chunk_ok st S j" "j \<notin> set F"
    using that chunk_frame [OF _ same S link] free by blast
  ultimately show ?thesis
    using ok F same(1,2) tails unfolding desc_ok_def r len by (auto split: if_splits)
qed

lemma page_occ_frame:
  assumes "slab (s_pages st' ! j) = slab (s_pages st ! j)" "snd (prv (s_pages st' ! j)) = snd (prv (s_pages st ! j))"
    "s_bits st' j = s_bits st j" "s_start st' = s_start st"
    "fst (prv (s_pages st' ! j)) = Null \<longleftrightarrow> fst (prv (s_pages st ! j)) = Null"
  shows "page_occ st' j = page_occ st j"
proof -
  have "prv (s_pages st' ! j) = (Null, 0) \<longleftrightarrow> prv (s_pages st ! j) = (Null, 0)"
    using assms(2,5) by (cases "prv (s_pages st' ! j)"; cases "prv (s_pages st ! j)") auto
  then show ?thesis
    unfolding page_occ_def Let_def chunk_bytes_def page_start_def used_frame [OF assms(1-3)]
      page_slot_frame [OF assms(1,2)] assms(1,2,4) by simp
qed

lemma page_occ_free: "snd (prv (s_pages st ! j)) = 0 \<Longrightarrow> fst (prv (s_pages st ! j)) \<noteq> Null \<Longrightarrow> page_occ st j = {}"
  by (auto simp: page_occ_def Let_def)

lemma page_occ_tail: "s_pages st ! j \<in> {zero_page, busy_page} \<Longrightarrow> page_occ st j = {}"
  by (auto simp: page_occ_def tail_pages)

text \<open>What a page occupies lies in its run.\<close>

lemma chunk_bytes_page:
  assumes "page_slot (s_pages st ! j) < 9" "c < chunk_count (page_slot (s_pages st ! j))"
  shows "chunk_bytes st j c \<subseteq> {page_start st j ..< page_start st j + 4096}"
proof -
  let ?k = "page_slot (s_pages st ! j)"
  have "chunk_count ?k * chunk_size ?k = 4096"
    using assms(1) by (simp add: chunk_count_def chunk_size_def flip: power_add)
  moreover have "(c + 1) * chunk_size ?k \<le> chunk_count ?k * chunk_size ?k"
    using assms(2) by (intro mult_le_mono1) simp
  ultimately show ?thesis by (auto simp: chunk_bytes_def Let_def)
qed

lemma page_occ_run:
  assumes "desc_ok st F S j" "dll st FreeHead 0 F"
  shows "page_occ st j \<subseteq> {page_start st j ..< page_start st j + run_len F st j * 4096}"
proof (cases "j \<in> set F")
  case True
  with free_prv [OF assms(2)] page_occ_free show ?thesis by fastforce
next
  case False
  show ?thesis
  proof (cases "snd (prv (s_pages st ! j)) = 0")
    case True
    with False show ?thesis by (auto simp: page_occ_def run_len_def Let_def)
  next
    case chunk: False
    with False assms(1) have "chunk_ok st S j" "run_len F st j = 1" by (auto simp: desc_ok_def run_len_def)
    with chunk chunk_bytes_page [of st j] show ?thesis by (auto simp: page_occ_def chunk_ok_def Let_def)
  qed
qed

lemma pages_disjoint:
  assumes "dll st FreeHead 0 F" "desc_ok st F S i" "desc_ok st F S j" "i \<noteq> j"
  shows "page_occ st i \<inter> page_occ st j = {}"
proof (cases "run_len F st i = 0 \<or> run_len F st j = 0")
  case True
  with page_occ_run [OF assms(2,1)] page_occ_run [OF assms(3,1)] show ?thesis by auto
next
  case False
  with runs_disjoint [OF assms] have "{i ..< i + run_len F st i} \<inter> {j ..< j + run_len F st j} = {}" by simp
  then have "i + run_len F st i \<le> j \<or> j + run_len F st j \<le> i" using False by (cases "i < j") auto
  then have "page_start st i + run_len F st i * 4096 \<le> page_start st j \<or> page_start st j + run_len F st j * 4096 \<le> page_start st i"
    by (auto simp: page_start_def)
  with page_occ_run [OF assms(2,1)] page_occ_run [OF assms(3,1)] show ?thesis by fastforce
qed

end
