(* ===== verification/Slab_Pages.thy ===== *)
theory Slab_Pages
  imports Slab_Inv
begin

text \<open>
  Whole pages: \<open>rp_slab_alloc_pages\<close> takes the first run that is long enough, splits it or
  unlinks it, and \<open>rp_slab_free_pages\<close> puts a run at the front of the free list.
\<close>

section \<open>Searching the free list\<close>

lemma find_run_path:
  assumes "path (\<lambda>r. nxt (node st r)) a ys FreeHead" "\<forall>y \<in> set ys. y < length (s_pages st)"
  shows "find_run st n (nxt (node st a)) = Some (Inr (List.find (\<lambda>i. n \<le> slab (s_pages st ! i)) ys))"
  using assms
proof (induction ys arbitrary: a)
  case Nil
  then show ?case by (subst find_run.simps) simp
next
  case (Cons y ys)
  then have "find_run st n (nxt (node st (Page y))) = Some (Inr (List.find (\<lambda>i. n \<le> slab (s_pages st ! i)) ys))"
    using Cons.IH [of "Page y"] by simp
  with Cons.prems show ?case by (subst find_run.simps) simp
qed

lemma find_run_dll:
  assumes "dll st FreeHead 0 F"
  shows "find_run st n (nxt (s_free st)) = Some (Inr (List.find (\<lambda>i. n \<le> slab (s_pages st ! i)) F))"
  using find_run_path [of st FreeHead F n] assms by (simp add: dll_def)

section \<open>Marking the pages of a run\<close>

definition fill :: "nat \<Rightarrow> nat \<Rightarrow> slab_page \<Rightarrow> slab_pool \<Rightarrow> slab_pool" where
  "fill i k v st = st\<lparr>s_pages := map (\<lambda>j. if i \<le> j \<and> j < i + k then v else s_pages st ! j) [0 ..< length (s_pages st)]\<rparr>"

lemma fill_0: "fill i 0 v st = st"
proof -
  have "(\<lambda>j. if i \<le> j \<and> j < i + 0 then v else s_pages st ! j) = (\<lambda>j. s_pages st ! j)" by (auto simp: fun_eq_iff)
  then show ?thesis by (simp only: fill_def map_nth) simp
qed

lemma fill_Suc: "i < length (s_pages st) \<Longrightarrow> fill (i + 1) k v (setn (Page i) (\<lambda>_. v) st) = fill i (Suc k) v st"
  by (auto simp: fill_def setn.simps nth_list_update intro!: arg_cong [of _ _ "\<lambda>x. st\<lparr>s_pages := x\<rparr>"])

lemma mark_busy_fill: "i + k \<le> length (s_pages st) \<Longrightarrow> mark_busy i k st = Inr (fill i k busy_page st)"
  by (induction i k st rule: mark_busy.induct)
    (simp_all add: fill_0 fill_Suc [simplified] flip: busy_page_def)

lemma clear_pages_fill: "i + k \<le> length (s_pages st) \<Longrightarrow> clear_pages i k st = Inr (fill i k zero_page st)"
  by (induction i k st rule: clear_pages.induct) (simp_all add: fill_0 fill_Suc [simplified])

lemma fill_fields [simp]:
  "length (s_pages (fill i k v st)) = length (s_pages st)" "s_slots (fill i k v st) = s_slots st"
  "min_size (fill i k v st) = min_size st" "min_shift (fill i k v st) = min_shift st" "s_free (fill i k v st) = s_free st"
  "s_start (fill i k v st) = s_start st" "s_end (fill i k v st) = s_end st" "s_bits (fill i k v st) = s_bits st"
  by (simp_all add: fill_def)

lemma fill_nth [simp]:
  "j < length (s_pages st) \<Longrightarrow> s_pages (fill i k v st) ! j = (if i \<le> j \<and> j < i + k then v else s_pages st ! j)"
  by (simp add: fill_def)

lemma valid_fill [simp]: "valid (fill i k v st) r = valid st r"
  by (cases r) simp_all

section \<open>Taking a run\<close>

definition run_page :: "64 word \<Rightarrow> slab_page" where
  "run_page n = \<lparr>slab = n OR RP_SLAB_PAGE_START, nxt = Null, prv = (Null, RP_SLAB_PAGE)\<rparr>"

lemma small_bit:
  assumes "unat (n :: 64 word) < 2 ^ k"
  shows "\<not> bit n k"
proof -
  have "unat (drop_bit k n) = 0" using assms by (simp add: unat_drop_bit)
  then have "drop_bit k n = 0" by (simp only: unsigned_eq_0_iff)
  then have "\<not> bit (drop_bit k n) 0" by simp
  then show ?thesis by (simp only: bit_drop_bit_eq o_def) simp
qed

lemma bit_start [simp]: "bit RP_SLAB_PAGE_START k \<longleftrightarrow> k = 63"
proof -
  have e: "RP_SLAB_PAGE_START = push_bit 63 1" by (simp add: RP_SLAB_PAGE_START_def push_bit_eq_mult)
  show ?thesis unfolding e by (auto simp only: bit_push_bit_iff bit_1_iff possible_bit_word) auto
qed

lemma or_start:
  assumes "unat n < 2 ^ 63 - 1"
  shows "(n OR RP_SLAB_PAGE_START) AND NOT RP_SLAB_PAGE_START = n" "n OR RP_SLAB_PAGE_START \<noteq> 0"
    "n OR RP_SLAB_PAGE_START \<noteq> RP_SLAB_PAGE_BUSY"
proof -
  have b: "\<not> bit n 63" using assms by (intro small_bit) simp
  show n: "(n OR RP_SLAB_PAGE_START) AND NOT RP_SLAB_PAGE_START = n"
    using b by (intro bit_word_eqI) (auto simp: bit_simps)
  have "bit (n OR RP_SLAB_PAGE_START) 63" by (simp add: bit_simps)
  then show "n OR RP_SLAB_PAGE_START \<noteq> 0" by auto
  show "n OR RP_SLAB_PAGE_START \<noteq> RP_SLAB_PAGE_BUSY"
  proof
    assume "n OR RP_SLAB_PAGE_START = RP_SLAB_PAGE_BUSY"
    with n have "n = 0x7fffffffffffffff" by (simp add: RP_SLAB_PAGE_BUSY_def RP_SLAB_PAGE_START_def)
    with assms show False by simp
  qed
qed

text \<open>The state after \<open>take_run\<close>, by its links and pages.\<close>

lemma take_run_state:
  assumes d: "dll st FreeHead 0 (xs @ i # ys)" and n: "0 < unat n" "unat n \<le> unat (slab (s_pages st ! i))"
    and len: "i + unat (slab (s_pages st ! i)) \<le> length (s_pages st)"
    and sep: "\<forall>j \<in> set (xs @ ys). j < i \<or> i + unat (slab (s_pages st ! i)) \<le> j"
  defines "zs \<equiv> if n < slab (s_pages st ! i) then [i + unat n] else []"
  shows "\<exists>st'. take_run i n st = Inr st' \<and> dll st' FreeHead 0 (xs @ zs @ ys) \<and>
    length (s_pages st') = length (s_pages st) \<and> s_slots st' = s_slots st \<and> s_bits st' = s_bits st \<and>
    min_size st' = min_size st \<and> min_shift st' = min_shift st \<and> s_start st' = s_start st \<and> s_end st' = s_end st \<and>
    s_pages st' ! i = run_page n \<and> (\<forall>j. i < j \<and> j < i + unat n \<longrightarrow> s_pages st' ! j = busy_page) \<and>
    (\<forall>z \<in> set zs. slab (s_pages st' ! z) = slab (s_pages st ! i) - n) \<and>
    (\<forall>j \<in> set (xs @ ys). slab (s_pages st' ! j) = slab (s_pages st ! j)) \<and>
    (\<forall>j < length (s_pages st). (j < i \<or> i + unat n \<le> j) \<and> j \<notin> set (xs @ zs @ ys) \<longrightarrow> s_pages st' ! j = s_pages st ! j)"
proof -
  let ?L = "last (FreeHead # map Page xs)" and ?R = "hd (map Page ys @ [FreeHead])"
  let ?q = "s_pages st ! i" and ?k = "unat n"
  note nb = dll_neighbours [OF d]
  have prv: "prv ?q = (?L, 0)" and nxt: "nxt ?q = ?R" and vL: "valid st ?L" and vR: "valid st ?R" and vi: "i < length (s_pages st)"
    using nb by simp_all
  have dist: "distinct (xs @ i # ys)" "\<forall>j \<in> set (xs @ i # ys). j < length (s_pages st)" using d by (auto simp: dll_def)
  have L: "?L \<in> insert FreeHead (Page ` set xs)" and R: "?R \<in> insert FreeHead (Page ` set ys)"
    by (cases xs rule: rev_cases, auto) (cases ys, auto)
  have Li: "?L \<noteq> Page i" and Ri: "?R \<noteq> Page i" using L R dist(1) by auto
  define st1 where "st1 = (if n < slab ?q then setn (Page (i + ?k)) (\<lambda>_. \<lparr>slab = slab ?q - n, nxt = ?R, prv = (?L, 0)\<rparr>) st else st)"
  define M where "M = hd (map Page (zs @ ys) @ [FreeHead])"
  define B where "B = (last (FreeHead # map Page (xs @ zs)), 0 :: nat)"
  define st2 where "st2 = setn ?L (nxt_update (\<lambda>_. M)) st1"
  define st3 where "st3 = setn ?R (prv_update (\<lambda>_. B)) st2"
  define st4 where "st4 = setn (Page i) (\<lambda>_. run_page n) st3"
  define st5 where "st5 = fill (i + 1) (?k - 1) busy_page st4"
  have split: "i + ?k < length (s_pages st)" if "n < slab ?q" using that len by (simp add: word_less_nat_alt)
  have zs: "zs = (if n < slab ?q then [i + ?k] else [])" by (simp add: zs_def)
  have v1: "valid st1 r = valid st r" for r by (simp add: st1_def)
  have l1: "length (s_pages st1) = length (s_pages st)" by (simp add: st1_def)
  have n1: "node st1 r = (if n < slab ?q \<and> r = Page (i + ?k) then \<lparr>slab = slab ?q - n, nxt = ?R, prv = (?L, 0)\<rparr> else node st r)" for r
    using split by (simp add: st1_def node_setn del: node.simps)
  have n2: "node st2 r = (if r = ?L then (node st1 r)\<lparr>nxt := M\<rparr> else node st1 r)" for r
    using vL by (simp add: st2_def node_setn v1 del: node.simps)
  have n3: "node st3 r = (if r = ?R then (node st2 r)\<lparr>prv := B\<rparr> else node st2 r)" for r
    using vR by (simp add: st3_def node_setn st2_def v1 del: node.simps)
  have vs: "valid st3 r = valid st r" "valid st4 r = valid st r" for r
    by (simp_all only: st4_def st3_def st2_def valid_setn v1)
  have v3: "valid st3 (Page i)" unfolding vs using vi by simp
  then have n4: "node st4 r = (if r = Page i then run_page n else node st3 r)" for r
    by (simp add: st4_def node_setn del: node.simps valid.simps)
  have len5: "length (s_pages st5) = length (s_pages st)" "length (s_pages st4) = length (s_pages st)"
    by (simp_all add: st5_def st4_def st3_def st2_def st1_def)
  have n5: "node st5 (Page j) = (if i < j \<and> j < i + ?k then busy_page else node st4 (Page j))" if "j < length (s_pages st)" for j
    using that n(1) len5 by (auto simp: st5_def)
  have n5f: "node st5 FreeHead = node st4 FreeHead" by (simp add: st5_def)
  have q1: "node st1 (Page i) = ?q" "node st2 (Page i) = ?q"
    using n1 [of "Page i"] n2 [of "Page i"] n(1) Li by (auto split: if_splits)
  have run: "(if slab ?q > n then split_run i n ?q st else unlink_run i ?q st) = Inr st3"
  proof (cases "n < slab ?q")
    case True
    then have M: "M = Page (i + ?k)" and B: "B = (Page (i + ?k), 0)" by (simp_all add: M_def B_def zs)
    from True have "st1 = setn (Page (i + ?k)) (\<lambda>_. \<lparr>slab = slab ?q - n, nxt = nxt ?q, prv = prv ?q\<rparr>) st"
      by (simp add: st1_def nxt prv)
    moreover have "upd ?L (nxt_update (\<lambda>_. Page (i + ?k))) st1 = Inr st2" using vL by (simp add: st2_def M v1)
    moreover have "upd (nxt (node st2 (Page i))) (prv_update (\<lambda>_. (Page (i + ?k), 0))) st2 = Inr st3"
      using vR by (simp only: q1 nxt B [symmetric]) (simp add: st3_def st2_def v1)
    moreover have "valid st (Page (i + ?k))" "valid st2 (Page i)" using split [OF True] vi by (simp_all add: st2_def l1)
    moreover have "raw_prev ?q = Inr ?L" by (simp add: raw_prev_def prv)
    ultimately show ?thesis using True by (simp add: split_run_def)
  next
    case False
    then have M: "M = ?R" and B: "B = (?L, 0)" and st1: "st1 = st" by (simp_all add: M_def B_def zs st1_def)
    have "upd ?L (nxt_update (\<lambda>_. nxt ?q)) st = Inr st2" using vL by (simp add: st2_def M st1 nxt)
    moreover have "upd (nxt (node st2 (Page i))) (prv_update (\<lambda>_. prv (node st2 (Page i)))) st2 = Inr st3"
      using vR by (simp only: q1 nxt prv B [symmetric]) (simp add: st3_def st2_def v1)
    moreover have "valid st2 (Page i)" using vi by (simp add: st2_def l1)
    moreover have "raw_prev ?q = Inr ?L" by (simp add: raw_prev_def prv)
    ultimately show ?thesis using False by (simp add: unlink_run_def)
  qed
  have k1: "unat (n - 1) = ?k - 1" using n(1) by (metis unat_gt_0 unat_minus_one)
  have fits: "i + 1 + (?k - 1) \<le> length (s_pages st)" using n len by linarith
  have take: "take_run i n st = Inr st5"
  proof -
    have "upd (Page i) (\<lambda>_. run_page n) st3 = Inr st4" using v3 by (simp add: st4_def del: valid.simps)
    then show ?thesis
      using vi run fits len5 by (simp add: take_run_def k1 mark_busy_fill st5_def flip: run_page_def)
  qed
  have far: "\<not> (i < j \<and> j < i + ?k)" "Page j \<noteq> Page i" "n < slab ?q \<longrightarrow> j \<noteq> i + ?k" if "j \<in> set (xs @ ys)" for j
  proof -
    have "j < i \<or> i + unat (slab ?q) \<le> j" using sep that by blast
    then show "\<not> (i < j \<and> j < i + ?k)" "n < slab ?q \<longrightarrow> j \<noteq> i + ?k" using n(2) by (auto simp: word_less_nat_alt)
    show "Page j \<noteq> Page i" using that dist(1) by auto
  qed
  have old: "node st5 (Page j) = node st3 (Page j)" if "j \<in> set (xs @ ys)" for j
  proof -
    have "j < length (s_pages st)" using that dist(2) by auto
    from n5 [OF this] n4 [of "Page j"] far(1,2) [OF that] show ?thesis by metis
  qed
  have head: "node st5 FreeHead = node st3 FreeHead" by (simp only: n5f n4) simp
  have 1: "dll st5 FreeHead 0 (xs @ zs @ ys)"
  proof (rule dll_splice [OF d])
    show "distinct (xs @ zs @ ys)" using dist(1) far(3) by (auto simp: zs)
    show "\<forall>z \<in> set zs. z < length (s_pages st)" using split by (simp add: zs)
    show "length (s_pages st5) = length (s_pages st)" by (rule len5)
    show "\<forall>r \<in> insert FreeHead (Page ` set (xs @ ys)). nxt (node st5 r) =
      (if r = ?L then hd (map Page (zs @ ys) @ [FreeHead]) else nxt (node st r))"
      using far(3) by (auto simp: old head n3 n2 n1 M_def simp del: node.simps)
    show "\<forall>y \<in> set (xs @ ys). prv (node st5 (Page y)) =
      (if Page y = ?R then (last (FreeHead # map Page (xs @ zs)), 0) else prv (node st (Page y)))"
      using far(3) by (auto simp: old n3 n2 n1 B_def simp del: node.simps)
    show "\<forall>z \<in> set zs. nxt (node st5 (Page z)) = ?R \<and> prv (node st5 (Page z)) = (?L, 0)"
    proof
      fix z assume "z \<in> set zs"
      then have z: "z = i + ?k" "n < slab ?q" by (auto simp: zs split: if_splits)
      have "z \<notin> set (xs @ ys)" using far(3) [of z] z by blast
      then have "Page z \<noteq> ?L" "Page z \<noteq> ?R" using L R by auto
      with z n(1) split [OF z(2)] show "nxt (node st5 (Page z)) = ?R \<and> prv (node st5 (Page z)) = (?L, 0)"
        by (simp add: n5 n4 n3 n2 n1 del: node.simps)
    qed
  qed (simp_all add: zs)
  have 2: "s_pages st5 ! i = run_page n"
    using n5 [OF vi] n4 [of "Page i"] by simp
  have 3: "s_pages st5 ! j = busy_page" if "i < j" "j < i + ?k" for j
    using n5 [of j] that fits by simp
  have sl3: "slab (node st3 r) = slab (node st1 r)" for r
    unfolding n3 n2 by (simp del: last.simps node.simps)
  have 4: "slab (s_pages st5 ! z) = slab ?q - n" if "z \<in> set zs" for z
  proof -
    from that have z: "z = i + ?k" "n < slab ?q" by (auto simp: zs split: if_splits)
    then have "node st5 (Page z) = node st3 (Page z)" using split [OF z(2)] n(1) by (simp add: n5 n4 del: node.simps)
    then show ?thesis using z sl3 [of "Page z"] n1 [of "Page z"] by simp
  qed
  have 5: "slab (s_pages st5 ! j) = slab (s_pages st ! j)" if "j \<in> set (xs @ ys)" for j
  proof -
    have "slab (node st3 (Page j)) = slab (node st (Page j))"
      using far(3) [OF that] by (auto simp add: sl3 n1 simp del: node.simps)
    with old [OF that] show ?thesis by simp
  qed
  have 6: "s_pages st5 ! j = s_pages st ! j"
    if "j < length (s_pages st)" "j < i \<or> i + ?k \<le> j" "j \<notin> set (xs @ zs @ ys)" for j
  proof -
    have "Page j \<noteq> ?L" "Page j \<noteq> ?R" "n < slab ?q \<longrightarrow> j \<noteq> i + ?k" using L R that(3) by (auto simp: zs)
    then have "node st5 (Page j) = node st (Page j)"
      using that n(1) by (simp add: n5 n4 n3 n2 n1 del: node.simps) auto
    then show ?thesis by simp
  qed
  have 7: "s_slots st5 = s_slots st"
  proof -
    have "s_slots (setn r f s) = s_slots s" if "r \<in> range Page \<union> {FreeHead}" for r f s
      using that by (auto simp: setn.simps)
    moreover have "?L \<in> range Page \<union> {FreeHead}" "?R \<in> range Page \<union> {FreeHead}" using L R by auto
    ultimately show ?thesis by (simp add: st5_def st4_def st3_def st2_def st1_def)
  qed
  have "s_bits st5 = s_bits st" "min_size st5 = min_size st" "min_shift st5 = min_shift st"
    "s_start st5 = s_start st" "s_end st5 = s_end st"
    by (simp_all add: st5_def st4_def st3_def st2_def st1_def)
  with take 1 2 3 4 5 6 7 len5(1) show ?thesis by blast
qed

section \<open>Allocating pages\<close>

lemma run_page_facts:
  assumes "0 < unat n" "unat n < 2 ^ 63 - 1"
  shows "prv (run_page n) = (Null, 0)" "nxt (run_page n) = Null" "run_ok (run_page n)"
    "slab (run_page n) AND NOT RP_SLAB_PAGE_START = n" "slab (run_page n) \<noteq> 0" "slab (run_page n) \<noteq> RP_SLAB_PAGE_BUSY"
proof -
  have "0 < n" using assms(1) by (simp add: word_less_nat_alt)
  with assms or_start [OF assms(2)] show "run_ok (run_page n)"
    unfolding run_ok_def run_page_def by (auto simp: slab_types intro!: exI [of _ n])
qed (use or_start [OF assms(2)] in \<open>simp_all add: run_page_def slab_types\<close>)

lemma run_ok_tails: "run_ok zero_page" "run_ok busy_page"
  by (simp_all add: run_ok_def tail_pages)

text \<open>What an allocation of pages changes.\<close>

definition pages_taken :: "slab_pool \<Rightarrow> slab_pool \<Rightarrow> nat \<Rightarrow> 64 word \<Rightarrow> bool" where
  "pages_taken st st' i n \<longleftrightarrow> i + unat n \<le> usable st \<and> s_pages st' ! i = run_page n \<and>
     length (s_pages st') = length (s_pages st) \<and> s_slots st' = s_slots st \<and> s_bits st' = s_bits st \<and>
     s_start st' = s_start st \<and> s_end st' = s_end st \<and> page_occ st i = {} \<and>
     (\<forall>j < length (s_pages st). j \<noteq> i \<longrightarrow> page_occ st' j = page_occ st j) \<and>
     (\<forall>j < length (s_pages st). snd (prv (s_pages st ! j)) \<noteq> 0 \<longrightarrow> j \<noteq> i \<and> s_pages st' ! j = s_pages st ! j)"

lemma take_run_ok:
  assumes inv: "slab_inv g sg st L {}" and LF: "L FreeHead = xs @ i # ys"
    and n: "0 < unat n" "n \<le> slab (s_pages st ! i)"
  shows "\<exists>st' F'. take_run i n st = Inr st' \<and> slab_inv g sg st' (L(FreeHead := F')) {} \<and> i \<notin> set F' \<and>
    pages_taken st st' i n"
proof -
  let ?S = "slot_lists L"
  define F where "F = L FreeHead"
  have F: "F = xs @ i # ys" by (simp add: F_def LF)
  let ?m = "unat (slab (s_pages st ! i))" and ?k = "unat n" and ?N = "length (s_pages st)"
  define zs where "zs = (if n < slab (s_pages st ! i) then [i + ?k] else [])"
  let ?F' = "xs @ zs @ ys"
  have geo: "geo g sg st" and d: "dll st FreeHead 0 F" and desc: "\<And>j. j < ?N \<Longrightarrow> desc_ok st F ?S j"
    and slots: "\<And>k. k < 9 \<Longrightarrow> dll st (Slot k) (slot_type k) (?S k) \<and> (\<forall>j \<in> set (?S k). page_slot (s_pages st ! j) = k)"
    and rings: "rings st L"
    using inv inv_rings [OF inv] by (auto simp: slab_inv_def F_def)
  have iF: "i \<in> set F" "i < ?N" and dist: "distinct F" and FN: "\<forall>j \<in> set F. j < ?N" using d F by (auto simp: dll_def)
  have li: "run_len F st i = ?m" using iF by (simp add: run_len_def)
  have km: "?k \<le> ?m" using n(2) by (simp add: word_le_nat_alt)
  from desc [OF iF(2)] have "?m \<le> usable st - i" and dt: "\<And>t. i < t \<Longrightarrow> t < i + ?m \<Longrightarrow> s_pages st ! t = zero_page"
    using iF(1) unfolding desc_ok_def li by auto
  then have du: "i + ?m \<le> usable st" using n(1) km by linarith
  then have "i + ?m \<le> ?N" using usable_le(1) [of st] by linarith
  note di = this dt
  have tailF: "t \<notin> set F" if "s_pages st ! t \<in> {zero_page, busy_page}" for t using tail_len(1) [OF d that] .
  have sep: "j < i \<or> i + ?m \<le> j" if "j \<in> set (xs @ ys)" for j
  proof (rule ccontr)
    assume a: "\<not> (j < i \<or> i + ?m \<le> j)"
    moreover have "j \<noteq> i" "j \<in> set F" using that dist F by auto
    ultimately show False using di(2) [of j] tailF [of j] by auto
  qed
  from take_run_state [OF d [unfolded F] n(1) km di(1), of] sep
  obtain st' where st': "take_run i n st = Inr st'" "dll st' FreeHead 0 ?F'" "length (s_pages st') = ?N" "s_slots st' = s_slots st"
    "s_bits st' = s_bits st" "min_size st' = min_size st" "min_shift st' = min_shift st" "s_start st' = s_start st"
    "s_end st' = s_end st" "s_pages st' ! i = run_page n" "\<And>j. i < j \<Longrightarrow> j < i + ?k \<Longrightarrow> s_pages st' ! j = busy_page"
    "\<And>z. z \<in> set zs \<Longrightarrow> slab (s_pages st' ! z) = slab (s_pages st ! i) - n"
    "\<And>j. j \<in> set (xs @ ys) \<Longrightarrow> slab (s_pages st' ! j) = slab (s_pages st ! j)"
    and same: "\<And>j. j < ?N \<Longrightarrow> j < i \<or> i + ?k \<le> j \<Longrightarrow> j \<notin> set ?F' \<Longrightarrow> s_pages st' ! j = s_pages st ! j"
    unfolding zs_def by blast
  have zs: "z = i + ?k" "?k < ?m" if "z \<in> set zs" for z using that by (auto simp: zs_def word_less_nat_alt split: if_splits)
  have F': "j \<in> set ?F' \<longleftrightarrow> j \<in> set F" if "j \<noteq> i" "j \<notin> set zs" for j using that by (auto simp: F)
  have iF': "i \<notin> set ?F'" using dist n(1) zs [of i] by (auto simp: F)
  have nn: "?k < 2 ^ 63 - 1" using km du pages_bound [of st] by simp
  note rp = run_page_facts [OF n(1) nn]
  have chunk: "j < i \<or> i + ?m \<le> j" "j \<notin> set F" if "snd (prv (s_pages st ! j)) \<noteq> 0" for j
  proof -
    show jF: "j \<notin> set F" using free_prv [OF d] that by auto
    show "j < i \<or> i + ?m \<le> j"
      using di(2) [of j] that jF iF(1)
      by (cases "j = i"; cases "j < i"; cases "j < i + ?m") (auto simp: tail_pages)
  qed
  have chunk_same: "j \<noteq> i \<and> s_pages st' ! j = s_pages st ! j" if "j < ?N" "snd (prv (s_pages st ! j)) \<noteq> 0" for j
  proof -
    from chunk [OF that(2)] km have c: "j \<noteq> i" "j < i \<or> i + ?k \<le> j" using iF(1) by auto
    moreover have "j \<notin> set zs" using chunk [OF that(2)] zs [of j] by auto
    ultimately show ?thesis using same [OF that(1)] F' [of j] chunk(2) [OF that(2)] by auto
  qed
  have geo': "geo g sg st'" using geo st'(3-9) by (simp add: geo_def)
  have us: "usable st' = usable st" by (rule usable_eq [OF st'(3,8,9)])
  have slots': "dll st' (Slot k) (slot_type k) (?S k) \<and> (\<forall>j \<in> set (?S k). page_slot (s_pages st' ! j) = k)" if "k < 9" for k
  proof -
    note sk = slots [OF that]
    have j: "s_pages st' ! j = s_pages st ! j" if "j \<in> set (?S k)" for j
      using chunk_same [of j] slot_prv [OF conjunct1 [OF sk] that] sk that by (auto simp: dll_def slot_type_pos)
    have "dll st' (Slot k) (slot_type k) (?S k)"
      using sk st'(3,4) j by (intro dll_frame [OF conjunct1 [OF sk]]) (auto simp: dll_def)
    with sk j show ?thesis by simp
  qed
  have desc': "desc_ok st' ?F' ?S j" if j: "j < ?N" for j
  proof -
    consider "j = i" | "i < j" "j < i + ?k" | "j \<in> set zs" | "j < i \<or> i + ?k \<le> j" "j \<noteq> i" "j \<notin> set zs"
      using n(1) by linarith
    then show ?thesis
    proof cases
      case 1
      have "run_len ?F' st' i = ?k" using iF' st'(10) rp by (simp add: run_len_def)
      then show ?thesis unfolding desc_ok_def using 1 iF' us st'(10,11) rp km du by auto
    next
      case 2
      have "j \<notin> set ?F'" using tailF [of j] di(2) [of j] 2 km F' [of j] zs [of j] by auto
      moreover have "run_len ?F' st' j = 0" using calculation st'(11) [OF 2] by (simp add: run_len_def tail_pages)
      ultimately show ?thesis unfolding desc_ok_def using j st'(11) [OF 2] run_ok_tails by (auto simp: tail_pages)
    next
      case 3
      have s: "unat (slab (s_pages st' ! j)) = ?m - ?k" using st'(12) [OF 3] n(2) by (simp add: unat_sub)
      then have len: "run_len ?F' st' j = ?m - ?k" using 3 by (simp add: run_len_def)
      have "s_pages st' ! t = zero_page" if "j < t" "t < j + (?m - ?k)" for t
      proof -
        have t: "i < t" "t < i + ?m" "i + ?k \<le> t" "t \<notin> set zs" using that zs [OF 3] zs [of t] by auto
        moreover have "t \<notin> set ?F'" using tailF [of t] di(2) [OF t(1,2)] F' [of t] t by auto
        ultimately show ?thesis using same [of t] di(2) [OF t(1,2)] di(1) by simp
      qed
      moreover have "slab (s_pages st' ! j) \<noteq> 0" using s zs(2) [OF 3] by auto
      ultimately show ?thesis unfolding desc_ok_def len using 3 zs [OF 3] du us by auto
    next
      case 4
      show ?thesis
      proof (rule desc_frame [OF desc [OF j] us])
        show jF: "j \<in> set ?F' \<longleftrightarrow> j \<in> set F" using F' 4 by blast
        have free: "s_pages st' ! j = s_pages st ! j" if "j \<notin> set F" using same [OF j 4(1)] jF that by auto
        then show "j \<notin> set F \<and> (\<forall>k < 9. j \<notin> set (?S k)) \<longrightarrow> s_pages st' ! j = s_pages st ! j" by simp
        show "slab (s_pages st' ! j) = slab (s_pages st ! j)" using free st'(13) [of j] 4 by (cases "j \<in> set F") (auto simp: F)
        show "snd (prv (s_pages st' ! j)) = snd (prv (s_pages st ! j))"
          using free jF free_prv [OF d, of j] free_prv [OF st'(2), of j] by (cases "j \<in> set F") auto
        show "s_bits st' j = s_bits st j" by (simp add: st'(5))
        show "\<forall>k < 9. j \<in> set (?S k) \<longrightarrow> fst (prv (s_pages st ! j)) \<noteq> Null"
          using slots slot_prv by blast
        show "\<forall>t. j < t \<and> t < j + run_len F st j \<longrightarrow> s_pages st' ! t = s_pages st ! t"
        proof (intro allI impI)
          fix t assume t: "j < t \<and> t < j + run_len F st j"
          with desc [OF j] usable_le(1) [of st] have tp: "s_pages st ! t \<in> {zero_page, busy_page}" "t < ?N"
            unfolding desc_ok_def by auto
          have "{i ..< i + ?m} \<inter> {j ..< j + run_len F st j} = {}"
            using runs_disjoint [OF d desc [OF iF(2)] desc [OF j]] 4(2) n(1) km t unfolding li by auto
          then have "t < i \<or> i + ?m \<le> t" using t by (metis IntI atLeastLessThan_iff emptyE less_imp_le not_le)
          moreover have "t \<notin> set zs" using zs [of t] calculation by auto
          moreover have "t \<noteq> i" using tailF [OF tp(1)] iF(1) by auto
          ultimately show "s_pages st' ! t = s_pages st ! t"
            using same [OF tp(2)] tailF [OF tp(1)] F' [of t] km by auto
        qed
      qed simp
    qed
  qed
  have occ: "page_occ st' j = page_occ st j" if j: "j < ?N" "j \<noteq> i" for j
  proof -
    consider "j \<in> set ?F'" | "i < j" "j < i + ?k" | "j < i \<or> i + ?k \<le> j" "j \<notin> set ?F'" using n(1) j(2) by linarith
    then show ?thesis
    proof cases
      case 1
      with free_prv [OF st'(2)] have "page_occ st' j = {}" by (intro page_occ_free) auto
      moreover have "page_occ st j = {}"
      proof (cases "j \<in> set zs")
        case True
        with di(2) [of j] zs [OF True] n(1) show ?thesis by (intro page_occ_tail) auto
      next
        case False
        with 1 F' [OF j(2)] free_prv [OF d] show ?thesis by (intro page_occ_free) auto
      qed
      ultimately show ?thesis by simp
    next
      case 2
      with st'(11) di(2) [of j] km page_occ_tail [of st j] page_occ_tail [of st' j] show ?thesis by auto
    next
      case 3
      with same [OF j(1)] st'(5,8) show ?thesis by (intro page_occ_frame) auto
    qed
  qed
  have "page_occ st i = {}" using free_prv [OF d iF(1)] by (intro page_occ_free) auto
  then have "pages_taken st st' i n"
    unfolding pages_taken_def using km du st' occ chunk_same by auto
  moreover have "rings st' (L(FreeHead := ?F'))"
  proof (rule rings_update [OF rings])
    show "dll st' FreeHead (ring_type FreeHead) ?F'" using st'(2) by simp
    show "dll st' t (ring_type t) (L t)" if "t \<in> heads" "t \<noteq> FreeHead" for t
      using slots' that by (auto simp: heads_def)
    fix j assume j: "j \<in> set ?F'"
    show "j \<in> set (L FreeHead) \<or> (\<forall>t \<in> heads. j \<notin> set (L t))"
    proof (cases "j \<in> set zs")
      case True
      have z: "s_pages st ! j = zero_page" using di(2) [of j] zs [OF True] n(1) by auto
      then have "j \<notin> set F" using tailF by simp
      moreover have "j \<notin> set (?S k)" if "k < 9" for k
        using slot_prv [OF conjunct1 [OF slots [OF that]], of j] z by (auto simp: tail_pages)
      ultimately show ?thesis by (auto simp: heads_def F_def)
    qed (use j in \<open>auto simp: LF\<close>)
  qed simp
  then have "slab_inv g sg st' (L(FreeHead := ?F')) {}"
    unfolding slab_inv_def using geo' st'(3) slots' desc' by auto
  ultimately show ?thesis using st'(1) iF' by blast
qed

lemma alloc_pages_ok:
  assumes inv: "slab_inv g sg st L {}" and n: "0 < unat n"
  shows "(rp_slab_alloc_pages st n = Some (Inr (None, st)) \<and> (\<forall>i \<in> set (L FreeHead). slab (s_pages st ! i) < n)) \<or>
    (\<exists>i st' F'. rp_slab_alloc_pages st n = Some (Inr (Some i, st')) \<and> slab_inv g sg st' (L(FreeHead := F')) {} \<and>
       i \<in> set (L FreeHead) \<and> i \<notin> set F' \<and> pages_taken st st' i n)"
proof -
  let ?F = "L FreeHead"
  note d = inv_rings(1) [OF inv]
  show ?thesis
  proof (cases "List.find (\<lambda>i. n \<le> slab (s_pages st ! i)) ?F")
    case None
    then have "\<forall>i \<in> set ?F. slab (s_pages st ! i) < n" by (auto simp: find_None_iff not_le)
    with None find_run_dll [OF d, of n] show ?thesis by (simp add: rp_slab_alloc_pages_def)
  next
    case (Some i)
    then have i: "n \<le> slab (s_pages st ! i)" "i \<in> set ?F" by (auto simp: find_Some_iff)
    then obtain xs ys where F: "?F = xs @ i # ys" by (auto dest: split_list)
    from take_run_ok [OF inv F n i(1)] find_run_dll [OF d, of n] Some i(2) show ?thesis
      by (auto simp: rp_slab_alloc_pages_def)
  qed
qed

end
