(* ===== verification/Slab_Free_Pages.thy ===== *)
theory Slab_Free_Pages
  imports Slab_Pages
begin

text \<open>
  Returning pages: \<open>rp_slab_free_pages\<close> takes a page out of the ring it is in, if any,
  clears the descriptors behind it and puts the run at the front of the free list.
\<close>

lemma rings_same:
  assumes r: "rings st L" and len: "length (s_pages st') = length (s_pages st)" "\<forall>r. valid st' r = valid st r"
    and hd: "\<forall>s \<in> heads. nxt (node st' s) = nxt (node st s)"
    and pgs: "\<forall>s \<in> heads. \<forall>j \<in> set (L s). nxt (node st' (Page j)) = nxt (node st (Page j)) \<and>
      prv (node st' (Page j)) = prv (node st (Page j))"
  shows "rings st' L"
proof -
  have "dll st' s (ring_type s) (L s)" if s: "s \<in> heads" for s
  proof (rule dll_frame [OF rings_dll [OF r s] len(1)])
    show "valid st' s" using rings_dll [OF r s] len(2) by (simp add: dll_def)
    show "nxt (node st' s) = nxt (node st s)" using hd s by blast
    show "\<forall>x \<in> set (L s). nxt (node st' (Page x)) = nxt (node st (Page x)) \<and> prv (node st' (Page x)) = prv (node st (Page x))"
      using pgs s by blast
  qed
  then show ?thesis using r unfolding rings_def by blast
qed

lemma ring_prv:
  assumes "rings st L" "s \<in> heads" "j \<in> set (L s)"
  shows "snd (prv (s_pages st ! j)) = ring_type s" "fst (prv (s_pages st ! j)) \<noteq> Null" "j < length (s_pages st)"
proof -
  note d = rings_dll [OF assms(1,2)]
  from dll_prv [OF d assms(3)] obtain b where b: "prv (node st (Page j)) = (b, ring_type s)" "b \<in> insert s (Page ` set (L s))"
    by blast
  then show "snd (prv (s_pages st ! j)) = ring_type s" by simp
  show "fst (prv (s_pages st ! j)) \<noteq> Null" using b assms(2) by (auto simp: heads_def)
  show "j < length (s_pages st)" using d assms(3) by (simp add: dll_def)
qed

text \<open>The ring that a page is taken out of, if it is in one.\<close>

definition taken_out :: "(pref \<Rightarrow> nat list) \<Rightarrow> nat \<Rightarrow> pref \<Rightarrow> nat list" where
  "taken_out L i = (\<lambda>s. if s \<in> heads then removeAll i (L s) else L s)"

lemma taken_out_none: "\<forall>s \<in> heads. i \<notin> set (L s) \<Longrightarrow> taken_out L i = L"
  by (auto simp: taken_out_def fun_eq_iff)

lemma taken_out_one:
  assumes "rings st L" "s \<in> heads" "L s = xs @ i # ys"
  shows "taken_out L i = L(s := xs @ ys)"
proof -
  have "distinct (xs @ i # ys)" using rings_dll [OF assms(1,2)] assms(3) by (simp add: dll_def)
  moreover have "i \<notin> set (L t)" if "t \<in> heads" "t \<noteq> s" for t
    using rings_disjoint [OF assms(1) that(1) assms(2)] that assms(3) by auto
  ultimately show ?thesis using assms(2,3) by (auto simp: taken_out_def fun_eq_iff)
qed

lemma taken_out_set [simp]: "s \<in> heads \<Longrightarrow> set (taken_out L i s) = set (L s) - {i}"
  by (simp add: taken_out_def)

text \<open>Unlinking in \<open>rp_slab_free_pages\<close> and in \<open>unlink_full\<close>.\<close>

definition unlink_at :: "nat \<Rightarrow> slab_pool \<Rightarrow> slab_pool" where
  "unlink_at i st = (let q = node st (Page i) in
     setn (nxt q) (prv_update (\<lambda>_. prv q)) (setn (fst (prv q)) (nxt_update (\<lambda>_. nxt q)) st))"

lemma unlink_at_fields [simp]:
  "length (s_pages (unlink_at i st)) = length (s_pages st)" "length (s_slots (unlink_at i st)) = length (s_slots st)"
  "min_size (unlink_at i st) = min_size st" "min_shift (unlink_at i st) = min_shift st"
  "s_start (unlink_at i st) = s_start st" "s_end (unlink_at i st) = s_end st" "s_bits (unlink_at i st) = s_bits st"
  "valid (unlink_at i st) r = valid st r"
  by (simp_all add: unlink_at_def Let_def)

lemma unlink_at_rings:
  assumes r: "rings st L" and s: "s \<in> heads" "i \<in> set (L s)"
  shows "rings (unlink_at i st) (taken_out L i)"
    "valid st (fst (prv (node st (Page i))))" "valid st (nxt (node st (Page i)))"
    "fst (prv (node st (Page i))) \<noteq> Page i" "nxt (node st (Page i)) \<noteq> Page i"
    "\<And>r. nxt (node (unlink_at i st) r) = (if r = fst (prv (node st (Page i))) then nxt (node st (Page i)) else nxt (node st r))"
    "\<And>r. prv (node (unlink_at i st) r) = (if r = nxt (node st (Page i)) then prv (node st (Page i)) else prv (node st r))"
    "\<And>r. slab (node (unlink_at i st) r) = slab (node st r)"
proof -
  from s(2) obtain xs ys where xy: "L s = xs @ i # ys" by (auto dest: split_list)
  have d: "dll st s (ring_type s) (xs @ i # ys)" using rings_dll [OF r s(1)] xy by simp
  note nb = dll_neighbours [OF d]
  have dist: "distinct (xs @ i # ys)" using d by (simp add: dll_def)
  show v: "valid st (fst (prv (node st (Page i))))" "valid st (nxt (node st (Page i)))"
    using nb by simp_all
  show "fst (prv (node st (Page i))) \<noteq> Page i" using dist heads_not_Page [OF s(1), of i] nb(1)
    by (cases xs rule: rev_cases) auto
  show "nxt (node st (Page i)) \<noteq> Page i" using dist heads_not_Page [OF s(1), of i] nb(2) by (cases ys) auto
  show nx: "nxt (node (unlink_at i st) r) = (if r = fst (prv (node st (Page i))) then nxt (node st (Page i)) else nxt (node st r))"
    and pv: "prv (node (unlink_at i st) r) = (if r = nxt (node st (Page i)) then prv (node st (Page i)) else prv (node st r))"
    and "slab (node (unlink_at i st) r) = slab (node st r)" for r
    unfolding unlink_at_def Let_def using v by (simp_all add: node_setn del: node.simps)
  have "rings (unlink_at i st) (L(s := xs @ ys))"
    by (rule rings_unlink [OF r s(1) xy]) (simp_all add: nx pv del: node.simps)
  then show "rings (unlink_at i st) (taken_out L i)" using taken_out_one [OF r s(1) xy] by simp
qed

text \<open>The steps of the code that add up to \<open>unlink_at\<close>.\<close>

lemma unlink_at_steps:
  fixes i st
  defines "q \<equiv> s_pages st ! i"
  defines "st3 \<equiv> setn (fst (prv q)) (nxt_update (\<lambda>_. nxt q)) st"
  assumes v: "i < length (s_pages st)" "valid st (fst (prv q))" "valid st (nxt q)" "fst (prv q) \<noteq> Page i"
  shows "upd (fst (prv q)) (nxt_update (\<lambda>_. nxt q)) st = Inr st3"
    "pg st3 (fst (prv q)) = Inr ((node st (fst (prv q)))\<lparr>nxt := nxt q\<rparr>)" "pg st3 (Page i) = Inr q"
    "upd (nxt q) (prv_update (\<lambda>_. prv q)) st3 = Inr (unlink_at i st)"
proof -
  have v3: "valid st3 r = valid st r" for r by (simp add: st3_def)
  have n3: "node st3 r = (if r = fst (prv q) then (node st r)\<lparr>nxt := nxt q\<rparr> else node st r)" for r
    using v(2) by (simp add: st3_def node_setn del: node.simps)
  show "upd (fst (prv q)) (nxt_update (\<lambda>_. nxt q)) st = Inr st3" using v(2) by (simp add: st3_def)
  show "pg st3 (fst (prv q)) = Inr ((node st (fst (prv q)))\<lparr>nxt := nxt q\<rparr>)"
    using v(2) by (simp add: v3 n3 del: node.simps)
  show "pg st3 (Page i) = Inr q" using v(1,4) n3 [of "Page i"] pg_valid [of st3 "Page i", unfolded v3] by (simp add: q_def)
  show "upd (nxt q) (prv_update (\<lambda>_. prv q)) st3 = Inr (unlink_at i st)"
    using v(3) by (simp add: v3 unlink_at_def Let_def st3_def q_def)
qed

text \<open>Pushing a page to the front of a ring.\<close>

definition push_at :: "pref \<Rightarrow> nat \<Rightarrow> slab_pool \<Rightarrow> slab_pool" where
  "push_at s i st =
     setn s (nxt_update (\<lambda>_. Page i)) (setn (nxt (node st s)) (prv_update (\<lambda>_. (Page i, ring_type s)))
       (setn (Page i) (\<lambda>q. q\<lparr>nxt := nxt (node st s), prv := (s, ring_type s)\<rparr>) st))"

lemma push_at_fields [simp]:
  "length (s_pages (push_at s i st)) = length (s_pages st)" "length (s_slots (push_at s i st)) = length (s_slots st)"
  "min_size (push_at s i st) = min_size st" "min_shift (push_at s i st) = min_shift st"
  "s_start (push_at s i st) = s_start st" "s_end (push_at s i st) = s_end st" "s_bits (push_at s i st) = s_bits st"
  "valid (push_at s i st) r = valid st r"
  by (simp_all add: push_at_def)

lemma push_at_rings:
  assumes r: "rings st L" and s: "s \<in> heads" and i: "\<forall>t \<in> heads. i \<notin> set (L t)" "i < length (s_pages st)"
  shows "rings (push_at s i st) (L(s := i # L s))"
    "valid st (nxt (node st s))" "nxt (node st s) \<noteq> Page i" "valid st s"
    "\<And>r. nxt (node (push_at s i st) r) = (if r = s then Page i else if r = Page i then nxt (node st s) else nxt (node st r))"
    "\<And>r. prv (node (push_at s i st) r) = (if r = Page i then (s, ring_type s)
      else if r = nxt (node st s) then (Page i, ring_type s) else prv (node st r))"
    "\<And>r. slab (node (push_at s i st) r) = slab (node st r)"
proof -
  note d = rings_dll [OF r s]
  note f = dll_first [OF d]
  have "i \<notin> set (L s)" using i(1) s by blast
  then show ne: "nxt (node st s) \<noteq> Page i" unfolding f using heads_not_Page [OF s, of i] by (cases "L s") auto
  show v: "valid st (nxt (node st s))" "valid st s" using d unfolding f by (cases "L s"; simp add: dll_def)+
  have vi: "valid st (Page i)" using i(2) by simp
  show nx: "nxt (node (push_at s i st) r) = (if r = s then Page i else if r = Page i then nxt (node st s) else nxt (node st r))"
    and pv: "prv (node (push_at s i st) r) = (if r = Page i then (s, ring_type s)
      else if r = nxt (node st s) then (Page i, ring_type s) else prv (node st r))"
    and "slab (node (push_at s i st) r) = slab (node st r)" for r
    unfolding push_at_def using v vi ne heads_not_Page [OF s, of i] by (simp_all add: node_setn del: node.simps valid.simps)
  show "rings (push_at s i st) (L(s := i # L s))"
    by (rule rings_push [OF r s i]) (simp_all add: nx pv del: node.simps)
qed

text \<open>The links of a page in a ring, and of a head, stay in that ring.\<close>

lemma ring_links:
  assumes "rings st L" "s \<in> heads"
  shows "i \<in> set (L s) \<Longrightarrow> fst (prv (node st (Page i))) \<in> insert s (Page ` set (L s))"
    "i \<in> set (L s) \<Longrightarrow> nxt (node st (Page i)) \<in> insert s (Page ` set (L s))"
    "nxt (node st s) \<in> insert s (Page ` set (L s))"
proof -
  note d = rings_dll [OF assms]
  show "fst (prv (node st (Page i))) \<in> insert s (Page ` set (L s))" if "i \<in> set (L s)"
    using dll_prv [OF d that] by auto
  show "nxt (node st (Page i)) \<in> insert s (Page ` set (L s))" if i: "i \<in> set (L s)"
  proof -
    from i obtain xs ys where xy: "L s = xs @ i # ys" by (auto dest: split_list)
    from dll_neighbours(2) [OF d [unfolded xy]] show ?thesis by (cases ys) (auto simp: xy)
  qed
  show "nxt (node st s) \<in> insert s (Page ` set (L s))"
    using dll_first [OF d] by (cases "L s") auto
qed

lemma page_eqI: "nxt q = nxt p \<Longrightarrow> prv q = prv p \<Longrightarrow> slab q = slab p \<Longrightarrow> q = (p :: slab_page)"
  by simp

lemma unlink_at_other:
  assumes "rings st L" "s \<in> heads" "i \<in> set (L s)" "j \<notin> set (L s)"
  shows "s_pages (unlink_at i st) ! j = s_pages st ! j"
proof -
  have "Page j \<noteq> fst (prv (node st (Page i)))" "Page j \<noteq> nxt (node st (Page i))"
    using ring_links(1,2) [OF assms(1,2,3)] assms(4) heads_not_Page [OF assms(2), of j] by auto
  with unlink_at_rings(6-8) [OF assms(1-3), of "Page j"] show ?thesis by (intro page_eqI) simp_all
qed

lemma unlink_at_self:
  assumes "rings st L" "s \<in> heads" "i \<in> set (L s)"
  shows "s_pages (unlink_at i st) ! i = s_pages st ! i"
proof -
  note u = unlink_at_rings [OF assms]
  from u(4,5) u(6-8) [of "Page i"] show ?thesis by (intro page_eqI) (auto split: if_splits)
qed

lemma push_at_other:
  assumes "rings st L" "s \<in> heads" "\<forall>t \<in> heads. i \<notin> set (L t)" "i < length (s_pages st)" "j \<notin> set (L s)" "j \<noteq> i"
  shows "s_pages (push_at s i st) ! j = s_pages st ! j"
proof -
  have "Page j \<noteq> nxt (node st s)" "Page j \<noteq> s"
    using ring_links(3) [OF assms(1,2)] assms(5) heads_not_Page [OF assms(2), of j] by auto
  with push_at_rings(5-7) [OF assms(1-4), of "Page j"] assms(6) show ?thesis by (intro page_eqI) simp_all
qed

section \<open>Freeing\<close>

definition cleared :: "nat \<Rightarrow> 64 word \<Rightarrow> slab_pool \<Rightarrow> slab_pool" where
  "cleared i n st = fill (i + 1) (unat n - 1) zero_page (setn (Page i) (slab_update (\<lambda>_. n)) st)"

lemma cleared_fields [simp]:
  "length (s_pages (cleared i n st)) = length (s_pages st)" "length (s_slots (cleared i n st)) = length (s_slots st)"
  "min_size (cleared i n st) = min_size st" "min_shift (cleared i n st) = min_shift st"
  "s_start (cleared i n st) = s_start st" "s_end (cleared i n st) = s_end st" "s_bits (cleared i n st) = s_bits st"
  "valid (cleared i n st) r = valid st r"
  by (simp_all add: cleared_def)

lemma cleared_page:
  assumes "i < length (s_pages st)" "j < length (s_pages st)" "0 < unat n"
  shows "s_pages (cleared i n st) ! j = (if j = i then (s_pages st ! i)\<lparr>slab := n\<rparr>
    else if i < j \<and> j < i + unat n then zero_page else s_pages st ! j)"
  using assms by (auto simp: cleared_def setn.simps nth_list_update)

lemma cleared_head: "s \<in> heads \<Longrightarrow> node (cleared i n st) s = node st s"
  by (auto simp: heads_def cleared_def setn.simps)

lemma free_pages_state:
  assumes r: "rings st L" and i: "0 < unat n" "i + unat n \<le> length (s_pages st)"
    and tails: "\<forall>t. i < t \<and> t < i + unat n \<longrightarrow> fst (prv (s_pages st ! t)) = Null"
    and own: "nxt (s_pages st ! i) \<noteq> Null \<longleftrightarrow> (\<exists>s \<in> heads. i \<in> set (L s))"
  defines "L1 \<equiv> taken_out L i"
  defines "st1 \<equiv> (if nxt (s_pages st ! i) \<noteq> Null then unlink_at i (cleared i n st) else cleared i n st)"
  shows "rp_slab_free_pages i n st = Inr (push_at FreeHead i st1)"
    "rings (push_at FreeHead i st1) (L1(FreeHead := i # L1 FreeHead))"
    "\<And>j. j < length (s_pages st) \<Longrightarrow> slab (s_pages (push_at FreeHead i st1) ! j) =
      (if j = i then n else if i < j \<and> j < i + unat n then 0 else slab (s_pages st ! j))"
    "\<And>t. i < t \<Longrightarrow> t < i + unat n \<Longrightarrow> s_pages (push_at FreeHead i st1) ! t = zero_page"
    "\<And>j. j < length (s_pages st) \<Longrightarrow> j < i \<or> i + unat n \<le> j \<Longrightarrow> \<forall>s \<in> heads. j \<notin> set (L s) \<Longrightarrow>
      s_pages (push_at FreeHead i st1) ! j = s_pages st ! j"
proof -
  let ?N = "length (s_pages st)" and ?k = "unat n" and ?st2 = "cleared i n st"
  have vi: "i < ?N" using i by simp
  have k1: "unat (n - 1) = ?k - 1" using i(1) by (metis unat_gt_0 unat_minus_one)
  note cp = cleared_page [OF vi _ i(1)]
  have ringN: "j < ?N" "\<not> (i < j \<and> j < i + ?k)" if "s \<in> heads" "j \<in> set (L s)" for s j
    using ring_prv(2,3) [OF r that] tails by auto
  have r2: "rings ?st2 L"
  proof (rule rings_same [OF r])
    show "\<forall>s \<in> heads. nxt (node ?st2 s) = nxt (node st s)" by (simp add: cleared_head)
    show "\<forall>s \<in> heads. \<forall>j \<in> set (L s). nxt (node ?st2 (Page j)) = nxt (node st (Page j)) \<and>
        prv (node ?st2 (Page j)) = prv (node st (Page j))"
    proof (intro ballI)
      fix s j assume sj: "s \<in> heads" "j \<in> set (L s)"
      from cp [OF ringN(1) [OF sj]] ringN(2) [OF sj]
      show "nxt (node ?st2 (Page j)) = nxt (node st (Page j)) \<and> prv (node ?st2 (Page j)) = prv (node st (Page j))"
        by auto
    qed
  qed simp_all
  have qi: "nxt (s_pages ?st2 ! i) = nxt (s_pages st ! i)" "prv (s_pages ?st2 ! i) = prv (s_pages st ! i)"
    using cp [OF vi] by simp_all
  have r1: "rings st1 L1" and v1: "valid st1 = valid st" and f1: "length (s_pages st1) = ?N"
    and s1: "slab (node st1 r) = slab (node ?st2 r)"
    and o1: "\<forall>s \<in> heads. j \<notin> set (L s) \<Longrightarrow> s_pages st1 ! j = s_pages ?st2 ! j" for r j
  proof -
    show "valid st1 = valid st" "length (s_pages st1) = ?N" by (simp_all add: st1_def fun_eq_iff)
    show "rings st1 L1" "slab (node st1 r) = slab (node ?st2 r)"
      "\<forall>s \<in> heads. j \<notin> set (L s) \<Longrightarrow> s_pages st1 ! j = s_pages ?st2 ! j"
      using own r2 unlink_at_rings(1,8) [OF r2] unlink_at_other [OF r2] taken_out_none [of i L]
      by (auto simp: st1_def L1_def simp del: node.simps)
  qed
  have iL1: "\<forall>t \<in> heads. i \<notin> set (L1 t)" by (simp add: L1_def)
  note p = push_at_rings [OF r1 free_head iL1 vi [folded f1]]
  show "rings (push_at FreeHead i st1) (L1(FreeHead := i # L1 FreeHead))" by (rule p(1))
  show sl: "slab (s_pages (push_at FreeHead i st1) ! j) =
      (if j = i then n else if i < j \<and> j < i + ?k then 0 else slab (s_pages st ! j))" if "j < ?N" for j
    using p(7) [of "Page j"] s1 [of "Page j"] cp [OF that] by (simp add: tail_pages)
  have other: "s_pages (push_at FreeHead i st1) ! j = s_pages ?st2 ! j" if "\<forall>s \<in> heads. j \<notin> set (L s)" "j \<noteq> i" for j
    using push_at_other [OF r1 free_head iL1 vi [folded f1] _ that(2)] o1 [OF that(1)] that(1) by (simp add: L1_def)
  show "s_pages (push_at FreeHead i st1) ! t = zero_page" if "i < t" "t < i + ?k" for t
    using other [of t] ringN(2) [of _ t] that cp [of t] i(2) by auto
  show "s_pages (push_at FreeHead i st1) ! j = s_pages st ! j"
    if "j < ?N" "j < i \<or> i + ?k \<le> j" "\<forall>s \<in> heads. j \<notin> set (L s)" for j
    using other [OF that(3)] cp [OF that(1)] that(2) i(1) by auto
  show "rp_slab_free_pages i n st = Inr (push_at FreeHead i st1)"
  proof -
    have clear: "clear_pages (i + 1) (unat (n - 1)) (setn (Page i) (slab_update (\<lambda>_. n)) st) = Inr ?st2"
      using i by (simp only: k1) (simp add: clear_pages_fill cleared_def)
    have st4: "(if nxt (s_pages ?st2 ! i) \<noteq> Null then
         res_bind (upd (fst (prv (s_pages ?st2 ! i))) (nxt_update (\<lambda>_. nxt (s_pages ?st2 ! i))) ?st2) (\<lambda>st3.
         res_bind (pg st3 (fst (prv (s_pages ?st2 ! i)))) (\<lambda>r.
         res_bind (pg st3 (Page i)) (\<lambda>q3.
         upd (nxt r) (prv_update (\<lambda>_. prv q3)) st3)))
       else Inr ?st2) = Inr st1"
    proof (cases "nxt (s_pages st ! i) = Null")
      case False
      with own obtain s where s: "s \<in> heads" "i \<in> set (L s)" by blast
      note u = unlink_at_rings(2-5) [OF r2 s]
      from u have "valid ?st2 (fst (prv (s_pages ?st2 ! i)))" "valid ?st2 (nxt (s_pages ?st2 ! i))"
        "fst (prv (s_pages ?st2 ! i)) \<noteq> Page i" "i < length (s_pages ?st2)" using vi by simp_all
      note w = unlink_at_steps [OF this(4,1-3)]
      have "nxt (s_pages ?st2 ! i) \<noteq> Null" using False qi(1) by simp
      with False show ?thesis by (simp add: w st1_def del: valid.simps)
    qed (simp add: qi st1_def)
    define st5 where "st5 = setn (Page i) (\<lambda>q. q\<lparr>nxt := nxt (s_free st1), prv := (FreeHead, 0)\<rparr>) st1"
    have v5: "valid st5 (Page i)" "valid st5 (nxt (s_free st1))" "valid st1 (Page i)" using vi f1 p(2) by (simp_all add: st5_def)
    have sw: "(\<lambda>q. q\<lparr>prv := (FreeHead, 0), nxt := x\<rparr>) = (\<lambda>q. q\<lparr>nxt := x, prv := (FreeHead, 0)\<rparr> :: slab_page)" for x
      by (rule ext, rule page_eqI) simp_all
    have "upd (Page i) (\<lambda>q. q\<lparr>prv := (FreeHead, 0), nxt := nxt (s_free st1)\<rparr>) st1 = Inr st5"
      using v5(3) by (simp only: upd_valid sw st5_def)
    moreover have "pg st5 (Page i) = Inr ((s_pages st1 ! i)\<lparr>nxt := nxt (s_free st1), prv := (FreeHead, 0)\<rparr>)"
      using v5 by (simp add: st5_def node_setn del: valid.simps node.simps) simp
    ultimately have push: "res_bind (upd (Page i) (\<lambda>q. q\<lparr>prv := (FreeHead, 0), nxt := nxt (s_free st1)\<rparr>) st1) (\<lambda>st5.
       res_bind (pg st5 (Page i)) (\<lambda>q5.
       res_bind (upd (nxt q5) (prv_update (\<lambda>_. (Page i, 0))) st5) (\<lambda>st6.
       upd FreeHead (nxt_update (\<lambda>_. Page i)) st6))) = Inr (push_at FreeHead i st1)"
      using v5 by (simp add: push_at_def st5_def del: valid.simps(4)) 
    show ?thesis
      using vi clear st4 push v1 by (simp add: rp_slab_free_pages_def)
  qed
qed

text \<open>
  A run that no other descriptor speaks for goes back to the free list: the invariant holds
  again for all pages, the bytes of every other page stay as they were.
\<close>

definition freed_lists :: "(pref \<Rightarrow> nat list) \<Rightarrow> nat \<Rightarrow> pref \<Rightarrow> nat list" where
  "freed_lists L i = (taken_out L i)(FreeHead := i # taken_out L i FreeHead)"

lemma freed_lists_set: "s \<in> heads \<Longrightarrow> set (freed_lists L i s) = (if s = FreeHead then insert i (set (L s)) else set (L s) - {i})"
  by (auto simp: freed_lists_def)

lemma free_pages_ok:
  assumes inv: "slab_inv g sg st L {i}" and n: "0 < unat n" "i + unat n \<le> usable st"
    and tails: "\<forall>t. i < t \<and> t < i + unat n \<longrightarrow> s_pages st ! t \<in> {zero_page, busy_page}"
    and own: "nxt (s_pages st ! i) \<noteq> Null \<longleftrightarrow> (\<exists>s \<in> heads. i \<in> set (L s))"
    and sep: "\<forall>j < length (s_pages st). j \<noteq> i \<longrightarrow> {j ..< j + run_len (L FreeHead) st j} \<inter> {i ..< i + unat n} = {}"
  shows "\<exists>st'. rp_slab_free_pages i n st = Inr st' \<and> slab_inv g sg st' (freed_lists L i) {} \<and>
    length (s_pages st') = length (s_pages st) \<and> s_start st' = s_start st \<and> s_end st' = s_end st \<and> s_bits st' = s_bits st \<and>
    page_occ st' i = {} \<and> (\<forall>j < length (s_pages st). j \<noteq> i \<longrightarrow> page_occ st' j = page_occ st j)"
proof -
  let ?N = "length (s_pages st)" and ?k = "unat n" and ?L' = "freed_lists L i"
  have r: "rings st L" and geo: "geo g sg st" using inv by (simp_all add: slab_inv_def)
  have i: "0 < ?k" "i + ?k \<le> ?N" using n usable_le(1) [of st] by linarith+
  have null: "\<forall>t. i < t \<and> t < i + ?k \<longrightarrow> fst (prv (s_pages st ! t)) = Null" using tails by (auto simp: tail_pages)
  define st' where "st' = push_at FreeHead i (if nxt (s_pages st ! i) \<noteq> Null then unlink_at i (cleared i n st) else cleared i n st)"
  note f = free_pages_state [OF r i null own, folded st'_def]
  have r': "rings st' ?L'" using f(2) by (simp add: freed_lists_def)
  have fields: "length (s_pages st') = ?N" "s_start st' = s_start st" "s_end st' = s_end st" "s_bits st' = s_bits st"
    "min_size st' = min_size st" "min_shift st' = min_shift st" "length (s_slots st') = length (s_slots st)"
    by (simp_all add: st'_def)
  have geo': "geo g sg st'" using geo by (simp add: geo_def fields)
  have us: "usable st' = usable st" by (rule usable_eq [OF fields(1-3)])
  have ring': "j \<in> set (?L' s)" if "s \<in> heads" "j \<in> set (L s)" "j \<noteq> i" for s j
    using that by (auto simp: freed_lists_set)
  have prv: "snd (prv (s_pages st' ! j)) = snd (prv (s_pages st ! j))"
    "fst (prv (s_pages st' ! j)) = Null \<longleftrightarrow> fst (prv (s_pages st ! j)) = Null"
    if j: "j < ?N" "j < i \<or> i + ?k \<le> j" for j
  proof -
    have ji: "j \<noteq> i" using j(2) i(1) by auto
    have "snd (prv (s_pages st' ! j)) = snd (prv (s_pages st ! j)) \<and>
      (fst (prv (s_pages st' ! j)) = Null \<longleftrightarrow> fst (prv (s_pages st ! j)) = Null)"
    proof (cases "\<exists>s \<in> heads. j \<in> set (L s)")
      case True
      then obtain s where s: "s \<in> heads" "j \<in> set (L s)" by blast
      from ring_prv(1,2) [OF r s] ring_prv(1,2) [OF r' s(1) ring' [OF s ji]] show ?thesis by simp
    next
      case False
      then show ?thesis using f(5) [OF j] by simp
    qed
    then show "snd (prv (s_pages st' ! j)) = snd (prv (s_pages st ! j))"
      "fst (prv (s_pages st' ! j)) = Null \<longleftrightarrow> fst (prv (s_pages st ! j)) = Null" by blast+
  qed
  have sl: "slab (s_pages st' ! j) = slab (s_pages st ! j)" if "j < ?N" "j < i \<or> i + ?k \<le> j" for j
    using f(3) [OF that(1)] that(2) i(1) by auto
  have ringout: "j < ?N" "j < i \<or> i + ?k \<le> j" if "s \<in> heads" "j \<in> set (L s)" "j \<noteq> i" for s j
    using ring_prv(2,3) [OF r that(1,2)] null [rule_format, of j] that(3) by (simp, linarith)
  have tailL: "t \<notin> set (L s)" if "s \<in> heads" "s_pages st ! t \<in> {zero_page, busy_page}" for s t
    using ring_prv(2) [OF r that(1), of t] that(2) by (auto simp: tail_pages)
  have desc': "desc_ok st' (?L' FreeHead) (slot_lists ?L') j" if j: "j < ?N" for j
  proof -
    consider "j = i" | "i < j" "j < i + ?k" | "j < i \<or> i + ?k \<le> j" "j \<noteq> i" using i(1) by linarith
    then show ?thesis
    proof cases
      case 1
      have len: "run_len (?L' FreeHead) st' i = ?k" using f(3) [of i] i by (simp add: run_len_def freed_lists_def)
      have "slab (s_pages st' ! i) \<noteq> 0" using f(3) [of i] i by auto
      then show ?thesis unfolding desc_ok_def 1 len using f(4) n us by (auto simp: freed_lists_def)
    next
      case 2
      note z = f(4) [OF 2]
      have "j \<notin> set (?L' FreeHead)" using ring_prv(2) [OF r' free_head, of j] z by (auto simp: tail_pages)
      moreover have "run_len (?L' FreeHead) st' j = 0" using calculation z by (simp add: run_len_def tail_pages)
      ultimately show ?thesis unfolding desc_ok_def using z j fields(1) by (auto simp: tail_pages run_ok_def)
    next
      case 3
      have ok: "desc_ok st (L FreeHead) (slot_lists L) j" using inv j 3(2) by (simp add: slab_inv_def)
      show ?thesis
      proof (rule desc_frame [OF ok us])
        show "j \<in> set (?L' FreeHead) \<longleftrightarrow> j \<in> set (L FreeHead)" using 3(2) by (simp add: freed_lists_set)
        show "slab (s_pages st' ! j) = slab (s_pages st ! j)" using sl [OF j 3(1)] .
        show "snd (prv (s_pages st' ! j)) = snd (prv (s_pages st ! j))" using prv [OF j 3(1)] by blast
        show "s_bits st' j = s_bits st j" by (simp add: fields)
        show "\<forall>k < 9. j \<in> set (L (Slot k)) \<longrightarrow> j \<in> set (?L' (Slot k))" using ring' 3(2) by simp
        show "\<forall>k < 9. j \<in> set (L (Slot k)) \<longrightarrow> fst (prv (s_pages st ! j)) \<noteq> Null" using ring_prv(2) [OF r] slot_head by blast
        show "j \<notin> set (L FreeHead) \<and> (\<forall>k < 9. j \<notin> set (L (Slot k))) \<longrightarrow> s_pages st' ! j = s_pages st ! j"
          using f(5) [OF j 3(1)] by (auto simp: heads_def)
        show "\<forall>t. j < t \<and> t < j + run_len (L FreeHead) st j \<longrightarrow> s_pages st' ! t = s_pages st ! t"
        proof (intro allI impI)
          fix t assume t: "j < t \<and> t < j + run_len (L FreeHead) st j"
          with ok usable_le(1) [of st] have tp: "s_pages st ! t \<in> {zero_page, busy_page}" "t < ?N"
            unfolding desc_ok_def by auto
          have "t \<notin> {i ..< i + ?k}" using sep [rule_format, OF j 3(2)] t by auto
          then have out: "t < i \<or> i + ?k \<le> t" by auto
          show "s_pages st' ! t = s_pages st ! t" using f(5) [OF tp(2) out] tailL [OF _ tp(1)] by blast
        qed
      qed
    qed
  qed
  have slot: "page_slot (s_pages st' ! j) = k" if kj: "k < 9" "j \<in> set (?L' (Slot k))" for k j
  proof -
    have j: "j \<in> set (L (Slot k))" "j \<noteq> i" using kj by (auto simp: freed_lists_set)
    have k: "Slot k \<in> heads" using kj(1) by simp
    note out = ringout [OF k j]
    have "page_slot (s_pages st ! j) = k" using inv kj(1) j(1) by (simp add: slab_inv_def)
    then show ?thesis using page_slot_frame [OF sl [OF out] prv(1) [OF out]] by simp
  qed
  have occ: "page_occ st' j = page_occ st j" if j: "j < ?N" "j \<noteq> i" for j
  proof (cases "i < j \<and> j < i + ?k")
    case True
    with f(4) [of j] tails page_occ_tail [of st j] page_occ_tail [of st' j] show ?thesis by auto
  next
    case False
    then have out: "j < i \<or> i + ?k \<le> j" using j(2) by auto
    show ?thesis using sl [OF j(1) out] prv [OF j(1) out] fields by (intro page_occ_frame) auto
  qed
  have "i \<in> set (?L' FreeHead)" by (simp add: freed_lists_def)
  then have "page_occ st' i = {}" using ring_prv(1,2) [OF r' free_head, of i] by (intro page_occ_free) auto
  moreover have "slab_inv g sg st' ?L' {}"
    unfolding slab_inv_def using geo' r' slot desc' fields(1) by auto
  ultimately show ?thesis using f(1) fields occ by (auto simp: st'_def)
qed

end
