(* ===== verification/Slab_Chunks.thy ===== *)
theory Slab_Chunks
  imports Slab_Free_Pages
begin

text \<open>
  Pages that are cut into chunks: what it takes for the invariant to hold again after the
  map or the links of one page have changed, the bits of the three kinds of map, and the
  steps of the code that take a chunk and give one back.
\<close>

section \<open>Changing one page\<close>

lemma page_update:
  assumes inv: "slab_inv g sg st L {i}"
    and n: "i < usable st" and i: "s_pages st ! i \<notin> {zero_page, busy_page}" "i \<notin> set (L FreeHead)"
    and len: "length (s_pages st') = length (s_pages st)" and geo': "geo g sg st'" and start: "s_start st' = s_start st" "s_end st' = s_end st"
    and r': "rings st' L'" and lists: "\<forall>s \<in> heads. \<forall>j. j \<noteq> i \<longrightarrow> (j \<in> set (L' s) \<longleftrightarrow> j \<in> set (L s))"
    and same: "\<forall>j. j \<noteq> i \<longrightarrow> slab (s_pages st' ! j) = slab (s_pages st ! j) \<and> s_bits st' j = s_bits st j"
    and out: "\<forall>j. j \<noteq> i \<longrightarrow> (\<forall>s \<in> heads. j \<notin> set (L s)) \<longrightarrow> s_pages st' ! j = s_pages st ! j"
    and i': "snd (prv (s_pages st' ! i)) \<noteq> 0" "\<forall>k < 9. i \<in> set (L' (Slot k)) \<longrightarrow> page_slot (s_pages st' ! i) = k"
  shows "slab_inv g sg st' L' {i}" "\<forall>j < length (s_pages st). j \<noteq> i \<longrightarrow> page_occ st' j = page_occ st j"
    "chunk_ok st' (slot_lists L') i \<Longrightarrow> slab_inv g sg st' L' {}"
    "\<forall>j < length (s_pages st). j \<noteq> i \<longrightarrow> run_len (L' FreeHead) st' j = run_len (L FreeHead) st j"
proof -
  let ?N = "length (s_pages st)"
  have r: "rings st L" using inv by (simp add: slab_inv_def)
  have us: "usable st' = usable st" by (rule usable_eq [OF len start])
  have prv: "snd (prv (s_pages st' ! j)) = snd (prv (s_pages st ! j)) \<and>
      (fst (prv (s_pages st' ! j)) = Null \<longleftrightarrow> fst (prv (s_pages st ! j)) = Null)" if "j \<noteq> i" for j
  proof (cases "\<exists>s \<in> heads. j \<in> set (L s)")
    case True
    then obtain s where s: "s \<in> heads" "j \<in> set (L s)" by blast
    then have "j \<in> set (L' s)" using lists that by blast
    from ring_prv(1,2) [OF r s] ring_prv(1,2) [OF r' s(1) this] show ?thesis by simp
  next
    case False
    then show ?thesis using out that by simp
  qed
  have iF: "i \<notin> set (L' FreeHead)" using ring_prv(1) [OF r' free_head, of i] i'(1) by auto
  show "\<forall>j < ?N. j \<noteq> i \<longrightarrow> run_len (L' FreeHead) st' j = run_len (L FreeHead) st j"
    using prv same lists free_head by (simp add: run_len_def Let_def)
  have desc: "desc_ok st' (L' FreeHead) (slot_lists L') j" if j: "j < ?N" "j \<noteq> i" for j
  proof -
    have ok: "desc_ok st (L FreeHead) (slot_lists L) j" using inv j by (simp add: slab_inv_def)
    show ?thesis
    proof (rule desc_frame [OF ok us])
      show "j \<in> set (L' FreeHead) \<longleftrightarrow> j \<in> set (L FreeHead)" using lists j(2) free_head by blast
      show "slab (s_pages st' ! j) = slab (s_pages st ! j)" "s_bits st' j = s_bits st j" using same j(2) by simp_all
      show "snd (prv (s_pages st' ! j)) = snd (prv (s_pages st ! j))" using prv j(2) by blast
      show "\<forall>k < 9. j \<in> set (L (Slot k)) \<longrightarrow> j \<in> set (L' (Slot k))" using lists j(2) slot_head by blast
      show "\<forall>k < 9. j \<in> set (L (Slot k)) \<longrightarrow> fst (prv (s_pages st ! j)) \<noteq> Null"
        using ring_prv(2) [OF r] slot_head by blast
      show "j \<notin> set (L FreeHead) \<and> (\<forall>k < 9. j \<notin> set (L (Slot k))) \<longrightarrow> s_pages st' ! j = s_pages st ! j"
        using out j(2) by (auto simp: heads_def)
      show "\<forall>t. j < t \<and> t < j + run_len (L FreeHead) st j \<longrightarrow> s_pages st' ! t = s_pages st ! t"
      proof (intro allI impI)
        fix t assume t: "j < t \<and> t < j + run_len (L FreeHead) st j"
        with ok have tp: "s_pages st ! t \<in> {zero_page, busy_page}" unfolding desc_ok_def by auto
        then have "t \<noteq> i" using i(1) by blast
        moreover have "\<forall>s \<in> heads. t \<notin> set (L s)" using ring_prv(2) [OF r, of _ t] tp by (auto simp: tail_pages)
        ultimately show "s_pages st' ! t = s_pages st ! t" using out by blast
      qed
    qed
  qed
  have slot: "page_slot (s_pages st' ! j) = k" if k: "k < 9" "j \<in> set (L' (Slot k))" for k j
  proof (cases "j = i")
    case True
    with i'(2) k show ?thesis by blast
  next
    case False
    then have "j \<in> set (L (Slot k))" using lists k slot_head by blast
    then have "page_slot (s_pages st ! j) = k" using inv k(1) by (simp add: slab_inv_def)
    moreover have "page_slot (s_pages st' ! j) = page_slot (s_pages st ! j)"
      using same prv False by (intro page_slot_frame) blast+
    ultimately show ?thesis by simp
  qed
  show "slab_inv g sg st' L' {i}" unfolding slab_inv_def using geo' r' slot desc len by auto
  show "\<forall>j < ?N. j \<noteq> i \<longrightarrow> page_occ st' j = page_occ st j"
  proof (intro allI impI)
    fix j assume "j < ?N" "j \<noteq> i"
    then show "page_occ st' j = page_occ st j" using same prv start(1) by (intro page_occ_frame) blast+
  qed
  show "slab_inv g sg st' L' {}" if ok: "chunk_ok st' (slot_lists L') i"
  proof -
    have "run_len (L' FreeHead) st' i = 1" using iF i'(1) by (simp add: run_len_def)
    then have "desc_ok st' (L' FreeHead) (slot_lists L') i" using iF i' n ok us by (auto simp: desc_ok_def)
    then have "desc_ok st' (L' FreeHead) (slot_lists L') j" if "j < ?N" for j
      using desc [OF that] by (cases "j = i") auto
    then show ?thesis unfolding slab_inv_def using geo' r' slot len by auto
  qed
qed

section \<open>The three kinds of map\<close>

definition map_ok :: "slab_pool \<Rightarrow> nat \<Rightarrow> nat \<Rightarrow> bool" where
  "map_ok st i k \<longleftrightarrow> (let q = s_pages st ! i in
     k < 9 \<and> snd (prv q) = slot_type k \<and> page_slot q = k \<and>
     (snd (prv q) = RP_SLAB_SMALL \<longrightarrow> slab q = of_nat (k + 3)) \<and>
     (snd (prv q) = RP_SLAB_BIG \<longrightarrow> slab q AND RP_SLAB_SHIFT_MASK = of_nat (k + 3) \<and>
        (\<forall>b. bit (slab q) b \<longrightarrow> b < 4 \<or> 32 \<le> b \<and> b < 32 + chunk_count k)))"

definition is_full :: "slab_pool \<Rightarrow> nat \<Rightarrow> nat \<Rightarrow> bool" where
  "is_full st i k \<longleftrightarrow> (\<forall>c < chunk_count k. used st i c)"

definition in_use :: "slab_pool \<Rightarrow> nat \<Rightarrow> nat \<Rightarrow> bool" where
  "in_use st i k \<longleftrightarrow> (\<exists>c. reserved k \<le> c \<and> c < chunk_count k \<and> used st i c)"

lemma chunk_ok_map:
  "chunk_ok st S i \<longleftrightarrow> (\<exists>k. map_ok st i k \<and> (\<forall>c < reserved k. used st i c) \<and> in_use st i k \<and>
     (if is_full st i k then nxt (s_pages st ! i) = Null \<and> fst (prv (s_pages st ! i)) = Null else i \<in> set (S k)))"
  by (auto simp: chunk_ok_def map_ok_def is_full_def in_use_def Let_def)

text \<open>Setting or clearing the bit of one chunk.\<close>

definition put_bit :: "bool \<Rightarrow> nat \<Rightarrow> 64 word \<Rightarrow> 64 word" where
  "put_bit b k w = (if b then w OR push_bit k 1 else w AND NOT (push_bit k 1))"

lemma bit_put_bit: "k < 64 \<Longrightarrow> bit (put_bit b k w) j = (if j = k then b else bit w j)"
  by (auto simp: put_bit_def bit_simps dest: bit_imp_le_length)

lemma page_eqI_slab: "(q :: slab_page)\<lparr>slab := slab q\<rparr> = q"
  by (rule page_eqI) simp_all

definition mark :: "nat \<Rightarrow> nat \<Rightarrow> bool \<Rightarrow> slab_pool \<Rightarrow> slab_pool" where
  "mark i c b st = (let ty = snd (prv (s_pages st ! i)) in
     if ty = RP_SLAB_SMALL then set_bits i (c div 64) (put_bit b (c mod 64) (s_bits st i (c div 64))) st
     else setn (Page i) (\<lambda>q. q\<lparr>slab := put_bit b (if ty = RP_SLAB_EXACT then c else 32 + c) (slab q)\<rparr>) st)"

lemma mark_fields [simp]:
  "length (s_pages (mark i c b st)) = length (s_pages st)" "s_slots (mark i c b st) = s_slots st" "s_free (mark i c b st) = s_free st"
  "min_size (mark i c b st) = min_size st" "min_shift (mark i c b st) = min_shift st"
  "s_start (mark i c b st) = s_start st" "s_end (mark i c b st) = s_end st"
  "nxt (s_pages (mark i c b st) ! j) = nxt (s_pages st ! j)" "prv (s_pages (mark i c b st) ! j) = prv (s_pages st ! j)"
  "j \<noteq> i \<Longrightarrow> s_pages (mark i c b st) ! j = s_pages st ! j" "j \<noteq> i \<Longrightarrow> s_bits (mark i c b st) j = s_bits st j"
proof -
  obtain f g where m: "mark i c b st = st\<lparr>s_pages := (s_pages st)[i := (s_pages st ! i)\<lparr>slab := f\<rparr>], s_bits := (s_bits st)(i := g)\<rparr>"
  proof (cases "snd (prv (s_pages st ! i)) = RP_SLAB_SMALL")
    case True
    have "(s_pages st ! i)\<lparr>slab := slab (s_pages st ! i)\<rparr> = s_pages st ! i" by (rule page_eqI_slab)
    with True that [where f = "slab (s_pages st ! i)"] show ?thesis by (simp add: mark_def set_bits_def)
  next
    case False
    with that [where g = "s_bits st i"] show ?thesis by (auto simp: mark_def setn.simps Let_def)
  qed
  show "length (s_pages (mark i c b st)) = length (s_pages st)" "s_slots (mark i c b st) = s_slots st"
    "s_free (mark i c b st) = s_free st" "min_size (mark i c b st) = min_size st" "min_shift (mark i c b st) = min_shift st"
    "s_start (mark i c b st) = s_start st" "s_end (mark i c b st) = s_end st"
    "j \<noteq> i \<Longrightarrow> s_pages (mark i c b st) ! j = s_pages st ! j" "j \<noteq> i \<Longrightarrow> s_bits (mark i c b st) j = s_bits st j"
    by (simp_all add: m)
  show "nxt (s_pages (mark i c b st) ! j) = nxt (s_pages st ! j)" "prv (s_pages (mark i c b st) ! j) = prv (s_pages st ! j)"
    by (cases "j = i \<and> i < length (s_pages st)"; auto simp: m nth_list_update list_update_beyond)+
qed

lemma slot_types: "k < 9 \<Longrightarrow> (slot_type k = RP_SLAB_SMALL \<longleftrightarrow> k < 3) \<and> (slot_type k = RP_SLAB_EXACT \<longleftrightarrow> k = 3) \<and>
    (slot_type k = RP_SLAB_BIG \<longleftrightarrow> 3 < k)"
  by (auto simp: slot_type_def slab_types)

lemma chunk_counts: "k < 3 \<Longrightarrow> chunk_count k = 64 * 2 ^ (3 - k)" "chunk_count 3 = 64" "3 < k \<Longrightarrow> chunk_count k \<le> 32"
    "k < 3 \<Longrightarrow> reserved k \<le> 8" "3 \<le> k \<Longrightarrow> reserved k = 0"
proof -
  show "chunk_count k = 64 * 2 ^ (3 - k)" if "k < 3"
  proof -
    from that consider "k = 0" | "k = 1" | "k = 2" by linarith
    then show ?thesis by cases (simp_all add: chunk_count_def)
  qed
  show "chunk_count k \<le> 32" if "3 < k"
  proof -
    have "(2::nat) ^ (9 - k) \<le> 2 ^ 5" using that by (intro power_increasing) simp_all
    then show ?thesis by (simp add: chunk_count_def)
  qed
qed (simp_all add: chunk_count_def reserved_def)

lemma mark_ok:
  assumes m: "map_ok st i k" and c: "c < chunk_count k" and i: "i < length (s_pages st)"
  shows "map_ok (mark i c b st) i k" "\<And>c'. c' < chunk_count k \<Longrightarrow> used (mark i c b st) i c' = (if c' = c then b else used st i c')"
proof -
  let ?q = "s_pages st ! i" and ?q' = "s_pages (mark i c b st) ! i"
  have k: "k < 9" "snd (prv ?q) = slot_type k" "page_slot ?q = k" using m by (simp_all add: map_ok_def Let_def)
  note ty = slot_types [OF k(1)]
  consider "k < 3" | "k = 3" | "3 < k" by linarith
  then have "map_ok (mark i c b st) i k \<and>
    (\<forall>c' < chunk_count k. used (mark i c b st) i c' = (if c' = c then b else used st i c'))"
  proof cases
    case 1
    then have small: "snd (prv ?q) = RP_SLAB_SMALL" using k ty by simp
    then have mk: "mark i c b st = set_bits i (c div 64) (put_bit b (c mod 64) (s_bits st i (c div 64))) st" by (simp add: mark_def)
    have "?q' = ?q" by (simp add: mk set_bits_def)
    moreover have "used (mark i c b st) i c' = (if c' = c then b else used st i c')" for c'
    proof -
      have "c' = c \<longleftrightarrow> c' div 64 = c div 64 \<and> c' mod 64 = c mod 64" by (metis div_mult_mod_eq)
      then show ?thesis using small by (auto simp: used_def mk set_bits_def bit_put_bit Let_def)
    qed
    ultimately show ?thesis using m by (simp add: map_ok_def)
  next
    case 2
    then have exact: "snd (prv ?q) = RP_SLAB_EXACT" using k ty by simp
    then have q: "?q' = ?q\<lparr>slab := put_bit b c (slab ?q)\<rparr>" using i by (simp add: mark_def slab_types setn.simps)
    with 2 exact c m show ?thesis
      by (auto simp: used_def bit_put_bit Let_def slab_types map_ok_def page_slot_def chunk_count_def)
  next
    case 3
    then have big: "snd (prv ?q) = RP_SLAB_BIG" using k ty by simp
    then have q: "?q' = ?q\<lparr>slab := put_bit b (32 + c) (slab ?q)\<rparr>" using i by (simp add: mark_def slab_types setn.simps)
    have c32: "32 + c < 64" using c chunk_counts(3) [OF 3] by linarith
    note bp = bit_put_bit [OF c32]
    have mask: "bit RP_SLAB_SHIFT_MASK n \<longleftrightarrow> n < 4" for n
    proof -
      have m4: "RP_SLAB_SHIFT_MASK = mask 4" by (simp add: RP_SLAB_SHIFT_MASK_def mask_eq_exp_minus_1)
      show ?thesis unfolding m4 by (simp only: bit_mask_iff possible_bit_word) auto
    qed
    have low: "put_bit b (32 + c) (slab ?q) AND RP_SLAB_SHIFT_MASK = slab ?q AND RP_SLAB_SHIFT_MASK"
      by (rule bit_word_eqI) (auto simp: bit_and_iff bp mask)
    have "map_ok (mark i c b st) i k"
      using m big c low bp by (auto simp: map_ok_def q page_slot_def Let_def slab_types)
    moreover have "used (mark i c b st) i c' = (if c' = c then b else used st i c')" for c'
      using big by (simp add: used_def q bp Let_def slab_types)
    ultimately show ?thesis by simp
  qed
  then show "map_ok (mark i c b st) i k" "\<And>c'. c' < chunk_count k \<Longrightarrow> used (mark i c b st) i c' = (if c' = c then b else used st i c')"
    by blast+
qed

section \<open>Links of a page with chunks\<close>

lemma mark_node: "s \<in> heads \<Longrightarrow> node (mark i c b st) s = node st s"
  by (auto simp: heads_def)

lemma mark_valid [simp]: "valid (mark i c b st) r = valid st r"
  by (cases r) simp_all

lemma mark_rings:
  assumes "rings st L"
  shows "rings (mark i c b st) L"
  by (rule rings_same [OF assms]) (simp_all add: mark_node)

text \<open>A page that has become full leaves its ring.\<close>

definition dropped :: "nat \<Rightarrow> nat \<Rightarrow> slab_pool \<Rightarrow> slab_pool" where
  "dropped ty i st = setn (Page i) (\<lambda>q. q\<lparr>nxt := Null, prv := (Null, ty)\<rparr>) (unlink_at i st)"

lemma dropped_fields [simp]:
  "length (s_pages (dropped ty i st)) = length (s_pages st)" "length (s_slots (dropped ty i st)) = length (s_slots st)"
  "min_size (dropped ty i st) = min_size st" "min_shift (dropped ty i st) = min_shift st"
  "s_start (dropped ty i st) = s_start st" "s_end (dropped ty i st) = s_end st" "s_bits (dropped ty i st) = s_bits st"
  "valid (dropped ty i st) r = valid st r"
  by (simp_all add: dropped_def)

lemma dropped_ok:
  assumes r: "rings st L" and s: "s \<in> heads" "i \<in> set (L s)"
  shows "unlink_full ty i st = Inr (dropped ty i st)" "rings (dropped ty i st) (taken_out L i)"
    "s_pages (dropped ty i st) ! i = (s_pages st ! i)\<lparr>nxt := Null, prv := (Null, ty)\<rparr>"
    "\<And>j. slab (s_pages (dropped ty i st) ! j) = slab (s_pages st ! j)"
    "\<And>j. j \<noteq> i \<Longrightarrow> j \<notin> set (L s) \<Longrightarrow> s_pages (dropped ty i st) ! j = s_pages st ! j"
proof -
  have i: "i < length (s_pages st)" by (rule ring_prv(3) [OF r s])
  let ?u = "unlink_at i st"
  have vi: "valid ?u (Page i)" using i by simp
  have pg: "s_pages (dropped ty i st) ! j = (if j = i then (s_pages ?u ! i)\<lparr>nxt := Null, prv := (Null, ty)\<rparr> else s_pages ?u ! j)" for j
    using i by (simp add: dropped_def setn.simps)
  note u = unlink_at_rings [OF r s]
  show "s_pages (dropped ty i st) ! i = (s_pages st ! i)\<lparr>nxt := Null, prv := (Null, ty)\<rparr>"
    by (simp add: pg unlink_at_self [OF r s])
  show "slab (s_pages (dropped ty i st) ! j) = slab (s_pages st ! j)" for j
    using u(8) [of "Page j"] by (auto simp: pg)
  show "s_pages (dropped ty i st) ! j = s_pages st ! j" if "j \<noteq> i" "j \<notin> set (L s)" for j
    using that unlink_at_other [OF r s] by (simp add: pg)
  show "rings (dropped ty i st) (taken_out L i)"
  proof (rule rings_same [OF u(1)])
    show "\<forall>s \<in> heads. nxt (node (dropped ty i st) s) = nxt (node ?u s)"
      using heads_not_Page [of _ i] by (auto simp: dropped_def node_setn [OF vi] simp del: node.simps)
    show "\<forall>s \<in> heads. \<forall>j \<in> set (taken_out L i s). nxt (node (dropped ty i st) (Page j)) = nxt (node ?u (Page j)) \<and>
        prv (node (dropped ty i st) (Page j)) = prv (node ?u (Page j))"
      by (simp add: pg)
  qed simp_all
  have "valid st (fst (prv (s_pages st ! i)))" "valid st (nxt (s_pages st ! i))" "fst (prv (s_pages st ! i)) \<noteq> Page i"
    using u(2-4) by simp_all
  note w = unlink_at_steps [OF i this]
  show "unlink_full ty i st = Inr (dropped ty i st)"
    using i vi by (simp add: unlink_full_def w dropped_def)
qed

text \<open>A page that has a free chunk again returns to its ring.\<close>

lemma relink_ok:
  assumes r: "rings st L" and k: "k < 9" and i: "\<forall>t \<in> heads. i \<notin> set (L t)" "i < length (s_pages st)"
  shows "relink k (slot_type k) i st = Inr (push_at (Slot k) i st)"
proof -
  have s: "Slot k \<in> heads" using k by simp
  note p = push_at_rings(2-4) [OF r s i]
  let ?x = "nxt (s_slots st ! k)"
  define st1 where "st1 = setn (Page i) (nxt_update (\<lambda>_. ?x)) st"
  define st2 where "st2 = setn (Slot k) (nxt_update (\<lambda>_. Page i)) st1"
  define st3 where "st3 = setn (Page i) (prv_update (\<lambda>_. (Slot k, slot_type k))) st2"
  have v: "valid st3 (Page i)" "valid st3 ?x" "valid st1 (Slot k)" "valid st2 (Page i)"
    using i(2) p(1,3) by (simp_all add: st3_def st2_def st1_def)
  have "node st3 (Page i) = (s_pages st ! i)\<lparr>nxt := ?x, prv := (Slot k, slot_type k)\<rparr>"
    using v i(2) by (simp add: st3_def st2_def st1_def node_setn del: node.simps) simp
  then have pg3: "pg st3 (Page i) = Inr ((s_pages st ! i)\<lparr>nxt := ?x, prv := (Slot k, slot_type k)\<rparr>)"
    using v(1) by (simp only: pg_valid)
  have run: "relink k (slot_type k) i st = Inr (setn ?x (prv_update (\<lambda>_. (Page i, slot_type k))) st3)"
  proof -
    have 0: "pg st (Slot k) = Inr (s_slots st ! k)" using p(3) by simp
    have 1: "upd (Page i) (nxt_update (\<lambda>_. ?x)) st = Inr st1" using i(2) by (simp add: st1_def)
    have 2: "upd (Slot k) (nxt_update (\<lambda>_. Page i)) st1 = Inr st2" using v(3) by (simp add: st2_def del: valid.simps)
    have 3: "upd (Page i) (prv_update (\<lambda>_. (Slot k, slot_type k))) st2 = Inr st3" using v(4) by (simp add: st3_def del: valid.simps)
    show ?thesis using v(2) by (simp add: relink_def 0 1 2 3 pg3 del: valid.simps)
  qed
  have "setn ?x (prv_update (\<lambda>_. (Page i, slot_type k))) st3 = push_at (Slot k) i st"
  proof -
    have "?x = Slot k \<or> (\<exists>j. ?x = Page j \<and> j \<noteq> i)"
      using ring_links(3) [OF r s] p(2) by auto
    moreover have comm: "q\<lparr>prv := b, nxt := a\<rparr> = q\<lparr>nxt := a, prv := b\<rparr>" for q :: slab_page and a b by (rule page_eqI) simp_all
    moreover have "k < length (s_slots st)" using p(3) by simp
    ultimately show ?thesis using i(2)
      by (intro slab_pool.equality) (auto simp: push_at_def st3_def st2_def st1_def setn.simps list_update_swap comm)
  qed
  with run show ?thesis by simp
qed

end
