(* ===== verification/Slab_Chunk_Inv.thy ===== *)
theory Slab_Chunk_Inv
  imports Slab_Chunks
begin

text \<open>
  Taking a chunk of a page and giving one back, on the level of the map and the links: the
  invariant holds again and exactly the bytes of the chunk change hands.
\<close>

section \<open>The bytes of chunks\<close>

definition chunk_region :: "slab_pool \<Rightarrow> nat \<Rightarrow> nat \<Rightarrow> nat \<Rightarrow> nat set" where
  "chunk_region st i k c = {page_start st i + c * chunk_size k ..< page_start st i + (c + 1) * chunk_size k}"

lemma UN_diff_one: "\<forall>a \<in> A. a \<noteq> c \<longrightarrow> f a \<inter> f c = {} \<Longrightarrow> c \<in> A \<Longrightarrow> (\<Union>a \<in> A - {c}. f a) = (\<Union>a \<in> A. f a) - f c"
  by blast

lemma chunk_regions_disjoint:
  assumes "c \<noteq> c'"
  shows "chunk_region st i k c \<inter> chunk_region st i k c' = {}"
proof -
  have "(a + 1) * chunk_size k \<le> b * chunk_size k" if "a < b" for a b using that by (intro mult_le_mono1) simp
  from this [of c c'] this [of c' c] assms show ?thesis by (cases "c < c'") (fastforce simp: chunk_region_def)+
qed

lemma page_occ_map:
  assumes "map_ok st i k"
  shows "page_occ st i = (\<Union>c \<in> {c. reserved k \<le> c \<and> c < chunk_count k \<and> used st i c}. chunk_region st i k c)"
proof -
  have "snd (prv (s_pages st ! i)) \<noteq> 0" using assms slot_type_pos [of k] by (simp add: map_ok_def Let_def)
  moreover have "page_slot (s_pages st ! i) = k" using assms by (simp add: map_ok_def Let_def)
  ultimately show ?thesis by (simp add: page_occ_def chunk_bytes_def chunk_region_def Let_def)
qed

lemma inv_chunk:
  assumes inv: "slab_inv g sg st L {}" and i: "i < length (s_pages st)" "snd (prv (s_pages st ! i)) \<noteq> 0"
  shows "chunk_ok st (slot_lists L) i" "i \<notin> set (L FreeHead)" "s_pages st ! i \<notin> {zero_page, busy_page}"
    "run_len (L FreeHead) st i = 1" "i < usable st"
proof -
  have r: "rings st L" and d: "desc_ok st (L FreeHead) (slot_lists L) i" using inv i(1) by (simp_all add: slab_inv_def)
  show F: "i \<notin> set (L FreeHead)" using ring_prv(1) [OF r free_head, of i] i(2) by auto
  with d i(2) show "chunk_ok st (slot_lists L) i" by (simp add: desc_ok_def)
  show "s_pages st ! i \<notin> {zero_page, busy_page}" using i(2) by (auto simp: tail_pages)
  show l: "run_len (L FreeHead) st i = 1" using F i(2) by (simp add: run_len_def)
  have "run_len (L FreeHead) st i \<le> usable st - i" using d by (simp add: desc_ok_def)
  with l show "i < usable st" by simp
qed

lemma inv_slot_page:
  assumes inv: "slab_inv g sg st L {}" and k: "k < 9" "i \<in> set (L (Slot k))"
  shows "i < length (s_pages st)" "snd (prv (s_pages st ! i)) \<noteq> 0" "map_ok st i k" "\<forall>c < reserved k. used st i c"
    "in_use st i k" "\<not> is_full st i k"
proof -
  have r: "rings st L" and s: "page_slot (s_pages st ! i) = k" using inv k by (simp_all add: slab_inv_def)
  have h: "Slot k \<in> heads" using k(1) by simp
  note p = ring_prv [OF r h k(2)]
  show i: "i < length (s_pages st)" by (rule p(3))
  show t: "snd (prv (s_pages st ! i)) \<noteq> 0" using p(1) slot_type_pos by simp
  from inv_chunk(1) [OF inv i t] s show "map_ok st i k" "\<forall>c < reserved k. used st i c" "in_use st i k"
    by (auto simp: chunk_ok_map map_ok_def Let_def)
  from inv_chunk(1) [OF inv i t] s p(2) show "\<not> is_full st i k"
    by (auto simp: chunk_ok_map map_ok_def Let_def split: if_splits)
qed

lemma map_type: "map_ok st i k \<Longrightarrow> snd (prv (s_pages st ! i)) = slot_type k \<and> snd (prv (s_pages st ! i)) \<noteq> 0"
  using slot_type_pos by (simp add: map_ok_def Let_def)

text \<open>The map of a page does not depend on its links.\<close>

lemma map_frame:
  assumes "slab (s_pages st' ! i) = slab (s_pages st ! i)" "snd (prv (s_pages st' ! i)) = snd (prv (s_pages st ! i))"
    "s_bits st' i = s_bits st i"
  shows "map_ok st' i k = map_ok st i k" "used st' i = used st i" "is_full st' i k = is_full st i k" "in_use st' i k = in_use st i k"
proof -
  show u: "used st' i = used st i" by (rule used_frame [OF assms])
  show "is_full st' i k = is_full st i k" "in_use st' i k = in_use st i k" by (simp_all add: is_full_def in_use_def u)
  show "map_ok st' i k = map_ok st i k" using assms(1,2) page_slot_frame [OF assms(1,2)] by (simp add: map_ok_def Let_def)
qed

section \<open>Taking a chunk\<close>

lemma geo_frame:
  "geo g sg st \<Longrightarrow> min_size st' = min_size st \<Longrightarrow> min_shift st' = min_shift st \<Longrightarrow> s_start st' = s_start st \<Longrightarrow>
    s_end st' = s_end st \<Longrightarrow> length (s_pages st') = length (s_pages st) \<Longrightarrow> length (s_slots st') = length (s_slots st) \<Longrightarrow>
    geo g sg st'"
  by (simp add: geo_def)

definition same_frame :: "slab_pool \<Rightarrow> slab_pool \<Rightarrow> nat \<Rightarrow> bool" where
  "same_frame st st' i \<longleftrightarrow> length (s_pages st') = length (s_pages st) \<and> s_start st' = s_start st \<and> s_end st' = s_end st \<and>
     (\<forall>j < length (s_pages st). j \<noteq> i \<longrightarrow> page_occ st' j = page_occ st j)"

lemma take_chunk_ok:
  assumes inv: "slab_inv g sg st L {}" and k: "k < 9" "i \<in> set (L (Slot k))" and c: "c < chunk_count k" "\<not> used st i c"
  shows "\<exists>st2 L'. (if is_full (mark i c True st) i k then unlink_full (slot_type k) i (mark i c True st)
      else Inr (mark i c True st)) = Inr st2 \<and> slab_inv g sg st2 L' {} \<and> same_frame st st2 i \<and>
    page_occ st2 i = page_occ st i \<union> chunk_region st i k c \<and> page_occ st i \<inter> chunk_region st i k c = {} \<and>
    map_ok st2 i k \<and> used st2 i c"
proof -
  let ?m = "mark i c True st"
  note sp = inv_slot_page [OF inv k]
  note ic = inv_chunk [OF inv sp(1,2)]
  have r: "rings st L" and geo: "geo g sg st" and X: "slab_inv g sg st L {i}" using inv by (auto simp: slab_inv_def)
  have h: "Slot k \<in> heads" using k(1) by simp
  note m = mark_ok [OF sp(3) c(1) sp(1), where b = True]
  have cr: "reserved k \<le> c" using sp(4) c(2) by (meson not_le)
  have res: "\<forall>c < reserved k. used ?m i c"
  proof (intro allI impI)
    fix a assume a: "a < reserved k"
    then have "a < chunk_count k" using cr c(1) by linarith
    with m(2) [OF this] sp(4) a show "used ?m i a" by simp
  qed
  have use: "in_use ?m i k" using m(2) [OF c(1)] cr c(1) by (auto simp: in_use_def)
  define st2 where "st2 = (if is_full ?m i k then dropped (slot_type k) i ?m else ?m)"
  define L' where "L' = (if is_full ?m i k then taken_out L i else L)"
  note dr = dropped_ok [OF mark_rings [OF r, where i = i and c = c and b = True] h k(2), where ty = "slot_type k"]
  have run: "(if is_full ?m i k then unlink_full (slot_type k) i ?m else Inr ?m) = Inr st2"
    by (simp add: st2_def dr(1))
  have links: "slab (s_pages st2 ! j) = slab (s_pages ?m ! j)" "s_bits st2 = s_bits ?m" for j
    by (simp_all add: st2_def dr(4))
  have ty: "snd (prv (s_pages st2 ! i)) = snd (prv (s_pages ?m ! i))"
    using map_type [OF sp(3)] by (simp add: st2_def dr(3))
  note mf = map_frame [OF links(1) ty links(2) [THEN fun_cong]]
  have st2_ok: "map_ok st2 i k" using mf(1) m(1) by simp
  have fields: "length (s_pages st2) = length (s_pages st)" "length (s_slots st2) = length (s_slots st)" "min_size st2 = min_size st"
    "min_shift st2 = min_shift st" "s_start st2 = s_start st" "s_end st2 = s_end st"
    by (simp_all add: st2_def)
  have iL': "\<forall>k' < 9. i \<in> set (L' (Slot k')) \<longrightarrow> k' = k"
  proof (intro allI impI)
    fix k' assume k': "k' < 9" "i \<in> set (L' (Slot k'))"
    then have "i \<in> set (L (Slot k'))" by (simp add: L'_def split: if_splits)
    with rings_disjoint [OF r _ h _ k(2), of "Slot k'"] k'(1) show "k' = k" by simp
  qed
  have r': "rings st2 L'" using dr(2) mark_rings [OF r] by (simp add: st2_def L'_def)
  have 1: "\<forall>s \<in> heads. \<forall>j. j \<noteq> i \<longrightarrow> (j \<in> set (L' s) \<longleftrightarrow> j \<in> set (L s))" by (simp add: L'_def)
  have 2: "\<forall>j. j \<noteq> i \<longrightarrow> slab (s_pages st2 ! j) = slab (s_pages st ! j) \<and> s_bits st2 j = s_bits st j"
    by (simp add: links)
  have 3: "\<forall>j. j \<noteq> i \<longrightarrow> (\<forall>s \<in> heads. j \<notin> set (L s)) \<longrightarrow> s_pages st2 ! j = s_pages st ! j"
    using h by (auto simp: st2_def dr(5))
  have 4: "snd (prv (s_pages st2 ! i)) \<noteq> 0" using map_type [OF st2_ok] by simp
  have 5: "\<forall>k' < 9. i \<in> set (L' (Slot k')) \<longrightarrow> page_slot (s_pages st2 ! i) = k'"
    using iL' st2_ok by (simp add: map_ok_def Let_def)
  note up = page_update [OF X ic(5,3,2) fields(1) geo_frame [OF geo fields(3-6,1,2)] fields(5,6) r' 1 2 3 4 5]
  have "chunk_ok st2 (slot_lists L') i"
    unfolding chunk_ok_map
  proof (intro exI conjI)
    show "map_ok st2 i k" by (rule st2_ok)
    show "\<forall>c < reserved k. used st2 i c" "in_use st2 i k" using res use mf by simp_all
    show "if is_full st2 i k then nxt (s_pages st2 ! i) = Null \<and> fst (prv (s_pages st2 ! i)) = Null else i \<in> set (L' (Slot k))"
      unfolding mf(3) using k(2) by (simp add: st2_def L'_def dr(3))
  qed
  with up(3) have inv2: "slab_inv g sg st2 L' {}" by blast
  have "{a. reserved k \<le> a \<and> a < chunk_count k \<and> used st2 i a} = insert c {a. reserved k \<le> a \<and> a < chunk_count k \<and> used st i a}"
    using m(2) cr c(1) by (auto simp: mf)
  then have occ: "page_occ st2 i = page_occ st i \<union> chunk_region st i k c"
    by (auto simp: page_occ_map [OF st2_ok] page_occ_map [OF sp(3)] chunk_region_def page_start_def fields)
  have "page_occ st i \<inter> chunk_region st i k c = {}"
    using chunk_regions_disjoint [of _ c st i k] c(2) by (force simp: page_occ_map [OF sp(3)])
  moreover have "same_frame st st2 i" unfolding same_frame_def using fields up(2) by blast
  moreover have "used st2 i c" using m(2) [OF c(1)] mf(2) by simp
  ultimately show ?thesis using run inv2 occ st2_ok by blast
qed

section \<open>Giving a chunk back\<close>

lemma free_chunk_ok:
  assumes inv: "slab_inv g sg st L {}" and i: "i < length (s_pages st)" and m: "map_ok st i k"
    and c: "reserved k \<le> c" "c < chunk_count k" "used st i c"
  shows "is_full st i k \<longleftrightarrow> nxt (s_pages st ! i) = Null"
    "\<exists>st1 st2 L'. (if is_full st i k then relink k (slot_type k) i st else Inr st) = Inr st1 \<and>
      (slab (s_pages st1 ! i) = slab (s_pages st ! i) \<and> snd (prv (s_pages st1 ! i)) = slot_type k \<and> s_bits st1 = s_bits st \<and>
       length (s_pages st1) = length (s_pages st)) \<and>
      (if in_use (mark i c False st1) i k then Inr (mark i c False st1)
       else rp_slab_free_pages i 1 (mark i c False st1)) = Inr st2 \<and>
      slab_inv g sg st2 L' {} \<and> same_frame st st2 i \<and> page_occ st2 i = page_occ st i - chunk_region st i k c"
proof -
  have k: "k < 9" and ty: "snd (prv (s_pages st ! i)) = slot_type k" "snd (prv (s_pages st ! i)) \<noteq> 0"
    using m map_type [OF m] by (simp_all add: map_ok_def Let_def)
  have h: "Slot k \<in> heads" using k by simp
  have r: "rings st L" and geo: "geo g sg st" and X: "slab_inv g sg st L {i}" using inv by (auto simp: slab_inv_def)
  note ic = inv_chunk [OF inv i ty(2)]
  from ic(1) m have ch: "\<forall>c < reserved k. used st i c"
    "if is_full st i k then nxt (s_pages st ! i) = Null \<and> fst (prv (s_pages st ! i)) = Null else i \<in> set (L (Slot k))"
    by (auto simp: chunk_ok_map map_ok_def Let_def split: if_splits)
  have none: "\<forall>t \<in> heads. i \<notin> set (L t)" if "is_full st i k"
    using ch(2) that ring_prv(2) [OF r] by auto
  have nn: "nxt (s_pages st ! i) \<noteq> Null" if "i \<in> set (L (Slot k))"
    using ring_links(2) [OF r h that] by auto
  show "is_full st i k \<longleftrightarrow> nxt (s_pages st ! i) = Null" using ch(2) nn by (auto split: if_splits)
  define st1 where "st1 = (if is_full st i k then push_at (Slot k) i st else st)"
  define L1 where "L1 = (if is_full st i k then L(Slot k := i # L (Slot k)) else L)"
  have run: "(if is_full st i k then relink k (slot_type k) i st else Inr st) = Inr st1"
    using relink_ok [OF r k _ i] none by (simp add: st1_def)
  have push: "rings (push_at (Slot k) i st) (L(Slot k := i # L (Slot k)))" "slab (s_pages (push_at (Slot k) i st) ! j) = slab (s_pages st ! j)"
    "j \<noteq> i \<Longrightarrow> j \<notin> set (L (Slot k)) \<Longrightarrow> s_pages (push_at (Slot k) i st) ! j = s_pages st ! j" if "is_full st i k" for j
  proof -
    note p = push_at_rings [OF r h none [OF that] i]
    show "rings (push_at (Slot k) i st) (L(Slot k := i # L (Slot k)))" by (rule p(1))
    show "slab (s_pages (push_at (Slot k) i st) ! j) = slab (s_pages st ! j)" using p(7) [of "Page j"] by simp
    show "j \<noteq> i \<Longrightarrow> j \<notin> set (L (Slot k)) \<Longrightarrow> s_pages (push_at (Slot k) i st) ! j = s_pages st ! j"
      by (rule push_at_other [OF r h none [OF that] i])
  qed
  have r1: "rings st1 L1" and iL1: "i \<in> set (L1 (Slot k))" using push(1) r ch(2) by (auto simp: st1_def L1_def)
  have slab1: "slab (s_pages st1 ! j) = slab (s_pages st ! j)" for j using push(2) by (simp add: st1_def)
  have fields: "length (s_pages st1) = length (s_pages st)" "length (s_slots st1) = length (s_slots st)" "min_size st1 = min_size st"
    "min_shift st1 = min_shift st" "s_start st1 = s_start st" "s_end st1 = s_end st" "s_bits st1 = s_bits st"
    by (simp_all add: st1_def)
  have ty1: "snd (prv (s_pages st1 ! i)) = slot_type k" using ring_prv(1) [OF r1 h iL1] by simp
  define st2 where "st2 = mark i c False st1"
  note mf = map_frame [of st1 i st, OF slab1 _ fields(7) [THEN fun_cong], unfolded ty1 ty(1), OF refl]
  have m1: "map_ok st1 i k" using mf(1) m by simp
  have i1: "i < length (s_pages st1)" using i fields(1) by simp
  note mk = mark_ok [OF m1 c(2) i1, where b = False, folded st2_def]
  have f2: "length (s_pages st2) = length (s_pages st)" "length (s_slots st2) = length (s_slots st)" "min_size st2 = min_size st"
    "min_shift st2 = min_shift st" "s_start st2 = s_start st" "s_end st2 = s_end st"
    by (simp_all add: st2_def fields)
  have r2: "rings st2 L1" using mark_rings [OF r1] by (simp add: st2_def)
  have only: "\<forall>t \<in> heads. i \<in> set (L1 t) \<longrightarrow> t = Slot k" using rings_disjoint [OF r1 _ h _ iL1] by blast
  have 1: "\<forall>s \<in> heads. \<forall>j. j \<noteq> i \<longrightarrow> (j \<in> set (L1 s) \<longleftrightarrow> j \<in> set (L s))" by (simp add: L1_def)
  have 2: "\<forall>j. j \<noteq> i \<longrightarrow> slab (s_pages st2 ! j) = slab (s_pages st ! j) \<and> s_bits st2 j = s_bits st j"
    by (simp add: st2_def slab1 fields)
  have 3: "\<forall>j. j \<noteq> i \<longrightarrow> (\<forall>s \<in> heads. j \<notin> set (L s)) \<longrightarrow> s_pages st2 ! j = s_pages st ! j"
    using h push(3) by (auto simp: st2_def st1_def)
  have 4: "snd (prv (s_pages st2 ! i)) \<noteq> 0" using map_type [OF mk(1)] by simp
  have 5: "\<forall>k' < 9. i \<in> set (L1 (Slot k')) \<longrightarrow> page_slot (s_pages st2 ! i) = k'"
    using only mk(1) by (auto simp: map_ok_def Let_def)
  note up = page_update [OF X ic(5,3,2) f2(1) geo_frame [OF geo f2(3-6,1,2)] f2(5,6) r2 1 2 3 4 5]
  have nfull: "\<not> is_full st2 i k" using mk(2) [OF c(2)] c(2) by (auto simp: is_full_def)
  have use: "used st2 i a \<longleftrightarrow> a \<noteq> c \<and> used st i a" if "a < chunk_count k" for a using mk(2) [OF that] mf(2) by simp
  have "{a. reserved k \<le> a \<and> a < chunk_count k \<and> used st2 i a} = {a. reserved k \<le> a \<and> a < chunk_count k \<and> used st i a} - {c}"
    using use by auto
  then have "page_occ st2 i = (\<Union>a \<in> {a. reserved k \<le> a \<and> a < chunk_count k \<and> used st i a} - {c}. chunk_region st i k a)"
    by (simp add: page_occ_map [OF mk(1)] chunk_region_def page_start_def f2)
  also have "\<dots> = page_occ st i - chunk_region st i k c"
    unfolding page_occ_map [OF m] using chunk_regions_disjoint [of _ c st i k] c by (intro UN_diff_one) blast+
  finally have occ: "page_occ st2 i = page_occ st i - chunk_region st i k c" .
  have "\<exists>st3 L'. (if in_use st2 i k then Inr st2 else rp_slab_free_pages i 1 st2) = Inr st3 \<and>
    slab_inv g sg st3 L' {} \<and> same_frame st st3 i \<and> page_occ st3 i = page_occ st i - chunk_region st i k c"
  proof (cases "in_use st2 i k")
    case True
    have "used st2 i a" if a: "a < reserved k" for a
      using use [of a] ch(1) a c(1,2) by auto
    then have "chunk_ok st2 (slot_lists L1) i"
      unfolding chunk_ok_map using mk(1) True nfull iL1 by auto
    with up(3) have "slab_inv g sg st2 L1 {}" by blast
    moreover have "same_frame st st2 i" unfolding same_frame_def using f2 up(2) by blast
    ultimately show ?thesis using True occ by auto
  next
    case False
    have "nxt (s_pages st2 ! i) \<noteq> Null" using ring_links(2) [OF r2 h iL1] by auto
    then have own: "nxt (s_pages st2 ! i) \<noteq> Null \<longleftrightarrow> (\<exists>s \<in> heads. i \<in> set (L1 s))" using iL1 h by auto
    have sep: "\<forall>j < length (s_pages st2). j \<noteq> i \<longrightarrow> {j ..< j + run_len (L1 FreeHead) st2 j} \<inter> {i ..< i + unat (1 :: 64 word)} = {}"
    proof (intro allI impI)
      fix j assume j: "j < length (s_pages st2)" "j \<noteq> i"
      then have jN: "j < length (s_pages st)" using f2 by simp
      have d: "desc_ok st (L FreeHead) (slot_lists L) a" if "a < length (s_pages st)" for a using inv that by (simp add: slab_inv_def)
      have "{j ..< j + run_len (L FreeHead) st j} \<inter> {i ..< i + run_len (L FreeHead) st i} = {}"
      proof (cases "run_len (L FreeHead) st j = 0")
        case False
        then show ?thesis
          using runs_disjoint [OF inv_rings(1) [OF inv] d [OF jN] d [OF i] j(2)] ic(4) by simp
      qed simp
      then show "{j ..< j + run_len (L1 FreeHead) st2 j} \<inter> {i ..< i + unat (1 :: 64 word)} = {}"
        using up(4) jN j(2) ic(4) by simp
    qed
    have "\<forall>t. i < t \<and> t < i + unat (1 :: 64 word) \<longrightarrow> s_pages st2 ! t \<in> {zero_page, busy_page}" by auto
    from free_pages_ok [OF up(1) _ _ this own sep] ic(5) usable_eq [OF f2(1,5,6)]
    obtain st3 where 3: "rp_slab_free_pages i 1 st2 = Inr st3" "slab_inv g sg st3 (freed_lists L1 i) {}"
      "length (s_pages st3) = length (s_pages st2)" "s_start st3 = s_start st2" "s_end st3 = s_end st2" "page_occ st3 i = {}"
      "\<forall>j < length (s_pages st2). j \<noteq> i \<longrightarrow> page_occ st3 j = page_occ st2 j" by auto
    have "same_frame st st3 i" unfolding same_frame_def using f2 3 up(2) by simp
    moreover have "page_occ st2 i = {}" using False by (auto simp: page_occ_map [OF mk(1)] in_use_def)
    ultimately show ?thesis using False 3 occ by auto
  qed
  then obtain st3 L' where e: "(if in_use st2 i k then Inr st2 else rp_slab_free_pages i 1 st2) = Inr st3"
    "slab_inv g sg st3 L' {}" "same_frame st st3 i" "page_occ st3 i = page_occ st i - chunk_region st i k c" by blast
  then show "\<exists>st1 st2 L'. (if is_full st i k then relink k (slot_type k) i st else Inr st) = Inr st1 \<and>
      (slab (s_pages st1 ! i) = slab (s_pages st ! i) \<and> snd (prv (s_pages st1 ! i)) = slot_type k \<and> s_bits st1 = s_bits st \<and>
       length (s_pages st1) = length (s_pages st)) \<and>
      (if in_use (mark i c False st1) i k then Inr (mark i c False st1)
       else rp_slab_free_pages i 1 (mark i c False st1)) = Inr st2 \<and>
      slab_inv g sg st2 L' {} \<and> same_frame st st2 i \<and> page_occ st2 i = page_occ st i - chunk_region st i k c"
    using run slab1 ty1 fields(1,7) unfolding st2_def by (intro exI conjI)
qed

end
