(* ===== verification/Slab_Maps.thy ===== *)
theory Slab_Maps
  imports Slab_Chunk_Inv
begin

text \<open>
  The bit operations of the code on the three kinds of map: which chunk \<open>small_chunk\<close>,
  \<open>exact_chunk\<close> and \<open>big_chunk\<close> take, and what \<open>free_small\<close>, \<open>free_exact\<close> and \<open>free_big\<close> clear.
\<close>

section \<open>Words as maps\<close>

lemma busy_bits: "w = RP_SLAB_BUSY \<longleftrightarrow> (\<forall>j < 64. bit w j)" for w :: "64 word"
proof -
  have b: "RP_SLAB_BUSY = - 1" by (simp add: RP_SLAB_BUSY_def)
  show ?thesis unfolding b by (auto simp: bit_eq_iff dest: bit_imp_le_length)
qed

lemma test_bit: "w AND 2 ^ k = 0 \<longleftrightarrow> \<not> bit w k" for w :: "64 word"
  by (simp add: bit_iff_and_push_bit_not_eq_0)

lemma clear_bit_Some: "clear_bit w = Some k \<Longrightarrow> k < 64 \<and> \<not> bit w k"
  by (auto simp: clear_bit_def find_Some_iff test_bit)

lemma clear_bit_ex: "w \<noteq> RP_SLAB_BUSY \<Longrightarrow> \<exists>k. clear_bit w = Some k"
proof (cases "clear_bit w")
  case None
  then have "\<forall>j < 64. bit w j" by (auto simp: clear_bit_def find_None_iff test_bit)
  then show "w \<noteq> RP_SLAB_BUSY \<Longrightarrow> \<exists>k. clear_bit w = Some k" by (simp add: busy_bits)
qed simp

lemma put_bit_simps: "w OR push_bit k 1 = put_bit True k w" "w AND NOT (push_bit k 1) = put_bit False k w"
  by (simp_all add: put_bit_def)

lemma small_cases:
  assumes "k < 3"
  obtains "k = 0" | "k = 1" | "k = (2 :: nat)"
  using assms by linarith

lemma big_cases:
  assumes "3 < k" "k < (9 :: nat)"
  obtains "k = 4" | "k = 5" | "k = 6" | "k = 7" | "k = 8"
  using assms by linarith

text \<open>The numbers that the code computes from the shift of a page.\<close>

lemma int_shl_pow2:
  assumes n: "n < 31"
  shows "int_shl 1 n = 2 ^ n"
proof -
  have "(2::int) ^ n \<le> 2 ^ 30" using n by (intro power_increasing) simp_all
  then have b: "(2::int) ^ n < 2147483648" "- 2147483648 \<le> (2::int) ^ n" by (simp_all add: order_trans [of _ 0])
  then have "signed_take_bit 31 ((2::int) ^ n) = 2 ^ n" by (intro signed_take_bit_int_eq_self) simp_all
  moreover have "sint ((2::32 word) ^ n) = signed_take_bit 31 (2 ^ n)"
    using sint_sbintrunc' [where 'a = 32, of "2 ^ n"] by simp
  ultimately have "of_int (sint ((2::32 word) ^ n)) = (2::64 word) ^ n" by simp
  then have "scast ((2::32 word) ^ n) = (2::64 word) ^ n" by (simp only: of_int_sint)
  then show ?thesis by (simp add: int_shl_def push_bit_eq_mult)
qed

lemma unat_shift: "k < 9 \<Longrightarrow> unat (of_nat (k + 3) :: 64 word) = k + 3"
  by (rule unat_of_size) simp

lemma shift_params:
  assumes g: "rp_pagesize_shift g = 12" and k: "k < 9"
  shows "unat (rp_pagesize_shift g - of_nat (k + 3)) = 9 - k"
    "k < 3 \<Longrightarrow> map_words g (of_nat (k + 3)) = 2 ^ (3 - k)"
    "k < 3 \<Longrightarrow> map_chunks g (of_nat (k + 3)) = of_nat (reserved k)"
proof -
  have "(12 :: 64 word) - of_nat (k + 3) = of_nat (9 - k)" using k by (simp add: of_nat_diff)
  then have "unat (12 - of_nat (k + 3) :: 64 word) = 9 - k" using k by (simp only:) (rule unat_of_size, simp)
  then show d: "unat (rp_pagesize_shift g - of_nat (k + 3)) = 9 - k" by (simp only: g)
  have "unat (int_shl 1 (9 - k) div 64 :: 64 word) = 2 ^ (9 - k) div 64" if "k < 3"
    using k by (simp add: int_shl_pow2 unat_div unat_pow2)
  then show "map_words g (of_nat (k + 3)) = 2 ^ (3 - k)" if "k < 3"
    unfolding map_words_def d using that by (cases rule: small_cases [OF that]) simp_all
  show "map_chunks g (of_nat (k + 3)) = of_nat (reserved k)" if "k < 3"
    unfolding map_chunks_def d unat_shift [OF k]
    using that by (cases rule: small_cases [OF that]) (simp_all add: int_shl_pow2 reserved_def word_unat_eq_iff unat_div)
qed

lemma big_mask_bits:
  assumes g: "rp_pagesize_shift g = 12" and k: "3 < k" "k < 9" and q: "slab q AND RP_SLAB_SHIFT_MASK = of_nat (k + 3)"
  shows "bit (big_mask g q) j \<longleftrightarrow> 32 \<le> j \<and> j < 32 + chunk_count k"
proof -
  have c: "unat (int_shl 1 (9 - k)) = chunk_count k"
    using k by (simp add: int_shl_pow2 unat_pow2 chunk_count_def)
  have "push_bit (unat (int_shl 1 (unat (rp_pagesize_shift g - (slab q AND RP_SLAB_SHIFT_MASK))))) 1 - 1 = (mask (chunk_count k) :: 64 word)"
    unfolding q shift_params(1) [OF g k(2)] c by (simp add: mask_eq_exp_minus_1)
  then have "big_mask g q = push_bit 32 (mask (chunk_count k))" by (simp add: big_mask_def RP_SLAB_MAP_SHIFT_def)
  then show ?thesis using chunk_counts(3) [OF k(1)] by (auto simp: bit_simps)
qed

section \<open>Taking a chunk\<close>

text \<open>What all three functions do with a page that has a free chunk.\<close>

definition chunk_addr :: "os_globals \<Rightarrow> slab_pool \<Rightarrow> nat \<Rightarrow> nat \<Rightarrow> nat \<Rightarrow> addr" where
  "chunk_addr g st i k c = page_addr g st i + of_nat (c * chunk_size k)"

definition takes_chunk :: "os_globals \<Rightarrow> slab_pool \<Rightarrow> nat \<Rightarrow> nat \<Rightarrow> (addr \<times> slab_pool) option res \<Rightarrow> bool" where
  "takes_chunk g st i k res \<longleftrightarrow> (\<exists>c. c < chunk_count k \<and> \<not> used st i c \<and>
     res = res_bind (if is_full (mark i c True st) i k then unlink_full (slot_type k) i (mark i c True st)
                     else Inr (mark i c True st))
       (\<lambda>st2. Inr (Some (chunk_addr g st i k c, st2))))"

lemma push_size: "push_bit (unat (of_nat (k + 3) :: 64 word)) (of_nat c) = (of_nat (c * chunk_size k) :: 64 word)" if "k < 9"
  by (simp only: unat_shift [OF that] push_bit_eq_mult chunk_size_def of_nat_mult of_nat_power of_nat_numeral)

lemma map_fields:
  assumes "map_ok st i k"
  shows "k < 9" "k < 3 \<Longrightarrow> snd (prv (s_pages st ! i)) = RP_SLAB_SMALL" "k = 3 \<Longrightarrow> snd (prv (s_pages st ! i)) = RP_SLAB_EXACT"
    "3 < k \<Longrightarrow> snd (prv (s_pages st ! i)) = RP_SLAB_BIG" "k < 3 \<Longrightarrow> slab (s_pages st ! i) = of_nat (k + 3)"
    "3 < k \<Longrightarrow> slab (s_pages st ! i) AND RP_SLAB_SHIFT_MASK = of_nat (k + 3)"
    "3 < k \<Longrightarrow> bit (slab (s_pages st ! i)) b \<Longrightarrow> b < 4 \<or> 32 \<le> b \<and> b < 32 + chunk_count k"
proof -
  show k: "k < 9" using assms by (simp add: map_ok_def Let_def)
  have t: "snd (prv (s_pages st ! i)) = slot_type k" using assms by (simp add: map_ok_def Let_def)
  note st = slot_types [OF k]
  show "k < 3 \<Longrightarrow> snd (prv (s_pages st ! i)) = RP_SLAB_SMALL" "k = 3 \<Longrightarrow> snd (prv (s_pages st ! i)) = RP_SLAB_EXACT"
    "3 < k \<Longrightarrow> snd (prv (s_pages st ! i)) = RP_SLAB_BIG" "k < 3 \<Longrightarrow> slab (s_pages st ! i) = of_nat (k + 3)"
    "3 < k \<Longrightarrow> slab (s_pages st ! i) AND RP_SLAB_SHIFT_MASK = of_nat (k + 3)"
    "3 < k \<Longrightarrow> bit (slab (s_pages st ! i)) b \<Longrightarrow> b < 4 \<or> 32 \<le> b \<and> b < 32 + chunk_count k"
    using assms t st by (auto simp: map_ok_def Let_def)
qed

lemma small_used: "map_ok st i k \<Longrightarrow> k < 3 \<Longrightarrow> used st i c = bit (s_bits st i (c div 64)) (c mod 64)"
  using map_fields(2) by (simp add: used_def Let_def)

lemma small_full:
  assumes "map_ok st i k" "k < 3"
  shows "is_full st i k \<longleftrightarrow> (\<forall>n < 2 ^ (3 - k). s_bits st i n = RP_SLAB_BUSY)"
proof -
  let ?m = "2 ^ (3 - k) :: nat"
  have "(\<forall>c < 64 * ?m. bit (s_bits st i (c div 64)) (c mod 64)) \<longleftrightarrow> (\<forall>n < ?m. \<forall>j < 64. bit (s_bits st i n) j)" (is "?A = ?B")
  proof
    assume a: ?A
    show ?B
    proof (intro allI impI)
      fix n j assume nj: "n < ?m" "j < (64::nat)"
      then have "64 * n + j < 64 * Suc n" "Suc n \<le> ?m" by simp_all
      then have "64 * n + j < 64 * ?m" using mult_le_mono2 [of "Suc n" ?m 64] by linarith
      with a have "bit (s_bits st i ((64 * n + j) div 64)) ((64 * n + j) mod 64)" by blast
      with nj(2) show "bit (s_bits st i n) j" by simp
    qed
  next
    assume b: ?B
    show ?A using b by (auto simp: less_mult_imp_div_less mult.commute [of 64])
  qed
  then show ?thesis unfolding is_full_def chunk_counts(1) [OF assms(2)] small_used [OF assms] busy_bits .
qed

lemma small_chunk_takes:
  assumes geo: "geo g sg st" and m: "map_ok st i k" and k: "k < 3" and i: "i < length (s_pages st)" and free: "\<not> is_full st i k"
  shows "takes_chunk g st i k (small_chunk g (of_nat (k + 3)) st i)"
proof -
  note mf = map_fields [OF m]
  have mw: "map_words g (of_nat (k + 3)) = 2 ^ (3 - k)" using geo shift_params(2) [of g k] mf(1) k by (simp add: geo_def)
  let ?M = "2 ^ (3 - k) :: nat"
  from free obtain n0 where "n0 < ?M" "s_bits st i n0 \<noteq> RP_SLAB_BUSY" unfolding small_full [OF m k] by blast
  then have "List.find (\<lambda>n. s_bits st i n \<noteq> RP_SLAB_BUSY) [0 ..< ?M] \<noteq> None" by (auto simp: find_None_iff)
  then obtain n where n: "List.find (\<lambda>n. s_bits st i n \<noteq> RP_SLAB_BUSY) [0 ..< ?M] = Some n" by blast
  then have nM: "n < ?M" "s_bits st i n \<noteq> RP_SLAB_BUSY" "\<forall>a < n. s_bits st i a = RP_SLAB_BUSY"
    by (auto simp: find_Some_iff)
  from clear_bit_ex [OF nM(2)] obtain b where b: "clear_bit (s_bits st i n) = Some b" by blast
  note cb = clear_bit_Some [OF b]
  let ?c = "64 * n + b"
  have c: "?c div 64 = n" "?c mod 64 = b" using cb by simp_all
  have cc: "?c < chunk_count k"
  proof -
    have "64 * n + b < 64 * Suc n" "64 * Suc n \<le> 64 * ?M" using cb nM(1) by simp_all
    then show ?thesis using chunk_counts(1) [OF k] by linarith
  qed
  have nu: "\<not> used st i ?c" using cb by (simp only: small_used [OF m k] c) simp
  let ?st1 = "mark i ?c True st"
  have mk: "set_bits i n (s_bits st i n OR push_bit b 1) st = ?st1"
    using mf(2) [OF k] c by (simp add: mark_def put_bit_def del: push_bit_of_1)
  have bits: "s_bits ?st1 i a = (if a = n then s_bits st i n OR push_bit b 1 else s_bits st i a)" for a
    using arg_cong [OF mk, of "\<lambda>s. s_bits s i a"] by (auto simp: set_bits_def)
  have "is_full ?st1 i k \<longleftrightarrow> (\<forall>a < ?M. s_bits ?st1 i a = RP_SLAB_BUSY)"
    by (rule small_full [OF mark_ok(1) [OF m cc i] k])
  also have "\<dots> \<longleftrightarrow> s_bits st i n OR push_bit b 1 = RP_SLAB_BUSY \<and> (\<forall>j \<in> set [n + 1 ..< ?M]. s_bits st i j = RP_SLAB_BUSY)"
    (is "?A \<longleftrightarrow> ?B \<and> ?C")
  proof
    assume ?A
    then have all: "s_bits ?st1 i a = RP_SLAB_BUSY" if "a < ?M" for a using that by blast
    from all [OF nM(1)] have ?B unfolding bits by simp
    moreover have ?C
    proof
      fix j assume "j \<in> set [n + 1 ..< ?M]"
      then show "s_bits st i j = RP_SLAB_BUSY" using all [of j] bits [of j] by simp
    qed
    ultimately show "?B \<and> ?C" by blast
  next
    assume bc: "?B \<and> ?C"
    show ?A
    proof (intro allI impI)
      fix a assume a: "a < ?M"
      consider "a < n" | "a = n" | "n < a" by linarith
      then show "s_bits ?st1 i a = RP_SLAB_BUSY"
      proof cases
        case 1
        with nM(3) bits [of a] show ?thesis by simp
      next
        case 2
        with bc bits [of n] show ?thesis by simp
      next
        case 3
        with a bc bits [of a] show ?thesis by simp
      qed
    qed
  qed
  finally have full: "(s_bits st i n OR push_bit b 1 = RP_SLAB_BUSY \<and> (\<forall>j \<in> set [n + 1 ..< ?M]. s_bits st i j = RP_SLAB_BUSY)) \<longleftrightarrow>
    is_full ?st1 i k" by blast
  have addr: "push_bit (unat (of_nat (k + 3) :: 64 word)) (of_nat (n * 8 * 8)) + push_bit (unat (of_nat (k + 3) :: 64 word)) (of_nat b) =
      (of_nat (?c * chunk_size k) :: 64 word)"
    unfolding push_size [OF mf(1)] by (simp add: algebra_simps)
  have ty: "slot_type k = RP_SLAB_SMALL" using slot_types [OF mf(1)] k by simp
  have "small_chunk g (of_nat (k + 3)) st i = res_bind (if is_full ?st1 i k then unlink_full (slot_type k) i ?st1 else Inr ?st1)
      (\<lambda>st2. Inr (Some (chunk_addr g st i k ?c, st2)))"
    unfolding small_chunk_def mw Let_def n option.case b mk full addr ty chunk_addr_def by (rule refl)
  with cc nu show ?thesis unfolding takes_chunk_def by blast
qed

lemma exact_chunk_takes:
  assumes m: "map_ok st i k" and k: "k = 3" and i: "i < length (s_pages st)" and free: "\<not> is_full st i k"
  shows "takes_chunk g st i k (exact_chunk g (of_nat (k + 3)) st i)"
proof -
  note mf = map_fields [OF m]
  let ?q = "s_pages st ! i"
  have full: "is_full st' i k \<longleftrightarrow> slab (s_pages st' ! i) = RP_SLAB_BUSY" if "map_ok st' i k" for st'
    using map_fields(3) [OF that k] chunk_counts(2)
    by (simp add: is_full_def used_def busy_bits k slab_types Let_def)
  have nb: "slab ?q \<noteq> RP_SLAB_BUSY" using free full [OF m] by simp
  from clear_bit_ex [OF this] obtain c where b: "clear_bit (slab ?q) = Some c" by blast
  note cb = clear_bit_Some [OF b]
  have cc: "c < chunk_count k" using cb k chunk_counts(2) by simp
  have nu: "\<not> used st i c" using cb mf(3) [OF k] by (simp add: used_def slab_types Let_def)
  let ?st1 = "mark i c True st"
  have mk: "upd (Page i) (slab_update (\<lambda>_. slab ?q OR push_bit c 1)) st = Inr ?st1"
    using i mf(3) [OF k] by (simp add: mark_def put_bit_def slab_types setn.simps)
  have w: "slab (s_pages ?st1 ! i) = slab ?q OR push_bit c 1"
    using i mf(3) [OF k] by (simp add: mark_def put_bit_def slab_types setn.simps)
  have ty: "slot_type k = RP_SLAB_EXACT" using slot_types [OF mf(1)] k by simp
  have pgi: "pg st (Page i) = Inr ?q" using i by simp
  have "exact_chunk g (of_nat (k + 3)) st i = res_bind (if is_full ?st1 i k then unlink_full (slot_type k) i ?st1 else Inr ?st1)
      (\<lambda>st2. Inr (Some (chunk_addr g st i k c, st2)))"
    unfolding exact_chunk_def pgi res_bind_simps if_not_P [OF nb] b option.case Let_def mk
    unfolding w [symmetric] full [OF mark_ok(1) [OF m cc i], symmetric] ty chunk_addr_def push_size [OF mf(1)] by (rule refl)
  with cc nu show ?thesis unfolding takes_chunk_def by blast
qed

lemma bit_map_mask: "bit RP_SLAB_MAP_MASK j \<longleftrightarrow> 32 \<le> j \<and> j < 64"
proof -
  have m: "RP_SLAB_MAP_MASK = push_bit 32 (mask 32)"
    by (simp add: RP_SLAB_MAP_MASK_def push_bit_eq_mult mask_eq_exp_minus_1)
  show ?thesis unfolding m by (auto simp only: bit_push_bit_iff bit_mask_iff possible_bit_word) auto
qed

lemma big_used: "map_ok st i k \<Longrightarrow> 3 < k \<Longrightarrow> used st i c = bit (slab (s_pages st ! i)) (32 + c)"
  using map_fields(4) by (simp add: used_def slab_types Let_def)

lemma big_full:
  assumes g: "rp_pagesize_shift g = 12" and m: "map_ok st i k" and k: "3 < k"
    and q: "slab q AND RP_SLAB_SHIFT_MASK = of_nat (k + 3)"
  shows "is_full st i k \<longleftrightarrow> slab (s_pages st ! i) AND RP_SLAB_MAP_MASK = big_mask g q"
proof -
  note mf = map_fields [OF m]
  note bm = big_mask_bits [OF g k mf(1) q]
  let ?w = "slab (s_pages st ! i)"
  have "?w AND RP_SLAB_MAP_MASK = big_mask g q \<longleftrightarrow> (\<forall>j < 64. bit ?w j \<and> 32 \<le> j \<longleftrightarrow> 32 \<le> j \<and> j < 32 + chunk_count k)"
    by (auto simp: bit_eq_iff bit_and_iff bit_map_mask bm dest: bit_imp_le_length)
  also have "\<dots> \<longleftrightarrow> (\<forall>c < chunk_count k. bit ?w (32 + c))"
  proof
    assume a: "\<forall>j < 64. bit ?w j \<and> 32 \<le> j \<longleftrightarrow> 32 \<le> j \<and> j < 32 + chunk_count k"
    show "\<forall>c < chunk_count k. bit ?w (32 + c)"
    proof (intro allI impI)
      fix c assume "c < chunk_count k"
      with a [rule_format, of "32 + c"] chunk_counts(3) [OF k] show "bit ?w (32 + c)" by simp
    qed
  next
    assume a: "\<forall>c < chunk_count k. bit ?w (32 + c)"
    show "\<forall>j < 64. bit ?w j \<and> 32 \<le> j \<longleftrightarrow> 32 \<le> j \<and> j < 32 + chunk_count k"
    proof (intro allI impI)
      fix j :: nat assume "j < 64"
      show "bit ?w j \<and> 32 \<le> j \<longleftrightarrow> 32 \<le> j \<and> j < 32 + chunk_count k"
        using mf(7) [OF k, of j] a [rule_format, of "j - 32"] by (cases "32 \<le> j") auto
    qed
  qed
  finally show ?thesis by (simp add: is_full_def big_used [OF m k])
qed

lemma big_chunk_takes:
  assumes g: "rp_pagesize_shift g = 12" and m: "map_ok st i k" and k: "3 < k" and i: "i < length (s_pages st)"
    and free: "\<not> is_full st i k" and q: "slab q AND RP_SLAB_SHIFT_MASK = of_nat (k + 3)"
  shows "takes_chunk g st i k (big_chunk g (of_nat (k + 3)) (big_mask g q) st i)"
proof -
  note mf = map_fields [OF m]
  note bm = big_mask_bits [OF g k mf(1) q]
  note full = big_full [OF g _ k q]
  let ?q = "s_pages st ! i" and ?mk = "big_mask g q"
  have nb: "slab ?q AND RP_SLAB_MAP_MASK \<noteq> ?mk" using free full [OF m] by simp
  have tw: "takeWhile (\<lambda>a. push_bit (RP_SLAB_MAP_SHIFT + a) 1 AND ?mk \<noteq> 0) [0 ..< 32] = [0 ..< chunk_count k]"
  proof -
    have t: "push_bit (RP_SLAB_MAP_SHIFT + a) 1 AND ?mk \<noteq> 0 \<longleftrightarrow> a < chunk_count k" for a
      using test_bit [of ?mk "32 + a"] bm by (simp add: RP_SLAB_MAP_SHIFT_def and.commute)
    have s: "[0 ..< 32] = [0 ..< chunk_count k] @ [chunk_count k ..< 32]"
      using chunk_counts(3) [OF k] upt_add_eq_append [of 0 "chunk_count k" "32 - chunk_count k"] by simp
    show ?thesis unfolding t s by (subst takeWhile_append2) (auto simp: takeWhile_eq_Nil_iff)
  qed
  obtain c where b: "big_clear_bit ?mk (slab ?q) = Some c" and c: "c < chunk_count k" "\<not> bit (slab ?q) (32 + c)"
  proof (cases "big_clear_bit ?mk (slab ?q)")
    case None
    then have "\<forall>c < chunk_count k. bit (slab ?q) (32 + c)"
      unfolding big_clear_bit_def tw find_None_iff using test_bit [of "slab ?q"]
      by (simp add: RP_SLAB_MAP_SHIFT_def atLeast0LessThan)
    with free show ?thesis by (simp add: is_full_def big_used [OF m k])
  next
    case (Some c)
    then have "c < chunk_count k \<and> \<not> bit (slab ?q) (32 + c)"
      unfolding big_clear_bit_def tw find_Some_iff using test_bit [of "slab ?q"]
      by (auto simp: RP_SLAB_MAP_SHIFT_def)
    with Some that show ?thesis by blast
  qed
  have nu: "\<not> used st i c" using c(2) by (simp add: big_used [OF m k])
  let ?st1 = "mark i c True st"
  have mk: "upd (Page i) (slab_update (\<lambda>_. slab ?q OR push_bit (RP_SLAB_MAP_SHIFT + c) 1)) st = Inr ?st1"
    using i mf(4) [OF k] by (simp add: mark_def put_bit_def slab_types setn.simps RP_SLAB_MAP_SHIFT_def)
  have w: "slab (s_pages ?st1 ! i) = slab ?q OR push_bit (RP_SLAB_MAP_SHIFT + c) 1"
    using i mf(4) [OF k] by (simp add: mark_def put_bit_def slab_types setn.simps RP_SLAB_MAP_SHIFT_def)
  have ty: "slot_type k = RP_SLAB_BIG" using slot_types [OF mf(1)] k by simp
  have pgi: "pg st (Page i) = Inr ?q" using i by simp
  have "big_chunk g (of_nat (k + 3)) ?mk st i = res_bind (if is_full ?st1 i k then unlink_full (slot_type k) i ?st1 else Inr ?st1)
      (\<lambda>st2. Inr (Some (chunk_addr g st i k c, st2)))"
    unfolding big_chunk_def pgi res_bind_simps if_not_P [OF nb] b option.case Let_def mk
    unfolding w [symmetric] full [OF mark_ok(1) [OF m c(1) i], symmetric] ty chunk_addr_def push_size [OF mf(1)] by (rule refl)
  with c(1) nu show ?thesis unfolding takes_chunk_def by blast
qed

end
