(* ===== verification/Slab_Free_Maps.thy ===== *)
theory Slab_Free_Maps
  imports Slab_Maps
begin

text \<open>
  The address arithmetic of \<open>rp_slab_free\<close> and the bit operations of its three chunk cases,
  on the level of chunk numbers.
\<close>

section \<open>Addresses\<close>

lemma unat_and_mask: "unat (w AND mask n) = unat w mod 2 ^ n" for w :: "64 word"
  by (simp only: take_bit_eq_mask [symmetric] unsigned_take_bit_eq) (simp add: take_bit_eq_mod)

lemma page_mask: "rp_pagesize g = 4096 \<Longrightarrow> rp_pagesize g - 1 = mask 12"
  by (simp add: mask_eq_exp_minus_1)

lemma addr_parts:
  assumes geo: "geo g sg st" and p: "unat p = page_start st i + off" "off < 4096"
  shows "unat (p AND (rp_pagesize g - 1)) = off" "unat (drop_bit (unat (rp_pagesize_shift g)) (p - s_start st)) = i"
    "unat (drop_bit (unat (rp_pagesize_shift g)) ((p AND NOT (rp_pagesize g - 1)) - s_start st)) = i"
    "n \<le> 12 \<Longrightarrow> p AND (2 ^ n - 1) = 0 \<longleftrightarrow> off mod 2 ^ n = 0"
proof -
  have g: "rp_pagesize g = 4096" "unat (rp_pagesize_shift g) = 12" "unat (s_start st) mod 4096 = 0"
    using geo by (simp_all add: geo_def)
  have pm: "unat p mod 4096 = off"
  proof -
    from g(3) obtain a where "unat (s_start st) = 4096 * a" by (auto simp: mod_eq_0_iff_dvd)
    with p(1) have "unat p = off + (a + i) * 4096" by (simp add: page_start_def)
    then have "unat p mod 4096 = off mod 4096" by (simp only: mod_mult_self1)
    then show ?thesis using p(2) by simp
  qed
  show "unat (p AND (rp_pagesize g - 1)) = off" using pm by (simp add: page_mask [OF g(1)] unat_and_mask)
  have d: "unat (p - s_start st) = i * 4096 + off" using p(1) by (subst unat_diff_le) (simp_all add: page_start_def word_le_nat_alt)
  show "unat (drop_bit (unat (rp_pagesize_shift g)) (p - s_start st)) = i"
    using p(2) by (simp add: g(2) unat_drop_bit d)
  have b: "unat (p AND NOT (mask 12)) = page_start st i" using pm p(1) by (subst unat_and_not_mask) simp
  have "unat ((p AND NOT (mask 12)) - s_start st) = i * 4096"
    by (subst unat_diff_le) (simp_all add: b page_start_def word_le_nat_alt)
  then show "unat (drop_bit (unat (rp_pagesize_shift g)) ((p AND NOT (rp_pagesize g - 1)) - s_start st)) = i"
    by (simp add: g(2) page_mask [OF g(1)] unat_drop_bit)
  show "p AND (2 ^ n - 1) = 0 \<longleftrightarrow> off mod 2 ^ n = 0" if "n \<le> 12"
  proof -
    have dv: "(2::nat) ^ n dvd 4096" using le_imp_power_dvd [OF that, of "2 :: nat"] by simp
    have "p AND (2 ^ n - 1) = 0 \<longleftrightarrow> unat (p AND mask n) = 0" by (simp add: mask_eq_exp_minus_1 unat_eq_0)
    also have "\<dots> \<longleftrightarrow> unat p mod 2 ^ n = 0" by (simp only: unat_and_mask)
    also have "\<dots> \<longleftrightarrow> off mod 2 ^ n = 0" using pm mod_mod_cancel [OF dv, of "unat p"] by simp
    finally show ?thesis .
  qed
qed

section \<open>Giving a chunk back\<close>

definition frees_chunk :: "slab_pool \<Rightarrow> nat \<Rightarrow> nat \<Rightarrow> nat \<Rightarrow> (free_result \<times> slab_pool) res" where
  "frees_chunk st i k c =
     (if \<not> used st i c then Inr (ChunkFree, st)
      else res_bind (if is_full st i k then relink k (slot_type k) i st else Inr st) (\<lambda>st1.
        if in_use (mark i c False st1) i k then Inr (Freed, mark i c False st1)
        else res_bind (rp_slab_free_pages i 1 (mark i c False st1)) (\<lambda>st3. Inr (Freed, st3))))"

lemma small_in_use:
  assumes m: "map_ok st i k" and k: "k < 3"
  shows "in_use st i k \<longleftrightarrow> s_bits st i 0 AND NOT (push_bit (reserved k) 1 - 1) \<noteq> 0 \<or> (\<exists>j \<in> set [1 ..< 2 ^ (3 - k)]. s_bits st i j \<noteq> 0)"
proof -
  let ?M = "2 ^ (3 - k) :: nat"
  have r: "reserved k < 64" using chunk_counts(4) [OF k] by simp
  have M: "0 < ?M" by simp
  have z: "w \<noteq> 0 \<longleftrightarrow> (\<exists>j < 64. bit w j)" for w :: "64 word" by (auto simp: bit_eq_iff dest: bit_imp_le_length)
  have w0: "s_bits st i 0 AND NOT (push_bit (reserved k) 1 - 1) \<noteq> 0 \<longleftrightarrow> (\<exists>j < 64. reserved k \<le> j \<and> bit (s_bits st i 0) j)"
    unfolding z push_bit_of_1 mask_eq_exp_minus_1 [symmetric] by (auto simp: bit_simps)
  have "in_use st i k \<longleftrightarrow> (\<exists>c. reserved k \<le> c \<and> c < 64 * ?M \<and> bit (s_bits st i (c div 64)) (c mod 64))"
    by (simp add: in_use_def chunk_counts(1) [OF k] small_used [OF m k])
  also have "\<dots> \<longleftrightarrow> (\<exists>n < ?M. \<exists>j < 64. (n = 0 \<longrightarrow> reserved k \<le> j) \<and> bit (s_bits st i n) j)" (is "?A = ?B")
  proof
    assume ?A
    then obtain c where c: "reserved k \<le> c" "c < 64 * ?M" "bit (s_bits st i (c div 64)) (c mod 64)" by blast
    then have "c div 64 < ?M" by (simp add: less_mult_imp_div_less mult.commute [of 64])
    moreover have "c div 64 = 0 \<longrightarrow> reserved k \<le> c mod 64" using c(1) by auto
    ultimately show ?B using c(3) by (intro exI [of _ "c div 64"] conjI exI [of _ "c mod 64"]) auto
  next
    assume ?B
    then obtain n j where nj: "n < ?M" "j < 64" "n = 0 \<longrightarrow> reserved k \<le> j" "bit (s_bits st i n) j" by blast
    have "64 * n + j < 64 * Suc n" "64 * Suc n \<le> 64 * ?M" using nj by simp_all
    then have "64 * n + j < 64 * ?M" by linarith
    moreover have "reserved k \<le> 64 * n + j" using nj r by (cases n) auto
    ultimately show ?A using nj(2,4) by (intro exI [of _ "64 * n + j"]) simp
  qed
  also have "\<dots> \<longleftrightarrow> (\<exists>j < 64. reserved k \<le> j \<and> bit (s_bits st i 0) j) \<or> (\<exists>n \<in> set [1 ..< ?M]. s_bits st i n \<noteq> 0)" (is "?B \<longleftrightarrow> ?C")
  proof
    assume ?B
    then obtain n j where nj: "n < ?M" "j < 64" "n = 0 \<longrightarrow> reserved k \<le> j" "bit (s_bits st i n) j" by blast
    then show ?C using z [of "s_bits st i n"] by (cases "n = 0") auto
  next
    assume ?C
    then show ?B
    proof
      assume "\<exists>n \<in> set [1 ..< ?M]. s_bits st i n \<noteq> 0"
      then obtain n where n: "0 < n" "n < ?M" "s_bits st i n \<noteq> 0" by (auto simp: Suc_le_eq)
      then show ?B using z [of "s_bits st i n"] by blast
    qed (use M in blast)
  qed
  finally show ?thesis by (simp only: w0)
qed

text \<open>The three cases; \<open>off\<close> is the offset of the address in its page.\<close>

lemma chunk_of_offset:
  assumes geo: "geo g sg st" and p: "unat p = page_start st i + off" "off < 4096" and k: "k < 9"
  shows "drop_bit (unat (of_nat (k + 3) :: 64 word)) (p AND (rp_pagesize g - 1)) = of_nat (off div chunk_size k)"
    "unat (of_nat (off div chunk_size k) :: 64 word) = off div chunk_size k"
    "p AND (int_shl 1 (unat (of_nat (k + 3) :: 64 word)) - 1) \<noteq> 0 \<longleftrightarrow> off mod chunk_size k \<noteq> 0"
    "off div chunk_size k < chunk_count k"
proof -
  have "off div chunk_size k \<le> off" by simp
  then have "off div chunk_size k < 2 ^ 64" using p(2) by (rule order_le_less_trans [OF _ order_less_trans]) simp
  then show u: "unat (of_nat (off div chunk_size k) :: 64 word) = off div chunk_size k" by (rule unat_of_size)
  have "unat (drop_bit (k + 3) (p AND (rp_pagesize g - 1))) = off div chunk_size k"
    by (simp only: unat_drop_bit addr_parts(1) [OF geo p] chunk_size_def)
  then show "drop_bit (unat (of_nat (k + 3) :: 64 word)) (p AND (rp_pagesize g - 1)) = of_nat (off div chunk_size k)"
    unfolding unat_shift [OF k] by (simp only: word_unat_eq_iff u)
  show "p AND (int_shl 1 (unat (of_nat (k + 3) :: 64 word)) - 1) \<noteq> 0 \<longleftrightarrow> off mod chunk_size k \<noteq> 0"
    unfolding unat_shift [OF k] using k addr_parts(4) [OF geo p, of "k + 3"] by (simp add: int_shl_pow2 chunk_size_def)
  have "chunk_count k * chunk_size k = 4096"
    using k by (simp add: chunk_count_def chunk_size_def flip: power_add)
  then show "off div chunk_size k < chunk_count k" using p(2) by (simp add: less_mult_imp_div_less)
qed

lemma low_bits: "unat (w AND (64 - 1)) = unat w mod 64" "unat (w div 64) = unat w div 64" for w :: "64 word"
proof -
  show "unat (w AND (64 - 1)) = unat w mod 64" using unat_and_mask [of w 6] by (simp add: mask_eq_exp_minus_1)
qed (simp add: unat_div)

lemma if_or: "(if a then x else if b then x else y) = (if a \<or> b then x else y)"
  by simp

lemma free_small_frees:
  assumes inv: "slab_inv g sg st L {}" and i: "i < length (s_pages st)" and m: "map_ok st i k" and k: "k < 3"
    and p: "unat p = page_start st i + off" "off < 4096" and c: "reserved k \<le> off div chunk_size k"
  shows "free_small g i p (s_pages st ! i) st =
    (if off mod chunk_size k \<noteq> 0 then Inr (WrongChunk, st) else frees_chunk st i k (off div chunk_size k))"
proof -
  have geo: "geo g sg st" and g12: "rp_pagesize_shift g = 12" and ms: "min_shift st = 3" using inv by (simp_all add: slab_inv_def geo_def)
  note mf = map_fields [OF m]
  note co = chunk_of_offset [OF geo p mf(1)]
  let ?c = "off div chunk_size k" and ?q = "s_pages st ! i"
  note sp = shift_params(2,3) [OF g12 mf(1) k]
  have sh: "slab ?q AND RP_SLAB_SHIFT_MASK = of_nat (k + 3)"
  proof -
    have "slab ?q AND RP_SLAB_SHIFT_MASK = of_nat (k + 3) AND mask 4"
      using mf(5) [OF k] by (simp add: RP_SLAB_SHIFT_MASK_def mask_eq_exp_minus_1)
    also have "\<dots> = of_nat (k + 3)"
      using k by (simp only: word_unat_eq_iff unat_and_mask unat_shift [OF mf(1)]) simp
    finally show ?thesis .
  qed
  have slot: "unat (of_nat (k + 3) - min_shift st) = k" using k unat_of_size [of k] by (simp add: ms)
  have kx: "unat (of_nat ?c AND (8 * 8 - 1) :: 64 word) = ?c mod 64" "unat (of_nat ?c div (8 * 8) :: 64 word) = ?c div 64"
    using low_bits [of "of_nat ?c"] co(2) by simp_all
  have used: "s_bits st i (?c div 64) AND push_bit (?c mod 64) 1 = 0 \<longleftrightarrow> \<not> used st i ?c"
    using test_bit small_used [OF m k] by simp
  show ?thesis
  proof (cases "off mod chunk_size k \<noteq> 0 \<or> \<not> used st i ?c")
    case True
    then show ?thesis
      unfolding free_small_def Let_def sh co(1) kx addr_parts(3) [OF geo p] used co(3) frees_chunk_def
      by (cases "off mod chunk_size k = 0") (simp_all only: if_True if_False simp_thms)
  next
    case False
    with free_chunk_ok [OF inv i m c co(4)] obtain st1 where full: "is_full st i k \<longleftrightarrow> nxt ?q = Null"
      and st1: "(if is_full st i k then relink k (slot_type k) i st else Inr st) = Inr st1" "slab (s_pages st1 ! i) = slab ?q"
        "snd (prv (s_pages st1 ! i)) = slot_type k" "s_bits st1 = s_bits st" "length (s_pages st1) = length (s_pages st)"
      by blast
    have ty: "slot_type k = RP_SLAB_SMALL" using slot_types [OF mf(1)] k by simp
    have m1: "map_ok st1 i k"
      using map_frame(1) [of st1 i st k] st1(2-4) mf(2) [OF k] m by (simp add: ty)
    let ?st2 = "mark i ?c False st1"
    have mk: "set_bits i (?c div 64) (s_bits st1 i (?c div 64) AND NOT (push_bit (?c mod 64) 1)) st1 = ?st2"
      using st1(3) ty by (simp add: mark_def put_bit_def del: push_bit_of_1)
    have "map_ok ?st2 i k" using mark_ok(1) [OF m1 co(4)] i st1(5) by simp
    note use = small_in_use [OF this k]
    have n: "unat (map_chunks g (of_nat (k + 3))) = reserved k"
      using chunk_counts(4) [OF k] by (subst sp(2)) (rule unat_of_size, simp)
    have st1': "(if nxt ?q = Null then relink k RP_SLAB_SMALL i st else Inr st) = Inr st1"
      using st1(1) by (simp only: full ty)
    have F: "off mod chunk_size k = 0" "used st i ?c" using False by simp_all
    show ?thesis
      unfolding free_small_def Let_def sh co(1) kx addr_parts(3) [OF geo p] used co(3) frees_chunk_def slot full ty n sp(1)
      by (simp only: F simp_thms if_True if_False st1' res_bind_simps mk use if_or)
  qed
qed

text \<open>The map of a page after the page has been linked again and the chunk cleared.\<close>

lemma slab_and: "slab_update (\<lambda>w. w AND b) q = q\<lparr>slab := slab q AND b\<rparr>" for q :: slab_page
  by (rule page_eqI) simp_all

lemma word_map_cleared:
  assumes inv: "slab_inv g sg st L {}" and i: "i < length (s_pages st)" and m: "map_ok st i k" and k: "3 \<le> k"
    and c: "c < chunk_count k" "used st i c"
  shows "is_full st i k \<longleftrightarrow> nxt (s_pages st ! i) = Null"
    "\<exists>st1. (if is_full st i k then relink k (slot_type k) i st else Inr st) = Inr st1 \<and>
      upd (Page i) (slab_update (\<lambda>w. w AND NOT (push_bit (if k = 3 then c else 32 + c) 1))) st1 = Inr (mark i c False st1) \<and>
      pg (mark i c False st1) (Page i) = Inr (s_pages (mark i c False st1) ! i) \<and> map_ok (mark i c False st1) i k"
proof -
  note mf = map_fields [OF m]
  have "reserved k \<le> c" using chunk_counts(5) [OF k] by simp
  note fc = free_chunk_ok [OF inv i m this c]
  show "is_full st i k \<longleftrightarrow> nxt (s_pages st ! i) = Null" by (rule fc(1))
  from fc(2) obtain st1 where st1: "(if is_full st i k then relink k (slot_type k) i st else Inr st) = Inr st1"
    "slab (s_pages st1 ! i) = slab (s_pages st ! i)" "snd (prv (s_pages st1 ! i)) = slot_type k" "s_bits st1 = s_bits st"
    "length (s_pages st1) = length (s_pages st)" by blast
  have ty: "slot_type k = (if k = 3 then RP_SLAB_EXACT else RP_SLAB_BIG)" using slot_types [OF mf(1)] k by auto
  have tm: "snd (prv (s_pages st ! i)) = slot_type k" using map_type [OF m] by blast
  have i1: "i < length (s_pages st1)" using i st1(5) by simp
  have m1: "map_ok st1 i k" using map_frame(1) [of st1 i st k] st1(2-4) tm m by simp
  have "upd (Page i) (slab_update (\<lambda>w. w AND NOT (push_bit (if k = 3 then c else 32 + c) 1))) st1 = Inr (mark i c False st1)"
    using i1 st1(3) ty by (simp add: mark_def put_bit_def slab_types setn.simps slab_and)
  moreover have "pg (mark i c False st1) (Page i) = Inr (s_pages (mark i c False st1) ! i)" using i1 by simp
  moreover have "map_ok (mark i c False st1) i k" by (rule mark_ok(1) [OF m1 c(1) i1])
  ultimately show "\<exists>st1. (if is_full st i k then relink k (slot_type k) i st else Inr st) = Inr st1 \<and>
      upd (Page i) (slab_update (\<lambda>w. w AND NOT (push_bit (if k = 3 then c else 32 + c) 1))) st1 = Inr (mark i c False st1) \<and>
      pg (mark i c False st1) (Page i) = Inr (s_pages (mark i c False st1) ! i) \<and> map_ok (mark i c False st1) i k"
    using st1(1) by blast
qed

lemma word_nz: "w \<noteq> 0 \<longleftrightarrow> (\<exists>j < 64. bit w j)" for w :: "64 word"
  by (auto simp: bit_eq_iff dest: bit_imp_le_length)

lemma exact_full: "map_ok st i 3 \<Longrightarrow> is_full st i 3 \<longleftrightarrow> slab (s_pages st ! i) = RP_SLAB_BUSY"
  using map_fields(3) chunk_counts(2) by (simp add: is_full_def used_def busy_bits slab_types Let_def)

lemma exact_in_use: "map_ok st i 3 \<Longrightarrow> in_use st i 3 \<longleftrightarrow> slab (s_pages st ! i) \<noteq> 0"
  using map_fields(3) chunk_counts(2) by (simp add: in_use_def used_def word_nz slab_types Let_def reserved_def)

lemma big_in_use:
  assumes "map_ok st i k" "3 < k"
  shows "in_use st i k \<longleftrightarrow> slab (s_pages st ! i) AND RP_SLAB_MAP_MASK \<noteq> 0"
proof -
  let ?w = "slab (s_pages st ! i)"
  have r: "reserved k = 0" using chunk_counts(5) [of k] assms(2) by simp
  have "in_use st i k \<longleftrightarrow> (\<exists>c < chunk_count k. bit ?w (32 + c))" by (simp add: in_use_def big_used [OF assms] r)
  also have "\<dots> \<longleftrightarrow> (\<exists>j < 64. bit ?w j \<and> 32 \<le> j)"
  proof
    assume "\<exists>c < chunk_count k. bit ?w (32 + c)"
    then obtain c where "c < chunk_count k" "bit ?w (32 + c)" by blast
    then show "\<exists>j < 64. bit ?w j \<and> 32 \<le> j" using chunk_counts(3) [OF assms(2)] by (intro exI [of _ "32 + c"]) simp
  next
    assume "\<exists>j < 64. bit ?w j \<and> 32 \<le> j"
    then obtain j where j: "bit ?w j" "32 \<le> j" by blast
    with map_fields(7) [OF assms(1,2) j(1)] show "\<exists>c < chunk_count k. bit ?w (32 + c)"
      by (intro exI [of _ "j - 32"]) auto
  qed
  also have "\<dots> \<longleftrightarrow> ?w AND RP_SLAB_MAP_MASK \<noteq> 0" by (auto simp: word_nz bit_and_iff bit_map_mask)
  finally show ?thesis .
qed

lemma free_exact_frees:
  assumes inv: "slab_inv g sg st L {}" and i: "i < length (s_pages st)" and m: "map_ok st i k" and k: "k = 3"
    and p: "unat p = page_start st i + off" "off < 4096"
  shows "free_exact g sg i p (s_pages st ! i) st =
    (if off mod chunk_size k \<noteq> 0 then Inr (WrongChunk, st) else frees_chunk st i k (off div chunk_size k))"
proof -
  have geo: "geo g sg st" and ms: "min_shift st = 3" and ex: "slab_exact_shift sg = 6" "slab_exact_size sg = 64"
    using inv by (simp_all add: slab_inv_def geo_def)
  note mf = map_fields [OF m]
  note co = chunk_of_offset [OF geo p mf(1)]
  let ?c = "off div chunk_size k" and ?q = "s_pages st ! i"
  have sh: "unat (drop_bit (unat (slab_exact_shift sg)) (p AND (rp_pagesize g - 1))) = ?c"
    using co(1,2) by (simp add: k ex)
  have al: "p AND (slab_exact_size sg - 1) \<noteq> 0 \<longleftrightarrow> off mod chunk_size k \<noteq> 0"
    using co(3) by (simp add: k ex int_shl_pow2)
  have slot: "unat (slab_exact_shift sg - min_shift st) = k" by (simp add: k ms ex)
  have used: "slab ?q AND push_bit ?c 1 = 0 \<longleftrightarrow> \<not> used st i ?c"
    using test_bit mf(3) [OF k] by (simp add: used_def slab_types Let_def)
  show ?thesis
  proof (cases "off mod chunk_size k \<noteq> 0 \<or> \<not> used st i ?c")
    case True
    then show ?thesis
      unfolding free_exact_def Let_def sh al used frees_chunk_def
      by (cases "off mod chunk_size k = 0") (simp_all only: if_True if_False simp_thms)
  next
    case False
    then have F: "off mod chunk_size k = 0" "used st i ?c" by simp_all
    have "3 \<le> k" using k by simp
    from word_map_cleared [OF inv i m this co(4) F(2)] obtain st1 where
      st1: "(if is_full st i k then relink k (slot_type k) i st else Inr st) = Inr st1"
      "upd (Page i) (slab_update (\<lambda>w. w AND NOT (push_bit ?c 1))) st1 = Inr (mark i ?c False st1)"
      "pg (mark i ?c False st1) (Page i) = Inr (s_pages (mark i ?c False st1) ! i)" "map_ok (mark i ?c False st1) i k"
      using k by auto
    have ty: "slot_type k = RP_SLAB_EXACT" using slot_types [OF mf(1)] k by simp
    note full = exact_full [OF m [unfolded k], folded k] and use = exact_in_use [OF st1(4) [unfolded k], folded k]
    have st1': "(if slab ?q = RP_SLAB_BUSY then relink k RP_SLAB_EXACT i st else Inr st) = Inr st1"
      using st1(1) by (simp only: full ty)
    show ?thesis
      unfolding free_exact_def Let_def sh al used frees_chunk_def slot full ty
      by (simp only: F simp_thms if_True if_False st1' res_bind_simps st1(2,3) use)
  qed
qed

lemma free_big_frees:
  assumes inv: "slab_inv g sg st L {}" and i: "i < length (s_pages st)" and m: "map_ok st i k" and k: "3 < k"
    and p: "unat p = page_start st i + off" "off < 4096"
  shows "free_big g i p (s_pages st ! i) st =
    (if off mod chunk_size k \<noteq> 0 then Inr (WrongChunk, st) else frees_chunk st i k (off div chunk_size k))"
proof -
  have geo: "geo g sg st" and g12: "rp_pagesize_shift g = 12" and ms: "min_shift st = 3" using inv by (simp_all add: slab_inv_def geo_def)
  note mf = map_fields [OF m]
  note co = chunk_of_offset [OF geo p mf(1)]
  let ?c = "off div chunk_size k" and ?q = "s_pages st ! i"
  note sh = mf(6) [OF k]
  have slot: "unat (of_nat (k + 3) - min_shift st) = k" using mf(1) unat_of_size [of k] by (simp add: ms)
  have c32: "?c < 32" using co(4) chunk_counts(3) [OF k] by simp
  have bt: "unat (of_nat ?c + of_nat RP_SLAB_MAP_SHIFT :: 64 word) = 32 + ?c"
    using c32 unat_of_size [of "?c + 32"] by (simp add: RP_SLAB_MAP_SHIFT_def)
  have used: "slab ?q AND push_bit (32 + ?c) 1 = 0 \<longleftrightarrow> \<not> used st i ?c"
    using test_bit big_used [OF m k] by simp
  show ?thesis
  proof (cases "off mod chunk_size k \<noteq> 0 \<or> \<not> used st i ?c")
    case True
    then show ?thesis
      unfolding free_big_def Let_def sh co(1,3) bt used frees_chunk_def
      by (cases "off mod chunk_size k = 0") (simp_all only: if_True if_False simp_thms)
  next
    case False
    then have F: "off mod chunk_size k = 0" "used st i ?c" by simp_all
    have "3 \<le> k" using k by simp
    from word_map_cleared [OF inv i m this co(4) F(2)] obtain st1 where full: "is_full st i k \<longleftrightarrow> nxt ?q = Null" and
      st1: "(if is_full st i k then relink k (slot_type k) i st else Inr st) = Inr st1"
      "upd (Page i) (slab_update (\<lambda>w. w AND NOT (push_bit (32 + ?c) 1))) st1 = Inr (mark i ?c False st1)"
      "pg (mark i ?c False st1) (Page i) = Inr (s_pages (mark i ?c False st1) ! i)" "map_ok (mark i ?c False st1) i k"
      using k by auto
    have ty: "slot_type k = RP_SLAB_BIG" using slot_types [OF mf(1)] k by simp
    note use = big_in_use [OF st1(4) k]
    have st1': "(if nxt ?q = Null then relink k RP_SLAB_BIG i st else Inr st) = Inr st1"
      using st1(1) by (simp only: full ty)
    show ?thesis
      unfolding free_big_def Let_def sh co(1,3) bt used frees_chunk_def slot full ty
      by (simp only: F simp_thms if_True if_False st1' res_bind_simps st1(2,3) use)
  qed
qed

end
