(* ===== verification/Slab_Ops.thy ===== *)
theory Slab_Ops
  imports Slab_Free_Maps
begin

text \<open>
  \<open>rp_slab_free\<close> and \<open>rp_slab_alloc\<close> as a whole: the invariant and the allocated bytes.
\<close>

section \<open>The region of an address\<close>

text \<open>The bytes that have been handed out at the address \<open>p\<close>; none when \<open>p\<close> is not in use.\<close>

definition slab_region :: "slab_pool \<Rightarrow> addr \<Rightarrow> nat set" where
  "slab_region st p = (let d = unat p - unat (s_start st); i = d div 4096; off = d mod 4096; q = s_pages st ! i; k = page_slot q in
     if unat p < unat (s_start st) \<or> length (s_pages st) \<le> i then {}
     else if snd (prv q) \<noteq> 0 then
       (if off mod chunk_size k = 0 \<and> reserved k \<le> off div chunk_size k \<and> used st i (off div chunk_size k)
        then chunk_region st i k (off div chunk_size k) else {})
     else if off = 0 then page_occ st i else {})"

lemma slab_region_page:
  assumes "unat p = page_start st i + off" "off < 4096" "i < length (s_pages st)"
  shows "slab_region st p = (let q = s_pages st ! i; k = page_slot q in
     if snd (prv q) \<noteq> 0 then
       (if off mod chunk_size k = 0 \<and> reserved k \<le> off div chunk_size k \<and> used st i (off div chunk_size k)
        then chunk_region st i k (off div chunk_size k) else {})
     else if off = 0 then page_occ st i else {})"
proof -
  have "unat p - unat (s_start st) = off + i * 4096" using assms(1) by (simp add: page_start_def)
  then have "(unat p - unat (s_start st)) div 4096 = i" "(unat p - unat (s_start st)) mod 4096 = off"
    using assms(2) by simp_all
  moreover have "\<not> unat p < unat (s_start st)" using assms(1) by (simp add: page_start_def)
  ultimately show ?thesis using assms(3) by (simp add: slab_region_def Let_def)
qed

lemma inv_desc: "slab_inv g sg st L {} \<Longrightarrow> j < length (s_pages st) \<Longrightarrow> desc_ok st (L FreeHead) (slot_lists L) j"
  by (simp add: slab_inv_def)

lemma occ_grow:
  assumes "same_frame st st' i" "i < length (s_pages st)" "page_occ st' i = page_occ st i \<union> R"
  shows "slab_occ st' = slab_occ st \<union> R"
proof -
  have "(\<Union>j < length (s_pages st). page_occ st' j) = (\<Union>j < length (s_pages st). page_occ st j) \<union> R"
    using assms by (auto simp: same_frame_def split: if_splits)
  then show ?thesis using assms(1) by (simp add: slab_occ_def same_frame_def)
qed

lemma occ_shrink:
  assumes inv: "slab_inv g sg st L {}" and "same_frame st st' i" "i < length (s_pages st)"
    and "page_occ st' i = page_occ st i - R" "R \<subseteq> page_occ st i"
  shows "slab_occ st' = slab_occ st - R"
proof -
  have dis: "page_occ st j \<inter> R = {}" if "j < length (s_pages st)" "j \<noteq> i" for j
    using pages_disjoint [OF inv_rings(1) [OF inv] inv_desc [OF inv that(1)] inv_desc [OF inv assms(3)] that(2)] assms(5) by blast
  have "page_occ st' j = page_occ st j - R" if "j < length (s_pages st)" for j
  proof (cases "j = i")
    case False
    with assms(2) that have "page_occ st' j = page_occ st j" by (simp add: same_frame_def)
    with dis [OF that False] show ?thesis by blast
  qed (use assms(4) in simp)
  then show ?thesis using assms(2) by (simp add: slab_occ_def same_frame_def)
qed

section \<open>Freeing\<close>

lemma free_dispatch:
  assumes inv: "slab_inv g sg st L {}" and i: "i < usable st" and p: "unat p = page_start st i + off" "off < 4096"
  shows "rp_slab_free g sg p st = (let q = s_pages st ! i in
     if snd (prv q) = RP_SLAB_SMALL then free_small g i p q st
     else if snd (prv q) = RP_SLAB_EXACT then free_exact g sg i p q st
     else if snd (prv q) = RP_SLAB_BIG then free_big g i p q st
     else free_page g i p q st)"
proof -
  have geo: "geo g sg st" using inv by (simp add: slab_inv_def)
  have "unat (s_start st) + (i + 1) * 4096 \<le> unat (s_end st)" using i by (intro usable_end [OF geo]) simp
  then have "\<not> p < s_start st" "\<not> p > s_end st" using p by (simp_all add: word_less_nat_alt page_start_def)
  moreover have "pg st (Page i) = Inr (s_pages st ! i)" using usable_le(2) [OF i] by simp
  ultimately show ?thesis
    using addr_parts(2) [OF geo p] by (simp add: rp_slab_free_def Let_def)
qed

lemma free_chunk_case:
  assumes inv: "slab_inv g sg st L {}" and i: "i < length (s_pages st)" and m: "map_ok st i k"
    and p: "unat p = page_start st i + off" "off < 4096" and c: "reserved k \<le> off div chunk_size k"
  shows "rp_slab_free g sg p st =
    (if off mod chunk_size k \<noteq> 0 then Inr (WrongChunk, st) else frees_chunk st i k (off div chunk_size k))"
proof -
  note mf = map_fields [OF m]
  have u: "i < usable st" using inv_chunk(5) [OF inv i] map_type [OF m] by blast
  consider "k < 3" | "k = 3" | "3 < k" by linarith
  then show ?thesis
  proof cases
    case 1
    then show ?thesis
      using free_small_frees [OF inv i m 1 p c] mf(2) [OF 1] free_dispatch [OF inv u p] by (simp add: Let_def)
  next
    case 2
    then show ?thesis
      using free_exact_frees [OF inv i m 2 p] mf(3) [OF 2] free_dispatch [OF inv u p] by (simp add: Let_def slab_types)
  next
    case 3
    then show ?thesis
      using free_big_frees [OF inv i m 3 p] mf(4) [OF 3] free_dispatch [OF inv u p] by (simp add: Let_def slab_types)
  qed
qed

text \<open>A run of whole pages goes back.\<close>

lemma free_run_ok:
  assumes inv: "slab_inv g sg st L {}" and i: "i < length (s_pages st)" and q: "snd (prv (s_pages st ! i)) = 0"
    and run: "0 < run_len (L FreeHead) st i" and p: "unat p = page_start st i"
  shows "\<exists>st' L'. rp_slab_free g sg p st = Inr (Freed, st') \<and> slab_inv g sg st' L' {} \<and> same_frame st st' i \<and> page_occ st' i = {}"
proof -
  let ?q = "s_pages st ! i" and ?F = "L FreeHead"
  have geo: "geo g sg st" and r: "rings st L" and X: "slab_inv g sg st L {i}" using inv by (auto simp: slab_inv_def)
  note d = inv_desc [OF inv i]
  define n where "n = slab ?q AND NOT RP_SLAB_PAGE_START"
  have le: "run_len ?F st i \<le> usable st - i" using d by (simp add: desc_ok_def)
  then have u: "i < usable st" "i + run_len ?F st i \<le> usable st" using run by linarith+
  have nF: "slab ?q \<noteq> 0" "slab ?q \<noteq> RP_SLAB_PAGE_BUSY" "unat n = run_len ?F st i"
  proof -
    have "slab ?q \<noteq> 0 \<and> slab ?q \<noteq> RP_SLAB_PAGE_BUSY \<and> unat n = run_len ?F st i"
    proof (cases "i \<in> set ?F")
      case True
      then have l: "run_len ?F st i = unat (slab ?q)" by (simp add: run_len_def)
      then have b: "unat (slab ?q) < 2 ^ 63" using u(2) pages_bound [of st] by simp
      then have "\<not> bit (slab ?q) 63" by (rule small_bit)
      then have "n = slab ?q" unfolding n_def by (intro bit_word_eqI) (auto simp: bit_simps)
      with b l run show ?thesis by (auto simp: RP_SLAB_PAGE_BUSY_def)
    next
      case False
      with run q show ?thesis by (auto simp: run_len_def n_def Let_def split: if_splits)
    qed
    then show "slab ?q \<noteq> 0" "slab ?q \<noteq> RP_SLAB_PAGE_BUSY" "unat n = run_len ?F st i" by blast+
  qed
  have p0: "unat p = page_start st i + 0" "0 < (4096 :: nat)" using p by simp_all
  have off: "p AND (rp_pagesize g - 1) = 0"
    using addr_parts(1) [OF geo p0] by (simp add: unat_eq_0)
  have free: "rp_slab_free g sg p st = res_bind (rp_slab_free_pages i n st) (\<lambda>st1. Inr (Freed, st1))"
    using free_dispatch [OF inv u(1) p0] q off nF(1,2)
    by (simp add: free_page_def slab_types RP_SLAB_PAGE_FREE_def n_def Let_def)
  have tails: "\<forall>t. i < t \<and> t < i + unat n \<longrightarrow> s_pages st ! t \<in> {zero_page, busy_page}"
    using d unfolding desc_ok_def nF(3) by auto
  have own: "nxt ?q \<noteq> Null \<longleftrightarrow> (\<exists>s \<in> heads. i \<in> set (L s))"
  proof (cases "i \<in> set ?F")
    case True
    with ring_links(2) [OF r free_head True] show ?thesis by auto
  next
    case False
    with d q have "prv ?q = (Null, 0)" "nxt ?q = Null" by (auto simp: desc_ok_def run_ok_def)
    then have "i \<notin> set (L s)" if "s \<in> heads" for s using ring_prv(2) [OF r that, of i] by auto
    with \<open>nxt ?q = Null\<close> show ?thesis by blast
  qed
  have sep: "\<forall>j < length (s_pages st). j \<noteq> i \<longrightarrow> {j ..< j + run_len ?F st j} \<inter> {i ..< i + unat n} = {}"
  proof (intro allI impI)
    fix j assume j: "j < length (s_pages st)" "j \<noteq> i"
    show "{j ..< j + run_len ?F st j} \<inter> {i ..< i + unat n} = {}"
      using runs_disjoint [OF inv_rings(1) [OF inv] inv_desc [OF inv j(1)] d j(2) _ run] nF(3)
      by (cases "run_len ?F st j = 0") auto
  qed
  from free_pages_ok [OF X _ _ tails own sep] run u(2) nF(3) obtain st' where
    "rp_slab_free_pages i n st = Inr st'" "slab_inv g sg st' (freed_lists L i) {}"
    "length (s_pages st') = length (s_pages st)" "s_start st' = s_start st" "s_end st' = s_end st"
    "page_occ st' i = {}" "\<forall>j < length (s_pages st). j \<noteq> i \<longrightarrow> page_occ st' j = page_occ st j" by auto
  then show ?thesis using free by (auto simp: same_frame_def)
qed

lemma page_addr_split:
  assumes "\<not> unat p < unat (s_start st)"
  shows "unat p = page_start st ((unat p - unat (s_start st)) div 4096) + (unat p - unat (s_start st)) mod 4096"
    "(unat p - unat (s_start st)) mod 4096 < 4096"
  using assms by (simp_all add: page_start_def)

lemma busy_run: 
  assumes "slab_inv g sg st L {}" "i < length (s_pages st)" "snd (prv (s_pages st ! i)) = 0" "page_occ st i \<noteq> {}"
  shows "0 < run_len (L FreeHead) st i"
proof -
  note o = page_occ_run [OF inv_desc [OF assms(1,2)] inv_rings(1) [OF assms(1)]]
  have False if "run_len (L FreeHead) st i = 0"
    using o assms(4) unfolding that by simp
  then show ?thesis by blast
qed

lemma free_region:
  assumes inv: "slab_inv g sg st L {}" and R: "slab_region st p \<noteq> {}"
  shows "\<exists>st' L'. rp_slab_free g sg p st = Inr (Freed, st') \<and> slab_inv g sg st' L' {} \<and>
    slab_occ st' = slab_occ st - slab_region st p \<and> slab_region st p \<subseteq> slab_occ st"
proof -
  let ?i = "(unat p - unat (s_start st)) div 4096" and ?off = "(unat p - unat (s_start st)) mod 4096"
  have ge: "\<not> unat p < unat (s_start st)" and i: "?i < length (s_pages st)"
    using R by (auto simp: slab_region_def Let_def split: if_splits)
  note p = page_addr_split [OF ge]
  note rg = slab_region_page [OF p i]
  let ?q = "s_pages st ! ?i" and ?k = "page_slot (s_pages st ! ?i)"
  have sub: "page_occ st ?i \<subseteq> slab_occ st" using i unfolding slab_occ_def by blast
  show ?thesis
  proof (cases "snd (prv ?q) = 0")
    case False
    let ?c = "?off div chunk_size ?k"
    from inv_chunk(1) [OF inv i False] have m: "map_ok st ?i ?k" by (auto simp: chunk_ok_map map_ok_def Let_def)
    note mf = map_fields [OF m]
    have c: "?off mod chunk_size ?k = 0" "reserved ?k \<le> ?c" "used st ?i ?c" "slab_region st p = chunk_region st ?i ?k ?c"
      using R False by (auto simp: rg Let_def split: if_splits)
    have cc: "?c < chunk_count ?k"
      using inv chunk_of_offset(4) [OF _ p mf(1)] by (auto simp: slab_inv_def)
    from free_chunk_ok(2) [OF inv i m c(2) cc c(3)] obtain st1 st2 L' where
      f: "(if is_full st ?i ?k then relink ?k (slot_type ?k) ?i st else Inr st) = Inr st1"
        "(if in_use (mark ?i ?c False st1) ?i ?k then Inr (mark ?i ?c False st1)
          else rp_slab_free_pages ?i 1 (mark ?i ?c False st1)) = Inr st2"
        "slab_inv g sg st2 L' {}" "same_frame st st2 ?i" "page_occ st2 ?i = page_occ st ?i - chunk_region st ?i ?k ?c"
      by blast
    have "frees_chunk st ?i ?k ?c = Inr (Freed, st2)"
      using f(2) c(3) by (auto simp: frees_chunk_def f(1) split: if_splits)
    then have run: "rp_slab_free g sg p st = Inr (Freed, st2)"
      using free_chunk_case [OF inv i m p c(2)] c(1) by simp
    have "chunk_region st ?i ?k ?c \<subseteq> page_occ st ?i"
      using c(2,3) cc by (auto simp: page_occ_map [OF m])
    with occ_shrink [OF inv f(4) i f(5)] run f(3) sub c(4) show ?thesis by auto
  next
    case True
    with R have o: "?off = 0" "slab_region st p = page_occ st ?i" by (auto simp: rg Let_def split: if_splits)
    have p': "unat p = page_start st ?i" using p(1) o(1) by simp
    from free_run_ok [OF inv i True busy_run [OF inv i True] p'] R o(2) obtain st' L' where
      f: "rp_slab_free g sg p st = Inr (Freed, st')" "slab_inv g sg st' L' {}" "same_frame st st' ?i" "page_occ st' ?i = {}"
      by auto
    have "page_occ st' ?i = page_occ st ?i - page_occ st ?i" using f(4) by simp
    from occ_shrink [OF inv f(3) i this] f(1,2) sub o(2) show ?thesis by auto
  qed
qed

end
