(* ===== verification/Slab_Alloc.thy ===== *)
theory Slab_Alloc
  imports Slab_Ops
begin

text \<open>
  \<open>rp_slab_alloc\<close>: the slot of a size, the page that serves a request for a chunk (one with
  a free chunk, or a new one), and requests for whole pages.
\<close>

section \<open>A new page for a slot\<close>

lemma rings_extend:
  assumes r: "rings st L" and k: "k < 9" "L (Slot k) = []" and i: "\<forall>t \<in> heads. i \<notin> set (L t)" "i < length (s_pages st)"
    and len: "length (s_pages st') = length (s_pages st)" "\<forall>r. valid st' r = valid st r"
    and new: "nxt (node st' (Slot k)) = Page i" "nxt (s_pages st' ! i) = Slot k" "prv (s_pages st' ! i) = (Slot k, slot_type k)"
    and old: "\<forall>s \<in> heads. s \<noteq> Slot k \<longrightarrow> node st' s = node st s" "\<forall>j. j \<noteq> i \<longrightarrow> s_pages st' ! j = s_pages st ! j"
  shows "rings st' (L(Slot k := [i]))"
proof (rule rings_update [OF r])
  show h: "Slot k \<in> heads" using k(1) by simp
  have "valid st (Slot k)" using rings_dll [OF r h] by (simp add: dll_def)
  then show "dll st' (Slot k) (ring_type (Slot k)) [i]"
    using new i(2) len by (simp add: dll_def del: valid.simps(3))
  fix t assume t: "t \<in> heads" "t \<noteq> Slot k"
  show "dll st' t (ring_type t) (L t)"
  proof (rule dll_frame [OF rings_dll [OF r t(1)] len(1)])
    show "valid st' t" using rings_dll [OF r t(1)] len(2) by (simp add: dll_def)
    show "nxt (node st' t) = nxt (node st t)" using old(1) t by simp
    show "\<forall>x \<in> set (L t). nxt (node st' (Page x)) = nxt (node st (Page x)) \<and> prv (node st' (Page x)) = prv (node st (Page x))"
    proof
      fix x assume "x \<in> set (L t)"
      then have "x \<noteq> i" using i(1) t(1) by blast
      with old(2) show "nxt (node st' (Page x)) = nxt (node st (Page x)) \<and> prv (node st' (Page x)) = prv (node st (Page x))" by simp
    qed
  qed
qed (use i(1) in auto)

definition linked :: "nat \<Rightarrow> 64 word \<Rightarrow> (nat \<Rightarrow> 64 word) \<Rightarrow> nat \<Rightarrow> slab_pool \<Rightarrow> slab_pool" where
  "linked k w bm i st = setn (Slot k) (nxt_update (\<lambda>_. Page i))
     (setn (Page i) (\<lambda>_. \<lparr>slab = w, nxt = Slot k, prv = (Slot k, slot_type k)\<rparr>) (st\<lparr>s_bits := (s_bits st)(i := bm)\<rparr>))"

lemma valid_bits [simp]: "valid (st\<lparr>s_bits := f\<rparr>) r = valid st r" "node (st\<lparr>s_bits := f\<rparr>) r = node st r"
  by (cases r; simp)+

lemma linked_fields:
  assumes "i < length (s_pages st)" "k < length (s_slots st)"
  shows "s_pages (linked k w bm i st) ! i = \<lparr>slab = w, nxt = Slot k, prv = (Slot k, slot_type k)\<rparr>"
    "j \<noteq> i \<Longrightarrow> s_pages (linked k w bm i st) ! j = s_pages st ! j"
    "s_bits (linked k w bm i st) = (s_bits st)(i := bm)"
    "length (s_pages (linked k w bm i st)) = length (s_pages st)" "length (s_slots (linked k w bm i st)) = length (s_slots st)"
    "min_size (linked k w bm i st) = min_size st" "min_shift (linked k w bm i st) = min_shift st"
    "s_start (linked k w bm i st) = s_start st" "s_end (linked k w bm i st) = s_end st"
    "valid (linked k w bm i st) r = valid st r"
    "r \<noteq> Slot k \<Longrightarrow> r \<noteq> Page i \<Longrightarrow> node (linked k w bm i st) r = node st r"
    "nxt (node (linked k w bm i st) (Slot k)) = Page i"
    "link_slot k (slot_type k) w i (st\<lparr>s_bits := (s_bits st)(i := bm)\<rparr>) = Inr (linked k w bm i st)"
proof -
  show "r \<noteq> Slot k \<Longrightarrow> r \<noteq> Page i \<Longrightarrow> node (linked k w bm i st) r = node st r"
    using assms by (cases r) (auto simp: linked_def setn.simps nth_list_update)
  show "valid (linked k w bm i st) r = valid st r" by (simp add: linked_def)
qed (use assms in \<open>simp_all add: linked_def setn.simps link_slot_def\<close>)

lemma reserved_less:
  assumes k: "k < 9"
  shows "reserved k + 1 < chunk_count k"
proof -
  have "(2::nat) ^ 1 \<le> 2 ^ (9 - k)" using k by (intro power_increasing) simp_all
  then have "2 \<le> chunk_count k" by (simp add: chunk_count_def)
  moreover have "64 * 2 ^ 0 \<le> 64 * (2::nat) ^ (3 - k)" by (intro mult_le_mono2 power_increasing) simp_all
  then have "k < 3 \<Longrightarrow> 64 \<le> chunk_count k" using chunk_counts(1) [of k] by simp
  ultimately show ?thesis using chunk_counts(4,5) [of k] by (cases "k < 3") auto
qed

lemma new_chunk_page:
  assumes inv: "slab_inv g sg st L {}" and i: "i < usable st" "s_pages st ! i = run_page 1" and k: "k < 9" "L (Slot k) = []"
    and m: "map_ok (linked k w bm i st) i k" and u: "\<forall>c < chunk_count k. used (linked k w bm i st) i c \<longleftrightarrow> c \<le> reserved k"
  shows "\<exists>L'. slab_inv g sg (linked k w bm i st) L' {}" "same_frame st (linked k w bm i st) i"
    "page_occ (linked k w bm i st) i = chunk_region st i k (reserved k)"
proof -
  let ?st' = "linked k w bm i st"
  have r: "rings st L" and geo: "geo g sg st" and X: "slab_inv g sg st L {i}" and N: "i < length (s_pages st)"
    and kl: "k < length (s_slots st)"
    using inv i(1) k(1) usable_le(2) by (auto simp: slab_inv_def geo_def)
  note f = linked_fields [OF N kl, where w = w and bm = bm]
  have rp: "prv (run_page 1) = (Null, 0)" "run_page 1 \<notin> {zero_page, busy_page}"
    using run_page_facts [of 1] by (auto simp: tail_pages)
  have none: "\<forall>t \<in> heads. i \<notin> set (L t)" using ring_prv(2) [OF r, of _ i] i(2) rp(1) by auto
  have r': "rings ?st' (L(Slot k := [i]))"
  proof (rule rings_extend [OF r k none N])
    show "\<forall>s \<in> heads. s \<noteq> Slot k \<longrightarrow> node ?st' s = node st s" using f(11) heads_not_Page by blast
  qed (use f in simp_all)
  have lists: "\<forall>s \<in> heads. \<forall>j. j \<noteq> i \<longrightarrow> (j \<in> set ((L(Slot k := [i])) s) \<longleftrightarrow> j \<in> set (L s))" using k(2) by simp
  have slots: "\<forall>k' < 9. i \<in> set ((L(Slot k := [i])) (Slot k')) \<longrightarrow> page_slot (s_pages ?st' ! i) = k'"
  proof (intro allI impI)
    fix k' :: nat assume k': "k' < 9" "i \<in> set ((L(Slot k := [i])) (Slot k'))"
    then have "k' = k" using none by (auto split: if_splits)
    with m show "page_slot (s_pages ?st' ! i) = k'" by (simp add: map_ok_def Let_def)
  qed
  have 1: "\<forall>j. j \<noteq> i \<longrightarrow> slab (s_pages ?st' ! j) = slab (s_pages st ! j) \<and> s_bits ?st' j = s_bits st j" by (simp add: f)
  have 2: "\<forall>j. j \<noteq> i \<longrightarrow> (\<forall>s \<in> heads. j \<notin> set (L s)) \<longrightarrow> s_pages ?st' ! j = s_pages st ! j" by (simp add: f)
  have 3: "snd (prv (s_pages ?st' ! i)) \<noteq> 0" using map_type [OF m] by blast
  have notF: "i \<notin> set (L FreeHead)" using none free_head by blast
  have ni: "s_pages st ! i \<notin> {zero_page, busy_page}" using rp(2) i(2) by simp
  note up = page_update [OF X i(1) ni notF f(4) geo_frame [OF geo f(6-9,4,5)] f(8,9) r' lists 1 2 3 slots]
  note rc = reserved_less [OF k(1)]
  have "chunk_ok ?st' (slot_lists (L(Slot k := [i]))) i"
    unfolding chunk_ok_map
  proof (intro exI conjI)
    show "map_ok ?st' i k" by (rule m)
    show "\<forall>c < reserved k. used ?st' i c" using u rc by auto
    show "in_use ?st' i k" using u rc by (auto simp: in_use_def intro!: exI [of _ "reserved k"])
    have "\<not> is_full ?st' i k" using u rc by (auto simp: is_full_def intro!: exI [of _ "reserved k + 1"])
    then show "if is_full ?st' i k then nxt (s_pages ?st' ! i) = Null \<and> fst (prv (s_pages ?st' ! i)) = Null
      else i \<in> set ((L(Slot k := [i])) (Slot k))" by simp
  qed
  with up(3) show "\<exists>L'. slab_inv g sg ?st' L' {}" by blast
  show "same_frame st ?st' i" unfolding same_frame_def using f(4,8,9) up(2) by blast
  have "{c. reserved k \<le> c \<and> c < chunk_count k \<and> used ?st' i c} = {reserved k}" using u rc by auto
  then show "page_occ ?st' i = chunk_region st i k (reserved k)"
    by (simp add: page_occ_map [OF m] chunk_region_def page_start_def f)
qed

lemma int_shl_2: "n < 30 \<Longrightarrow> int_shl 2 n = 2 ^ (n + 1)"
  using int_shl_pow2 [of "n + 1"] by (simp add: int_shl_def push_bit_eq_mult mult.commute)

lemma shift_bits: "k < 9 \<Longrightarrow> (of_nat (k + 3) :: 64 word) AND RP_SLAB_SHIFT_MASK = of_nat (k + 3)"
proof -
  assume k: "k < 9"
  have m4: "RP_SLAB_SHIFT_MASK = mask 4" by (simp add: RP_SLAB_SHIFT_MASK_def mask_eq_exp_minus_1)
  show "of_nat (k + 3) AND RP_SLAB_SHIFT_MASK = (of_nat (k + 3) :: 64 word)"
    unfolding m4 word_unat_eq_iff unat_and_mask unat_shift [OF k] using k by simp
qed

lemma shift_bit_low:
  assumes "k < 9" "bit (of_nat (k + 3) :: 64 word) b"
  shows "b < 4"
proof -
  have m4: "RP_SLAB_SHIFT_MASK = mask 4" by (simp add: RP_SLAB_SHIFT_MASK_def mask_eq_exp_minus_1)
  have "bit ((of_nat (k + 3) :: 64 word) AND RP_SLAB_SHIFT_MASK) b" using assms by (simp only: shift_bits)
  then show "b < 4" unfolding m4 by (simp only: bit_and_iff bit_mask_iff)
qed

text \<open>The page that the code sets up has the chunks of its map and the first one in use.\<close>

lemma new_page_code:
  assumes g: "rp_pagesize_shift g = 12" and sg: "slab_exact_shift sg = 6" and k: "k < 9"
    and i: "i < length (s_pages st)" and kl: "k < length (s_slots st)"
  shows "\<exists>w bm. map_ok (linked k w bm i st) i k \<and> (\<forall>c < chunk_count k. used (linked k w bm i st) i c \<longleftrightarrow> c \<le> reserved k) \<and>
    (if of_nat (k + 3) < slab_exact_shift sg then new_small g (of_nat (k + 3)) k i st
     else if of_nat (k + 3) = slab_exact_shift sg then
       res_bind (link_slot k RP_SLAB_EXACT 1 i st) (\<lambda>st2. Inr (page_addr g st i, st2))
     else res_bind (link_slot k RP_SLAB_BIG (push_bit RP_SLAB_MAP_SHIFT 1 OR of_nat (k + 3)) i st)
       (\<lambda>st2. Inr (page_addr g st i, st2))) = Inr (chunk_addr g st i k (reserved k), linked k w bm i st)"
proof -
  note f = linked_fields [OF i kl]
  note st = slot_types [OF k]
  have lt: "of_nat (k + 3) < slab_exact_shift sg \<longleftrightarrow> k < 3" "of_nat (k + 3) = slab_exact_shift sg \<longleftrightarrow> k = 3"
    using unat_shift [OF k] unfolding sg word_less_nat_alt word_unat_eq_iff by simp_all
  have same: "st\<lparr>s_bits := (s_bits st)(i := s_bits st i)\<rparr> = st" by simp
  consider "k < 3" | "k = 3" | "3 < k" by linarith
  then show ?thesis
  proof cases
    case 1
    note sp = shift_params [OF g k]
    let ?M = "2 ^ (3 - k) :: nat"
    define bm where "bm = (\<lambda>j :: nat. if j = 0 then int_shl 2 (unat (map_chunks g (of_nat (k + 3)))) - 1
      else if j < map_words g (of_nat (k + 3)) then 0 else s_bits st i j)"
    have ty: "slot_type k = RP_SLAB_SMALL" using st 1 by simp
    have n: "unat (map_chunks g (of_nat (k + 3))) = reserved k"
      unfolding sp(3) [OF 1] using chunk_counts(4) [OF 1] by (intro unat_of_size) simp
    have bm0: "bm 0 = mask (reserved k + 1)" "\<And>j. 0 < j \<Longrightarrow> j < ?M \<Longrightarrow> bm j = 0"
      using chunk_counts(4) [OF 1] int_shl_2 [of "reserved k"] unfolding bm_def n sp(2) [OF 1]
      by (simp_all add: mask_eq_exp_minus_1 del: power_Suc)
    have m: "map_ok (linked k (of_nat (k + 3)) bm i st) i k"
      using k 1 shift_bits [OF k] unat_shift [OF k]
      by (simp only: map_ok_def Let_def f(1) page_slot_def slab_page.simps snd_conv ty) (simp add: slab_types)
    have u: "used (linked k (of_nat (k + 3)) bm i st) i c \<longleftrightarrow> c \<le> reserved k" if c: "c < chunk_count k" for c
    proof -
      have e: "used (linked k (of_nat (k + 3)) bm i st) i c \<longleftrightarrow> bit (bm (c div 64)) (c mod 64)"
        by (simp add: used_def f ty Let_def)
      show ?thesis
      proof (cases "c < 64")
        case True
        then show ?thesis using e bm0(1) by (auto simp: bit_mask_iff)
      next
        case False
        have "c div 64 < ?M" using c chunk_counts(1) [OF 1] by (simp add: less_mult_imp_div_less mult.commute [of 64])
        moreover have "0 < c div 64" using False by simp
        ultimately show ?thesis using e bm0(2) [of "c div 64"] False chunk_counts(4) [OF 1] by simp
      qed
    qed
    have addr: "int_shl 1 (unat (of_nat (k + 3) :: 64 word)) * map_chunks g (of_nat (k + 3)) = of_nat (reserved k * chunk_size k)"
      unfolding unat_shift [OF k] sp(3) [OF 1] using k by (simp add: int_shl_pow2 chunk_size_def mult.commute)
    have "new_small g (of_nat (k + 3)) k i st = Inr (chunk_addr g st i k (reserved k), linked k (of_nat (k + 3)) bm i st)"
      unfolding new_small_def Let_def addr bm_def [symmetric] ty [symmetric] f(13) res_bind_simps
      by (simp add: chunk_addr_def page_addr_def f)
    with m u 1 lt show ?thesis by (intro exI conjI) auto
  next
    case 2
    have ty: "slot_type k = RP_SLAB_EXACT" using st 2 by simp
    have m: "map_ok (linked k 1 (s_bits st i) i st) i k"
      unfolding map_ok_def Let_def f(1) page_slot_def slab_page.simps snd_conv ty using 2 by (simp add: slab_types)
    have u: "used (linked k 1 (s_bits st i) i st) i c \<longleftrightarrow> c \<le> reserved k" for c
      unfolding used_def f(1) ty Let_def slab_page.simps snd_conv using 2 by (simp add: slab_types reserved_def bit_1_iff)
    have "res_bind (link_slot k RP_SLAB_EXACT 1 i st) (\<lambda>st2. Inr (page_addr g st i, st2)) =
      Inr (chunk_addr g st i k (reserved k), linked k 1 (s_bits st i) i st)"
      unfolding ty [symmetric] using f(13) [of 1 "s_bits st i"] chunk_counts(5) [of k] 2
      by (simp only: same res_bind_simps) (simp add: chunk_addr_def)
    with m u 2 lt show ?thesis by (intro exI conjI) auto
  next
    case 3
    let ?w = "push_bit RP_SLAB_MAP_SHIFT 1 OR of_nat (k + 3) :: 64 word"
    have ty: "slot_type k = RP_SLAB_BIG" using st 3 by simp
    have bw: "bit ?w b \<longleftrightarrow> b = 32 \<or> bit (of_nat (k + 3) :: 64 word) b" for b
      by (auto simp: bit_or_iff bit_push_bit_iff bit_1_iff RP_SLAB_MAP_SHIFT_def simp del: push_bit_of_1)
    have m4: "RP_SLAB_SHIFT_MASK = mask 4" by (simp add: RP_SLAB_SHIFT_MASK_def mask_eq_exp_minus_1)
    have low: "?w AND RP_SLAB_SHIFT_MASK = of_nat (k + 3)"
    proof -
      have "?w AND RP_SLAB_SHIFT_MASK = of_nat (k + 3) AND RP_SLAB_SHIFT_MASK"
        unfolding m4 by (intro bit_word_eqI) (simp only: bit_and_iff bw bit_mask_iff, auto)
      then show ?thesis by (simp only: shift_bits [OF k])
    qed
    have rest: "bit ?w b \<Longrightarrow> b < 4 \<or> 32 \<le> b \<and> b < 32 + chunk_count k" for b
      using bw shift_bit_low [OF k, of b] by (auto simp: chunk_count_def)
    have m: "map_ok (linked k ?w (s_bits st i) i st) i k"
      unfolding map_ok_def Let_def f(1) page_slot_def slab_page.simps snd_conv ty
      using k 3 low rest unat_shift [OF k] by (simp add: slab_types)
    have u: "used (linked k ?w (s_bits st i) i st) i c \<longleftrightarrow> c \<le> reserved k" for c
      using 3 bw [of "32 + c"] shift_bit_low [OF k, of "32 + c"] chunk_counts(5) [of k]
      by (auto simp: used_def f(1) ty slab_types Let_def)
    have "res_bind (link_slot k RP_SLAB_BIG ?w i st) (\<lambda>st2. Inr (page_addr g st i, st2)) =
      Inr (chunk_addr g st i k (reserved k), linked k ?w (s_bits st i) i st)"
      unfolding ty [symmetric] using f(13) [of ?w "s_bits st i"] 3 chunk_counts(5) [of k]
      by (simp only: same res_bind_simps) (simp add: chunk_addr_def)
    with m u 3 lt show ?thesis by (intro exI conjI) auto
  qed
qed

section \<open>The slot of a size\<close>

lemma shift_loop_log:
  assumes "2 ^ k \<le> unat n" "unat n < 2 ^ (k + 1)"
  shows "shift_loop n s = s + of_nat k"
  using assms
proof (induction k arbitrary: n s)
  case 0
  then have "unat (drop_bit 1 n) = 0" by (simp only: unat_drop_bit) simp
  then have "drop_bit 1 n = 0" by (simp only: unsigned_eq_0_iff)
  then show ?case by (subst shift_loop.simps) simp
next
  case (Suc k)
  have u: "unat (drop_bit 1 n) = unat n div 2" by (simp only: unat_drop_bit) simp
  have "2 ^ k \<le> unat (drop_bit 1 n)" "unat (drop_bit 1 n) < 2 ^ (k + 1)" unfolding u using Suc.prems by auto
  note ih = Suc.IH [OF this]
  have "0 < unat (drop_bit 1 n)" using \<open>2 ^ k \<le> unat (drop_bit 1 n)\<close> by (rule less_le_trans [rotated]) simp
  then have "drop_bit 1 n \<noteq> 0" by (simp only: unat_gt_0 not_False_eq_True)
  then show ?case using ih by (subst shift_loop.simps) (simp add: Let_def)
qed

definition slot_of :: "size_t \<Rightarrow> nat" where
  "slot_of sz = length (takeWhile (\<lambda>k. chunk_size k < unat sz) [0 ..< 9])"

lemma chunk_size_mono: "a \<le> b \<Longrightarrow> chunk_size a \<le> chunk_size b"
  by (simp add: chunk_size_def power_increasing)

lemma slot_ofI:
  assumes "k < 9" "unat sz \<le> chunk_size k" "k = 0 \<or> chunk_size (k - 1) < unat sz"
  shows "slot_of sz = k"
proof -
  have lt: "chunk_size a < unat sz \<longleftrightarrow> a < k" for a
  proof (cases "a < k")
    case True
    then have "chunk_size a \<le> chunk_size (k - 1)" by (intro chunk_size_mono) simp
    with True assms(3) show ?thesis by auto
  next
    case False
    then have "chunk_size k \<le> chunk_size a" by (intro chunk_size_mono) simp
    with False assms(2) show ?thesis by auto
  qed
  have s: "[0 ..< 9] = [0 ..< k] @ [k ..< 9]" using assms(1) upt_add_eq_append [of 0 k "9 - k"] by simp
  show ?thesis unfolding slot_of_def lt s by (subst takeWhile_append2) (auto simp: takeWhile_eq_Nil_iff)
qed

lemma slot_of_size:
  assumes geo: "geo g sg st" and sz: "unat sz < 2048"
  shows "slot_of sz < 9" "unat sz \<le> chunk_size (slot_of sz)" "slot_of sz = 0 \<or> chunk_size (slot_of sz - 1) < unat sz"
    "(if sz > min_size st then shift_loop (sz - 1) 1 else min_shift st) = of_nat (slot_of sz + 3)"
    "(if sz > min_size st then unat (shift_loop (sz - 1) 1 - min_shift st) else 0) = slot_of sz"
proof -
  have ms: "min_size st = 8" "min_shift st = 3" using geo by (simp_all add: geo_def)
  have "\<exists>k < 9. unat sz \<le> chunk_size k \<and> (k = 0 \<or> chunk_size (k - 1) < unat sz) \<and>
    (if sz > min_size st then shift_loop (sz - 1) 1 else min_shift st) = of_nat (k + 3) \<and>
    (if sz > min_size st then unat (shift_loop (sz - 1) 1 - min_shift st) else 0) = k"
  proof (cases "sz > min_size st")
    case False
    then have "unat sz \<le> 8" by (simp add: ms word_less_nat_alt)
    with False ms show ?thesis by (intro exI [of _ 0]) (simp add: chunk_size_def)
  next
    case True
    then have gt: "8 < unat sz" by (simp add: ms word_less_nat_alt)
    then have u: "unat (sz - 1) = unat sz - 1" by (subst unat_minus_one) auto
    have "\<exists>k. 2 ^ k \<le> unat sz - 1 \<and> unat sz - 1 < 2 ^ (k + 1)" using gt by (intro ex_power_ivl1) simp_all
    then obtain m where m: "2 ^ m \<le> unat sz - 1" "unat sz - 1 < 2 ^ (m + 1)" by blast
    have lo: "2 < m"
    proof (rule ccontr)
      assume "\<not> 2 < m"
      then have "(2::nat) ^ (m + 1) \<le> 2 ^ 3" by (intro power_increasing) simp_all
      with m(2) gt show False by simp
    qed
    have hi: "m < 11"
    proof (rule ccontr)
      assume "\<not> m < 11"
      then have "(2::nat) ^ 11 \<le> 2 ^ m" by (intro power_increasing) simp_all
      with m(1) sz show False by simp
    qed
    let ?k = "m - 2"
    have e: "?k + 3 = m + 1" "?k - 1 + 3 = m" using lo by simp_all
    have sh: "shift_loop (sz - 1) 1 = of_nat (?k + 3)"
      unfolding e using shift_loop_log [of m "sz - 1" 1] m u by simp
    moreover have "unat (of_nat (?k + 3) - 3 :: 64 word) = ?k" using unat_of_size [of ?k] hi by simp
    moreover have "unat sz \<le> chunk_size ?k" "chunk_size (?k - 1) < unat sz"
      unfolding chunk_size_def e using m gt by simp_all
    ultimately show ?thesis using True hi lo by (intro exI [of _ ?k]) (simp only: if_True ms, simp)
  qed
  then obtain k where k: "k < 9" "unat sz \<le> chunk_size k" "k = 0 \<or> chunk_size (k - 1) < unat sz"
    "(if sz > min_size st then shift_loop (sz - 1) 1 else min_shift st) = of_nat (k + 3)"
    "(if sz > min_size st then unat (shift_loop (sz - 1) 1 - min_shift st) else 0) = k" by blast
  note so = slot_ofI [OF k(1-3)]
  show "slot_of sz < 9" "unat sz \<le> chunk_size (slot_of sz)" "slot_of sz = 0 \<or> chunk_size (slot_of sz - 1) < unat sz"
    "(if sz > min_size st then shift_loop (sz - 1) 1 else min_shift st) = of_nat (slot_of sz + 3)"
    "(if sz > min_size st then unat (shift_loop (sz - 1) 1 - min_shift st) else 0) = slot_of sz"
    unfolding so by (rule k)+
qed

end
