(* ===== verification/Slab_Serve.thy ===== *)
theory Slab_Serve
  imports Slab_Alloc
begin

text \<open>\<open>rp_slab_alloc\<close> as a whole: what a request gets and when it fails.\<close>

section \<open>Addresses of chunks and pages\<close>

lemma unat_page_addr:
  assumes geo: "geo g sg st" and i: "i < usable st"
  shows "unat (page_addr g st i) = page_start st i" "page_start st i + 4096 < 2 ^ 64" "0 < page_start st i"
    "page_start st i mod 4096 = 0"
proof -
  have e: "unat (s_start st) + (i + 1) * 4096 \<le> unat (s_end st)" using i by (intro usable_end [OF geo]) simp
  then show lt: "page_start st i + 4096 < 2 ^ 64"
    using unat_less_limit [of "s_end st"] by (simp add: page_start_def)
  have g: "unat (rp_pagesize_shift g) = 12" "unat (s_start st) mod 4096 = 0" "0 < unat (s_start st)" using geo by (simp_all add: geo_def)
  have m: "unat (push_bit 12 (of_nat i) :: 64 word) = i * 4096"
  proof -
    have "push_bit 12 (of_nat i) = (of_nat (i * 4096) :: 64 word)" by (simp add: push_bit_eq_mult)
    then show ?thesis using lt by (simp only:) (rule unat_of_size, simp add: page_start_def)
  qed
  show "unat (page_addr g st i) = page_start st i"
    unfolding page_addr_def g(1) using m lt by (subst unat_add_less) (simp_all add: page_start_def)
  show "0 < page_start st i" "page_start st i mod 4096 = 0" using g(2,3) by (simp_all add: page_start_def mod_add_eq [symmetric])
qed

lemma chunk_fits: "k < 9 \<Longrightarrow> c < chunk_count k \<Longrightarrow> c * chunk_size k + chunk_size k \<le> 4096"
proof -
  assume k: "k < 9" "c < chunk_count k"
  have "(c + 1) * chunk_size k \<le> chunk_count k * chunk_size k" using k(2) by (intro mult_le_mono1) simp
  moreover have "chunk_count k * chunk_size k = 4096"
    using k(1) by (simp add: chunk_count_def chunk_size_def flip: power_add)
  ultimately show ?thesis by simp
qed

lemma unat_chunk_addr:
  assumes geo: "geo g sg st" and i: "i < usable st" and k: "k < 9" "c < chunk_count k"
  shows "unat (chunk_addr g st i k c) = page_start st i + c * chunk_size k" "chunk_addr g st i k c \<noteq> 0"
    "unat (chunk_addr g st i k c) mod chunk_size k = 0"
proof -
  note u = unat_page_addr [OF geo i]
  note f = chunk_fits [OF k]
  have m: "unat (of_nat (c * chunk_size k) :: 64 word) = c * chunk_size k" using f by (intro unat_of_size) simp
  show a: "unat (chunk_addr g st i k c) = page_start st i + c * chunk_size k"
    unfolding chunk_addr_def using m u(1,2) f by (subst unat_add_less) simp_all
  show "chunk_addr g st i k c \<noteq> 0" using a u(3) by (auto simp: unat_0)
  have "chunk_size k dvd 4096" using k(1) le_imp_power_dvd [of "k + 3" 12 "2 :: nat"] by (simp add: chunk_size_def)
  then have "chunk_size k dvd page_start st i" using u(4) by (meson dvd_trans mod_eq_0_iff_dvd)
  then show "unat (chunk_addr g st i k c) mod chunk_size k = 0" unfolding a by (simp add: mod_eq_0_iff_dvd)
qed

text \<open>The bytes set aside for a request.\<close>

definition slab_room :: "size_t \<Rightarrow> nat" where
  "slab_room sz = (if unat sz < 2048 then chunk_size (slot_of sz) else (unat sz + 4095) div 4096 * 4096)"

definition slab_align :: "size_t \<Rightarrow> nat" where
  "slab_align sz = (if unat sz < 2048 then chunk_size (slot_of sz) else 4096)"

lemma slab_region_chunk:
  assumes geo: "geo g sg st" and i: "i < usable st" and m: "map_ok st i k" and c: "reserved k \<le> c" "c < chunk_count k" "used st i c"
    and p: "unat p = page_start st i + c * chunk_size k"
  shows "slab_region st p = chunk_region st i k c" "chunk_region st i k c = {unat p ..< unat p + chunk_size k}"
proof -
  have k: "k < 9" "page_slot (s_pages st ! i) = k" using m by (simp_all add: map_ok_def Let_def)
  have "0 < chunk_size k" by (simp add: chunk_size_def)
  then have off: "c * chunk_size k < 4096" using chunk_fits [OF k(1) c(2)] by linarith
  show "slab_region st p = chunk_region st i k c"
    using slab_region_page [OF p off usable_le(2) [OF i]] map_type [OF m] k(2) c \<open>0 < chunk_size k\<close> by (simp add: Let_def)
  show "chunk_region st i k c = {unat p ..< unat p + chunk_size k}" by (simp add: chunk_region_def p algebra_simps)
qed

lemma occ_fresh:
  assumes inv: "slab_inv g sg st' L' {}" and "same_frame st st' i" "i < length (s_pages st)" "R \<subseteq> page_occ st' i" "R \<inter> page_occ st i = {}"
  shows "R \<inter> slab_occ st = {}"
proof -
  have len: "length (s_pages st') = length (s_pages st)" using assms(2) by (simp add: same_frame_def)
  have "R \<inter> page_occ st j = {}" if j: "j < length (s_pages st)" for j
  proof (cases "j = i")
    case False
    have "page_occ st' i \<inter> page_occ st' j = {}"
      using assms(3) j len False by (intro pages_disjoint [OF inv_rings(1) [OF inv] inv_desc [OF inv] inv_desc [OF inv]]) auto
    moreover have "page_occ st' j = page_occ st j" using assms(2) j False by (simp add: same_frame_def)
    ultimately show ?thesis using assms(4) by blast
  qed (use assms(5) in simp)
  then show ?thesis unfolding slab_occ_def by blast
qed

text \<open>One request.\<close>

definition slab_step :: "os_globals \<Rightarrow> slab_globals \<Rightarrow> size_t \<Rightarrow> slab_pool \<Rightarrow> addr \<Rightarrow> slab_pool \<Rightarrow> bool" where
  "slab_step g sg sz st p st' \<longleftrightarrow> (\<exists>L'. slab_inv g sg st' L' {}) \<and> s_start st' = s_start st \<and> s_end st' = s_end st \<and>
     (if p = 0 then st' = st
      else slab_region st' p = {unat p ..< unat p + slab_room sz} \<and> slab_region st' p \<inter> slab_occ st = {} \<and>
        slab_occ st' = slab_occ st \<union> slab_region st' p \<and> unat sz \<le> slab_room sz \<and> unat p mod slab_align sz = 0 \<and>
        unat (s_start st) \<le> unat p \<and> unat p + slab_room sz \<le> unat (s_end st))"

lemma chunk_step:
  assumes sz: "unat sz < 2048" "slot_of sz = k" "unat sz \<le> chunk_size k" and inv: "slab_inv g sg st' L' {}"
    and fr: "same_frame st st' i" and i: "i < usable st" and m: "map_ok st' i k"
    and c: "reserved k \<le> c" "c < chunk_count k" "used st' i c"
    and occ: "page_occ st' i = page_occ st i \<union> chunk_region st i k c" "page_occ st i \<inter> chunk_region st i k c = {}"
  shows "slab_step g sg sz st (chunk_addr g st i k c) st'"
proof -
  have same: "length (s_pages st') = length (s_pages st)" "s_start st' = s_start st" "s_end st' = s_end st"
    using fr by (simp_all add: same_frame_def)
  have geo: "geo g sg st'" and i': "i < usable st'" and iN: "i < length (s_pages st)"
    using inv i usable_eq [OF same] usable_le(2) [OF i] by (simp_all add: slab_inv_def)
  have k: "k < 9" using m by (simp add: map_ok_def Let_def)
  have addr: "chunk_addr g st i k c = chunk_addr g st' i k c" by (simp add: chunk_addr_def page_addr_def same)
  note u = unat_chunk_addr [OF geo i' k c(2), folded addr]
  note r = slab_region_chunk [OF geo i' m c u(1)]
  have cr: "chunk_region st' i k c = chunk_region st i k c" by (simp add: chunk_region_def page_start_def same)
  have dis: "chunk_region st i k c \<inter> slab_occ st = {}" using occ by (intro occ_fresh [OF inv fr iN]) auto
  have grow: "slab_occ st' = slab_occ st \<union> chunk_region st i k c" by (rule occ_grow [OF fr iN occ(1)])
  have "unat (s_start st) + (i + 1) * 4096 \<le> unat (s_end st)"
    using usable_end [OF geo, of "i + 1"] i' by (simp add: same)
  then have e: "page_start st i + c * chunk_size k + chunk_size k \<le> unat (s_end st)"
    using chunk_fits [OF k c(2)] by (simp add: page_start_def)
  have p: "unat (chunk_addr g st i k c) = page_start st i + c * chunk_size k" using u(1) by (simp add: page_start_def same)
  show ?thesis
    unfolding slab_step_def if_not_P [OF u(2)]
  proof (intro conjI)
    show "\<exists>L'. slab_inv g sg st' L' {}" using inv by blast
    show "slab_region st' (chunk_addr g st i k c) = {unat (chunk_addr g st i k c) ..< unat (chunk_addr g st i k c) + slab_room sz}"
      using r sz by (simp add: slab_room_def)
    show "slab_region st' (chunk_addr g st i k c) \<inter> slab_occ st = {}" "slab_occ st' = slab_occ st \<union> slab_region st' (chunk_addr g st i k c)"
      using dis grow by (simp_all add: r(1) cr)
    show "unat sz \<le> slab_room sz" using sz by (simp add: slab_room_def)
    show "unat (chunk_addr g st i k c) mod slab_align sz = 0" using sz u(3) by (simp add: slab_align_def)
    show "unat (s_start st) \<le> unat (chunk_addr g st i k c)" "unat (chunk_addr g st i k c) + slab_room sz \<le> unat (s_end st)"
      using p e sz by (simp_all add: page_start_def slab_room_def)
  qed (rule same)+
qed

section \<open>Serving a request\<close>

lemma slab_step_none: "slab_inv g sg st L {} \<Longrightarrow> slab_step g sg sz st 0 st"
  by (auto simp: slab_step_def)

lemma ceil_div:
  assumes "x mod 4096 \<noteq> (0 :: nat)"
  shows "(x + 4095) div 4096 = x div 4096 + 1"
proof -
  have "x + 4095 = (x mod 4096 + 4095) + x div 4096 * 4096" by simp
  also have "\<dots> div 4096 = x div 4096 + (x mod 4096 + 4095) div 4096" by (rule div_mult_self1) simp
  also have "(x mod 4096 + 4095) div 4096 = 1" using assms by (intro div_nat_eqI) simp_all
  finally show ?thesis .
qed

text \<open>Whole pages.\<close>

lemma serve_pages:
  assumes inv: "slab_inv g sg st L {}" and sz: "2048 \<le> unat sz"
  shows "\<exists>p st'. rp_slab_alloc g sg sz st = Some (Inr (p, st')) \<and> slab_step g sg sz st p st' \<and>
    (p = 0 \<longrightarrow> (\<forall>i \<in> set (L FreeHead). unat (slab (s_pages st ! i)) * 4096 < unat sz))"
proof -
  have geo: "geo g sg st" using inv by (simp add: slab_inv_def)
  then have g: "rp_pagesize g = 4096" "unat (rp_pagesize_shift g) = 12" "slab_max_size sg = 2048" by (simp_all add: geo_def)
  define n :: "64 word" where "n = drop_bit 12 sz + (if sz mod 4096 \<noteq> 0 then 1 else 0)"
  have un: "unat n = (unat sz + 4095) div 4096"
  proof -
    have d: "unat (drop_bit 12 sz) = unat sz div 4096" by (simp only: unat_drop_bit) simp
    have m: "sz mod 4096 \<noteq> 0 \<longleftrightarrow> unat sz mod 4096 \<noteq> 0" by (simp add: word_unat_eq_iff unat_mod)
    have b: "unat sz div 4096 + 1 < 2 ^ 64" using unat_less_limit [of sz] by simp
    show ?thesis
    proof (cases "unat sz mod 4096 = 0")
      case True
      then show ?thesis using m d by (auto simp: n_def mod_eq_0_iff_dvd)
    next
      case False
      then have "unat n = unat sz div 4096 + 1" using m d b by (simp add: n_def) (subst unat_add_less, simp_all)
      with ceil_div [OF False] show ?thesis by simp
    qed
  qed
  have pos: "0 < unat n" using sz by (simp add: un)
  have run: "rp_slab_alloc g sg sz st =
     (case rp_slab_alloc_pages st n of
           None \<Rightarrow> None
         | Some (Inl e) \<Rightarrow> Some (Inl e)
         | Some (Inr (None, st1)) \<Rightarrow> Some (Inr (0, st1))
         | Some (Inr (Some i, st1)) \<Rightarrow> Some (Inr (page_addr g st1 i, st1)))"
    using sz by (simp add: rp_slab_alloc_def g word_le_nat_alt n_def)
  from alloc_pages_ok [OF inv pos] show ?thesis
  proof (elim disjE conjE exE)
    assume none: "rp_slab_alloc_pages st n = Some (Inr (None, st))" and short: "\<forall>i \<in> set (L FreeHead). slab (s_pages st ! i) < n"
    have "unat (slab (s_pages st ! i)) * 4096 < unat sz" if "i \<in> set (L FreeHead)" for i
    proof -
      have "unat (slab (s_pages st ! i)) < (unat sz + 4095) div 4096" using short that un by (simp add: word_less_nat_alt)
      then have "Suc (unat (slab (s_pages st ! i))) \<le> (unat sz + 4095) div 4096" by simp
      then have "Suc (unat (slab (s_pages st ! i))) * 4096 \<le> unat sz + 4095" by (simp add: less_eq_div_iff_mult_less_eq)
      then show ?thesis by simp
    qed
    with none run slab_step_none [OF inv] show ?thesis by auto
  next
    fix i st' F'
    assume al: "rp_slab_alloc_pages st n = Some (Inr (Some i, st'))" and inv': "slab_inv g sg st' (L(FreeHead := F')) {}"
      and iF: "i \<in> set (L FreeHead)" "i \<notin> set F'" and pt: "pages_taken st st' i n"
    from pt have same: "length (s_pages st') = length (s_pages st)" "s_start st' = s_start st" "s_end st' = s_end st"
      and page: "s_pages st' ! i = run_page n" and le: "i + unat n \<le> usable st" and empty: "page_occ st i = {}"
      and fr: "same_frame st st' i"
      unfolding pages_taken_def same_frame_def by iprover+
    have us: "usable st' = usable st" by (rule usable_eq [OF same])
    have i: "i < usable st" "i < length (s_pages st)" using le pos usable_le(1) [of st] by linarith+
    have geo': "geo g sg st'" using inv' by (simp add: slab_inv_def)
    have "unat n < 2 ^ 63 - 1" using le pages_bound [of st] by simp
    note rp = run_page_facts [OF pos this]
    let ?p = "page_addr g st' i"
    note u = unat_page_addr [OF geo' i(1) [folded us]]
    have occ: "page_occ st' i = {unat ?p ..< unat ?p + slab_room sz}"
      using sz by (simp add: page_occ_def page rp Let_def u(1) slab_room_def un)
    have p0: "unat ?p = page_start st' i + 0" using u(1) by simp
    have rg: "slab_region st' ?p = page_occ st' i"
      using slab_region_page [OF p0] i(2) same by (simp add: page rp Let_def)
    have dis: "page_occ st' i \<inter> slab_occ st = {}"
      by (rule occ_fresh [OF inv' fr i(2)]) (use empty in auto)
    have "page_occ st' i = page_occ st i \<union> page_occ st' i" using empty by simp
    from occ_grow [OF fr i(2) this] have grow: "slab_occ st' = slab_occ st \<union> page_occ st' i" .
    have nz: "?p \<noteq> 0" using u(1,3) by (auto simp: unat_0)
    have e: "unat ?p + slab_room sz \<le> unat (s_end st)" "unat sz \<le> slab_room sz"
      using usable_end [OF geo' le [folded us]] sz u(1) un same by (simp_all add: slab_room_def page_start_def)
    have "slab_step g sg sz st ?p st'"
      unfolding slab_step_def if_not_P [OF nz]
    proof (intro conjI)
      show "\<exists>L'. slab_inv g sg st' L' {}" using inv' by blast
      show "unat ?p mod slab_align sz = 0" using u(1,4) sz by (simp add: slab_align_def)
      show "unat (s_start st) \<le> unat ?p" using u(1) same by (simp add: page_start_def)
    qed (use same rg occ dis grow e in simp_all)
    with al run nz show ?thesis by auto
  qed
qed

text \<open>Chunks: what the code does, by the ring of the slot.\<close>

definition fresh_chunk :: "os_globals \<Rightarrow> slab_globals \<Rightarrow> nat \<Rightarrow> slab_pool \<Rightarrow> (addr \<times> slab_pool) res option" where
  "fresh_chunk g sg k st =
     (case rp_slab_alloc_pages st 1 of
        None \<Rightarrow> None
      | Some (Inl e) \<Rightarrow> Some (Inl e)
      | Some (Inr (None, st1)) \<Rightarrow> Some (Inr (0, st1))
      | Some (Inr (Some i, st1)) \<Rightarrow> Some (
          if of_nat (k + 3) < slab_exact_shift sg then new_small g (of_nat (k + 3)) k i st1
          else if of_nat (k + 3) = slab_exact_shift sg then
            res_bind (link_slot k RP_SLAB_EXACT 1 i st1) (\<lambda>st2. Inr (page_addr g st1 i, st2))
          else res_bind (link_slot k RP_SLAB_BIG (push_bit RP_SLAB_MAP_SHIFT 1 OR of_nat (k + 3)) i st1)
            (\<lambda>st2. Inr (page_addr g st1 i, st2))))"

lemma alloc_slot:
  assumes inv: "slab_inv g sg st L {}" and sz: "unat sz < 2048"
  defines "k \<equiv> slot_of sz"
  shows "rp_slab_alloc g sg sz st = (case L (Slot k) of
      [] \<Rightarrow> fresh_chunk g sg k st
    | i # is \<Rightarrow>
        (case (if k < 3 then slot_loop (small_chunk g (of_nat (k + 3)) st) st (Page i)
           else if k = 3 then slot_loop (exact_chunk g (of_nat (k + 3)) st) st (Page i)
           else slot_loop (big_chunk g (of_nat (k + 3)) (big_mask g (s_pages st ! i)) st) st (Page i)) of
           None \<Rightarrow> None
         | Some (Inl e) \<Rightarrow> Some (Inl e)
         | Some (Inr (Some r)) \<Rightarrow> Some (Inr r)
         | Some (Inr None) \<Rightarrow> fresh_chunk g sg k st))"
proof -
  have geo: "geo g sg st" and r: "rings st L" using inv by (simp_all add: slab_inv_def)
  note so = slot_of_size [OF geo sz, folded k_def]
  have slot: "(if sz > min_size st then unat (of_nat (k + 3) - min_shift st) else 0) = k"
  proof (cases "sz > min_size st")
    case True
    have "min_shift st = 3" using geo by (simp add: geo_def)
    with True show ?thesis using unat_of_size [of k] so(1) by simp
  next
    case False
    with so(5) show ?thesis by simp
  qed
  have max: "\<not> slab_max_size sg \<le> sz" using geo sz by (simp add: geo_def word_le_nat_alt)
  have sg6: "slab_exact_shift sg = 6" using geo by (simp add: geo_def)
  have lt: "of_nat (k + 3) < slab_exact_shift sg \<longleftrightarrow> k < 3" "of_nat (k + 3) = slab_exact_shift sg \<longleftrightarrow> k = 3"
    using unat_shift [OF so(1)] unfolding sg6 word_less_nat_alt word_unat_eq_iff by simp_all
  have h: "Slot k \<in> heads" using so(1) by simp
  note d = rings_dll [OF r h]
  have vs: "valid st (Slot k)" using d by (simp add: dll_def)
  then have hd: "pg st (Slot k) = Inr (s_slots st ! k)" by (simp only: pg_valid) simp
  note nx = dll_first [OF d]
  have nx': "nxt (s_slots st ! k) = hd (map Page (L (Slot k)) @ [Slot k])" using nx by simp
  note code = rp_slab_alloc_def [of g sg sz st, unfolded Let_def so(4) slot if_not_P [OF max] hd sum.case]
  show ?thesis
  proof (cases "L (Slot k)")
    case Nil
    then have n: "nxt (s_slots st ! k) = Slot k" using nx' by simp
    show ?thesis
      unfolding code n hd Nil list.case fresh_chunk_def sum.case by simp
  next
    case (Cons i "is")
    then have n: "nxt (s_slots st ! k) = Page i" using nx' by simp
    have iL: "i \<in> set (L (Slot k))" using Cons by simp
    have p: "pg st (Page i) = Inr (s_pages st ! i)" using ring_prv(3) [OF r h iL] by simp
    have ne: "nxt (s_pages st ! i) \<noteq> Page i" using unlink_at_rings(5) [OF r h iL] by simp
    show ?thesis
      unfolding code n p Cons list.case fresh_chunk_def sum.case lt using ne by simp
  qed
qed

lemma slot_loop_first: "f i = Inr (Some r) \<Longrightarrow> slot_loop f st (Page i) = Some (Inr (Some r))"
  by (subst slot_loop.simps) simp

text \<open>A page of the ring serves the request.\<close>

lemma serve_ring:
  assumes inv: "slab_inv g sg st L {}" and sz: "unat sz < 2048" and ring: "L (Slot (slot_of sz)) = i # is"
  shows "\<exists>p st'. rp_slab_alloc g sg sz st = Some (Inr (p, st')) \<and> slab_step g sg sz st p st' \<and> p \<noteq> 0"
proof -
  let ?k = "slot_of sz"
  have geo: "geo g sg st" and r: "rings st L" using inv by (simp_all add: slab_inv_def)
  then have g12: "rp_pagesize_shift g = 12" by (simp add: geo_def)
  note so = slot_of_size [OF geo sz]
  have iL: "i \<in> set (L (Slot ?k))" using ring by simp
  note sp = inv_slot_page [OF inv so(1) iL]
  note ic = inv_chunk [OF inv sp(1,2)]
  note mf = map_fields [OF sp(3)]
  let ?f = "if ?k < 3 then small_chunk g (of_nat (?k + 3)) st else if ?k = 3 then exact_chunk g (of_nat (?k + 3)) st
    else big_chunk g (of_nat (?k + 3)) (big_mask g (s_pages st ! i)) st"
  have "takes_chunk g st i ?k (?f i)"
  proof -
    consider "?k < 3" | "?k = 3" | "3 < ?k" by linarith
    then show ?thesis
    proof cases
      case 1
      then show ?thesis using small_chunk_takes [OF geo sp(3) 1 sp(1,6)] by simp
    next
      case 2
      then show ?thesis using exact_chunk_takes [OF sp(3) 2 sp(1,6)] by simp
    next
      case 3
      then show ?thesis using big_chunk_takes [OF g12 sp(3) 3 sp(1,6) mf(6) [OF 3]] by simp
    qed
  qed
  then obtain c where c: "c < chunk_count ?k" "\<not> used st i c"
    "?f i = res_bind (if is_full (mark i c True st) i ?k then unlink_full (slot_type ?k) i (mark i c True st)
       else Inr (mark i c True st)) (\<lambda>st2. Inr (Some (chunk_addr g st i ?k c, st2)))"
    unfolding takes_chunk_def by blast
  from take_chunk_ok [OF inv so(1) iL c(1,2)] obtain st2 L' where
    t: "(if is_full (mark i c True st) i ?k then unlink_full (slot_type ?k) i (mark i c True st)
      else Inr (mark i c True st)) = Inr st2" "slab_inv g sg st2 L' {}" "same_frame st st2 i"
      "page_occ st2 i = page_occ st i \<union> chunk_region st i ?k c" "page_occ st i \<inter> chunk_region st i ?k c = {}"
      "map_ok st2 i ?k" "used st2 i c"
    by blast
  have f: "?f i = Inr (Some (chunk_addr g st i ?k c, st2))" using c(3) t(1) by simp
  have cr: "reserved ?k \<le> c" using sp(4) c(2) by (meson not_le)
  have "slot_loop ?f st (Page i) = Some (Inr (Some (chunk_addr g st i ?k c, st2)))" by (rule slot_loop_first) (rule f)
  then have run: "rp_slab_alloc g sg sz st = Some (Inr (chunk_addr g st i ?k c, st2))"
    unfolding alloc_slot [OF inv sz] ring list.case by (simp split: if_splits)
  have "slab_step g sg sz st (chunk_addr g st i ?k c) st2"
    by (rule chunk_step [OF sz refl so(2) t(2,3) ic(5) t(6) cr c(1) t(7,4,5)])
  with run unat_chunk_addr(2) [OF geo ic(5) so(1) c(1)] show ?thesis by blast
qed

text \<open>A new page serves it, or there is none.\<close>

lemma serve_fresh:
  assumes inv: "slab_inv g sg st L {}" and sz: "unat sz < 2048" and ring: "L (Slot (slot_of sz)) = []"
  shows "\<exists>p st'. rp_slab_alloc g sg sz st = Some (Inr (p, st')) \<and> slab_step g sg sz st p st' \<and> (p = 0 \<longrightarrow> L FreeHead = [])"
proof -
  let ?k = "slot_of sz"
  have geo: "geo g sg st" using inv by (simp add: slab_inv_def)
  note so = slot_of_size [OF geo sz]
  have code: "rp_slab_alloc g sg sz st = fresh_chunk g sg ?k st" unfolding alloc_slot [OF inv sz] ring by simp
  have one: "0 < unat (1 :: 64 word)" by simp
  from alloc_pages_ok [OF inv one] show ?thesis
  proof (elim disjE conjE exE)
    assume none: "rp_slab_alloc_pages st 1 = Some (Inr (None, st))" and short: "\<forall>i \<in> set (L FreeHead). slab (s_pages st ! i) < 1"
    have "i \<notin> set (L FreeHead)" for i
    proof
      assume i: "i \<in> set (L FreeHead)"
      then have "i < length (s_pages st)" using inv_rings(1) [OF inv] by (simp add: dll_def)
      from inv_desc [OF inv this] i have "slab (s_pages st ! i) \<noteq> 0" by (simp add: desc_ok_def)
      with short i show False by (simp add: word_less_nat_alt unat_gt_0 [symmetric])
    qed
    then have "L FreeHead = []" by (cases "L FreeHead") auto
    with none slab_step_none [OF inv] show ?thesis by (simp add: code fresh_chunk_def)
  next
    fix i st1 F'
    assume al: "rp_slab_alloc_pages st 1 = Some (Inr (Some i, st1))" and inv1: "slab_inv g sg st1 (L(FreeHead := F')) {}"
      and pt: "pages_taken st st1 i 1"
    from pt have same: "length (s_pages st1) = length (s_pages st)" "s_start st1 = s_start st" "s_end st1 = s_end st"
      and page: "s_pages st1 ! i = run_page 1" and le: "i + unat (1 :: 64 word) \<le> usable st" and empty: "page_occ st i = {}"
      and fr: "same_frame st st1 i"
      unfolding pages_taken_def same_frame_def by iprover+
    have us: "usable st1 = usable st" by (rule usable_eq [OF same])
    have i: "i < usable st" "i < usable st1" "i < length (s_pages st1)" using le us usable_le(1) [of st1] by simp_all
    have geo1: "geo g sg st1" using inv1 by (simp add: slab_inv_def)
    then have g: "rp_pagesize_shift g = 12" "slab_exact_shift sg = 6" "?k < length (s_slots st1)" using so(1) by (simp_all add: geo_def)
    from new_page_code [OF g(1,2) so(1) i(3) g(3)] obtain w bm where
      n: "map_ok (linked ?k w bm i st1) i ?k" "\<forall>c < chunk_count ?k. used (linked ?k w bm i st1) i c \<longleftrightarrow> c \<le> reserved ?k"
      and new: "(if of_nat (?k + 3) < slab_exact_shift sg then new_small g (of_nat (?k + 3)) ?k i st1
       else if of_nat (?k + 3) = slab_exact_shift sg then
         res_bind (link_slot ?k RP_SLAB_EXACT 1 i st1) (\<lambda>st2. Inr (page_addr g st1 i, st2))
       else res_bind (link_slot ?k RP_SLAB_BIG (push_bit RP_SLAB_MAP_SHIFT 1 OR of_nat (?k + 3)) i st1)
         (\<lambda>st2. Inr (page_addr g st1 i, st2))) = Inr (chunk_addr g st1 i ?k (reserved ?k), linked ?k w bm i st1)"
      by blast
    let ?st2 = "linked ?k w bm i st1" and ?p = "chunk_addr g st1 i ?k (reserved ?k)"
    have rk: "(L(FreeHead := F')) (Slot ?k) = []" using ring by simp
    note np = new_chunk_page [OF inv1 i(2) page so(1) rk n]
    obtain L2 where inv2: "slab_inv g sg ?st2 L2 {}" using np(1) by blast
    have fr2: "same_frame st ?st2 i" using fr np(2) by (auto simp: same_frame_def)
    have rc: "reserved ?k < chunk_count ?k" using reserved_less [OF so(1)] by simp
    have cr: "chunk_region st1 i ?k (reserved ?k) = chunk_region st i ?k (reserved ?k)"
      by (simp add: chunk_region_def page_start_def same)
    have p: "?p = chunk_addr g st i ?k (reserved ?k)" by (simp add: chunk_addr_def page_addr_def same)
    have occ: "page_occ ?st2 i = page_occ st i \<union> chunk_region st i ?k (reserved ?k)"
      "page_occ st i \<inter> chunk_region st i ?k (reserved ?k) = {}"
      using np(3) empty cr by simp_all
    have "used ?st2 i (reserved ?k)" using n(2) rc by blast
    from chunk_step [OF sz refl so(2) inv2 fr2 i(1) n(1) order_refl rc this occ]
    have "slab_step g sg sz st ?p ?st2" by (simp only: p)
    moreover have "rp_slab_alloc g sg sz st = Some (Inr (?p, ?st2))"
      unfolding code fresh_chunk_def al option.case sum.case prod.case new by (rule refl)
    ultimately show ?thesis using unat_chunk_addr(2) [OF geo i(1) so(1) rc] p by auto
  qed
qed

end
