(* ===== verification/Slab_Init.thy ===== *)
theory Slab_Init
  imports Slab_Serve
begin

text \<open>
  \<open>rp_slab_init\<close> establishes the invariant: one free run with all the pages that lie before
  the end of the pool, empty slots, nothing allocated.
\<close>

definition fresh_lists :: "pref \<Rightarrow> nat list" where
  "fresh_lists r = (if r = FreeHead then [0] else [])"

lemma globals_init_4096:
  assumes "rp_pagesize g = 4096" "slab_max_size sg = 0" "slab_exact_shift sg = 0"
  shows "rp_slab_globals_init g sg = \<lparr>slab_max_size = 2048, slab_exact_size = 64, slab_exact_shift = 6\<rparr>"
proof -
  have "(64 :: addr) = 2 ^ 6" by simp
  then have "shift_loop 64 0 = 6" using shift_loop_pow2 [of 6 0] by simp
  then show ?thesis using assms by (simp add: rp_slab_globals_init_def Let_def)
qed

text \<open>The arithmetic of the layout, on natural numbers.\<close>

lemma layout_nat:
  fixes P E S n :: nat
  assumes n: "n = (E - P) div 4120" "2 \<le> n" and S: "S = align_up 4096 (P + 216 + n * 24)"
  shows "P + 216 + n * 24 \<le> S" "S \<le> E" "S mod 4096 = 0" "n \<le> (E - S) div 4096 + 2" "P + 216 + n * 24 + 4096 \<le> E + 1"
proof -
  have le: "n * 4120 \<le> E - P" using div_times_less_eq_dividend [of "E - P" 4120] n(1) by simp
  then have PE: "P + n * 4120 \<le> E" using n(2) by linarith
  note a = align_up_props [of 4096 "P + 216 + n * 24", folded S, simplified]
  show "P + 216 + n * 24 \<le> S" "S mod 4096 = 0" using a by simp_all
  show "S \<le> E" "P + 216 + n * 24 + 4096 \<le> E + 1" using a PE n(2) by linarith+
  have "(n - 2) * 4096 \<le> E - S" using a PE n(2) by (simp add: diff_mult_distrib)
  then have "n - 2 \<le> (E - S) div 4096" by (simp add: less_eq_div_iff_mult_less_eq)
  then show "n \<le> (E - S) div 4096 + 2" by simp
qed

text \<open>The count of pages is corrected downwards when alignment has taken room.\<close>

lemma pages_corrected:
  fixes n d :: "64 word"
  assumes "unat n \<le> unat d + 2" "unat d < 2 ^ 62"
  shows "(if sint (n - d) > 0 then n - of_int (sint (n - d)) else n) = (if unat n \<le> unat d then n else d)"
proof -
  have "sint (n - d) = sint (word_of_int (uint n - uint d) :: 64 word)" by simp
  also have "\<dots> = signed_take_bit 63 (uint n - uint d)" by (simp only: sint_sbintrunc') simp
  also have "\<dots> = uint n - uint d"
  proof (rule signed_take_bit_int_eq_self)
    have "int (unat n) \<le> int (unat d + 2)" "int (unat d) < int (2 ^ 62)" using assms by (simp_all only: of_nat_le_iff of_nat_less_iff)
    then have b: "uint n \<le> uint d + 2" "uint d < 4611686018427387904" by simp_all
    have p: "0 \<le> uint n" "0 \<le> uint d" by simp_all
    have e: "(2 :: int) ^ 63 = 9223372036854775808" by simp
    show "- (2 ^ 63) \<le> uint n - uint d" "uint n - uint d < 2 ^ 63" unfolding e using b p by linarith+
  qed
  finally have s: "sint (n - d) = uint n - uint d" .
  have "uint n \<le> uint d \<longleftrightarrow> unat n \<le> unat d" by (simp flip: word_le_def word_le_nat_alt)
  then show ?thesis unfolding s by auto
qed

text \<open>The state that the code builds, as soon as three pages and their descriptors fit.\<close>

definition slab_state :: "slab_pool \<Rightarrow> nat \<Rightarrow> 64 word \<Rightarrow> addr \<Rightarrow> slab_pool" where
  "slab_state st n m start = st\<lparr>min_size := 8,
     s_slots := map (\<lambda>i. \<lparr>slab = 0, nxt = Slot i, prv = (Null, 0)\<rparr>) [0 ..< 9],
     s_pages := \<lparr>slab = m, nxt = FreeHead, prv = (FreeHead, 0)\<rparr> # replicate (n - 1) zero_page,
     s_free := \<lparr>slab = slab (s_free st), nxt = Page 0, prv = (Null, 0)\<rparr>, s_start := start\<rparr>"

lemma init_state:
  assumes g: "rp_pagesize g = 4096" "rp_pagesize_shift g = 12" and ms: "min_shift st = 3"
    and room: "unat base + 64 + 3 * 4120 \<le> unat (s_end st)"
  shows "\<exists>n m start. rp_slab_init g base st = Inr (slab_state st n m start) \<and> 3 \<le> n \<and>
    unat start mod 4096 = 0 \<and> unat base + 280 + n * 24 \<le> unat start \<and> start \<le> s_end st \<and>
    unat m = min n ((unat (s_end st) - unat start) div 4096) \<and> 0 < unat m"
proof -
  define P where "P = base + SIZEOF_SLAB_POOL"
  have end64: "unat (s_end st) < 2 ^ 64" using unat_less_limit [of "s_end st"] by simp
  have P: "unat P = unat base + 64"
    unfolding P_def SIZEOF_SLAB_POOL_def using room end64 by (subst unat_add_less) simp_all
  have sz: "unat (s_end st - P) = unat (s_end st) - unat P" using room P by (intro unat_diff_le) (simp add: word_le_nat_alt)
  define pages where "pages = (s_end st - P) div (rp_pagesize g + SIZEOF_SLAB_PAGE)"
  have up: "unat pages = (unat (s_end st) - unat P) div 4120"
    by (simp add: pages_def g SIZEOF_SLAB_PAGE_def unat_div sz)
  have n3: "3 \<le> unat pages"
  proof -
    have "3 * 4120 \<le> unat (s_end st) - unat P" using room P by simp
    then show ?thesis unfolding up by (simp add: less_eq_div_iff_mult_less_eq)
  qed
  then have n2: "2 \<le> unat pages" by simp
  define S where "S = align_up 4096 (unat P + 216 + unat pages * 24)"
  note l = layout_nat [OF up n2 S_def]
  have nine: "rp_pagesize_shift g - min_shift st = 9" by (simp add: g ms)
  define start where "start = rp_align_ptr (P + 9 * SIZEOF_SLAB_PAGE + pages * SIZEOF_SLAB_PAGE) (rp_pagesize g)"
  have b: "unat P + 216 + unat pages * 24 < 2 ^ 64" using l(5) end64 by simp
  have u1: "unat (P + 9 * SIZEOF_SLAB_PAGE) = unat P + 216"
    using b by (simp add: SIZEOF_SLAB_PAGE_def) (subst unat_add_less, simp_all)
  have u2: "unat (pages * SIZEOF_SLAB_PAGE) = unat pages * 24"
    using b by (simp add: SIZEOF_SLAB_PAGE_def unat_word_ariths)
  have u3: "unat (P + 9 * SIZEOF_SLAB_PAGE + pages * SIZEOF_SLAB_PAGE) = unat P + 216 + unat pages * 24"
    using b u1 u2 by (subst unat_add_less) simp_all
  have us: "unat start = S"
    using unat_align_pow2 [of 12 "P + 9 * SIZEOF_SLAB_PAGE + pages * SIZEOF_SLAB_PAGE"] l(5) end64
    by (simp add: start_def S_def u3 g)
  define d where "d = (s_end st - start) div rp_pagesize g"
  have se: "start \<le> s_end st" using l(2) us by (simp add: word_le_nat_alt)
  have ud: "unat d = (unat (s_end st) - unat start) div 4096"
    using se by (simp add: d_def g unat_div unat_diff_le)
  define m where "m = (if sint (pages - d) > 0 then pages - of_int (sint (pages - d)) else pages)"
  have "unat d < 2 ^ 62"
    unfolding ud using end64 by (simp add: less_mult_imp_div_less)
  then have m: "m = (if unat pages \<le> unat d then pages else d)"
    unfolding m_def using l(4) us ud by (intro pages_corrected) simp_all
  then have um: "unat m = min (unat pages) ((unat (s_end st) - unat start) div 4096)" by (simp add: ud)
  have pos: "0 < unat m" unfolding um using l(4) n3 us by simp
  have ok: "\<not> unat (s_end st) < unat P + unat (9 :: addr) * 24 + max 1 (unat pages) * 24"
    using l(1,2) n3 by (simp add: max_def)
  have "rp_slab_init g base st = Inr (slab_state st (unat pages) m start)"
    unfolding rp_slab_init_def Let_def P_def [symmetric] nine pages_def [symmetric] start_def [symmetric] d_def [symmetric]
      m_def [symmetric] if_not_P [OF ok] by (simp add: slab_state_def ms int_shl_def)
  moreover have "unat start mod 4096 = 0" "unat base + 280 + unat pages * 24 \<le> unat start" using l(1,3) us P by simp_all
  ultimately have "rp_slab_init g base st = Inr (slab_state st (unat pages) m start) \<and> 3 \<le> unat pages \<and>
      unat start mod 4096 = 0 \<and> unat base + 280 + unat pages * 24 \<le> unat start \<and> start \<le> s_end st \<and>
      unat m = min (unat pages) ((unat (s_end st) - unat start) div 4096) \<and> 0 < unat m"
    using n3 se um pos by (intro conjI)
  then show ?thesis by (intro exI)
qed

lemma state_inv:
  assumes g: "rp_pagesize g = 4096" "rp_pagesize_shift g = 12" and ms: "min_shift st = 3"
    and sg: "sg = \<lparr>slab_max_size = 2048, slab_exact_size = 64, slab_exact_shift = 6\<rparr>"
    and n: "0 < n" and start: "unat start mod 4096 = 0" "0 < unat start" "start \<le> s_end st"
    and m: "unat m = min n ((unat (s_end st) - unat start) div 4096)" "0 < unat m"
  shows "slab_inv g sg (slab_state st n m start) fresh_lists {}" "slab_occ (slab_state st n m start) = {}"
    "usable (slab_state st n m start) = unat m"
proof -
  let ?s = "slab_state st n m start"
  have len: "length (s_pages ?s) = n" "length (s_slots ?s) = 9" using n by (simp_all add: slab_state_def)
  have page0: "s_pages ?s ! 0 = \<lparr>slab = m, nxt = FreeHead, prv = (FreeHead, 0)\<rparr>" by (simp add: slab_state_def)
  have pages: "s_pages ?s ! j = zero_page" if "0 < j" "j < n" for j
    using that by (cases j) (simp_all add: slab_state_def)
  show us: "usable ?s = unat m" using m(1) len(1) by (simp add: usable_def) (simp add: slab_state_def)
  have geo: "geo g sg ?s" using g ms sg start len by (simp add: geo_def slab_state_def)
  have dF: "dll ?s FreeHead 0 [0]" using n by (simp add: dll_def len) (simp add: slab_state_def)
  have dS: "dll ?s (Slot k) t []" if "k < 9" for k t
    using that by (simp add: dll_def len) (simp add: slab_state_def)
  have r: "rings ?s fresh_lists"
    unfolding rings_def using dF dS by (auto simp: fresh_lists_def heads_def)
  have run0: "run_len (fresh_lists FreeHead) ?s 0 = unat m" by (simp add: run_len_def fresh_lists_def page0)
  have desc: "desc_ok ?s (fresh_lists FreeHead) (slot_lists fresh_lists) j" if j: "j < n" for j
  proof (cases "j = 0")
    case True
    have "unat m \<le> n" using m(1) by simp
    then show ?thesis
      unfolding True desc_ok_def run0 us using pages m(2) by (auto simp: fresh_lists_def page0)
  next
    case False
    then have z: "s_pages ?s ! j = zero_page" and jF: "j \<notin> set (fresh_lists FreeHead)" using pages j by (simp_all add: fresh_lists_def)
    then have "run_len (fresh_lists FreeHead) ?s j = 0" by (auto simp: run_len_def tail_pages)
    then show ?thesis unfolding desc_ok_def using z jF run_ok_tails by (auto simp: tail_pages)
  qed
  then show inv: "slab_inv g sg ?s fresh_lists {}"
    unfolding slab_inv_def using geo r len by (auto simp: fresh_lists_def)
  have "page_occ ?s j = {}" if "j < n" for j
    using that page0 pages [of j] page_occ_tail [of ?s j] by (cases "j = 0") (simp_all add: page_occ_def)
  then show "slab_occ ?s = {}" by (simp add: slab_occ_def len)
qed

end
