(* ===== verification/Slab_Props.thy ===== *)
theory Slab_Props
  imports Slab_Init Region_Alloc
begin

text \<open>
  What the slab allocator promises, for pages of 4096 bytes and chunks of at least 8: any run
  of requests gets disjoint regions, a region that is given back can be served again and
  nothing else is touched, a request fails only when no run of free pages is long enough,
  and an invalid \<open>free\<close> is reported without a change to what is allocated. The last
  property is what \<open>rp_slab_free\<close> does with the addresses behind the pages, which its check lets pass.
\<close>

section \<open>The allocator as a whole\<close>

definition slab_ok :: "os_globals \<Rightarrow> slab_globals \<Rightarrow> slab_pool \<Rightarrow> bool" where
  "slab_ok g sg st \<longleftrightarrow> (\<exists>L. slab_inv g sg st L {})"

text \<open>One request: what \<open>slab_serve\<close> says of a result \<open>p\<close>, the null pointer included.\<close>

lemma slab_serve:
  assumes "slab_inv g sg st L {}"
  shows "\<exists>p st'. rp_slab_alloc g sg sz st = Some (Inr (p, st')) \<and> slab_step g sg sz st p st' \<and>
    (p = 0 \<longrightarrow> (\<forall>i \<in> set (L FreeHead). unat (slab (s_pages st ! i)) * 4096 < unat sz) \<and>
       (unat sz < 2048 \<longrightarrow> L FreeHead = [] \<and> L (Slot (slot_of sz)) = []))"
proof (cases "unat sz < 2048")
  case True
  then show ?thesis
  proof (cases "L (Slot (slot_of sz))")
    case Nil
    with serve_fresh [OF assms True Nil] show ?thesis by fastforce
  next
    case (Cons i "is")
    from serve_ring [OF assms True Cons] show ?thesis by blast
  qed
next
  case False
  with serve_pages [OF assms, of sz] show ?thesis by auto
qed

lemma slab_step_ok:
  assumes "slab_step g sg sz st p st'"
  shows "slab_ok g sg st'" "slab_occ st \<subseteq> slab_occ st'" "p \<noteq> 0 \<Longrightarrow> region p sz \<subseteq> slab_occ st' - slab_occ st"
proof -
  show "slab_ok g sg st'" using assms by (simp add: slab_step_def slab_ok_def)
  show "slab_occ st \<subseteq> slab_occ st'" using assms by (auto simp: slab_step_def split: if_splits)
  assume "p \<noteq> 0"
  with assms have s: "slab_region st' p = {unat p ..< unat p + slab_room sz}" "unat sz \<le> slab_room sz"
    "slab_region st' p \<inter> slab_occ st = {}" "slab_occ st' = slab_occ st \<union> slab_region st' p"
    unfolding slab_step_def by (simp_all only: if_False) blast+
  from s(1,2) have "region p sz \<subseteq> slab_region st' p" by (auto simp: region_def)
  with s(3,4) show "region p sz \<subseteq> slab_occ st' - slab_occ st" by blast
qed

text \<open>Giving a region back that is in use.\<close>

definition slab_release :: "os_globals \<Rightarrow> slab_globals \<Rightarrow> addr \<Rightarrow> slab_pool \<Rightarrow> slab_pool option" where
  "slab_release g sg p st =
     (if slab_region st p = {} then None
      else case rp_slab_free g sg p st of Inr (Freed, st') \<Rightarrow> Some st' | _ \<Rightarrow> None)"

interpretation slab: freeing_allocator "slab_ok g sg" slab_occ "\<lambda>_. True" "\<lambda>sz. sz" "rp_slab_alloc g sg"
    "slab_release g sg" slab_region for g sg
proof (unfold_locales, goal_cases)
  case (1 s r)
  then obtain L where "slab_inv g sg s L {}" by (auto simp: slab_ok_def)
  from slab_serve [OF this, of r] obtain p s' where
    p: "rp_slab_alloc g sg r s = Some (Inr (p, s'))" "slab_step g sg r s p s'" by blast
  with slab_step_ok [OF p(2)] show ?case by (intro exI [of _ p] exI [of _ s']) simp
next
  case (2 s p s')
  then obtain L where L: "slab_inv g sg s L {}" by (auto simp: slab_ok_def)
  from 2(2) have R: "slab_region s p \<noteq> {}" by (auto simp: slab_release_def split: if_splits)
  from free_region [OF L R] 2(2) R show ?case by (auto simp: slab_release_def slab_ok_def)
qed

section \<open>A first pool\<close>

definition os4k :: os_globals where
  "os4k = \<lparr>rp_pagesize = 4096, rp_pagesize_shift = 12\<rparr>"

definition slab4k :: slab_globals where
  "slab4k = \<lparr>slab_max_size = 2048, slab_exact_size = 64, slab_exact_shift = 6\<rparr>"

text \<open>A pool at the address 65536 with 64 kB, as the caller hands it over.\<close>

definition raw_pool :: slab_pool where
  "raw_pool = \<lparr>min_size = 0, min_shift = 3, s_slots = [], s_pages = [], s_free = zero_page, s_start = 0,
     s_end = 131072, s_bits = (\<lambda>_ _. 0)\<rparr>"

lemma slab4k: "rp_slab_globals_init os4k \<lparr>slab_max_size = 0, slab_exact_size = 0, slab_exact_shift = 0\<rparr> = slab4k"
  unfolding slab4k_def by (intro globals_init_4096) (simp_all add: os4k_def)

lemma init_ok:
  assumes g: "rp_pagesize g = 4096" "rp_pagesize_shift g = 12" and sg: "slab_max_size sg = 0" "slab_exact_shift sg = 0"
    and st: "min_shift st = 3" "unat base + 64 + 3 * 4120 \<le> unat (s_end st)"
  shows "\<exists>st' m. rp_slab_init g base st = Inr st' \<and> slab_inv g (rp_slab_globals_init g sg) st' fresh_lists {} \<and>
    slab_occ st' = {} \<and> slab (s_pages st' ! 0) = m \<and> 0 < unat m \<and> usable st' = unat m \<and>
    s_end st' = s_end st \<and> unat base + 280 + length (s_pages st') * 24 \<le> unat (s_start st') \<and> 3 \<le> length (s_pages st')"
proof -
  from init_state [OF g st] obtain n m start where
    i: "rp_slab_init g base st = Inr (slab_state st n m start)" "3 \<le> n" "unat start mod 4096 = 0"
      "unat base + 280 + n * 24 \<le> unat start" "start \<le> s_end st"
      "unat m = min n ((unat (s_end st) - unat start) div 4096)" "0 < unat m" by (elim exE conjE) (rule that)
  have n: "0 < n" "0 < unat start" using i(2,4) by linarith+
  note s = state_inv [OF g st(1) globals_init_4096 [OF g(1) sg] n(1) i(3) n(2) i(5,6,7)]
  have "slab (s_pages (slab_state st n m start) ! 0) = m" "s_end (slab_state st n m start) = s_end st"
    "length (s_pages (slab_state st n m start)) = n" "s_start (slab_state st n m start) = start"
    using n(1) by (simp_all add: slab_state_def)
  with i s show ?thesis by auto
qed

text \<open>
  The pool that \<open>rp_slab_init\<close> makes of it has 15 pages, and what is left after one and after
  two pages have been handed out.
\<close>

definition slab15 :: slab_pool where
  "slab15 = \<lparr>min_size = 8, min_shift = 3, s_slots = map (\<lambda>i. \<lparr>slab = 0, nxt = Slot i, prv = (Null, 0)\<rparr>) [0 ..< 9],
     s_pages = \<lparr>slab = 15, nxt = FreeHead, prv = (FreeHead, 0)\<rparr> # replicate 14 zero_page,
     s_free = \<lparr>slab = 0, nxt = Page 0, prv = (Null, 0)\<rparr>, s_start = 69632, s_end = 131072, s_bits = (\<lambda>_ _. 0)\<rparr>"

lemma init15: "rp_slab_init os4k 65536 raw_pool = Inr slab15"
  by (simp add: rp_slab_init_def os4k_def raw_pool_def slab15_def SIZEOF_SLAB_POOL_def SIZEOF_SLAB_PAGE_def
    rp_align_ptr_def zero_page_def int_shl_def)

definition slab14 :: slab_pool where
  "slab14 = slab15\<lparr>s_pages := [\<lparr>slab = 0x8000000000000001, nxt = Null, prv = (Null, 0)\<rparr>, 
     \<lparr>slab = 14, nxt = FreeHead, prv = (FreeHead, 0)\<rparr>] @ replicate 13 zero_page,
     s_free := \<lparr>slab = 0, nxt = Page 1, prv = (Page 1, 0)\<rparr>\<rparr>"

lemma find15: "find_run slab15 1 (Page 0) = Some (Inr (Some 0))"
  by (subst find_run.simps) (simp add: slab15_def)

lemma take15: "take_run 0 1 slab15 = Inr slab14"
proof -
  have lt: "(1 :: 64 word) < 15" by (simp add: word_less_nat_alt)
  have r: "replicate 14 zero_page = zero_page # replicate 13 zero_page" by (simp flip: replicate_Suc)
  show ?thesis
    by (simp add: take_run_def split_run_def raw_prev_def slab15_def slab14_def slab_types RP_SLAB_PAGE_START_def lt setn.simps r)
qed

lemma alloc15: "rp_slab_alloc os4k slab4k 4096 slab15 = Some (Inr (69632, slab14))"
proof -
  have "nxt (s_free slab15) = Page 0" by (simp add: slab15_def)
  then have "rp_slab_alloc_pages slab15 1 = Some (Inr (Some 0, slab14))"
    by (simp add: rp_slab_alloc_pages_def find15 take15)
  then show ?thesis by (simp add: rp_slab_alloc_def slab4k_def os4k_def page_addr_def) (simp add: slab14_def slab15_def)
qed

lemma region14: "slab_region slab14 69632 = region 69632 4096"
  by (simp add: slab_region_def slab14_def slab15_def Let_def page_occ_def page_start_def region_def RP_SLAB_PAGE_START_def RP_SLAB_PAGE_BUSY_def)

definition slab13 :: slab_pool where
  "slab13 = slab15\<lparr>s_pages := [\<lparr>slab = 0x8000000000000001, nxt = Null, prv = (Null, 0)\<rparr>,
     \<lparr>slab = 0x8000000000000001, nxt = Null, prv = (Null, 0)\<rparr>,
     \<lparr>slab = 13, nxt = FreeHead, prv = (FreeHead, 0)\<rparr>] @ replicate 12 zero_page,
     s_free := \<lparr>slab = 0, nxt = Page 2, prv = (Page 2, 0)\<rparr>\<rparr>"

lemma find14: "find_run slab14 1 (Page 1) = Some (Inr (Some 1))"
  by (subst find_run.simps) (simp add: slab15_def slab14_def)

lemma take14: "take_run 1 1 slab14 = Inr slab13"
proof -
  have lt: "(1 :: 64 word) < 14" by (simp add: word_less_nat_alt)
  have r: "replicate 13 zero_page = zero_page # replicate 12 zero_page" by (simp flip: replicate_Suc)
  show ?thesis
    by (simp add: take_run_def split_run_def raw_prev_def slab15_def slab14_def slab13_def slab_types RP_SLAB_PAGE_START_def
      lt setn.simps r numeral_2_eq_2)
qed

lemma alloc14: "rp_slab_alloc os4k slab4k 4096 slab14 = Some (Inr (73728, slab13))"
proof -
  have "nxt (s_free slab14) = Page 1" by (simp add: slab14_def)
  then have "rp_slab_alloc_pages slab14 1 = Some (Inr (Some 1, slab13))"
    by (simp add: rp_slab_alloc_pages_def find14 [simplified] take14 [simplified])
  then show ?thesis by (simp add: rp_slab_alloc_def slab4k_def os4k_def page_addr_def) (simp add: slab13_def slab15_def)
qed

lemma first_slabs:
  "slab_ok os4k slab4k slab15" "slab_occ slab15 = {}"
  "slab_ok os4k slab4k slab14" "slab_occ slab14 = region 69632 4096"
  "slab_ok os4k slab4k slab13" "slab_occ slab13 = region 69632 4096 \<union> region 73728 4096"
  "slab_region slab13 73728 = region 73728 4096"
proof -
  let ?sg = "\<lparr>slab_max_size = 0, slab_exact_size = 0, slab_exact_shift = 0\<rparr> :: slab_globals"
  have "rp_pagesize os4k = 4096" "rp_pagesize_shift os4k = 12" "slab_max_size ?sg = 0" "slab_exact_shift ?sg = 0"
    "min_shift raw_pool = 3" "unat (65536 :: addr) + 64 + 3 * 4120 \<le> unat (s_end raw_pool)"
    by (simp_all add: os4k_def raw_pool_def)
  from init_ok [OF this] show ok15: "slab_ok os4k slab4k slab15" and occ15: "slab_occ slab15 = {}"
    unfolding slab4k init15 by (auto simp: slab_ok_def)
  have step: "slab_step os4k slab4k 4096 st p st'"
    if "slab_ok os4k slab4k st" "rp_slab_alloc os4k slab4k 4096 st = Some (Inr (p, st'))" for st p st'
    using that slab_serve [of os4k slab4k st _ 4096] by (fastforce simp: slab_ok_def)
  note s14 = step [OF ok15 alloc15]
  then show ok14: "slab_ok os4k slab4k slab14" by (rule slab_step_ok)
  show occ14: "slab_occ slab14 = region 69632 4096" using s14 occ15 by (simp add: slab_step_def slab_room_def region_def)
  note s13 = step [OF ok14 alloc14]
  then show "slab_ok os4k slab4k slab13" by (rule slab_step_ok)
  show "slab_occ slab13 = region 69632 4096 \<union> region 73728 4096" "slab_region slab13 73728 = region 73728 4096"
    using s13 occ14 by (simp_all add: slab_step_def slab_room_def region_def)
qed

section \<open>Start\<close>

text \<open>
  C37: \<open>rp_slab_init\<close> on memory with room for three pages and their descriptors establishes the
  invariant of the pool: nothing is allocated, and the descriptors lie behind the header
  and before the first page.
\<close>

theorem slab_init_ready:
  assumes "rp_pagesize g = 4096" "rp_pagesize_shift g = 12" "slab_max_size sg = 0" "slab_exact_shift sg = 0"
    and "min_shift st = 3" "unat base + 64 + 3 * 4120 \<le> unat (s_end st)"
  shows "\<exists>st'. rp_slab_init g base st = Inr st' \<and> slab_ok g (rp_slab_globals_init g sg) st' \<and> slab_occ st' = {} \<and>
    s_end st' = s_end st \<and> 3 \<le> length (s_pages st') \<and> length (s_slots st') = 9 \<and>
    unat base + 64 + (9 + length (s_pages st')) * 24 \<le> unat (s_start st') \<and> s_start st' \<le> s_end st'"
proof -
  from init_ok [OF assms] obtain st' where
    i: "rp_slab_init g base st = Inr st'" "slab_inv g (rp_slab_globals_init g sg) st' fresh_lists {}" "slab_occ st' = {}"
      "s_end st' = s_end st" "unat base + 280 + length (s_pages st') * 24 \<le> unat (s_start st')" "3 \<le> length (s_pages st')"
    by (elim exE conjE) (rule that)
  have "slab_ok g (rp_slab_globals_init g sg) st'" using i(2) by (auto simp: slab_ok_def)
  moreover have "length (s_slots st') = 9" "s_start st' \<le> s_end st'" using i(2) by (simp_all add: slab_inv_def geo_def)
  moreover have "unat base + 64 + (9 + length (s_pages st')) * 24 \<le> unat (s_start st')" using i(5) by simp
  ultimately show ?thesis using i by (intro exI [of _ st']) simp
qed

theorem slab_init_ready_witness:
  "slab_ok os4k slab4k slab15 \<and> slab_occ slab15 = {} \<and> rp_slab_init os4k 65536 raw_pool = Inr slab15"
proof -
  let ?sg = "\<lparr>slab_max_size = 0, slab_exact_size = 0, slab_exact_shift = 0\<rparr> :: slab_globals"
  have "rp_pagesize os4k = 4096" "rp_pagesize_shift os4k = 12" "slab_max_size ?sg = 0" "slab_exact_shift ?sg = 0"
    "min_shift raw_pool = 3" "unat (65536 :: addr) + 64 + 3 * 4120 \<le> unat (s_end raw_pool)"
    by (simp_all add: os4k_def raw_pool_def)
  from slab_init_ready [OF this] show ?thesis unfolding slab4k init15 by auto
qed

section \<open>Requests\<close>

text \<open>
  C25: Every run of requests to a well-formed slab pool returns (the searches through the rings
  and the free list end, no descriptor out of bounds is touched), keeps the pool
  well-formed, and the regions that were handed out are pairwise disjoint and overlap
  nothing that was in use before.
\<close>

theorem slab_serves_disjoint:
  assumes "slab_ok g sg st"
  shows "\<exists>out st'. serve_all (rp_slab_alloc g sg) sizes st = Some (Inr (out, st')) \<and> slab_ok g sg st' \<and>
    slab_occ st \<subseteq> slab_occ st' \<and> map snd out = sizes \<and> disjoint_all (regions (\<lambda>sz. sz) out) \<and>
    (\<forall>A \<in> set (regions (\<lambda>sz. sz) out). A \<subseteq> slab_occ st' - slab_occ st)"
  using slab.serve_all_disjoint [OF assms, of sizes] by simp

theorem slab_serves_disjoint_witness:
  "\<exists>out st'. serve_all (rp_slab_alloc os4k slab4k) [8, 8, 64, 5000, 100, 1, 2048] slab14 = Some (Inr (out, st')) \<and>
     disjoint_all (regions (\<lambda>sz. sz) out) \<and> (\<forall>A \<in> set (regions (\<lambda>sz. sz) out). A \<inter> region 69632 4096 = {})"
proof -
  from slab_serves_disjoint [OF first_slabs(3), of "[8, 8, 64, 5000, 100, 1, 2048]"] obtain out st' where
    o: "serve_all (rp_slab_alloc os4k slab4k) [8, 8, 64, 5000, 100, 1, 2048] slab14 = Some (Inr (out, st'))"
      "disjoint_all (regions (\<lambda>sz. sz) out)" "\<forall>A \<in> set (regions (\<lambda>sz. sz) out). A \<subseteq> slab_occ st' - region 69632 4096"
    unfolding first_slabs by (elim exE conjE) (rule that)
  from o(3) have "\<forall>A \<in> set (regions (\<lambda>sz. sz) out). A \<inter> region 69632 4096 = {}" by blast
  with o(1,2) show ?thesis by (intro exI conjI)
qed

text \<open>
  C28: One request: a result that is not null is a new region of the size class of the request
  (the power of two that holds it, or whole pages), aligned to it and inside the pool; a
  null pointer means that the pool is unchanged and no run of free pages is long enough (for
  a chunk: no page is free and no page of its size class has a free chunk).
\<close>

theorem slab_alloc_fits:
  assumes "slab_ok g sg st"
  shows "\<exists>p st' L. rp_slab_alloc g sg sz st = Some (Inr (p, st')) \<and> rings st L \<and>
    (if p = 0 then st' = st \<and> (\<forall>i \<in> set (L FreeHead). unat (slab (s_pages st ! i)) * 4096 < unat sz) \<and>
        (unat sz < 2048 \<longrightarrow> L FreeHead = [] \<and> L (Slot (slot_of sz)) = [])
     else slab_region st' p = {unat p ..< unat p + slab_room sz} \<and> unat sz \<le> slab_room sz \<and>
       slab_region st' p \<inter> slab_occ st = {} \<and> slab_occ st' = slab_occ st \<union> slab_region st' p \<and>
       unat p mod slab_align sz = 0 \<and> unat (s_start st) \<le> unat p \<and> unat p + slab_room sz \<le> unat (s_end st))"
proof -
  from assms obtain L where L: "slab_inv g sg st L {}" by (auto simp: slab_ok_def)
  then have r: "rings st L" by (simp add: slab_inv_def)
  from slab_serve [OF L, of sz] obtain p st' where
    p: "rp_slab_alloc g sg sz st = Some (Inr (p, st'))" "slab_step g sg sz st p st'"
      "p = 0 \<longrightarrow> (\<forall>i \<in> set (L FreeHead). unat (slab (s_pages st ! i)) * 4096 < unat sz) \<and>
       (unat sz < 2048 \<longrightarrow> L FreeHead = [] \<and> L (Slot (slot_of sz)) = [])" by blast
  show ?thesis
  proof (intro exI conjI)
    show "rp_slab_alloc g sg sz st = Some (Inr (p, st'))" "rings st L" by (rule p r)+
    show "if p = 0 then st' = st \<and> (\<forall>i \<in> set (L FreeHead). unat (slab (s_pages st ! i)) * 4096 < unat sz) \<and>
        (unat sz < 2048 \<longrightarrow> L FreeHead = [] \<and> L (Slot (slot_of sz)) = [])
     else slab_region st' p = {unat p ..< unat p + slab_room sz} \<and> unat sz \<le> slab_room sz \<and>
       slab_region st' p \<inter> slab_occ st = {} \<and> slab_occ st' = slab_occ st \<union> slab_region st' p \<and>
       unat p mod slab_align sz = 0 \<and> unat (s_start st) \<le> unat p \<and> unat p + slab_room sz \<le> unat (s_end st)"
      using p(2,3) unfolding slab_step_def by (cases "p = 0") auto
  qed
qed

theorem slab_alloc_fits_witness:
  "rp_slab_alloc os4k slab4k 4096 slab14 = Some (Inr (73728, slab13)) \<and> (73728 :: nat) mod slab_align 4096 = 0 \<and>
     slab_region slab13 73728 \<inter> slab_occ slab14 = {}"
  using slab_alloc_fits [OF first_slabs(3), of 4096] by (auto simp: alloc14)

section \<open>Giving back\<close>

text \<open>
  C26: What has been allocated can be given back: \<open>rp_slab_free\<close> accepts the address and the
  bytes in use are those from before the allocation.
\<close>

theorem slab_alloc_free:
  assumes "slab_ok g sg st" "rp_slab_alloc g sg sz st = Some (Inr (p, st1))" "p \<noteq> 0"
  shows "\<exists>st2. rp_slab_free g sg p st1 = Inr (Freed, st2) \<and> slab_ok g sg st2 \<and> slab_occ st2 = slab_occ st"
proof -
  from assms(1) obtain L where "slab_inv g sg st L {}" by (auto simp: slab_ok_def)
  from slab_serve [OF this, of sz] assms(2) have s: "slab_step g sg sz st p st1" by auto
  then obtain L1 where L1: "slab_inv g sg st1 L1 {}" by (auto simp: slab_step_def)
  have o: "slab_region st1 p = {unat p ..< unat p + slab_room sz}" "slab_region st1 p \<inter> slab_occ st = {}"
    "slab_occ st1 = slab_occ st \<union> slab_region st1 p"
    using s assms(3) unfolding slab_step_def by (simp_all only: if_False) blast+
  have "0 < slab_room sz"
  proof (cases "unat sz < 2048")
    case False
    then have "(1 :: nat) \<le> (unat sz + 4095) div 4096" by (simp add: less_eq_div_iff_mult_less_eq)
    with False show ?thesis by (simp add: slab_room_def)
  qed (simp add: slab_room_def chunk_size_def)
  then have "slab_region st1 p \<noteq> {}" by (simp add: o(1))
  from free_region [OF L1 this] obtain st2 where
    f: "rp_slab_free g sg p st1 = Inr (Freed, st2)" "slab_ok g sg st2" "slab_occ st2 = slab_occ st1 - slab_region st1 p"
    by (auto simp: slab_ok_def)
  have "slab_occ st2 = slab_occ st" using f(3) o(2,3) by blast
  with f show ?thesis by blast
qed

theorem slab_alloc_free_witness:
  "\<exists>st2. rp_slab_free os4k slab4k 73728 slab13 = Inr (Freed, st2) \<and> slab_ok os4k slab4k st2 \<and>
     slab_occ st2 = region 69632 4096"
  using slab_alloc_free [OF first_slabs(3) alloc14] by (simp add: first_slabs)

text \<open>
  C27: \<open>rp_slab_free\<close> of an address that is in use takes exactly its region out of use: another
  region stays in use, and no later request gets a part of it.
\<close>

theorem slab_free_keeps_others:
  assumes "slab_ok g sg st" "slab_region st p \<noteq> {}" "A \<subseteq> slab_occ st" "A \<inter> slab_region st p = {}"
  shows "\<exists>st' out st''. rp_slab_free g sg p st = Inr (Freed, st') \<and>
    serve_all (rp_slab_alloc g sg) sizes st' = Some (Inr (out, st'')) \<and> slab_ok g sg st'' \<and> A \<subseteq> slab_occ st'' \<and>
    (\<forall>B \<in> set (regions (\<lambda>sz. sz) out). A \<inter> B = {})"
proof -
  from assms(1) obtain L where "slab_inv g sg st L {}" by (auto simp: slab_ok_def)
  from free_region [OF this assms(2)] obtain st' where f: "rp_slab_free g sg p st = Inr (Freed, st')" by blast
  with assms(2) have "slab_release g sg p st = Some st'" by (simp add: slab_release_def)
  from slab.release_keeps [OF assms(1) this assms(3,4), of sizes] f show ?thesis by auto
qed

theorem slab_free_keeps_others_witness:
  "\<exists>st' out st''. rp_slab_free os4k slab4k 73728 slab13 = Inr (Freed, st') \<and>
     serve_all (rp_slab_alloc os4k slab4k) [16, 8000] st' = Some (Inr (out, st'')) \<and> region 69632 4096 \<subseteq> slab_occ st''"
proof -
  have A: "slab_region slab13 73728 \<noteq> {}" "region 69632 4096 \<subseteq> slab_occ slab13"
    "region 69632 4096 \<inter> slab_region slab13 73728 = {}"
    by (auto simp: first_slabs region_def)
  from slab_free_keeps_others [OF first_slabs(5) A, of "[16, 8000]"] show ?thesis by iprover
qed

section \<open>Invalid addresses\<close>

text \<open>The descriptor that \<open>rp_slab_free\<close> looks at.\<close>

definition slab_index :: "slab_pool \<Rightarrow> addr \<Rightarrow> nat" where
  "slab_index st p = (unat p - unat (s_start st)) div 4096"

text \<open>An address in the chunks that hold the map of a page of small chunks.\<close>

definition in_map :: "slab_pool \<Rightarrow> addr \<Rightarrow> bool" where
  "in_map st p = (let q = s_pages st ! slab_index st p in
     snd (prv q) \<noteq> 0 \<and> (unat p - unat (s_start st)) mod 4096 div chunk_size (page_slot q) < reserved (page_slot q))"

lemma slab_free_at:
  assumes geo: "geo g sg st" and p: "s_start st \<le> p" "p \<le> s_end st"
  shows "rp_slab_free g sg p st = res_bind (pg st (Page (slab_index st p))) (\<lambda>q.
     if snd (prv q) = RP_SLAB_SMALL then free_small g (slab_index st p) p q st
     else if snd (prv q) = RP_SLAB_EXACT then free_exact g sg (slab_index st p) p q st
     else if snd (prv q) = RP_SLAB_BIG then free_big g (slab_index st p) p q st
     else free_page g (slab_index st p) p q st)"
proof -
  have "\<not> unat p < unat (s_start st)" using p(1) by (simp add: word_le_nat_alt)
  note a = page_addr_split [OF this]
  have "\<not> p < s_start st" "\<not> p > s_end st" using p by simp_all
  then show ?thesis using addr_parts(2) [OF geo a] unfolding slab_index_def by (simp add: rp_slab_free_def Let_def)
qed

text \<open>A descriptor that speaks for no page is a free or a busy one, in no list.\<close>

lemma silent_free:
  assumes inv: "slab_inv g sg st L {}" and i: "i < length (s_pages st)" and n: "run_len (L FreeHead) st i = 0"
  shows "i \<notin> set (L FreeHead)"
proof
  assume "i \<in> set (L FreeHead)"
  with n inv_desc [OF inv i] show False by (simp add: desc_ok_def run_len_def Let_def unat_eq_0)
qed

lemma silent_descriptor:
  assumes inv: "slab_inv g sg st L {}" and i: "i < length (s_pages st)"
    and p: "snd (prv (s_pages st ! i)) = 0" and n: "run_len (L FreeHead) st i = 0"
  shows "prv (s_pages st ! i) = (Null, 0) \<and> (slab (s_pages st ! i) = 0 \<or> slab (s_pages st ! i) = RP_SLAB_PAGE_BUSY)"
proof -
  let ?q = "s_pages st ! i"
  note F = silent_free [OF inv i n]
  with inv_desc [OF inv i] p have r: "run_ok ?q" by (simp add: desc_ok_def)
  have "slab ?q = 0 \<or> slab ?q = RP_SLAB_PAGE_BUSY"
  proof (rule ccontr)
    assume no: "\<not> (slab ?q = 0 \<or> slab ?q = RP_SLAB_PAGE_BUSY)"
    with r obtain m where m: "slab ?q = m OR RP_SLAB_PAGE_START" "0 < m" "unat m < 2 ^ 63 - 1" by (auto simp: run_ok_def)
    have um: "0 < unat m" using m(2) by (simp add: unat_gt_0 word_less_nat_alt)
    have "?q = run_page m" using r m(1) by (intro page_eqI) (simp_all add: run_page_def run_ok_def slab_types)
    from run_page_facts [OF um m(3)] this have "slab ?q AND NOT RP_SLAB_PAGE_START = m" by simp
    with n F no p um show False by (simp add: run_len_def Let_def split: if_splits)
  qed
  with r show ?thesis by (simp add: run_ok_def)
qed

lemma no_region_page:
  assumes inv: "slab_inv g sg st L {}" and p: "s_start st \<le> p" "p \<le> s_end st" "slab_index st p < length (s_pages st)"
    and q: "snd (prv (s_pages st ! slab_index st p)) = 0" and R: "slab_region st p = {}"
  shows "\<exists>r st' L'. rp_slab_free g sg p st = Inr (r, st') \<and> slab_inv g sg st' L' {} \<and> slab_occ st' = slab_occ st \<and>
    (r \<noteq> Freed \<longrightarrow> st' = st)"
proof -
  let ?i = "slab_index st p" and ?off = "(unat p - unat (s_start st)) mod 4096"
  let ?q = "s_pages st ! ?i"
  have geo: "geo g sg st" using inv by (simp add: slab_inv_def)
  have "\<not> unat p < unat (s_start st)" using p(1) by (simp add: word_le_nat_alt)
  note a = page_addr_split [OF this, folded slab_index_def]
  have code: "rp_slab_free g sg p st = free_page g ?i p ?q st"
    using p(3) q by (simp add: slab_free_at [OF geo p(1,2)] slab_types)
  have po: "p AND (rp_pagesize g - 1) = 0 \<longleftrightarrow> ?off = 0"
    using addr_parts(1) [OF geo a] by (simp add: word_unat_eq_iff)
  show ?thesis
  proof (cases "?off = 0 \<and> 0 < run_len (L FreeHead) st ?i")
    case True
    then have empty: "page_occ st ?i = {}" using R q slab_region_page [OF a p(3)] by (simp add: Let_def)
    have "unat p = page_start st ?i" using a(1) True by simp
    from free_run_ok [OF inv p(3) q conjunct2 [OF True] this] obtain st' L' where
      f: "rp_slab_free g sg p st = Inr (Freed, st')" "slab_inv g sg st' L' {}" "same_frame st st' ?i" "page_occ st' ?i = {}"
      by blast
    have "page_occ st' ?i = page_occ st ?i \<union> {}" using f(4) empty by simp
    from occ_grow [OF f(3) p(3) this] f(1,2) show ?thesis by auto
  next
    case False
    have "\<exists>r. r \<noteq> Freed \<and> free_page g ?i p ?q st = Inr (r, st)"
    proof (cases "?off = 0")
      case True
      with False have n: "run_len (L FreeHead) st ?i = 0" by simp
      note silent_descriptor [OF inv p(3) q n]
      with True po show ?thesis by (auto simp: free_page_def RP_SLAB_PAGE_FREE_def)
    qed (use po in \<open>simp add: free_page_def\<close>)
    with inv code show ?thesis by auto
  qed
qed

text \<open>
  Freeing an address that is not in use does no harm, a second free included: unless it
  points into the chunk map of a page, the call returns, nothing that is in use is released,
  the invariant holds afterwards, and when a message is printed the pool is unchanged.
\<close>

theorem slab_free_rejects:
  assumes "slab_ok g sg st" "slab_region st p = {}" "\<not> in_map st p"
    and "s_start st \<le> p \<and> p \<le> s_end st \<Longrightarrow> slab_index st p < length (s_pages st)"
  shows "\<exists>r st'. rp_slab_free g sg p st = Inr (r, st') \<and> slab_ok g sg st' \<and> slab_occ st' = slab_occ st \<and>
    (r \<noteq> Freed \<longrightarrow> st' = st)"
proof (cases "s_start st \<le> p \<and> p \<le> s_end st")
  case False
  then have "rp_slab_free g sg p st = Inr (OutsidePool, st)" by (auto simp: rp_slab_free_def)
  with assms(1) show ?thesis by simp
next
  case in_pool: True
  let ?i = "slab_index st p" and ?off = "(unat p - unat (s_start st)) mod 4096"
  let ?q = "s_pages st ! ?i"
  from assms(1) obtain L where inv: "slab_inv g sg st L {}" by (auto simp: slab_ok_def)
  have i: "?i < length (s_pages st)" using assms(4) in_pool by blast
  show ?thesis
  proof (cases "snd (prv ?q) = 0")
    case True
    from no_region_page [OF inv _ _ i True assms(2)] in_pool show ?thesis by (auto simp: slab_ok_def)
  next
    case False
    have "\<not> unat p < unat (s_start st)" using in_pool by (simp add: word_le_nat_alt)
    note a = page_addr_split [OF this, folded slab_index_def]
    let ?k = "page_slot ?q"
    from inv_chunk(1) [OF inv i False] have m: "map_ok st ?i ?k" by (auto simp: chunk_ok_map map_ok_def Let_def)
    have c: "reserved ?k \<le> ?off div chunk_size ?k" using assms(3) False by (simp add: in_map_def Let_def)
    have "0 < chunk_size ?k" by (simp add: chunk_size_def)
    with assms(2) slab_region_page [OF a i] False c have
      "?off mod chunk_size ?k \<noteq> 0 \<or> \<not> used st ?i (?off div chunk_size ?k)"
      by (auto simp: Let_def chunk_region_def split: if_splits)
    then have "rp_slab_free g sg p st = Inr (if ?off mod chunk_size ?k \<noteq> 0 then WrongChunk else ChunkFree, st)"
      using free_chunk_case [OF inv i m a c] by (auto simp: frees_chunk_def)
    with assms(1) show ?thesis by auto
  qed
qed

theorem slab_free_rejects_witness:
  "\<exists>r st'. rp_slab_free os4k slab4k 73800 slab13 = Inr (r, st') \<and> slab_ok os4k slab4k st' \<and> slab_occ st' = slab_occ slab13"
proof -
  have "slab_region slab13 73800 = {}" "\<not> in_map slab13 73800" "slab_index slab13 73800 < length (s_pages slab13)"
    by (simp_all add: slab_region_def in_map_def slab_index_def slab13_def slab15_def Let_def)
  with slab_free_rejects [OF first_slabs(5)] show ?thesis by blast
qed

text \<open>A descriptor behind the usable pages speaks for no page.\<close>

lemma spare_descriptor:
  assumes inv: "slab_inv g sg st L {}" and j: "usable st \<le> j" "j < length (s_pages st)"
  shows "prv (s_pages st ! j) = (Null, 0)" "slab (s_pages st ! j) = 0 \<or> slab (s_pages st ! j) = RP_SLAB_PAGE_BUSY"
proof -
  have n: "run_len (L FreeHead) st j = 0" using inv_desc [OF inv j(2)] j(1) by (simp add: desc_ok_def)
  then have "snd (prv (s_pages st ! j)) = 0"
    using silent_free [OF inv j(2) n] by (simp add: run_len_def Let_def split: if_splits)
  from silent_descriptor [OF inv j(2) this n]
  show "prv (s_pages st ! j) = (Null, 0)" "slab (s_pages st ! j) = 0 \<or> slab (s_pages st ! j) = RP_SLAB_PAGE_BUSY" by simp_all
qed

text \<open>
  C38: The check of the address range admits \<open>end\<close> itself and the whole space behind the last
  usable page, where nothing can be allocated. The answer there is never that the address
  lies outside the pool: behind the pages of all descriptors the code reads a descriptor
  that does not exist, and where alignment has left a spare descriptor it reads that one and
  reports a wrong chunk or page, or a page that is free.
\<close>

theorem slab_free_behind_pages:
  assumes "slab_ok g sg st" "unat (s_start st) + usable st * 4096 \<le> unat p" "p \<le> s_end st"
  shows "unat (s_start st) + usable st * 4096 \<le> unat (s_end st) \<and>
    (if unat (s_start st) + length (s_pages st) * 4096 \<le> unat p then rp_slab_free g sg p st = Inl OutOfBounds
     else if unat p mod 4096 \<noteq> 0 then rp_slab_free g sg p st = Inr (WrongChunk, st)
     else rp_slab_free g sg p st \<in> {Inr (PageFree, st), Inr (WrongPage, st)})"
proof -
  let ?i = "slab_index st p" and ?q = "s_pages st ! slab_index st p"
  from assms(1) obtain L where inv: "slab_inv g sg st L {}" by (auto simp: slab_ok_def)
  then have geo: "geo g sg st" by (simp add: slab_inv_def)
  have le: "unat (s_start st) \<le> unat p" using assms(2) by simp
  then have "s_start st \<le> p" by (simp add: word_le_nat_alt)
  note code = slab_free_at [OF geo this assms(3)]
  have i: "n \<le> ?i \<longleftrightarrow> unat (s_start st) + n * 4096 \<le> unat p" for n
    using le by (auto simp: slab_index_def less_eq_div_iff_mult_less_eq)
  note stop = usable_end [OF geo order_refl]
  show ?thesis
  proof (cases "length (s_pages st) \<le> ?i")
    case True
    then have "pg st (Page ?i) = Inl OutOfBounds" by (simp add: pg.simps(4))
    with True stop code i [of "length (s_pages st)"] show ?thesis by simp
  next
    case False
    have "usable st \<le> ?i" "?i < length (s_pages st)" using False assms(2) i [of "usable st"] by simp_all
    note q = spare_descriptor [OF inv this]
    have c: "rp_slab_free g sg p st = free_page g ?i p ?q st" using False q(1) by (simp add: code slab_types)
    have "\<not> unat p < unat (s_start st)" using le by simp
    note a = page_addr_split [OF this, folded slab_index_def]
    have "unat (s_start st) mod 4096 = 0" using geo by (simp add: geo_def)
    then obtain c where "unat (s_start st) = 4096 * c" by auto
    then have "(unat p - unat (s_start st)) mod 4096 = unat p mod 4096" using le by (metis le_add_diff_inverse mod_mult_self4)
    then have "p AND (rp_pagesize g - 1) = 0 \<longleftrightarrow> unat p mod 4096 = 0"
      using addr_parts(1) [OF geo a] by (simp add: word_unat_eq_iff)
    with q(2) stop False i [of "length (s_pages st)"] show ?thesis
      unfolding c by (auto simp: free_page_def RP_SLAB_PAGE_FREE_def)
  qed
qed

text \<open>A pool in which alignment has cost one of three pages.\<close>

definition tight_raw :: slab_pool where
  "tight_raw = raw_pool\<lparr>s_end := 77960\<rparr>"

definition tight_pool :: slab_pool where
  "tight_pool = slab15\<lparr>s_pages := \<lparr>slab = 2, nxt = FreeHead, prv = (FreeHead, 0)\<rparr> # replicate 2 zero_page, s_end := 77960\<rparr>"

lemma tight_ok: "slab_ok os4k slab4k tight_pool"
proof -
  have i: "rp_slab_init os4k 65536 tight_raw = Inr tight_pool"
    by (simp add: rp_slab_init_def os4k_def tight_raw_def raw_pool_def tight_pool_def slab15_def SIZEOF_SLAB_POOL_def
        SIZEOF_SLAB_PAGE_def rp_align_ptr_def zero_page_def int_shl_def)
  let ?sg = "\<lparr>slab_max_size = 0, slab_exact_size = 0, slab_exact_shift = 0\<rparr> :: slab_globals"
  have "rp_pagesize os4k = 4096" "rp_pagesize_shift os4k = 12" "slab_max_size ?sg = 0" "slab_exact_shift ?sg = 0"
    "min_shift tight_raw = 3" "unat (65536 :: addr) + 64 + 3 * 4120 \<le> unat (s_end tight_raw)"
    by (simp_all add: os4k_def tight_raw_def raw_pool_def)
  from init_ok [OF this] show ?thesis unfolding slab4k i by (auto simp: slab_ok_def)
qed

theorem slab_free_behind_pages_witness:
  "rp_slab_free os4k slab4k (s_end slab15) slab15 = Inl OutOfBounds \<and>
     rp_slab_free os4k slab4k (s_end tight_pool) tight_pool = Inr (WrongChunk, tight_pool)"
proof
  show "rp_slab_free os4k slab4k (s_end slab15) slab15 = Inl OutOfBounds"
    using slab_free_behind_pages [OF first_slabs(1), of "s_end slab15"] by (simp add: slab15_def usable_def)
  show "rp_slab_free os4k slab4k (s_end tight_pool) tight_pool = Inr (WrongChunk, tight_pool)"
    using slab_free_behind_pages [OF tight_ok, of "s_end tight_pool"] by (simp add: tight_pool_def slab15_def usable_def)
qed

end
