(* ===== verification/Links.thy ===== *)
theory Links
  imports Prelude
begin

text \<open>
  Linked lists in memory, for the macros of utlist.h and uthash.h: a pointer is an optional
  node number, the link fields are functions from nodes to pointers, \<open>chain\<close> says that the
  pointers lead through a list of nodes, \<open>backs_to\<close> that the links back agree with it. Loops
  that walk over pointers may not end; a run that may not end is an option, one that may go
  wrong a result in it.
\<close>

section \<open>Runs\<close>

type_synonym ptr = "nat option"
type_synonym 'a run = "'a res option"

definition run_bind :: "'a run \<Rightarrow> ('a \<Rightarrow> 'b run) \<Rightarrow> 'b run" where
  "run_bind r f = (case r of None \<Rightarrow> None | Some (Inl e) \<Rightarrow> Some (Inl e) | Some (Inr x) \<Rightarrow> f x)"

lemma run_bind_simps [simp]:
  "run_bind None f = None" "run_bind (Some (Inl e)) f = Some (Inl e)" "run_bind (Some (Inr x)) f = f x"
  by (simp_all add: run_bind_def)

lemma run_bind_Some_Inr: "run_bind r f = Some (Inr y) \<longleftrightarrow> (\<exists>x. r = Some (Inr x) \<and> f x = Some (Inr y))"
  by (cases r) (auto simp: run_bind_def split: sum.splits)

text \<open>Following a pointer.\<close>

fun deref :: "ptr \<Rightarrow> nat res" where
  "deref None = Inl NullDeref"
| "deref (Some e) = Inr e"

section \<open>Chains\<close>

fun chain :: "(nat \<Rightarrow> ptr) \<Rightarrow> ptr \<Rightarrow> nat list \<Rightarrow> ptr \<Rightarrow> bool" where
  "chain nx p [] q = (p = q)"
| "chain nx p (x # xs) q = (p = Some x \<and> chain nx (nx x) xs q)"

fun backs_to :: "(nat \<Rightarrow> ptr) \<Rightarrow> ptr \<Rightarrow> nat list \<Rightarrow> bool" where
  "backs_to pv b [] = True"
| "backs_to pv b (x # xs) = (pv x = b \<and> backs_to pv (Some x) xs)"

text \<open>The first and the last node, as pointers.\<close>

definition first_of :: "nat list \<Rightarrow> ptr \<Rightarrow> ptr" where
  "first_of xs q = (case xs of [] \<Rightarrow> q | x # _ \<Rightarrow> Some x)"

definition last_of :: "ptr \<Rightarrow> nat list \<Rightarrow> ptr" where
  "last_of b xs = (if xs = [] then b else Some (last xs))"

lemma first_of_simps [simp]: "first_of [] q = q" "first_of (x # xs) q = Some x"
  by (simp_all add: first_of_def)

lemma last_of_simps [simp]: "last_of b [] = b" "last_of b (x # xs) = last_of (Some x) xs" "last_of b (xs @ [y]) = Some y"
  by (simp_all add: last_of_def)

lemma last_of_append [simp]: "last_of b (xs @ ys) = last_of (last_of b xs) ys"
  by (simp add: last_of_def)

lemma chain_append [simp]: "chain nx p (xs @ ys) q \<longleftrightarrow> chain nx p xs (first_of ys q) \<and> chain nx (first_of ys q) ys q"
proof (induction xs arbitrary: p)
  case Nil
  then show ?case by (cases ys) auto
qed auto

lemma chain_first: "chain nx p xs q \<Longrightarrow> p = first_of xs q"
  by (cases xs) auto

lemma backs_to_append [simp]: "backs_to pv b (xs @ ys) \<longleftrightarrow> backs_to pv b xs \<and> backs_to pv (last_of b xs) ys"
  by (induction xs arbitrary: b) auto

text \<open>A chain depends only on the links of its nodes.\<close>

lemma chain_frame: "(\<And>x. x \<in> set xs \<Longrightarrow> nx' x = nx x) \<Longrightarrow> chain nx' p xs q = chain nx p xs q"
  by (induction xs arbitrary: p) auto

lemma backs_to_frame: "(\<And>x. x \<in> set xs \<Longrightarrow> pv' x = pv x) \<Longrightarrow> backs_to pv' b xs = backs_to pv b xs"
  by (induction xs arbitrary: b) auto

lemma chain_upd [simp]: "x \<notin> set xs \<Longrightarrow> chain (nx(x := r)) p xs q = chain nx p xs q"
  by (rule chain_frame) auto

lemma backs_upd [simp]: "x \<notin> set xs \<Longrightarrow> backs_to (pv(x := r)) b xs = backs_to pv b xs"
  by (rule backs_to_frame) auto

text \<open>The link of the last node can be turned to another place.\<close>

lemma chain_last: "distinct xs \<Longrightarrow> chain nx p xs q \<Longrightarrow> xs \<noteq> [] \<Longrightarrow> chain (nx(last xs := r)) p xs r"
  by (induction xs arbitrary: p) auto

lemma chain_last_link: "chain nx p xs q \<Longrightarrow> xs \<noteq> [] \<Longrightarrow> nx (last xs) = q"
  by (induction xs arbitrary: p) auto

text \<open>A chain that ends in the null pointer is determined by its start, and no node is in it twice.\<close>

lemma chain_unique: "chain nx p xs None \<Longrightarrow> chain nx p ys None \<Longrightarrow> xs = ys"
proof (induction xs arbitrary: p ys)
  case Nil
  then show ?case by (cases ys) auto
next
  case (Cons x xs)
  then show ?case by (cases ys) auto
qed

lemma chain_distinct: "chain nx p xs None \<Longrightarrow> distinct xs"
proof (induction xs arbitrary: p)
  case (Cons x xs)
  have "x \<notin> set xs"
  proof
    assume "x \<in> set xs"
    then obtain as bs where xs: "xs = as @ x # bs" by (meson split_list)
    with Cons.prems have "chain nx (nx x) bs None" "chain nx (nx x) (as @ x # bs) None" by auto
    then have "bs = as @ x # bs" by (rule chain_unique)
    then have "length bs = length (as @ x # bs)" by simp
    then show False by simp
  qed
  with Cons show ?case by auto
qed simp

section \<open>Loops over pointers\<close>

text \<open>
  \<open>while (p) { nxt = p->next; body; p = nxt; }\<close>: the pointer and the state of the client,
  whose links the body may change.
\<close>

partial_function (option) ptr_loop :: "('s \<Rightarrow> nat \<Rightarrow> ptr) \<Rightarrow> (nat \<Rightarrow> 's \<Rightarrow> 's res) \<Rightarrow> ptr \<times> 's \<Rightarrow> 's run" where
  "ptr_loop nx body z =
     (case fst z of
        None \<Rightarrow> Some (Inr (snd z))
      | Some e \<Rightarrow>
          let nxt = nx (snd z) e
          in case body e (snd z) of Inl f \<Rightarrow> Some (Inl f) | Inr s \<Rightarrow> ptr_loop nx body (nxt, s))"

text \<open>An invariant over the nodes that have been visited shows that the loop ends.\<close>

lemma ptr_loop_inv:
  assumes "chain (nx s) p xs None" "P [] s"
    and "\<And>ys x zs t. xs = ys @ x # zs \<Longrightarrow> P ys t \<Longrightarrow> chain (nx t) (Some x) (x # zs) None \<Longrightarrow>
      \<exists>t'. body x t = Inr t' \<and> P (ys @ [x]) t' \<and> (\<forall>z \<in> set zs. nx t' z = nx t z)"
  shows "\<exists>s'. ptr_loop nx body (p, s) = Some (Inr s') \<and> P xs s'"
proof -
  have "\<exists>s'. ptr_loop nx body (q, t) = Some (Inr s') \<and> P (ys @ zs) s'"
    if "xs = ys @ zs" "P ys t" "chain (nx t) q zs None" for q t ys zs
    using that
  proof (induction zs arbitrary: ys q t)
    case Nil
    then show ?case by (subst ptr_loop.simps) simp
  next
    case (Cons z zs)
    from assms(3) [OF Cons.prems(1,2)] Cons.prems(3) obtain t' where
      t: "body z t = Inr t'" "P (ys @ [z]) t'" "\<forall>y \<in> set zs. nx t' y = nx t y" by auto
    have "chain (nx t') (nx t z) zs None = chain (nx t) (nx t z) zs None" using t(3) by (intro chain_frame) auto
    with Cons.IH [of "ys @ [z]" t' "nx t z"] Cons.prems t show ?case
      by (subst ptr_loop.simps) simp
  qed
  from this [of "[]" xs s p] assms(1,2) show ?thesis by simp
qed

section \<open>Refinement by operations\<close>

text \<open>
  Operations on a state in memory that do what operations on an abstract state do, faults
  included, as long as every operation meets its precondition.
\<close>

fun run_ops :: "('o \<Rightarrow> 's \<Rightarrow> 's run) \<Rightarrow> 'o list \<Rightarrow> 's \<Rightarrow> 's run" where
  "run_ops step [] s = Some (Inr s)"
| "run_ops step (i # is) s = run_bind (step i s) (run_ops step is)"

fun spec_ops :: "('o \<Rightarrow> 'a \<Rightarrow> 'a res) \<Rightarrow> 'o list \<Rightarrow> 'a \<Rightarrow> 'a res" where
  "spec_ops spec [] a = Inr a"
| "spec_ops spec (i # is) a = res_bind (spec i a) (spec_ops spec is)"

fun pre_ops :: "('o \<Rightarrow> 'a \<Rightarrow> bool) \<Rightarrow> ('o \<Rightarrow> 'a \<Rightarrow> 'a res) \<Rightarrow> 'o list \<Rightarrow> 'a \<Rightarrow> bool" where
  "pre_ops pre spec [] a = True"
| "pre_ops pre spec (i # is) a = (pre i a \<and> (case spec i a of Inl _ \<Rightarrow> True | Inr b \<Rightarrow> pre_ops pre spec is b))"

text \<open>A run may also stop with one of the faults in \<open>stop\<close>, whatever the abstract state.\<close>

definition outcome :: "fault set \<Rightarrow> ('s \<Rightarrow> 'a \<Rightarrow> bool) \<Rightarrow> 's res \<Rightarrow> 'a res \<Rightarrow> bool" where
  "outcome stop rel r a \<longleftrightarrow> (\<exists>f \<in> stop. r = Inl f) \<or> rel_sum (=) rel r a"

lemma outcome_empty [simp]: "outcome {} rel r a = rel_sum (=) rel r a"
  by (simp add: outcome_def)

lemma outcome_Inr: "outcome stop rel r (Inr b) \<longleftrightarrow> (\<exists>f \<in> stop. r = Inl f) \<or> (\<exists>t. r = Inr t \<and> rel t b)"
  by (cases r) (auto simp: outcome_def)

locale op_refinement =
  fixes stop :: "fault set"
    and rel :: "'s \<Rightarrow> 'a \<Rightarrow> bool"
    and pre :: "'o \<Rightarrow> 'a \<Rightarrow> bool"
    and step :: "'o \<Rightarrow> 's \<Rightarrow> 's run"
    and spec :: "'o \<Rightarrow> 'a \<Rightarrow> 'a res"
  assumes simulates: "rel s a \<Longrightarrow> pre i a \<Longrightarrow> \<exists>r. step i s = Some r \<and> outcome stop rel r (spec i a)"
begin

lemma run_simulates:
  assumes "rel s a" "pre_ops pre spec is a"
  shows "\<exists>r. run_ops step is s = Some r \<and> outcome stop rel r (spec_ops spec is a)"
  using assms
proof (induction "is" arbitrary: s a)
  case Nil
  then show ?case by (simp add: outcome_Inr)
next
  case (Cons i "is")
  from simulates [OF Cons.prems(1), of i] Cons.prems(2) obtain r where
    r: "step i s = Some r" "outcome stop rel r (spec i a)" by auto
  show ?case
  proof (cases r)
    case (Inl e)
    with r show ?thesis by (cases "spec i a") (auto simp: outcome_def)
  next
    case (Inr s')
    with r(2) obtain a' where a': "spec i a = Inr a'" "rel s' a'" by (cases "spec i a") (auto simp: outcome_def)
    with Cons.prems(2) have "pre_ops pre spec is a'" by simp
    from Cons.IH [OF a'(2) this] show ?thesis by (simp add: r(1) Inr a'(1))
  qed
qed

end

text \<open>
  Operations that may stop for lack of a resource: what a state uses grows by at most one
  per operation, and a step stops only if what it may ask for is lacking.
\<close>

locale op_resources = op_refinement stop rel pre step spec
  for stop :: "fault set"
    and rel :: "'s \<Rightarrow> 'a \<Rightarrow> bool"
    and pre :: "'o \<Rightarrow> 'a \<Rightarrow> bool"
    and step :: "'o \<Rightarrow> 's \<Rightarrow> 's run"
    and spec :: "'o \<Rightarrow> 'a \<Rightarrow> 'a res" +
  fixes uses :: "'s \<Rightarrow> nat \<Rightarrow> bool"
    and lacks :: "nat \<Rightarrow> bool"
  assumes stops: "rel s a \<Longrightarrow> pre i a \<Longrightarrow> uses s b \<Longrightarrow> step i s = Some (Inl f) \<Longrightarrow> lacks b"
    and grows: "rel s a \<Longrightarrow> pre i a \<Longrightarrow> uses s b \<Longrightarrow> step i s = Some (Inr s') \<Longrightarrow> uses s' (Suc b)"
    and lacks_mono: "lacks b \<Longrightarrow> b \<le> c \<Longrightarrow> lacks c"
begin

lemma run_lacks:
  assumes "rel s a" "pre_ops pre spec is a" "uses s b" "run_ops step is s = Some (Inl f)"
  shows "lacks (b + length is)"
  using assms
proof (induction "is" arbitrary: s a b)
  case (Cons i "is")
  from simulates [OF Cons.prems(1), of i] Cons.prems(2) obtain r where
    r: "step i s = Some r" "outcome stop rel r (spec i a)" by auto
  show ?case
  proof (cases r)
    case (Inl e)
    with stops [OF Cons.prems(1) _ Cons.prems(3), of i e] r(1) Cons.prems(2) have "lacks b" by simp
    then show ?thesis by (rule lacks_mono) simp
  next
    case (Inr s')
    with r(2) obtain a' where a': "spec i a = Inr a'" "rel s' a'" by (cases "spec i a") (auto simp: outcome_def)
    have "uses s' (Suc b)" using grows [OF Cons.prems(1) _ Cons.prems(3), of i s'] Cons.prems(2) r(1) Inr by simp
    with Cons.IH [OF a'(2), of "Suc b"] Cons.prems(2,4) a'(1) r(1) Inr show ?thesis by simp
  qed
qed simp

end

end
