(* ===== verification/Utlist.thy ===== *)
theory Utlist
  imports Links
begin

text \<open>
  The list macros of util/utlist.h. A macro works on a variable \<open>head\<close> and on the link fields
  of the nodes; here it is a function from their old to their new values. The macros assign
  the links in the order of the code. The loops of a macro over \<open>next\<close> do not end on a
  circular list: their value is then \<open>None\<close>.
\<close>

section \<open>Singly linked lists\<close>

text \<open>\<open>while (_tmp->next) { _tmp = _tmp->next; }\<close>\<close>

partial_function (option) ll_tail :: "(nat \<Rightarrow> ptr) \<Rightarrow> nat \<Rightarrow> nat option" where
  "ll_tail nx e = (case nx e of None \<Rightarrow> Some e | Some f \<Rightarrow> ll_tail nx f)"

text \<open>\<open>while (_tmp->next && (_tmp->next != (del))) { _tmp = _tmp->next; }\<close>\<close>

partial_function (option) ll_before :: "(nat \<Rightarrow> ptr) \<Rightarrow> nat \<Rightarrow> nat \<Rightarrow> nat option" where
  "ll_before nx del e = (case nx e of None \<Rightarrow> Some e | Some f \<Rightarrow> if f \<noteq> del then ll_before nx del f else Some e)"

type_synonym ll = "ptr \<times> (nat \<Rightarrow> ptr)"

definition LL_PREPEND :: "nat \<Rightarrow> ll \<Rightarrow> ll run" where
  "LL_PREPEND add = (\<lambda>(head, nx). Some (Inr (Some add, nx(add := head))))"

definition LL_CONCAT :: "ptr \<Rightarrow> ll \<Rightarrow> ll run" where
  "LL_CONCAT head2 = (\<lambda>(head1, nx).
     case head1 of
       None \<Rightarrow> Some (Inr (head2, nx))
     | Some h \<Rightarrow> map_option (\<lambda>t. Inr (head1, nx(t := head2))) (ll_tail nx h))"

definition LL_APPEND :: "nat \<Rightarrow> ll \<Rightarrow> ll run" where
  "LL_APPEND add = (\<lambda>(head, nx).
     let nx1 = nx(add := None)
     in case head of
          None \<Rightarrow> Some (Inr (Some add, nx1))
        | Some h \<Rightarrow> map_option (\<lambda>t. Inr (head, nx1(t := Some add))) (ll_tail nx1 h))"

definition LL_DELETE :: "nat \<Rightarrow> ll \<Rightarrow> ll run" where
  "LL_DELETE del = (\<lambda>(head, nx).
     if head = Some del then Some (Inr (nx del, nx))
     else case head of
            None \<Rightarrow> Some (Inl NullDeref)
          | Some h \<Rightarrow> map_option (\<lambda>t. Inr (head, if nx t \<noteq> None then nx(t := nx del) else nx)) (ll_before nx del h))"

definition LL_REPLACE_ELEM :: "nat \<Rightarrow> nat \<Rightarrow> ll \<Rightarrow> ll run" where
  "LL_REPLACE_ELEM el add = (\<lambda>(head, nx).
     case head of
       None \<Rightarrow> Some (Inl Aborted)
     | Some h \<Rightarrow>
         let nx1 = nx(add := nx el)
         in if h = el then Some (Inr (Some add, nx1))
            else map_option (\<lambda>t. Inr (head, if nx1 t \<noteq> None then nx1(t := Some add) else nx1)) (ll_before nx1 el h))"

definition LL_PREPEND_ELEM :: "nat \<Rightarrow> nat \<Rightarrow> ll \<Rightarrow> ll run" where
  "LL_PREPEND_ELEM el add = (\<lambda>(head, nx).
     case head of
       None \<Rightarrow> Some (Inl Aborted)
     | Some h \<Rightarrow>
         let nx1 = nx(add := Some el)
         in if h = el then Some (Inr (Some add, nx1))
            else map_option (\<lambda>t. Inr (head, if nx1 t \<noteq> None then nx1(t := Some add) else nx1)) (ll_before nx1 el h))"

text \<open>\<open>for (el = head; el; el = el->next)\<close>; the body works on the state of the client.\<close>

partial_function (option) LL_FOREACH :: "(nat \<Rightarrow> ptr) \<Rightarrow> (nat \<Rightarrow> 's \<Rightarrow> 's) \<Rightarrow> ptr \<Rightarrow> 's \<Rightarrow> 's option" where
  "LL_FOREACH nx body el s = (case el of None \<Rightarrow> Some s | Some e \<Rightarrow> LL_FOREACH nx body (nx e) (body e s))"

text \<open>The safe variant reads \<open>next\<close> before the body, which may change the links.\<close>

partial_function (option) LL_FOREACH_SAFE ::
    "('s \<Rightarrow> nat \<Rightarrow> ptr) \<Rightarrow> (nat \<Rightarrow> 's \<Rightarrow> 's) \<Rightarrow> ptr \<Rightarrow> 's \<Rightarrow> 's option" where
  "LL_FOREACH_SAFE nx body el s =
     (case el of
        None \<Rightarrow> Some s
      | Some e \<Rightarrow> (let tmp = nx s e in LL_FOREACH_SAFE nx body tmp (body e s)))"

definition LL_COUNT :: "(nat \<Rightarrow> ptr) \<Rightarrow> ptr \<Rightarrow> int option" where
  "LL_COUNT nx head = LL_FOREACH nx (\<lambda>_ counter. counter + 1) head 0"

text \<open>The loop of \<open>LL_SEARCH\<close> and \<open>LL_SEARCH_SCALAR\<close>; the comparison is a parameter.\<close>

partial_function (option) LL_SEARCH :: "(nat \<Rightarrow> ptr) \<Rightarrow> (nat \<Rightarrow> bool) \<Rightarrow> ptr \<Rightarrow> ptr option" where
  "LL_SEARCH nx eq out = (case out of None \<Rightarrow> Some None | Some e \<Rightarrow> if eq e then Some (Some e) else LL_SEARCH nx eq (nx e))"

definition LL_SEARCH_SCALAR :: "(nat \<Rightarrow> ptr) \<Rightarrow> (nat \<Rightarrow> 'a) \<Rightarrow> 'a \<Rightarrow> ptr \<Rightarrow> ptr option" where
  "LL_SEARCH_SCALAR nx field val head = LL_SEARCH nx (\<lambda>e. field e = val) head"

section \<open>Doubly linked lists\<close>

text \<open>The \<open>prev\<close> of the head is the last node, the \<open>next\<close> of the last node is null.\<close>

record dl =
  dl_head :: ptr
  dl_next :: "nat \<Rightarrow> ptr"
  dl_prev :: "nat \<Rightarrow> ptr"

definition set_next :: "nat \<Rightarrow> ptr \<Rightarrow> dl \<Rightarrow> dl" where
  "set_next e p l = l\<lparr>dl_next := (dl_next l)(e := p)\<rparr>"

definition set_prev :: "nat \<Rightarrow> ptr \<Rightarrow> dl \<Rightarrow> dl" where
  "set_prev e p l = l\<lparr>dl_prev := (dl_prev l)(e := p)\<rparr>"

definition DL_PREPEND :: "nat \<Rightarrow> dl \<Rightarrow> dl res" where
  "DL_PREPEND add l =
     (let l1 = set_next add (dl_head l) l;
          l2 = (case dl_head l of
                  Some h \<Rightarrow> set_prev h (Some add) (set_prev add (dl_prev l1 h) l1)
                | None \<Rightarrow> set_prev add (Some add) l1)
      in Inr (l2\<lparr>dl_head := Some add\<rparr>))"

definition DL_APPEND :: "nat \<Rightarrow> dl \<Rightarrow> dl res" where
  "DL_APPEND add l =
     (case dl_head l of
        Some h \<Rightarrow>
          (let l1 = set_prev add (dl_prev l h) l
           in res_bind (deref (dl_prev l1 h)) (\<lambda>t.
              Inr (set_next add None (set_prev h (Some add) (set_next t (Some add) l1)))))
      | None \<Rightarrow> Inr (set_next add None (set_prev add (Some add) (l\<lparr>dl_head := Some add\<rparr>))))"

definition DL_CONCAT :: "ptr \<Rightarrow> dl \<Rightarrow> dl res" where
  "DL_CONCAT head2 l =
     (case head2 of
        None \<Rightarrow> Inr l
      | Some h2 \<Rightarrow>
          (case dl_head l of
             Some h1 \<Rightarrow>
               (let tmp = dl_prev l h2; l1 = set_prev h2 (dl_prev l h1) l
                in res_bind (deref (dl_prev l1 h1)) (\<lambda>t. Inr (set_prev h1 tmp (set_next t (Some h2) l1))))
           | None \<Rightarrow> Inr (l\<lparr>dl_head := Some h2\<rparr>)))"

definition DL_DELETE :: "nat \<Rightarrow> dl \<Rightarrow> dl res" where
  "DL_DELETE del l =
     (case dl_prev l del of
        None \<Rightarrow> Inl Aborted
      | Some p \<Rightarrow>
          if p = del then Inr (l\<lparr>dl_head := None\<rparr>)
          else if dl_head l = Some del then
            res_bind (deref (dl_next l del)) (\<lambda>n. Inr ((set_prev n (Some p) l)\<lparr>dl_head := Some n\<rparr>))
          else
            (let l1 = set_next p (dl_next l del) l
             in case dl_next l1 del of
                  Some n \<Rightarrow> Inr (set_prev n (dl_prev l1 del) l1)
                | None \<Rightarrow> res_bind (deref (dl_head l1)) (\<lambda>h. Inr (set_prev h (dl_prev l1 del) l1))))"

definition DL_REPLACE_ELEM :: "nat \<Rightarrow> nat \<Rightarrow> dl \<Rightarrow> dl res" where
  "DL_REPLACE_ELEM el add l =
     (case dl_head l of
        None \<Rightarrow> Inl Aborted
      | Some h \<Rightarrow>
          if h = el then
            (let l1 = set_next add (dl_next l el) (l\<lparr>dl_head := Some add\<rparr>)
             in case dl_next l1 el of
                  None \<Rightarrow> Inr (set_prev add (Some add) l1)
                | Some _ \<Rightarrow>
                    (let l2 = set_prev add (dl_prev l1 el) l1
                     in res_bind (deref (dl_next l2 add)) (\<lambda>n. Inr (set_prev n (Some add) l2))))
          else
            (let l1 = set_prev add (dl_prev l el) (set_next add (dl_next l el) l)
             in res_bind (deref (dl_prev l1 add)) (\<lambda>p.
                let l2 = set_next p (Some add) l1
                in case dl_next l2 el of
                     None \<Rightarrow> Inr (set_prev h (Some add) l2)
                   | Some _ \<Rightarrow> res_bind (deref (dl_next l2 add)) (\<lambda>n. Inr (set_prev n (Some add) l2)))))"

definition DL_PREPEND_ELEM :: "nat \<Rightarrow> nat \<Rightarrow> dl \<Rightarrow> dl res" where
  "DL_PREPEND_ELEM el add l =
     (case dl_head l of
        None \<Rightarrow> Inl Aborted
      | Some h \<Rightarrow>
          let l1 = set_prev el (Some add) (set_prev add (dl_prev l el) (set_next add (Some el) l))
          in if h = el then Inr (l1\<lparr>dl_head := Some add\<rparr>)
             else res_bind (deref (dl_prev l1 add)) (\<lambda>p. Inr (set_next p (Some add) l1)))"

section \<open>Circular doubly linked lists\<close>

definition CDL_PREPEND :: "nat \<Rightarrow> dl \<Rightarrow> dl res" where
  "CDL_PREPEND add l =
     res_bind (case dl_head l of
         Some h \<Rightarrow>
           (let l1 = set_prev h (Some add) (set_next add (Some h) (set_prev add (dl_prev l h) l))
            in res_bind (deref (dl_prev l1 add)) (\<lambda>p. Inr (set_next p (Some add) l1)))
       | None \<Rightarrow> Inr (set_next add (Some add) (set_prev add (Some add) l)))
       (\<lambda>l2. Inr (l2\<lparr>dl_head := Some add\<rparr>))"

definition CDL_DELETE :: "nat \<Rightarrow> dl \<Rightarrow> dl res" where
  "CDL_DELETE del l =
     (if dl_head l = Some del \<and> dl_next l del = Some del then Inr (l\<lparr>dl_head := None\<rparr>)
      else
        res_bind (deref (dl_next l del)) (\<lambda>n.
        let l1 = set_prev n (dl_prev l del) l
        in res_bind (deref (dl_prev l1 del)) (\<lambda>p.
           let l2 = set_next p (dl_next l1 del) l1
           in Inr (if dl_head l2 = Some del then l2\<lparr>dl_head := dl_next l2 del\<rparr> else l2))))"

definition CDL_REPLACE_ELEM :: "nat \<Rightarrow> nat \<Rightarrow> dl \<Rightarrow> dl res" where
  "CDL_REPLACE_ELEM el add l =
     (if dl_head l = None then Inl Aborted
      else if dl_next l el = Some el then
        Inr ((set_prev add (Some add) (set_next add (Some add) l))\<lparr>dl_head := Some add\<rparr>)
      else
        (let l1 = set_prev add (dl_prev l el) (set_next add (dl_next l el) l)
         in res_bind (deref (dl_next l1 add)) (\<lambda>n.
            let l2 = set_prev n (Some add) l1
            in res_bind (deref (dl_prev l2 add)) (\<lambda>p.
               let l3 = set_next p (Some add) l2
               in Inr (if dl_head l3 = Some el then l3\<lparr>dl_head := Some add\<rparr> else l3)))))"

definition CDL_PREPEND_ELEM :: "nat \<Rightarrow> nat \<Rightarrow> dl \<Rightarrow> dl res" where
  "CDL_PREPEND_ELEM el add l =
     (if dl_head l = None then Inl Aborted
      else
        (let l1 = set_prev el (Some add) (set_prev add (dl_prev l el) (set_next add (Some el) l))
         in res_bind (deref (dl_prev l1 add)) (\<lambda>p.
            let l2 = set_next p (Some add) l1
            in Inr (if dl_head l2 = Some el then l2\<lparr>dl_head := Some add\<rparr> else l2))))"

text \<open>
  The loop is \<open>for (el = head; el; el = (el->next == head ? 0L : el->next))\<close>: that of the
  other lists with another step.
\<close>

definition cdl_step :: "ptr \<Rightarrow> (nat \<Rightarrow> ptr) \<Rightarrow> nat \<Rightarrow> ptr" where
  "cdl_step head nx e = (if nx e = head then None else nx e)"

definition CDL_FOREACH :: "dl \<Rightarrow> (nat \<Rightarrow> 's \<Rightarrow> 's) \<Rightarrow> 's \<Rightarrow> 's option" where
  "CDL_FOREACH l body s = LL_FOREACH (cdl_step (dl_head l) (dl_next l)) body (dl_head l) s"

definition CDL_COUNT :: "dl \<Rightarrow> int option" where
  "CDL_COUNT l = CDL_FOREACH l (\<lambda>_ counter. counter + 1) 0"

definition CDL_SEARCH :: "(nat \<Rightarrow> bool) \<Rightarrow> dl \<Rightarrow> ptr option" where
  "CDL_SEARCH eq l = LL_SEARCH (cdl_step (dl_head l) (dl_next l)) eq (dl_head l)"

end
