(* ===== verification/Utlist_Props.thy ===== *)
theory Utlist_Props
  imports Utlist
begin

text \<open>
  The list macros refine operations on lists: the nodes in order, without their links. The
  three kinds of lists have one abstract interface; they differ in what they ask of their
  arguments.
\<close>

section \<open>The abstract operations\<close>

datatype list_op = Prepend nat | Append nat | Delete nat | Replace nat nat | Insert_before nat nat

definition replace_elem :: "nat \<Rightarrow> nat \<Rightarrow> nat list \<Rightarrow> nat list" where
  "replace_elem el add xs = map (\<lambda>x. if x = el then add else x) xs"

definition insert_before :: "nat \<Rightarrow> nat \<Rightarrow> nat list \<Rightarrow> nat list" where
  "insert_before el add xs = concat (map (\<lambda>x. if x = el then [add, x] else [x]) xs)"

fun list_spec :: "list_op \<Rightarrow> nat list \<Rightarrow> nat list res" where
  "list_spec (Prepend a) xs = Inr (a # xs)"
| "list_spec (Append a) xs = Inr (xs @ [a])"
| "list_spec (Delete d) xs = (if xs = [] then Inl NullDeref else Inr (remove1 d xs))"
| "list_spec (Replace el a) xs = (if xs = [] then Inl Aborted else Inr (replace_elem el a xs))"
| "list_spec (Insert_before el a) xs = (if xs = [] then Inl Aborted else Inr (insert_before el a xs))"

lemma replace_elem_absent: "el \<notin> set xs \<Longrightarrow> replace_elem el a xs = xs"
  unfolding replace_elem_def by (rule map_idI) auto

lemma insert_before_absent: "el \<notin> set xs \<Longrightarrow> insert_before el a xs = xs"
  by (induction xs) (auto simp: insert_before_def)

lemma replace_elem_split: "distinct (xs @ el # ys) \<Longrightarrow> replace_elem el a (xs @ el # ys) = xs @ a # ys"
  using replace_elem_absent [of el xs a] replace_elem_absent [of el ys a] by (simp add: replace_elem_def)

lemma insert_before_split: "distinct (xs @ el # ys) \<Longrightarrow> insert_before el a (xs @ el # ys) = xs @ a # el # ys"
  using insert_before_absent [of el xs a] insert_before_absent [of el ys a] by (simp add: insert_before_def)

lemma remove1_split: "distinct (xs @ d # ys) \<Longrightarrow> remove1 d (xs @ d # ys) = xs @ ys"
  by (simp add: remove1_append)

section \<open>Singly linked lists\<close>

definition ll_list :: "ll \<Rightarrow> nat list \<Rightarrow> bool" where
  "ll_list l xs \<longleftrightarrow> chain (snd l) (fst l) xs None"

lemma ll_tail_last: "chain nx (Some e) (e # xs) None \<Longrightarrow> ll_tail nx e = Some (last (e # xs))"
proof (induction xs arbitrary: e)
  case Nil
  then show ?case by (subst ll_tail.simps) simp
next
  case (Cons x xs)
  then show ?case by (subst ll_tail.simps) simp
qed

lemma ll_before_at: "chain nx (Some e) (e # xs) (Some d) \<Longrightarrow> d \<notin> set xs \<Longrightarrow> ll_before nx d e = Some (last (e # xs))"
proof (induction xs arbitrary: e)
  case Nil
  then show ?case by (subst ll_before.simps) simp
next
  case (Cons x xs)
  then show ?case by (subst ll_before.simps) simp
qed

lemma ll_before_absent: "chain nx (Some e) (e # xs) None \<Longrightarrow> d \<notin> set xs \<Longrightarrow> ll_before nx d e = Some (last (e # xs))"
proof (induction xs arbitrary: e)
  case Nil
  then show ?case by (subst ll_before.simps) simp
next
  case (Cons x xs)
  then show ?case by (subst ll_before.simps) simp
qed

text \<open>The node before \<open>d\<close>, and the list on both sides.\<close>

lemma ll_before_split:
  assumes "chain nx (Some h) xs None" "h \<noteq> d" "d \<in> set xs"
  obtains as t bs where "xs = as @ t # d # bs" "ll_before nx d h = Some t" "nx t = Some d" "distinct xs"
proof -
  from assms(3) obtain us bs where us: "xs = us @ d # bs" by (meson split_list)
  have d: "distinct xs" using assms(1) by (rule chain_distinct)
  have ne: "us \<noteq> []" using us assms(1,2) by auto
  then obtain e zs where e: "us = e # zs" by (cases us) auto
  have "e = h" using assms(1) us e by simp
  with assms(1) us e have "chain nx (Some h) (h # zs) (Some d)" by simp
  from ll_before_at [OF this] have b: "ll_before nx d h = Some (last us)" using d us e \<open>e = h\<close> by auto
  have "xs = butlast us @ last us # d # bs" using us ne by simp
  moreover have "nx (last us) = Some d" using assms(1) us ne by (intro chain_last_link) auto
  ultimately show ?thesis using that b d by blast
qed

lemma ll_append_list:
  assumes "ll_list (head, nx) xs" "a \<notin> set xs"
  shows "\<exists>l. LL_APPEND a (head, nx) = Some (Inr l) \<and> ll_list l (xs @ [a])"
proof (cases xs)
  case Nil
  with assms show ?thesis by (simp add: LL_APPEND_def ll_list_def)
next
  case (Cons x ys)
  let ?nx1 = "nx(a := None)"
  have c: "chain ?nx1 (Some x) xs None" using assms Cons by (simp add: ll_list_def)
  then have "ll_tail ?nx1 x = Some (last xs)" using ll_tail_last [of ?nx1 x ys] Cons by simp
  moreover have "chain (?nx1(last xs := Some a)) (Some x) xs (Some a)"
    using c Cons chain_distinct [OF c] by (intro chain_last) auto
  moreover have "a \<noteq> last xs" using assms(2) Cons last_in_set [of xs] by auto
  moreover have "head = Some x" using assms(1) Cons by (simp add: ll_list_def)
  ultimately show ?thesis by (simp add: LL_APPEND_def ll_list_def Let_def)
qed

lemma ll_concat_list:
  assumes "ll_list (head1, nx) xs" "ll_list (head2, nx) ys" "set xs \<inter> set ys = {}"
  shows "\<exists>l. LL_CONCAT head2 (head1, nx) = Some (Inr l) \<and> ll_list l (xs @ ys)"
proof (cases xs)
  case Nil
  with assms show ?thesis by (simp add: LL_CONCAT_def ll_list_def)
next
  case (Cons x zs)
  have c: "chain nx (Some x) xs None" using assms(1) Cons by (simp add: ll_list_def)
  then have t: "ll_tail nx x = Some (last xs)" using ll_tail_last [of nx x zs] Cons by simp
  have "chain (nx(last xs := head2)) (Some x) xs head2"
    using c Cons chain_distinct [OF c] by (intro chain_last) auto
  moreover have "last xs \<notin> set ys" using assms(3) Cons last_in_set [of xs] by auto
  then have "chain (nx(last xs := head2)) head2 ys None" using assms(2) by (simp add: ll_list_def)
  moreover have "head2 = first_of ys None" using assms(2) chain_first [of nx head2 ys None] by (simp add: ll_list_def)
  moreover have "head1 = Some x" using assms(1) Cons by (simp add: ll_list_def)
  ultimately show ?thesis using t by (simp add: LL_CONCAT_def ll_list_def)
qed

lemma ll_delete_list:
  assumes "ll_list (head, nx) xs" "xs \<noteq> []"
  shows "\<exists>l. LL_DELETE d (head, nx) = Some (Inr l) \<and> ll_list l (remove1 d xs)"
proof -
  from assms obtain h ys where h: "xs = h # ys" "head = Some h" "chain nx (Some h) xs None"
    by (cases xs) (auto simp: ll_list_def)
  consider "h = d" | "h \<noteq> d" "d \<in> set xs" | "d \<notin> set xs" by auto
  then show ?thesis
  proof cases
    case 1
    with h show ?thesis by (auto simp: LL_DELETE_def ll_list_def)
  next
    case 2
    from ll_before_split [OF h(3) 2] obtain as t bs where
      s: "xs = as @ t # d # bs" "ll_before nx d h = Some t" "nx t = Some d" "distinct xs" by blast
    have c: "chain nx (Some h) (as @ [t]) (Some d)" "chain nx (nx d) bs None" using h(3) s(1) by (auto simp: first_of_def)
    have "chain (nx(t := nx d)) (Some h) (as @ [t]) (nx d)"
      using chain_last [OF _ c(1), of "nx d"] s(1,4) by simp
    moreover have "chain (nx(t := nx d)) (nx d) bs None" using c(2) s(1,4) by simp
    moreover have "remove1 d xs = as @ [t] @ bs" using remove1_split [of "as @ [t]" d bs] s(1,4) by simp
    moreover have "nx d = first_of bs None" using c(2) by (rule chain_first)
    ultimately show ?thesis using s(2,3) h(1,2) 2 by (simp add: LL_DELETE_def ll_list_def)
  next
    case 3
    then have "ll_before nx d h = Some (last xs)" using h ll_before_absent [of nx h ys d] by simp
    moreover have "nx (last xs) = None" using h(3) assms(2) by (rule chain_last_link)
    ultimately show ?thesis using h 3 by (simp add: LL_DELETE_def ll_list_def remove1_idem)
  qed
qed

lemma ll_replace_list:
  assumes "ll_list (head, nx) xs" "xs \<noteq> []" "a \<notin> set xs"
  shows "\<exists>l. LL_REPLACE_ELEM el a (head, nx) = Some (Inr l) \<and> ll_list l (replace_elem el a xs)"
proof -
  let ?nx1 = "nx(a := nx el)"
  from assms obtain h ys where h: "xs = h # ys" "head = Some h" "chain ?nx1 (Some h) xs None" "chain nx (nx h) ys None"
    by (cases xs) (auto simp: ll_list_def)
  have dist: "distinct xs" using h(3) by (rule chain_distinct)
  consider "h = el" | "h \<noteq> el" "el \<in> set xs" | "el \<notin> set xs" by auto
  then show ?thesis
  proof cases
    case 1
    have "replace_elem el a xs = a # ys" using replace_elem_split [of "[]" h ys a] 1 dist h(1) by simp
    with 1 h assms(3) show ?thesis by (simp add: LL_REPLACE_ELEM_def ll_list_def Let_def)
  next
    case 2
    from ll_before_split [OF h(3) 2] obtain as t bs where
      s: "xs = as @ t # el # bs" "ll_before ?nx1 el h = Some t" "?nx1 t = Some el" by blast
    have "el \<noteq> a" using 2 assms(3) by auto
    have c: "chain ?nx1 (Some h) (as @ [t]) (Some el)" "chain ?nx1 (nx el) bs None"
      using h(3) s(1) \<open>el \<noteq> a\<close> by (auto simp: first_of_def)
    have "chain (?nx1(t := Some a)) (Some h) (as @ [t]) (Some a)"
      using chain_last [OF _ c(1), of "Some a"] s(1) dist by simp
    moreover have "t \<notin> set (a # bs)" using s(1) dist assms(3) by auto
    then have "chain (?nx1(t := Some a)) (Some a) (a # bs) None" using c(2) by simp
    moreover have "replace_elem el a xs = as @ t # a # bs" using replace_elem_split [of "as @ [t]" el bs a] s(1) dist by simp
    ultimately show ?thesis using s(2,3) h(1,2) 2 by (simp add: LL_REPLACE_ELEM_def ll_list_def Let_def)
  next
    case 3
    then have "ll_before ?nx1 el h = Some (last xs)" using h ll_before_absent [of ?nx1 h ys el] by simp
    moreover have "?nx1 (last xs) = None" using h(3) assms(2) by (rule chain_last_link)
    ultimately show ?thesis using h 3 by (simp add: LL_REPLACE_ELEM_def ll_list_def Let_def replace_elem_absent)
  qed
qed

lemma ll_prepend_elem_list:
  assumes "ll_list (head, nx) xs" "xs \<noteq> []" "a \<notin> set xs"
  shows "\<exists>l. LL_PREPEND_ELEM el a (head, nx) = Some (Inr l) \<and> ll_list l (insert_before el a xs)"
proof -
  let ?nx1 = "nx(a := Some el)"
  from assms obtain h ys where h: "xs = h # ys" "head = Some h" "chain ?nx1 (Some h) xs None"
    by (cases xs) (auto simp: ll_list_def)
  have dist: "distinct xs" using h(3) by (rule chain_distinct)
  consider "h = el" | "h \<noteq> el" "el \<in> set xs" | "el \<notin> set xs" by auto
  then show ?thesis
  proof cases
    case 1
    have "insert_before el a xs = a # xs" using insert_before_split [of "[]" h ys a] 1 dist h(1) by simp
    with 1 h show ?thesis by (simp add: LL_PREPEND_ELEM_def ll_list_def Let_def)
  next
    case 2
    from ll_before_split [OF h(3) 2] obtain as t bs where
      s: "xs = as @ t # el # bs" "ll_before ?nx1 el h = Some t" "?nx1 t = Some el" by blast
    have c: "chain ?nx1 (Some h) (as @ [t]) (Some el)" "chain ?nx1 (Some el) (el # bs) None"
      using h(3) s(1) by (auto simp: first_of_def)
    have "chain (?nx1(t := Some a)) (Some h) (as @ [t]) (Some a)"
      using chain_last [OF _ c(1), of "Some a"] s(1) dist by simp
    moreover have "t \<notin> set (el # bs)" "t \<noteq> a" using s(1) dist assms(3) by auto
    then have "chain (?nx1(t := Some a)) (Some a) (a # el # bs) None" using c(2) by simp
    moreover have "insert_before el a xs = as @ t # a # el # bs"
      using insert_before_split [of "as @ [t]" el bs a] s(1) dist by simp
    ultimately show ?thesis using s(2,3) h(1,2) 2 by (simp add: LL_PREPEND_ELEM_def ll_list_def Let_def)
  next
    case 3
    then have "ll_before ?nx1 el h = Some (last xs)" using h ll_before_absent [of ?nx1 h ys el] by simp
    moreover have "?nx1 (last xs) = None" using h(3) assms(2) by (rule chain_last_link)
    ultimately show ?thesis using h 3 by (simp add: LL_PREPEND_ELEM_def ll_list_def Let_def insert_before_absent)
  qed
qed

text \<open>Walking over a list.\<close>

lemma foreach_chain: "chain nx p xs None \<Longrightarrow> LL_FOREACH nx body p s = Some (fold body xs s)"
proof (induction xs arbitrary: p s)
  case Nil
  then show ?case by (subst LL_FOREACH.simps) simp
next
  case (Cons x xs)
  then show ?case by (subst LL_FOREACH.simps) simp
qed

lemma search_chain: "chain nx p xs None \<Longrightarrow> LL_SEARCH nx eq p = Some (List.find eq xs)"
proof (induction xs arbitrary: p)
  case Nil
  then show ?case by (subst LL_SEARCH.simps) simp
next
  case (Cons x xs)
  then show ?case by (subst LL_SEARCH.simps) simp
qed

lemma fold_count: "fold (\<lambda>_ n. n + 1) xs (c :: int) = c + int (length xs)"
  by (induction xs arbitrary: c) simp_all

text \<open>The safe loop also walks over the list when the body changes the link of its node.\<close>

lemma foreach_safe_chain:
  assumes "chain (nx s) p xs None" "\<And>x t y. x \<in> set xs \<Longrightarrow> y \<noteq> x \<Longrightarrow> nx (body x t) y = nx t y"
  shows "LL_FOREACH_SAFE nx body p s = Some (fold body xs s)"
  using assms
proof (induction xs arbitrary: p s)
  case Nil
  then show ?case by (subst LL_FOREACH_SAFE.simps) simp
next
  case (Cons x xs)
  have "x \<notin> set xs" using chain_distinct [OF Cons.prems(1)] by simp
  then have "chain (nx (body x s)) (nx s x) xs None = chain (nx s) (nx s x) xs None"
    by (intro chain_frame Cons.prems(2)) auto
  with Cons.prems have "LL_FOREACH_SAFE nx body (nx s x) (body x s) = Some (fold body xs (body x s))"
    by (intro Cons.IH) auto
  with Cons.prems(1) show ?case by (subst LL_FOREACH_SAFE.simps) simp
qed

text \<open>The operations as one step.\<close>

fun ll_step :: "list_op \<Rightarrow> ll \<Rightarrow> ll run" where
  "ll_step (Prepend a) = LL_PREPEND a"
| "ll_step (Append a) = LL_APPEND a"
| "ll_step (Delete d) = LL_DELETE d"
| "ll_step (Replace el a) = LL_REPLACE_ELEM el a"
| "ll_step (Insert_before el a) = LL_PREPEND_ELEM el a"

text \<open>A node that is added is not in the list yet.\<close>

fun ll_pre :: "list_op \<Rightarrow> nat list \<Rightarrow> bool" where
  "ll_pre (Prepend a) xs = (a \<notin> set xs)"
| "ll_pre (Append a) xs = (a \<notin> set xs)"
| "ll_pre (Delete d) xs = True"
| "ll_pre (Replace el a) xs = (a \<notin> set xs)"
| "ll_pre (Insert_before el a) xs = (a \<notin> set xs)"

lemma ll_list_Nil: "ll_list (head, nx) [] \<longleftrightarrow> head = None"
  by (auto simp: ll_list_def)

lemma ll_step_list:
  assumes l: "ll_list l xs" and pre: "ll_pre i xs"
  shows "\<exists>r. ll_step i l = Some r \<and> rel_sum (=) ll_list r (list_spec i xs)"
proof -
  obtain head nx where l': "l = (head, nx)" by (cases l)
  have ok: "\<exists>r. Q = Some r \<and> rel_sum (=) ll_list r (Inr ys)" if "\<exists>m. Q = Some (Inr m) \<and> ll_list m ys" for Q ys
    using that by auto
  show ?thesis
  proof (cases i)
    case (Prepend a)
    with assms l' show ?thesis by (simp add: LL_PREPEND_def ll_list_def)
  next
    case (Append a)
    with ll_append_list [of head nx xs a] assms l' show ?thesis by (simp add: ok)
  next
    case (Delete d)
    with ll_delete_list [of head nx xs d] l l' show ?thesis
      by (cases "xs = []") (auto simp: ll_list_Nil LL_DELETE_def intro: ok)
  next
    case (Replace el a)
    with ll_replace_list [of head nx xs a el] assms l' show ?thesis
      by (cases "xs = []") (auto simp: ll_list_Nil LL_REPLACE_ELEM_def intro: ok)
  next
    case (Insert_before el a)
    with ll_prepend_elem_list [of head nx xs a el] assms l' show ?thesis
      by (cases "xs = []") (auto simp: ll_list_Nil LL_PREPEND_ELEM_def intro: ok)
  qed
qed

interpretation ll: op_refinement "{}" ll_list ll_pre ll_step list_spec
  by unfold_locales (simp add: ll_step_list)

section \<open>Doubly linked lists\<close>

definition dl_list :: "dl \<Rightarrow> nat list \<Rightarrow> bool" where
  "dl_list l xs \<longleftrightarrow> chain (dl_next l) (dl_head l) xs None \<and> backs_to (dl_prev l) (last_of None xs) xs"

lemma set_link_fields [simp]:
  "dl_head (set_next e p l) = dl_head l" "dl_next (set_next e p l) = (dl_next l)(e := p)" "dl_prev (set_next e p l) = dl_prev l"
  "dl_head (set_prev e p l) = dl_head l" "dl_next (set_prev e p l) = dl_next l" "dl_prev (set_prev e p l) = (dl_prev l)(e := p)"
  by (simp_all add: set_next_def set_prev_def)

lemma dl_distinct: "dl_list l xs \<Longrightarrow> distinct xs"
  using chain_distinct by (auto simp: dl_list_def)

lemma dl_prepend_list:
  assumes "dl_list l xs" "a \<notin> set xs"
  shows "\<exists>l'. DL_PREPEND a l = Inr l' \<and> dl_list l' (a # xs)"
  using assms dl_distinct [OF assms(1)] by (cases xs) (auto simp: DL_PREPEND_def dl_list_def Let_def)

lemma dl_append_list:
  assumes "dl_list l xs" "a \<notin> set xs"
  shows "\<exists>l'. DL_APPEND a l = Inr l' \<and> dl_list l' (xs @ [a])"
  using assms dl_distinct [OF assms(1)]
proof (cases xs rule: rev_cases)
  case (snoc ys t)
  with assms dl_distinct [OF assms(1)] show ?thesis
    by (cases ys) (auto simp: DL_APPEND_def dl_list_def Let_def)
qed (auto simp: DL_APPEND_def dl_list_def)

lemma dl_delete_list:
  assumes "dl_list l xs" "d \<in> set xs"
  shows "\<exists>l'. DL_DELETE d l = Inr l' \<and> dl_list l' (remove1 d xs)"
proof -
  from assms(2) obtain as bs where xs: "xs = as @ d # bs" by (meson split_list)
  have dist: "distinct xs" by (rule dl_distinct [OF assms(1)])
  then have r: "remove1 d xs = as @ bs" unfolding xs by (rule remove1_split)
  consider "as = []" "bs = []" | n bs' where "as = []" "bs = n # bs'"
    | as' t where "as = as' @ [t]" "bs = []" | as' t n bs' where "as = as' @ [t]" "bs = n # bs'"
    by (metis neq_Nil_conv rev_exhaust)
  then show ?thesis
  proof cases
    case 3
    with assms(1) dist r xs show ?thesis by (cases as') (auto simp: DL_DELETE_def dl_list_def Let_def)
  next
    case 4
    with assms(1) dist r xs show ?thesis by (cases as') (auto simp: DL_DELETE_def dl_list_def Let_def)
  qed (use assms(1) dist r xs in \<open>auto simp: DL_DELETE_def dl_list_def Let_def last_of_def split: if_splits\<close>)
qed

lemma dl_replace_list:
  assumes "dl_list l xs" "el \<in> set xs" "a \<notin> set xs"
  shows "\<exists>l'. DL_REPLACE_ELEM el a l = Inr l' \<and> dl_list l' (replace_elem el a xs)"
proof -
  from assms(2) obtain as bs where xs: "xs = as @ el # bs" by (meson split_list)
  have dist: "distinct xs" by (rule dl_distinct [OF assms(1)])
  then have r: "replace_elem el a xs = as @ a # bs" unfolding xs by (rule replace_elem_split)
  consider "as = []" "bs = []" | n bs' where "as = []" "bs = n # bs'"
    | as' t where "as = as' @ [t]" "bs = []" | as' t n bs' where "as = as' @ [t]" "bs = n # bs'"
    by (metis neq_Nil_conv rev_exhaust)
  then show ?thesis
  proof cases
    case 3
    with assms(1,3) dist r xs show ?thesis by (cases as') (auto simp: DL_REPLACE_ELEM_def dl_list_def Let_def)
  next
    case 4
    with assms(1,3) dist r xs show ?thesis by (cases as') (auto simp: DL_REPLACE_ELEM_def dl_list_def Let_def)
  qed (use assms(1,3) dist r xs in \<open>auto simp: DL_REPLACE_ELEM_def dl_list_def Let_def last_of_def split: if_splits\<close>)
qed

lemma dl_prepend_elem_list:
  assumes "dl_list l xs" "el \<in> set xs" "a \<notin> set xs"
  shows "\<exists>l'. DL_PREPEND_ELEM el a l = Inr l' \<and> dl_list l' (insert_before el a xs)"
proof -
  from assms(2) obtain as bs where xs: "xs = as @ el # bs" by (meson split_list)
  have dist: "distinct xs" by (rule dl_distinct [OF assms(1)])
  then have r: "insert_before el a xs = as @ a # el # bs" unfolding xs by (rule insert_before_split)
  show ?thesis
  proof (cases as rule: rev_cases)
    case Nil
    with assms(1,3) dist r xs show ?thesis by (auto simp: DL_PREPEND_ELEM_def dl_list_def Let_def)
  next
    case (snoc as' t)
    with assms(1,3) dist r xs show ?thesis by (cases as') (auto simp: DL_PREPEND_ELEM_def dl_list_def Let_def)
  qed
qed

lemma dl_concat_list:
  assumes "dl_list l xs" "dl_list (l\<lparr>dl_head := head2\<rparr>) ys" "set xs \<inter> set ys = {}"
  shows "\<exists>l'. DL_CONCAT head2 l = Inr l' \<and> dl_list l' (xs @ ys)"
proof -
  consider "ys = []" | "xs = []" "ys \<noteq> []" | xs' t h ys' where "xs = xs' @ [t]" "ys = h # ys'"
    by (metis neq_Nil_conv rev_exhaust)
  then show ?thesis
  proof cases
    case 3
    with assms dl_distinct [OF assms(1)] dl_distinct [OF assms(2)] show ?thesis
      by (cases xs') (auto simp: DL_CONCAT_def dl_list_def Let_def)
  next
    case 2
    then obtain h ys' where "ys = h # ys'" by (cases ys) auto
    with 2 assms show ?thesis by (auto simp: DL_CONCAT_def dl_list_def)
  qed (use assms in \<open>auto simp: DL_CONCAT_def dl_list_def\<close>)
qed

fun dl_step :: "list_op \<Rightarrow> dl \<Rightarrow> dl run" where
  "dl_step (Prepend a) l = Some (DL_PREPEND a l)"
| "dl_step (Append a) l = Some (DL_APPEND a l)"
| "dl_step (Delete d) l = Some (DL_DELETE d l)"
| "dl_step (Replace el a) l = Some (DL_REPLACE_ELEM el a l)"
| "dl_step (Insert_before el a) l = Some (DL_PREPEND_ELEM el a l)"

text \<open>Here the node that is deleted or replaced must be in the list: the macros do not search.\<close>

fun dl_pre :: "list_op \<Rightarrow> nat list \<Rightarrow> bool" where
  "dl_pre (Prepend a) xs = (a \<notin> set xs)"
| "dl_pre (Append a) xs = (a \<notin> set xs)"
| "dl_pre (Delete d) xs = (d \<in> set xs)"
| "dl_pre (Replace el a) xs = ((xs = [] \<or> el \<in> set xs) \<and> a \<notin> set xs)"
| "dl_pre (Insert_before el a) xs = ((xs = [] \<or> el \<in> set xs) \<and> a \<notin> set xs)"

lemma rel_sum_Inr: "\<exists>l. r = Inr l \<and> R l ys \<Longrightarrow> rel_sum (=) R r (Inr ys)"
  by auto

lemma dl_step_list:
  assumes "dl_list l xs" "dl_pre i xs"
  shows "\<exists>r. dl_step i l = Some r \<and> rel_sum (=) dl_list r (list_spec i xs)"
proof (cases i)
  case (Prepend a)
  with dl_prepend_list [OF assms(1), of a] assms(2) show ?thesis by (simp add: rel_sum_Inr)
next
  case (Append a)
  with dl_append_list [OF assms(1), of a] assms(2) show ?thesis by (simp add: rel_sum_Inr)
next
  case (Delete d)
  with dl_delete_list [OF assms(1), of d] assms(2) show ?thesis by (auto intro: rel_sum_Inr)
next
  case (Replace el a)
  with dl_replace_list [OF assms(1), of el a] assms show ?thesis
    by (cases "xs = []") (auto simp: DL_REPLACE_ELEM_def dl_list_def intro: rel_sum_Inr)
next
  case (Insert_before el a)
  with dl_prepend_elem_list [OF assms(1), of el a] assms show ?thesis
    by (cases "xs = []") (auto simp: DL_PREPEND_ELEM_def dl_list_def intro: rel_sum_Inr)
qed

interpretation dl: op_refinement "{}" dl_list dl_pre dl_step list_spec
  by unfold_locales (simp add: dl_step_list)

section \<open>Circular lists\<close>

definition cdl_list :: "dl \<Rightarrow> nat list \<Rightarrow> bool" where
  "cdl_list l xs \<longleftrightarrow> distinct xs \<and> dl_head l = first_of xs None \<and> chain (dl_next l) (dl_head l) xs (dl_head l) \<and>
     backs_to (dl_prev l) (last_of None xs) xs"

lemma cdl_prepend_list:
  assumes "cdl_list l xs" "a \<notin> set xs"
  shows "\<exists>l'. CDL_PREPEND a l = Inr l' \<and> cdl_list l' (a # xs)"
proof (cases xs rule: rev_cases)
  case (snoc ys t)
  with assms show ?thesis by (cases ys) (auto simp: CDL_PREPEND_def cdl_list_def Let_def)
qed (use assms in \<open>auto simp: CDL_PREPEND_def cdl_list_def\<close>)

lemma cdl_delete_list:
  assumes "cdl_list l xs" "d \<in> set xs"
  shows "\<exists>l'. CDL_DELETE d l = Inr l' \<and> cdl_list l' (remove1 d xs)"
proof -
  from assms(2) obtain as bs where xs: "xs = as @ d # bs" by (meson split_list)
  have dist: "distinct xs" using assms(1) by (simp add: cdl_list_def)
  then have r: "remove1 d xs = as @ bs" unfolding xs by (rule remove1_split)
  consider "as = []" "bs = []" | n bs' where "as = []" "bs = n # bs'"
    | as' t where "as = as' @ [t]" "bs = []" | as' t n bs' where "as = as' @ [t]" "bs = n # bs'"
    by (metis neq_Nil_conv rev_exhaust)
  then show ?thesis
  proof cases
    case 2
    with assms(1) dist r xs show ?thesis
      by (cases bs' rule: rev_cases) (auto simp: CDL_DELETE_def cdl_list_def Let_def)
  next
    case 3
    with assms(1) dist r xs show ?thesis by (cases as') (auto simp: CDL_DELETE_def cdl_list_def Let_def)
  next
    case 4
    with assms(1) dist r xs show ?thesis
      by (cases as'; cases bs' rule: rev_cases) (auto simp: CDL_DELETE_def cdl_list_def Let_def)
  qed (use assms(1) dist r xs in \<open>auto simp: CDL_DELETE_def cdl_list_def Let_def\<close>)
qed

lemma cdl_replace_list:
  assumes "cdl_list l xs" "el \<in> set xs" "a \<notin> set xs"
  shows "\<exists>l'. CDL_REPLACE_ELEM el a l = Inr l' \<and> cdl_list l' (replace_elem el a xs)"
proof -
  from assms(2) obtain as bs where xs: "xs = as @ el # bs" by (meson split_list)
  have dist: "distinct xs" using assms(1) by (simp add: cdl_list_def)
  then have r: "replace_elem el a xs = as @ a # bs" unfolding xs by (rule replace_elem_split)
  consider "as = []" "bs = []" | n bs' where "as = []" "bs = n # bs'"
    | as' t where "as = as' @ [t]" "bs = []" | as' t n bs' where "as = as' @ [t]" "bs = n # bs'"
    by (metis neq_Nil_conv rev_exhaust)
  then show ?thesis
  proof cases
    case 2
    with assms(1,3) dist r xs show ?thesis
      by (cases bs' rule: rev_cases) (auto simp: CDL_REPLACE_ELEM_def cdl_list_def Let_def)
  next
    case 3
    with assms(1,3) dist r xs show ?thesis by (cases as') (auto simp: CDL_REPLACE_ELEM_def cdl_list_def Let_def)
  next
    case 4
    with assms(1,3) dist r xs show ?thesis
      by (cases as'; cases bs' rule: rev_cases) (auto simp: CDL_REPLACE_ELEM_def cdl_list_def Let_def)
  qed (use assms(1,3) dist r xs in \<open>auto simp: CDL_REPLACE_ELEM_def cdl_list_def Let_def\<close>)
qed

lemma cdl_prepend_elem_list:
  assumes "cdl_list l xs" "el \<in> set xs" "a \<notin> set xs"
  shows "\<exists>l'. CDL_PREPEND_ELEM el a l = Inr l' \<and> cdl_list l' (insert_before el a xs)"
proof -
  from assms(2) obtain as bs where xs: "xs = as @ el # bs" by (meson split_list)
  have dist: "distinct xs" using assms(1) by (simp add: cdl_list_def)
  then have r: "insert_before el a xs = as @ a # el # bs" unfolding xs by (rule insert_before_split)
  show ?thesis
  proof (cases as rule: rev_cases)
    case Nil
    with assms(1,3) dist r xs show ?thesis
      by (cases bs rule: rev_cases) (auto simp: CDL_PREPEND_ELEM_def cdl_list_def Let_def)
  next
    case (snoc as' t)
    with assms(1,3) dist r xs show ?thesis
      by (cases as'; cases bs rule: rev_cases) (auto simp: CDL_PREPEND_ELEM_def cdl_list_def Let_def)
  qed
qed

fun cdl_step_op :: "list_op \<Rightarrow> dl \<Rightarrow> dl run" where
  "cdl_step_op (Prepend a) l = Some (CDL_PREPEND a l)"
| "cdl_step_op (Append a) l = None"
| "cdl_step_op (Delete d) l = Some (CDL_DELETE d l)"
| "cdl_step_op (Replace el a) l = Some (CDL_REPLACE_ELEM el a l)"
| "cdl_step_op (Insert_before el a) l = Some (CDL_PREPEND_ELEM el a l)"

text \<open>There is no macro that appends to a circular list.\<close>

definition cdl_pre :: "list_op \<Rightarrow> nat list \<Rightarrow> bool" where
  "cdl_pre i xs \<longleftrightarrow> dl_pre i xs \<and> (\<forall>a. i \<noteq> Append a)"

lemma cdl_step_list:
  assumes "cdl_list l xs" "cdl_pre i xs"
  shows "\<exists>r. cdl_step_op i l = Some r \<and> rel_sum (=) cdl_list r (list_spec i xs)"
proof (cases i)
  case (Prepend a)
  with cdl_prepend_list [OF assms(1), of a] assms(2) show ?thesis by (simp add: cdl_pre_def rel_sum_Inr)
next
  case (Append a)
  with assms(2) show ?thesis by (simp add: cdl_pre_def)
next
  case (Delete d)
  with cdl_delete_list [OF assms(1), of d] assms(2) show ?thesis by (auto simp: cdl_pre_def intro: rel_sum_Inr)
next
  case (Replace el a)
  show ?thesis
  proof (cases "xs = []")
    case True
    with assms(1) Replace show ?thesis by (simp add: CDL_REPLACE_ELEM_def cdl_list_def)
  next
    case False
    with cdl_replace_list [OF assms(1), of el a] assms(2) Replace show ?thesis by (auto simp: cdl_pre_def intro: rel_sum_Inr)
  qed
next
  case (Insert_before el a)
  show ?thesis
  proof (cases "xs = []")
    case True
    with assms(1) Insert_before show ?thesis by (simp add: CDL_PREPEND_ELEM_def cdl_list_def)
  next
    case False
    with cdl_prepend_elem_list [OF assms(1), of el a] assms(2) Insert_before show ?thesis by (auto simp: cdl_pre_def intro: rel_sum_Inr)
  qed
qed

interpretation cdl: op_refinement "{}" cdl_list cdl_pre cdl_step_op list_spec
  by unfold_locales (simp add: cdl_step_list)

text \<open>The step of the loops over a circular list follows a chain that ends.\<close>

lemma cdl_chain:
  assumes "cdl_list l xs"
  shows "chain (cdl_step (dl_head l) (dl_next l)) (dl_head l) xs None"
proof -
  have "chain (cdl_step h nx) (Some y) ys None"
    if "chain nx (Some y) ys h" "ys \<noteq> []" "h \<notin> Some ` set (tl ys)" for h nx y ys
    using that
  proof (induction ys arbitrary: y)
    case (Cons z zs)
    show ?case
    proof (cases zs)
      case Nil
      with Cons.prems show ?thesis by (simp add: cdl_step_def)
    next
      case (Cons u us)
      with Cons.prems have "chain nx (Some u) zs h" "nx z = Some u" "h \<noteq> Some u" "h \<notin> Some ` set (tl zs)" by auto
      with Cons.IH [of u] Cons Cons.prems(1) show ?thesis by (simp add: cdl_step_def)
    qed
  qed simp
  note walk = this
  show ?thesis
  proof (cases xs)
    case (Cons x ys)
    with assms have "chain (dl_next l) (Some x) xs (dl_head l)" "xs \<noteq> []" "dl_head l \<notin> Some ` set (tl xs)" "dl_head l = Some x"
      by (auto simp: cdl_list_def)
    from walk [OF this(1-3)] this(4) show ?thesis by simp
  qed (use assms in \<open>simp add: cdl_list_def\<close>)
qed

end
