(* ===== verification/Utlist_Sort.thy ===== *)
theory Utlist_Sort
  imports Utlist_Props "HOL-Library.Multiset"
begin

text \<open>
  The merge sort of util/utlist.h and util/uthash.h, bottom up and in place: \<open>LL_SORT2\<close>,
  \<open>DL_SORT2\<close>, \<open>CDL_SORT2\<close> and \<open>HASH_SRT\<close> have the same loops and differ in the links back and
  in what is done at the end of a pass. It is refined to a merge sort on lists, which is
  the stable \<open>sort_key\<close>.
\<close>

section \<open>The loops\<close>

datatype list_kind = K_ll | K_dl | K_cdl | K_hh

text \<open>The next element; the last one of a circular list is the one before the old head.\<close>

definition sort_next :: "list_kind \<Rightarrow> ptr \<Rightarrow> (nat \<Rightarrow> ptr) \<Rightarrow> nat \<Rightarrow> ptr" where
  "sort_next kind oldhead nx e = (if kind = K_cdl \<and> nx e = oldhead then None else nx e)"

text \<open>Stepping \<open>insize\<close> places along from \<open>p\<close>: \<open>psize\<close> and \<open>q\<close>.\<close>

fun sort_skip :: "(nat \<Rightarrow> ptr) \<Rightarrow> nat \<Rightarrow> ptr \<Rightarrow> nat \<Rightarrow> (nat \<times> ptr) res" where
  "sort_skip nx 0 q psize = Inr (psize, q)"
| "sort_skip nx (Suc i) q psize =
     res_bind (deref q) (\<lambda>e. if nx e = None then Inr (psize + 1, None) else sort_skip nx i (nx e) (psize + 1))"

text \<open>An element is appended to what has been sorted so far.\<close>

definition sort_link :: "list_kind \<Rightarrow> nat \<Rightarrow> ptr \<Rightarrow> dl \<Rightarrow> dl" where
  "sort_link kind e tail l =
     (let l1 = (case tail of Some t \<Rightarrow> set_next t (Some e) l | None \<Rightarrow> l\<lparr>dl_head := Some e\<rparr>)
      in if kind = K_ll then l1 else set_prev e tail l1)"

text \<open>Merging the runs at \<open>p\<close> and \<open>q\<close>: the first branch takes from \<open>q\<close>, the second from \<open>p\<close>.\<close>

fun sort_merge :: "list_kind \<Rightarrow> (nat \<Rightarrow> nat \<Rightarrow> int) \<Rightarrow> ptr \<Rightarrow> ptr \<Rightarrow> nat \<Rightarrow> ptr \<Rightarrow> nat \<Rightarrow> dl \<Rightarrow> ptr \<Rightarrow>
    (dl \<times> ptr \<times> ptr) res" where
  "sort_merge kind cmp oldhead p psize q qsize l tail =
     (if \<not> (psize > 0 \<or> (qsize > 0 \<and> q \<noteq> None)) then Inr (l, q, tail)
      else if psize = 0 \<or> \<not> (qsize = 0 \<or> q = None) \<and> \<not> cmp (the p) (the q) \<le> 0 then
        res_bind (deref q) (\<lambda>e.
          sort_merge kind cmp oldhead p psize (sort_next kind oldhead (dl_next l) e) (qsize - 1) (sort_link kind e tail l) (Some e))
      else
        res_bind (deref p) (\<lambda>e.
          sort_merge kind cmp oldhead (sort_next kind oldhead (dl_next l) e) (psize - 1) q qsize (sort_link kind e tail l) (Some e)))"

declare sort_merge.simps [simp del]

text \<open>One pass over the list: the number of merges is counted.\<close>

partial_function (option) sort_pass :: "list_kind \<Rightarrow> (nat \<Rightarrow> nat \<Rightarrow> int) \<Rightarrow> nat \<Rightarrow> ptr \<Rightarrow> ptr \<Rightarrow> dl \<Rightarrow> ptr \<Rightarrow> nat \<Rightarrow>
    (dl \<times> ptr \<times> nat) run" where
  "sort_pass kind cmp insize oldhead p l tail nmerges =
     (if p = None then Some (Inr (l, tail, nmerges))
      else case res_bind (sort_skip (sort_next kind oldhead (dl_next l)) insize p 0) (\<lambda>(psize, q).
             sort_merge kind cmp oldhead p psize q insize l tail) of
             Inl e \<Rightarrow> Some (Inl e)
           | Inr (l1, q1, tail1) \<Rightarrow> sort_pass kind cmp insize oldhead q1 l1 tail1 (nmerges + 1))"

text \<open>The links at the two ends after a pass.\<close>

fun sort_close :: "list_kind \<Rightarrow> ptr \<Rightarrow> dl \<Rightarrow> dl res" where
  "sort_close K_ll tail l = Inr (case tail of Some t \<Rightarrow> set_next t None l | None \<Rightarrow> l)"
| "sort_close K_hh tail l = Inr (case tail of Some t \<Rightarrow> set_next t None l | None \<Rightarrow> l)"
| "sort_close K_dl tail l =
     res_bind (deref (dl_head l)) (\<lambda>h. res_bind (deref tail) (\<lambda>t. Inr (set_next t None (set_prev h tail l))))"
| "sort_close K_cdl tail l =
     res_bind (deref (dl_head l)) (\<lambda>h. res_bind (deref tail) (\<lambda>t. Inr (set_next t (dl_head l) (set_prev h tail l))))"

text \<open>\<open>insize\<close> is a signed \<open>int\<close> in utlist.h and an \<open>unsigned\<close> in uthash.h.\<close>

definition sort_double :: "list_kind \<Rightarrow> nat \<Rightarrow> nat res" where
  "sort_double kind insize =
     (if kind = K_hh then Inr (insize * 2 mod 2 ^ 32)
      else if insize * 2 < 2 ^ 31 then Inr (insize * 2) else Inl IntOverflow)"

partial_function (option) sort_loop :: "list_kind \<Rightarrow> (nat \<Rightarrow> nat \<Rightarrow> int) \<Rightarrow> nat \<Rightarrow> dl \<Rightarrow> (dl \<times> ptr) run" where
  "sort_loop kind cmp insize l =
     (case sort_pass kind cmp insize (dl_head l) (dl_head l) (l\<lparr>dl_head := None\<rparr>) None 0 of
        None \<Rightarrow> None
      | Some r \<Rightarrow>
          (case res_bind r (\<lambda>(l1, tail, nmerges). res_bind (sort_close kind tail l1) (\<lambda>l2.
                 res_bind (sort_double kind insize) (\<lambda>insize2. Inr (l2, tail, nmerges, insize2)))) of
             Inl e \<Rightarrow> Some (Inl e)
           | Inr (l2, tail, nmerges, insize2) \<Rightarrow>
               if nmerges \<le> 1 then Some (Inr (l2, tail)) else sort_loop kind cmp insize2 l2))"

definition LL_SORT :: "(nat \<Rightarrow> nat \<Rightarrow> int) \<Rightarrow> dl \<Rightarrow> dl run" where
  "LL_SORT cmp l = (if dl_head l = None then Some (Inr l) else map_option (map_sum id fst) (sort_loop K_ll cmp 1 l))"

definition DL_SORT :: "(nat \<Rightarrow> nat \<Rightarrow> int) \<Rightarrow> dl \<Rightarrow> dl run" where
  "DL_SORT cmp l = (if dl_head l = None then Some (Inr l) else map_option (map_sum id fst) (sort_loop K_dl cmp 1 l))"

definition CDL_SORT :: "(nat \<Rightarrow> nat \<Rightarrow> int) \<Rightarrow> dl \<Rightarrow> dl run" where
  "CDL_SORT cmp l = (if dl_head l = None then Some (Inr l) else map_option (map_sum id fst) (sort_loop K_cdl cmp 1 l))"

section \<open>The sort on lists\<close>

fun merge_lists :: "(nat \<Rightarrow> nat \<Rightarrow> int) \<Rightarrow> nat list \<Rightarrow> nat list \<Rightarrow> nat list" where
  "merge_lists cmp [] ys = ys"
| "merge_lists cmp (x # xs) [] = x # xs"
| "merge_lists cmp (x # xs) (y # ys) =
     (if cmp x y \<le> 0 then x # merge_lists cmp xs (y # ys) else y # merge_lists cmp (x # xs) ys)"

function pass_list :: "(nat \<Rightarrow> nat \<Rightarrow> int) \<Rightarrow> nat \<Rightarrow> nat list \<Rightarrow> nat list" where
  "pass_list cmp k xs =
     (if xs = [] \<or> k = 0 then xs
      else merge_lists cmp (take k xs) (take k (drop k xs)) @ pass_list cmp k (drop k (drop k xs)))"
  by auto

termination
  by (relation "measure (\<lambda>(cmp, k, xs). length xs)") auto

declare pass_list.simps [simp del]

lemma mset_merge [simp]: "mset (merge_lists cmp xs ys) = mset xs + mset ys"
  by (induction cmp xs ys rule: merge_lists.induct) auto

lemma mset_pass [simp]: "mset (pass_list cmp k xs) = mset xs"
proof (induction cmp k xs rule: pass_list.induct)
  case (1 cmp k xs)
  show ?case
  proof (cases "xs = [] \<or> k = 0")
    case False
    have "mset (take k xs) + mset (take k (drop k xs)) + mset (drop k (drop k xs)) = mset (take k xs @ take k (drop k xs) @ drop k (drop k xs))"
      by (simp only: mset_append) simp
    also have "take k xs @ take k (drop k xs) @ drop k (drop k xs) = xs" by (simp only: append_take_drop_id)
    finally show ?thesis using 1 [OF False] False by (subst pass_list.simps) simp
  qed (subst pass_list.simps, simp)
qed

lemma length_merge [simp]: "length (merge_lists cmp xs ys) = length xs + length ys"
  by (induction cmp xs ys rule: merge_lists.induct) auto

lemma length_pass [simp]: "length (pass_list cmp k xs) = length xs"
  by (rule mset_eq_length) simp

text \<open>Runs of \<open>k\<close> that are sorted by a key; a pass doubles \<open>k\<close>.\<close>

function sorted_runs :: "(nat \<Rightarrow> 'k::linorder) \<Rightarrow> nat \<Rightarrow> nat list \<Rightarrow> bool" where
  "sorted_runs f k xs =
     (if xs = [] \<or> k = 0 then True else sorted (map f (take k xs)) \<and> sorted_runs f k (drop k xs))"
  by auto

termination
  by (relation "measure (\<lambda>(f, k, xs). length xs)") auto

declare sorted_runs.simps [simp del]

definition cmp_by :: "(nat \<Rightarrow> nat \<Rightarrow> int) \<Rightarrow> (nat \<Rightarrow> 'k::linorder) \<Rightarrow> bool" where
  "cmp_by cmp f \<longleftrightarrow> (\<forall>a b. cmp a b \<le> 0 \<longleftrightarrow> f a \<le> f b)"

lemma set_merge [simp]: "set (merge_lists cmp xs ys) = set xs \<union> set ys"
  by (induction cmp xs ys rule: merge_lists.induct) auto

lemma sorted_merge:
  assumes "cmp_by cmp f" "sorted (map f xs)" "sorted (map f ys)"
  shows "sorted (map f (merge_lists cmp xs ys))"
  using assms
proof (induction cmp xs ys rule: merge_lists.induct)
  case (3 cmp x xs y ys)
  show ?case
  proof (cases "cmp x y \<le> 0")
    case True
    with 3(3) have "f x \<le> f y" by (simp add: cmp_by_def)
    with True 3 show ?thesis by auto
  next
    case False
    with 3(3) have "f y \<le> f x" by (auto simp: cmp_by_def)
    with False 3 show ?thesis by auto
  qed
qed simp_all

lemma filter_merge:
  assumes "cmp_by cmp f" "sorted (map f xs)" "sorted (map f ys)"
  shows "filter (\<lambda>x. f x = c) (merge_lists cmp xs ys) = filter (\<lambda>x. f x = c) xs @ filter (\<lambda>x. f x = c) ys"
  using assms
proof (induction cmp xs ys rule: merge_lists.induct)
  case (3 cmp x xs y ys)
  show ?case
  proof (cases "cmp x y \<le> 0")
    case True
    with 3 show ?thesis by simp
  next
    case False
    with 3(3) have lt: "f y < f x" by (auto simp: cmp_by_def not_le)
    have "f y = c \<longrightarrow> filter (\<lambda>x. f x = c) (x # xs) = []" using 3(4) lt by (auto simp: filter_empty_conv)
    with False 3 show ?thesis by auto
  qed
qed simp_all

lemma filter_pass:
  assumes "cmp_by cmp f" "sorted_runs f k xs"
  shows "filter (\<lambda>x. f x = c) (pass_list cmp k xs) = filter (\<lambda>x. f x = c) xs"
  using assms
proof (induction cmp k xs rule: pass_list.induct)
  case (1 cmp k xs)
  show ?case
  proof (cases "xs = [] \<or> k = 0")
    case False
    have s: "sorted (map f (take k xs))" "sorted_runs f k (drop k xs)"
      using 1(3) False by (subst (asm) sorted_runs.simps, simp)+
    have t: "sorted (map f (take k (drop k xs)))" "sorted_runs f k (drop k (drop k xs))"
      using s(2) False by (cases "drop k xs = []"; subst (asm) sorted_runs.simps; simp add: sorted_runs.simps)+
    have "xs = take k xs @ take k (drop k xs) @ drop k (drop k xs)" by (simp only: append_take_drop_id)
    then have "filter (\<lambda>x. f x = c) xs = filter (\<lambda>x. f x = c) (take k xs) @ filter (\<lambda>x. f x = c) (take k (drop k xs)) @
      filter (\<lambda>x. f x = c) (drop k (drop k xs))" by (metis filter_append)
    with 1 False s t filter_merge [OF 1(2) s(1) t(1)] show ?thesis by (subst pass_list.simps) simp
  qed (subst pass_list.simps, simp)
qed

lemma runs_append:
  assumes "0 < k" "length xs = k" "sorted (map f xs)" "sorted_runs f k ys"
  shows "sorted_runs f k (xs @ ys)"
  using assms by (subst sorted_runs.simps) auto

lemma sorted_runs_short: "length xs \<le> k \<Longrightarrow> sorted (map f xs) \<Longrightarrow> sorted_runs f k xs"
  by (subst sorted_runs.simps) (simp add: sorted_runs.simps)

lemma runs_pass:
  assumes "cmp_by cmp f" "sorted_runs f k xs" "0 < k"
  shows "sorted_runs f (k * 2) (pass_list cmp k xs)"
  using assms
proof (induction cmp k xs rule: pass_list.induct)
  case (1 cmp k xs)
  show ?case
  proof (cases "xs = []")
    case False
    then have F: "\<not> (xs = [] \<or> k = 0)" using 1(4) by simp
    have s: "sorted (map f (take k xs))" "sorted_runs f k (drop k xs)"
      using 1(3) F by (subst (asm) sorted_runs.simps, simp)+
    have t: "sorted (map f (take k (drop k xs)))" "sorted_runs f k (drop k (drop k xs))"
      using s(2) F by (cases "drop k xs = []"; subst (asm) sorted_runs.simps; simp add: sorted_runs.simps)+
    let ?m = "merge_lists cmp (take k xs) (take k (drop k xs))"
    have m: "sorted (map f ?m)" by (rule sorted_merge [OF 1(2) s(1) t(1)])
    have r: "sorted_runs f (k * 2) (pass_list cmp k (drop k (drop k xs)))" by (rule 1(1) [OF F 1(2) t(2) 1(4)])
    have p: "pass_list cmp k xs = ?m @ pass_list cmp k (drop k (drop k xs))" using F by (subst pass_list.simps) simp
    show ?thesis
    proof (cases "k * 2 \<le> length xs")
      case True
      then have "length ?m = k * 2" by simp
      with runs_append [OF _ this m r] 1(4) show ?thesis unfolding p by simp
    next
      case short: False
      then have e: "drop k (drop k xs) = []" by simp
      have "pass_list cmp k [] = []" by (subst pass_list.simps) simp
      then show ?thesis unfolding p e using sorted_runs_short [OF _ m, of "k * 2"] short by simp
    qed
  qed (simp add: pass_list.simps sorted_runs.simps)
qed

lemma sorted_runs_one: "sorted_runs f 1 xs"
proof (induction xs)
  case (Cons x xs)
  then show ?case by (subst sorted_runs.simps) (simp add: take_Suc)
qed (simp add: sorted_runs.simps)

text \<open>The passes until one run holds the whole list.\<close>

function sort_list :: "(nat \<Rightarrow> nat \<Rightarrow> int) \<Rightarrow> nat \<Rightarrow> nat list \<Rightarrow> nat list" where
  "sort_list cmp k xs = (let ys = pass_list cmp k xs in if length xs \<le> k * 2 \<or> k = 0 then ys else sort_list cmp (k * 2) ys)"
  by auto

termination
  by (relation "measure (\<lambda>(cmp, k, xs). length xs - k)") auto

declare sort_list.simps [simp del]

lemma sort_list_sort_key:
  assumes "cmp_by cmp f" "sorted_runs f k xs" "0 < k"
  shows "sort_list cmp k xs = sort_key f xs"
  using assms
proof (induction cmp k xs rule: sort_list.induct)
  case (1 cmp k xs)
  let ?ys = "pass_list cmp k xs"
  note r = runs_pass [OF 1(2,3,4)]
  note fl = filter_pass [OF 1(2,3)]
  show ?case
  proof (cases "length xs \<le> k * 2")
    case True
    then have "sorted (map f ?ys)" using r 1(4) by (subst (asm) sorted_runs.simps) (auto split: if_splits)
    moreover have "filter (\<lambda>x. f c = f x) ?ys = filter (\<lambda>x. f c = f x) xs" for c
      using fl [of "f c"] by (simp only: eq_commute [of "f c"])
    ultimately have "sort_key f xs = ?ys" by (intro properties_for_sort_key) simp_all
    with True show ?thesis by (subst sort_list.simps) simp
  next
    case False
    with 1(1) [OF refl _ 1(2) r] 1(4) have "sort_list cmp (k * 2) ?ys = sort_key f ?ys" by simp
    moreover have "sort_key f ?ys = sort_key f xs"
    proof (rule properties_for_sort_key [symmetric])
      show "filter (\<lambda>x. f c = f x) (sort_key f ?ys) = filter (\<lambda>x. f c = f x) xs" for c
        using fl [of "f c"] sort_key_stable [of f "f c" ?ys] by (simp only: eq_commute [of "f c"])
    qed simp_all
    ultimately show ?thesis using False 1(4) by (subst sort_list.simps) simp
  qed
qed

end
