(* ===== verification/Utlist_Sort_Props.thy ===== *)
theory Utlist_Sort_Props
  imports Utlist_Sort
begin

text \<open>
  The loops of the merge sort compute the sort on lists, for each kind of list, and end: what
  has been sorted so far is a chain from the head to \<open>tail\<close> whose last link is open, and the
  rest of the list has kept its links.
\<close>

section \<open>The kinds of lists\<close>

fun kind_list :: "list_kind \<Rightarrow> dl \<Rightarrow> nat list \<Rightarrow> bool" where
  "kind_list K_ll l xs = chain (dl_next l) (dl_head l) xs None"
| "kind_list K_dl l xs = dl_list l xs"
| "kind_list K_cdl l xs = cdl_list l xs"
| "kind_list K_hh l xs = (chain (dl_next l) (dl_head l) xs None \<and> backs_to (dl_prev l) None xs)"

abbreviation next_of :: "list_kind \<Rightarrow> ptr \<Rightarrow> dl \<Rightarrow> nat \<Rightarrow> ptr" where
  "next_of kind oldhead l \<equiv> sort_next kind oldhead (dl_next l)"

lemma kind_list_chain:
  assumes "kind_list kind l xs"
  shows "chain (next_of kind (dl_head l) l) (dl_head l) xs None" "distinct xs"
proof -
  have "sort_next K_cdl h nx = cdl_step h nx" "kind \<noteq> K_cdl \<Longrightarrow> sort_next kind h nx = nx" for h nx
    by (auto simp: sort_next_def cdl_step_def fun_eq_iff)
  then show c: "chain (next_of kind (dl_head l) l) (dl_head l) xs None"
    using assms cdl_chain [of l xs] by (cases kind) (auto simp: dl_list_def)
  then show "distinct xs" by (rule chain_distinct)
qed

text \<open>What has been sorted so far.\<close>

definition sorted_out :: "list_kind \<Rightarrow> dl \<Rightarrow> ptr \<Rightarrow> nat list \<Rightarrow> bool" where
  "sorted_out kind l tail out \<longleftrightarrow> dl_head l = first_of out None \<and> tail = last_of None out \<and>
     (\<exists>r. chain (dl_next l) (first_of out None) out r) \<and> (kind \<noteq> K_ll \<longrightarrow> backs_to (dl_prev l) None out)"

lemma sorted_out_Nil [simp]: "sorted_out kind (l\<lparr>dl_head := None\<rparr>) None []"
  by (simp add: sorted_out_def)

lemma sort_link_out:
  assumes o: "sorted_out kind l tail out" and d: "distinct out" "e \<notin> set out"
  shows "sorted_out kind (sort_link kind e tail l) (Some e) (out @ [e])"
    "x \<notin> set out \<Longrightarrow> dl_next (sort_link kind e tail l) x = dl_next l x"
proof -
  have "sorted_out kind (sort_link kind e tail l) (Some e) (out @ [e]) \<and>
    (x \<notin> set out \<longrightarrow> dl_next (sort_link kind e tail l) x = dl_next l x)" for x
  proof (cases out rule: rev_cases)
    case Nil
    with o show ?thesis by (simp add: sorted_out_def sort_link_def Let_def)
  next
    case (snoc ys t)
    have f: "first_of (ys @ [t]) None = first_of (ys @ [t, e]) None" by (cases ys) simp_all
    from o snoc have t: "tail = Some t" by (simp add: sorted_out_def)
    from snoc d show ?thesis
      using o unfolding t by (cases ys) (auto simp: sorted_out_def sort_link_def Let_def)
  qed
  then show "sorted_out kind (sort_link kind e tail l) (Some e) (out @ [e])"
    "x \<notin> set out \<Longrightarrow> dl_next (sort_link kind e tail l) x = dl_next l x" by blast+
qed

section \<open>One merge\<close>

lemma sort_skip_chain:
  assumes "chain nx q xs None" "n = 0 \<or> xs \<noteq> []"
  shows "sort_skip nx n q c = Inr (c + min n (length xs), first_of (drop n xs) None)"
  using assms
proof (induction n arbitrary: q xs c)
  case 0
  then show ?case using chain_first [OF 0(1)] by simp
next
  case (Suc n)
  then obtain e ys where xs: "xs = e # ys" "q = Some e" "chain nx (nx e) ys None" by (cases xs) auto
  show ?case
  proof (cases ys)
    case (Cons y zs)
    then have "nx e = Some y" using xs(3) by simp
    with Suc.IH [OF xs(3), of "c + 1"] xs Cons show ?thesis by simp
  qed (use xs in simp)
qed

lemma next_frame:
  assumes "chain (next_of kind old l) p xs r" "\<And>x. x \<in> set xs \<Longrightarrow> dl_next l' x = dl_next l x"
  shows "chain (next_of kind old l') p xs r"
proof -
  have "chain (next_of kind old l') p xs r = chain (next_of kind old l) p xs r"
    using assms(2) by (intro chain_frame) (simp add: sort_next_def)
  with assms(1) show ?thesis by simp
qed

lemma sort_merge_ok:
  assumes "sorted_out kind l tail out" "chain (next_of kind old l) p xs r" "chain (next_of kind old l) q (ys @ zs) None"
    and "length xs = psize" "length ys \<le> qsize" "length ys < qsize \<longrightarrow> zs = []" "distinct (out @ xs @ ys @ zs)"
  shows "\<exists>l' tail'. sort_merge kind cmp old p psize q qsize l tail = Inr (l', first_of zs None, tail') \<and>
    sorted_out kind l' tail' (out @ merge_lists cmp xs ys) \<and> (\<forall>x. x \<notin> set (out @ xs @ ys) \<longrightarrow> dl_next l' x = dl_next l x)"
  using assms
proof (induction "length xs + length ys" arbitrary: l tail out p q xs ys psize qsize rule: less_induct)
  case less
  note out = less.prems(1) and p = less.prems(2) and q = less.prems(3) and dist = less.prems(7)
  have qs: "qsize > 0 \<and> q \<noteq> None \<longleftrightarrow> ys \<noteq> []"
    using chain_first [OF q] less.prems(5,6) by (cases ys) auto
  have take_p: ?case if xs: "xs = x # xs'" and m: "ys = [] \<or> cmp (the p) (the q) \<le> 0" for x xs'
  proof -
    let ?l = "sort_link kind x tail l"
    have px: "p = Some x" "chain (next_of kind old l) (next_of kind old l x) xs' r" using p xs by auto
    have d: "distinct out" "x \<notin> set out" using dist xs by auto
    note so = sort_link_out [OF out d]
    have fr: "dl_next ?l y = dl_next l y" if "y \<in> set (xs' @ ys @ zs)" for y using so(2) [of y] dist that xs by auto
    have "chain (next_of kind old ?l) (next_of kind old l x) xs' r" "chain (next_of kind old ?l) q (ys @ zs) None"
      using next_frame [OF px(2), of ?l] next_frame [OF q, of ?l] fr by auto
    with less.hyps [of xs' ys ?l "Some x" "out @ [x]" "next_of kind old l x" q "psize - 1" qsize] so(1) less.prems(4-7) xs obtain l' tail' where
      r: "sort_merge kind cmp old (next_of kind old l x) (psize - 1) q qsize ?l (Some x) = Inr (l', first_of zs None, tail')"
        "sorted_out kind l' tail' ((out @ [x]) @ merge_lists cmp xs' ys)"
        "\<forall>y. y \<notin> set ((out @ [x]) @ xs' @ ys) \<longrightarrow> dl_next l' y = dl_next ?l y" by auto
    have "merge_lists cmp xs ys = x # merge_lists cmp xs' ys"
      using m xs px(1) chain_first [OF q] by (cases ys) (cases xs', auto)
    moreover have "sort_merge kind cmp old p psize q qsize l tail = Inr (l', first_of zs None, tail')"
      using m qs less.prems(4) xs px(1) r(1) by (subst sort_merge.simps) auto
    moreover have "\<forall>y. y \<notin> set (out @ xs @ ys) \<longrightarrow> dl_next l' y = dl_next l y" using r(3) so(2) xs by auto
    ultimately show ?thesis using r(2) by auto
  qed
  have take_q: ?case if ys: "ys = y # ys'" and m: "xs = [] \<or> \<not> cmp (the p) (the q) \<le> 0" for y ys'
  proof -
    let ?l = "sort_link kind y tail l"
    have qy: "q = Some y" "chain (next_of kind old l) (next_of kind old l y) (ys' @ zs) None" using q ys by auto
    have d: "distinct out" "y \<notin> set out" using dist ys by auto
    note so = sort_link_out [OF out d]
    have fr: "dl_next ?l z = dl_next l z" if "z \<in> set (xs @ ys' @ zs)" for z using so(2) [of z] dist that ys by auto
    have "chain (next_of kind old ?l) p xs r" "chain (next_of kind old ?l) (next_of kind old l y) (ys' @ zs) None"
      using next_frame [OF p, of ?l] next_frame [OF qy(2), of ?l] fr by auto
    moreover have "length ys' \<le> qsize - 1" using less.prems(5) ys by simp
    moreover note less.hyps [of xs ys' ?l "Some y" "out @ [y]" p "next_of kind old l y" psize "qsize - 1"]
    ultimately obtain l' tail' where
      r: "sort_merge kind cmp old p psize (next_of kind old l y) (qsize - 1) ?l (Some y) = Inr (l', first_of zs None, tail')"
        "sorted_out kind l' tail' ((out @ [y]) @ merge_lists cmp xs ys')"
        "\<forall>z. z \<notin> set ((out @ [y]) @ xs @ ys') \<longrightarrow> dl_next l' z = dl_next ?l z"
      using so(1) less.prems(4-7) ys by auto
    have "merge_lists cmp xs ys = y # merge_lists cmp xs ys'"
      using m ys qy(1) chain_first [OF p] by (cases xs) auto
    moreover have "sort_merge kind cmp old p psize q qsize l tail = Inr (l', first_of zs None, tail')"
      using m qs less.prems(4) ys qy(1) r(1) by (subst sort_merge.simps) auto
    moreover have "\<forall>z. z \<notin> set (out @ xs @ ys) \<longrightarrow> dl_next l' z = dl_next l z" using r(3) so(2) ys by auto
    ultimately show ?thesis using r(2) by auto
  qed
  consider "xs = []" "ys = []" | x xs' where "xs = x # xs'" "ys = [] \<or> cmp (the p) (the q) \<le> 0"
    | y ys' where "ys = y # ys'" "xs = [] \<or> \<not> cmp (the p) (the q) \<le> 0" by (cases xs; cases ys) auto
  then show ?case
  proof cases
    case 1
    then have "sort_merge kind cmp old p psize q qsize l tail = Inr (l, first_of zs None, tail)"
      using qs less.prems(4) chain_first [OF q] by (subst sort_merge.simps) auto
    with 1 out show ?thesis by simp
  next
    case 2
    then show ?thesis by (rule take_p)
  next
    case 3
    then show ?thesis by (rule take_q)
  qed
qed

section \<open>Passes\<close>

definition merges :: "nat \<Rightarrow> nat \<Rightarrow> nat" where
  "merges k n = (n + (k * 2 - 1)) div (k * 2)"

lemma merges_0 [simp]: "0 < k \<Longrightarrow> merges k 0 = 0"
  by (simp add: merges_def)

lemma merges_step:
  assumes "0 < k" "0 < n"
  shows "merges k n = merges k (n - k - k) + 1"
proof (cases "k * 2 \<le> n")
  case True
  then have "n + (k * 2 - 1) = (n - k - k + (k * 2 - 1)) + k * 2" by simp
  then have "merges k n = (n - k - k + (k * 2 - 1) + k * 2) div (k * 2)" by (simp only: merges_def)
  also have "\<dots> = merges k (n - k - k) + 1" unfolding merges_def using assms(1) by (intro div_add_self2) simp
  finally show ?thesis .
next
  case False
  then have "merges k n = 1" using assms unfolding merges_def by (intro div_nat_eqI) auto
  with False assms show ?thesis by simp
qed

lemma merges_one: "0 < k \<Longrightarrow> merges k n \<le> 1 \<longleftrightarrow> n \<le> k * 2"
proof -
  assume k: "0 < k"
  have "merges k n < 2 \<longleftrightarrow> n + (k * 2 - 1) < 2 * (k * 2)" unfolding merges_def using k by (intro div_less_iff_less_mult) simp
  then show ?thesis using k by auto
qed

lemma sort_pass_ok:
  assumes "sorted_out kind l tail out" "chain (next_of kind old l) p xs None" "distinct (out @ xs)" "0 < k"
  shows "\<exists>l' tail'. sort_pass kind cmp k old p l tail n = Some (Inr (l', tail', n + merges k (length xs))) \<and>
    sorted_out kind l' tail' (out @ pass_list cmp k xs)"
  using assms
proof (induction cmp k xs arbitrary: l tail out p n rule: pass_list.induct)
  case (1 cmp k xs)
  show ?case
  proof (cases "xs = []")
    case True
    with 1(2-5) show ?thesis by (subst sort_pass.simps) (simp add: pass_list.simps)
  next
    case False
    let ?q = "first_of (drop k xs) None" and ?zs = "drop k (drop k xs)"
    have ne: "\<not> (xs = [] \<or> k = 0)" using False 1(5) by simp
    have p: "p \<noteq> None" using chain_first [OF 1(3)] False by (cases xs) auto
    have sk: "sort_skip (next_of kind old l) k p 0 = Inr (min k (length xs), ?q)"
      using sort_skip_chain [OF 1(3), of k 0] False by simp
    have "xs = take k xs @ drop k xs" by simp
    with 1(3) have c: "chain (next_of kind old l) p (take k xs) ?q" "chain (next_of kind old l) ?q (drop k xs) None"
      by (metis chain_append)+
    have d: "drop k xs = take k (drop k xs) @ ?zs" by (simp only: append_take_drop_id)
    have sp: "xs = take k xs @ take k (drop k xs) @ ?zs" by (simp only: append_take_drop_id)
    have dist: "distinct (out @ take k xs @ take k (drop k xs) @ ?zs)" using 1(4) by (simp only: flip: sp)
    have len: "length (take k xs) = min k (length xs)" "length (take k (drop k xs)) \<le> k"
      "length (take k (drop k xs)) < k \<longrightarrow> ?zs = []" by auto
    from sort_merge_ok [OF 1(2) c(1) _ len dist, of ?q cmp] c(2) d obtain l1 tail1 where
      m: "sort_merge kind cmp old p (min k (length xs)) ?q k l tail = Inr (l1, first_of ?zs None, tail1)"
        "sorted_out kind l1 tail1 (out @ merge_lists cmp (take k xs) (take k (drop k xs)))"
        "\<forall>x. x \<notin> set (out @ take k xs @ take k (drop k xs)) \<longrightarrow> dl_next l1 x = dl_next l x" by (metis min.commute)
    have "chain (next_of kind old l) (first_of ?zs None) ?zs None" using c(2) d by (metis chain_append)
    moreover have "dl_next l1 x = dl_next l x" if "x \<in> set ?zs" for x
      using m(3) dist that by auto
    ultimately have z: "chain (next_of kind old l1) (first_of ?zs None) ?zs None" by (rule next_frame)
    have dist': "distinct ((out @ merge_lists cmp (take k xs) (take k (drop k xs))) @ ?zs)"
    proof -
      have "mset (out @ xs) = mset ((out @ merge_lists cmp (take k xs) (take k (drop k xs))) @ ?zs)"
        by (subst sp) (simp only: mset_append mset_merge add.assoc)
      with 1(4) show ?thesis by (metis mset_eq_imp_distinct_iff)
    qed
    from 1(1) [OF ne m(2) z dist' 1(5), of "n + 1"] obtain l' tail' where
      r: "sort_pass kind cmp k old (first_of ?zs None) l1 tail1 (n + 1) =
          Some (Inr (l', tail', n + 1 + merges k (length ?zs)))"
        "sorted_out kind l' tail' ((out @ merge_lists cmp (take k xs) (take k (drop k xs))) @ pass_list cmp k ?zs)" by blast
    have "merges k (length xs) = merges k (length ?zs) + 1" using merges_step [of k "length xs"] 1(5) False by simp
    moreover have "pass_list cmp k xs = merge_lists cmp (take k xs) (take k (drop k xs)) @ pass_list cmp k ?zs"
      using ne by (subst pass_list.simps) simp
    ultimately show ?thesis
      using r by (subst sort_pass.simps) (simp add: p sk m(1))
  qed
qed

lemma sort_close_ok:
  assumes o: "sorted_out kind l tail out" and d: "distinct out" "out \<noteq> []"
  shows "\<exists>l'. sort_close kind tail l = Inr l' \<and> kind_list kind l' out"
proof -
  from d(2) obtain ys t where out: "out = ys @ [t]" by (cases out rule: rev_cases) auto
  show ?thesis
  proof (cases ys)
    case Nil
    with o out show ?thesis by (cases kind) (auto simp: sorted_out_def dl_list_def cdl_list_def)
  next
    case (Cons y zs)
    with o out d(1) show ?thesis by (cases kind) (auto simp: sorted_out_def dl_list_def cdl_list_def)
  qed
qed

section \<open>The sort\<close>

lemma sort_loop_ok:
  assumes "kind_list kind l xs" "xs \<noteq> []" "0 < k" "k = 1 \<or> k < length xs" "length xs \<le> 2 ^ 30"
  shows "\<exists>l'. sort_loop kind cmp k l = Some (Inr (l', last_of None (sort_list cmp k xs))) \<and> kind_list kind l' (sort_list cmp k xs)"
  using assms
proof (induction cmp k xs arbitrary: l rule: sort_list.induct)
  case (1 cmp k xs)
  let ?ys = "pass_list cmp k xs"
  note c = kind_list_chain [OF 1(2)]
  have "distinct ([] @ xs)" using c(2) by simp
  with sort_pass_ok [of kind "l\<lparr>dl_head := None\<rparr>" None "[]" "dl_head l" "dl_head l" xs k cmp 0] c(1) 1(4) obtain l1 tail1 where
    p: "sort_pass kind cmp k (dl_head l) (dl_head l) (l\<lparr>dl_head := None\<rparr>) None 0 = Some (Inr (l1, tail1, merges k (length xs)))"
      "sorted_out kind l1 tail1 ?ys" by auto
  have d: "distinct ?ys" "?ys \<noteq> []"
    using c(2) 1(3) mset_eq_imp_distinct_iff [OF mset_pass [of cmp k xs]] length_pass [of cmp k xs]
    by (simp, metis length_0_conv)
  from sort_close_ok [OF p(2) d] obtain l2 where l2: "sort_close kind tail1 l1 = Inr l2" "kind_list kind l2 ?ys" by blast
  have tail: "tail1 = last_of None ?ys" using p(2) by (simp add: sorted_out_def)
  have "k * 2 < 2 ^ 31" using 1(5,6) by auto
  then have dbl: "sort_double kind k = Inr (k * 2)" by (simp add: sort_double_def)
  have step: "sort_loop kind cmp k l =
      (if merges k (length xs) \<le> 1 then Some (Inr (l2, tail1)) else sort_loop kind cmp (k * 2) l2)"
    by (subst sort_loop.simps) (simp add: p(1) l2(1) dbl)
  show ?case
  proof (cases "length xs \<le> k * 2")
    case True
    then have "sort_list cmp k xs = ?ys" by (subst sort_list.simps) simp
    with True step l2(2) tail merges_one [OF 1(4)] show ?thesis by simp
  next
    case False
    then have e: "sort_list cmp k xs = sort_list cmp (k * 2) ?ys" using 1(4) by (subst sort_list.simps) simp
    have "\<not> (length xs \<le> k * 2 \<or> k = 0)" using False 1(4) by simp
    from 1(1) [OF refl this l2(2) d(2)] False 1(4,6) obtain l' where
      "sort_loop kind cmp (k * 2) l2 = Some (Inr (l', last_of None (sort_list cmp (k * 2) ?ys)))"
      "kind_list kind l' (sort_list cmp (k * 2) ?ys)" by auto
    with False step merges_one [OF 1(4)] show ?thesis by (simp add: e)
  qed
qed

lemma sort_loop_sorts:
  assumes "cmp_by cmp f" "kind_list kind l xs" "xs \<noteq> []" "length xs \<le> 2 ^ 30"
  shows "\<exists>l'. sort_loop kind cmp 1 l = Some (Inr (l', last_of None (sort_key f xs))) \<and> kind_list kind l' (sort_key f xs)"
  using sort_loop_ok [OF assms(2,3), of 1 cmp] sort_list_sort_key [OF assms(1) sorted_runs_one] assms(4) by simp

end
