(* ===== verification/Utlist_Claims.thy ===== *)
theory Utlist_Claims
  imports Utlist_Sort_Props
begin

text \<open>
  What the list macros promise: sequences of operations do what they do on lists, the three
  sorts are the stable sort, and an element that is appended twice closes a cycle.
\<close>

section \<open>Sequences of operations\<close>

text \<open>The nodes in the order a loop visits them.\<close>

definition visited :: "(nat \<Rightarrow> ptr) \<Rightarrow> ptr \<Rightarrow> nat list option" where
  "visited nx head = LL_FOREACH nx (\<lambda>e es. es @ [e]) head []"

lemma visited_chain: "chain nx p xs None \<Longrightarrow> visited nx p = Some xs"
proof -
  have "fold (\<lambda>e es. es @ [e]) xs es = es @ xs" for es by (induction xs arbitrary: es) auto
  then show "chain nx p xs None \<Longrightarrow> visited nx p = Some xs" by (simp add: visited_def foreach_chain)
qed

lemma rel_sum_visited:
  assumes "rel_sum (=) R r a" "\<And>l ys. R l ys \<Longrightarrow> V l ys"
  shows "(\<exists>e. r = Inl e \<and> a = Inl e) \<or> (\<exists>l ys. r = Inr l \<and> a = Inr ys \<and> V l ys)"
  using assms by (cases r; cases a) auto

text \<open>
  C12: the macros on singly linked lists (\<open>LL_PREPEND\<close>, \<open>LL_APPEND\<close>, \<open>LL_DELETE\<close>,
  \<open>LL_REPLACE_ELEM\<close>, \<open>LL_PREPEND_ELEM\<close>) refine the operations on lists: a sequence of them,
  in which no element is inserted that is in the list, returns; it fails exactly where the
  list operations do (deleting from an empty list, the assertions), and a loop over what it
  leaves visits the elements of the abstract list in order.
\<close>

theorem ll_refines_list:
  assumes "ll_list (head, nx) xs" "pre_ops ll_pre list_spec is xs"
  shows "\<exists>r. run_ops ll_step is (head, nx) = Some r \<and>
    ((\<exists>e. r = Inl e \<and> spec_ops list_spec is xs = Inl e) \<or>
     (\<exists>l ys. r = Inr l \<and> spec_ops list_spec is xs = Inr ys \<and> visited (snd l) (fst l) = Some ys))"
proof -
  from ll.run_simulates [OF assms] obtain r where
    r: "run_ops ll_step is (head, nx) = Some r" "rel_sum (=) ll_list r (spec_ops list_spec is xs)" by auto
  have "visited (snd l) (fst l) = Some ys" if "ll_list l ys" for l ys
    using that by (intro visited_chain) (simp add: ll_list_def)
  from rel_sum_visited [OF r(2), where V = "\<lambda>l ys. visited (snd l) (fst l) = Some ys"] this r(1)
  show ?thesis by blast
qed

definition mixed_ops :: "list_op list" where
  "mixed_ops = [Append 2, Prepend 1, Append 3, Insert_before 2 7, Delete 1, Replace 3 4]"

theorem ll_refines_list_witness:
  "\<exists>l. run_ops ll_step mixed_ops (None, \<lambda>_. Some 5) = Some (Inr l) \<and> visited (snd l) (fst l) = Some [7, 2, 4]"
proof -
  have "ll_list (None, \<lambda>_. Some 5) []" by (simp add: ll_list_def)
  moreover have "pre_ops ll_pre list_spec mixed_ops []" "spec_ops list_spec mixed_ops [] = Inr [7, 2, 4]"
    by (simp_all add: mixed_ops_def insert_before_def replace_elem_def)
  ultimately show ?thesis using ll_refines_list [of None "\<lambda>_. Some 5" "[]" mixed_ops] by auto
qed

text \<open>
  C13: the macros on doubly linked lists refine the operations on lists: the forward loop
  visits the elements in order, the \<open>prev\<close> of the first is the last one, and the \<open>prev\<close> of
  every other element is the one before it.
\<close>

theorem dl_refines_list:
  assumes "dl_list l xs" "pre_ops dl_pre list_spec is xs"
  shows "\<exists>r. run_ops dl_step is l = Some r \<and>
    ((\<exists>e. r = Inl e \<and> spec_ops list_spec is xs = Inl e) \<or>
     (\<exists>l' ys. r = Inr l' \<and> spec_ops list_spec is xs = Inr ys \<and> visited (dl_next l') (dl_head l') = Some ys \<and>
        map (dl_prev l') ys = map Some (if ys = [] then [] else last ys # butlast ys)))"
proof -
  from dl.run_simulates [OF assms] obtain r where
    r: "run_ops dl_step is l = Some r" "rel_sum (=) dl_list r (spec_ops list_spec is xs)" by auto
  have b: "map pv ys = map Some (b # butlast ys)" if "backs_to pv (Some b) ys" "ys \<noteq> []" for pv b ys
    using that by (induction ys arbitrary: b) (auto split: if_splits)
  have "visited (dl_next l') (dl_head l') = Some ys \<and>
      map (dl_prev l') ys = map Some (if ys = [] then [] else last ys # butlast ys)" if "dl_list l' ys" for l' ys
    using that b [of "dl_prev l'" "last ys" ys] by (auto simp: dl_list_def last_of_def intro!: visited_chain split: if_splits)
  from rel_sum_visited [OF r(2), where V = "\<lambda>l ys. visited (dl_next l) (dl_head l) = Some ys \<and> map (dl_prev l) ys = map Some (if ys = [] then [] else last ys # butlast ys)"] this r(1)
  show ?thesis by blast
qed

definition loose_dl :: dl where
  "loose_dl = \<lparr>dl_head = None, dl_next = (\<lambda>_. Some 5), dl_prev = (\<lambda>_. Some 6)\<rparr>"

theorem dl_refines_list_witness:
  "\<exists>l. run_ops dl_step mixed_ops loose_dl = Some (Inr l) \<and> visited (dl_next l) (dl_head l) = Some [7, 2, 4] \<and>
     map (dl_prev l) [7, 2, 4] = [Some 4, Some 7, Some 2]"
proof -
  have "dl_list loose_dl []" by (simp add: dl_list_def loose_dl_def)
  moreover have "pre_ops dl_pre list_spec mixed_ops []" "spec_ops list_spec mixed_ops [] = Inr [7, 2, 4]"
    by (simp_all add: mixed_ops_def insert_before_def replace_elem_def)
  ultimately show ?thesis using dl_refines_list [of loose_dl "[]" mixed_ops] by auto
qed

text \<open>
  The macros on circular lists refine the operations on lists: the loop of
  \<open>CDL_FOREACH\<close>, which ends where it comes back to the head, visits the elements in order and
  \<open>CDL_COUNT\<close> counts them.
\<close>

theorem cdl_refines_list:
  assumes "cdl_list l xs" "pre_ops cdl_pre list_spec is xs"
  shows "\<exists>r. run_ops cdl_step_op is l = Some r \<and>
    ((\<exists>e. r = Inl e \<and> spec_ops list_spec is xs = Inl e) \<or>
     (\<exists>l' ys. r = Inr l' \<and> spec_ops list_spec is xs = Inr ys \<and>
        CDL_FOREACH l' (\<lambda>e es. es @ [e]) [] = Some ys \<and> CDL_COUNT l' = Some (int (length ys))))"
proof -
  from cdl.run_simulates [OF assms] obtain r where
    r: "run_ops cdl_step_op is l = Some r" "rel_sum (=) cdl_list r (spec_ops list_spec is xs)" by auto
  have "CDL_FOREACH l' (\<lambda>e es. es @ [e]) [] = Some ys \<and> CDL_COUNT l' = Some (int (length ys))" if "cdl_list l' ys" for l' ys
  proof -
    note c = cdl_chain [OF that]
    show ?thesis
      using visited_chain [OF c] foreach_chain [OF c, of "\<lambda>_ counter. counter + 1" "0 :: int"]
      by (simp add: CDL_COUNT_def CDL_FOREACH_def visited_def fold_count)
  qed
  from rel_sum_visited [OF r(2), where V = "\<lambda>l ys. CDL_FOREACH l (\<lambda>e es. es @ [e]) [] = Some ys \<and> CDL_COUNT l = Some (int (length ys))"] this r(1)
  show ?thesis by blast
qed

definition circular_ops :: "list_op list" where
  "circular_ops = [Prepend 2, Prepend 1, Insert_before 2 7, Delete 1, Prepend 3, Replace 3 4]"

theorem cdl_refines_list_witness:
  "\<exists>l. run_ops cdl_step_op circular_ops loose_dl = Some (Inr l) \<and> CDL_FOREACH l (\<lambda>e es. es @ [e]) [] = Some [4, 7, 2] \<and>
     CDL_COUNT l = Some 3"
proof -
  have "cdl_list loose_dl []" by (simp add: cdl_list_def loose_dl_def)
  moreover have "pre_ops cdl_pre list_spec circular_ops []" "spec_ops list_spec circular_ops [] = Inr [4, 7, 2]"
    by (simp_all add: circular_ops_def cdl_pre_def insert_before_def replace_elem_def)
  ultimately show ?thesis using cdl_refines_list [of loose_dl "[]" circular_ops] by auto
qed

section \<open>Sorting\<close>

fun sort_macro :: "list_kind \<Rightarrow> (nat \<Rightarrow> nat \<Rightarrow> int) \<Rightarrow> dl \<Rightarrow> dl run" where
  "sort_macro K_ll cmp l = LL_SORT cmp l"
| "sort_macro K_dl cmp l = DL_SORT cmp l"
| "sort_macro K_cdl cmp l = CDL_SORT cmp l"
| "sort_macro K_hh cmp l = Some (Inr l)"

text \<open>
  C11: \<open>LL_SORT\<close>, \<open>DL_SORT\<close> and \<open>CDL_SORT\<close>, in place and bottom up, equal the stable sort of
  the list by any key that the comparison function is consistent with: they end, no element
  is lost, and the links back and the circle are those of the sorted list. The list has at
  most \<open>2 ^ 30\<close> elements, beyond which \<open>insize\<close> overflows.
\<close>

theorem sort_macros_sort:
  assumes "kind \<noteq> K_hh" "cmp_by cmp f" "kind_list kind l xs" "length xs \<le> 2 ^ 30"
  shows "\<exists>l'. sort_macro kind cmp l = Some (Inr l') \<and> kind_list kind l' (sort_key f xs)"
proof (cases "xs = []")
  case True
  with assms(3) have "dl_head l = None" by (cases kind) (auto simp: dl_list_def cdl_list_def)
  with assms(1,3) True show ?thesis by (cases kind) (auto simp: LL_SORT_def DL_SORT_def CDL_SORT_def)
next
  case False
  with assms(3) have "dl_head l \<noteq> None" by (cases kind; cases xs) (auto simp: dl_list_def cdl_list_def)
  with sort_loop_sorts [OF assms(2,3) False assms(4)] assms(1) show ?thesis
    by (cases kind) (auto simp: LL_SORT_def DL_SORT_def CDL_SORT_def)
qed

text \<open>Five elements sorted by their remainder modulo 3.\<close>

definition five_dl :: dl where
  "five_dl = \<lparr>dl_head = Some 5, dl_next = (\<lambda>e. if e = 1 then None else Some (e - 1)),
     dl_prev = (\<lambda>e. if e = 5 then Some 1 else Some (e + 1))\<rparr>"

theorem sort_macros_sort_witness:
  "\<exists>l. DL_SORT (\<lambda>a b. int (a mod 3) - int (b mod 3)) five_dl = Some (Inr l) \<and> dl_list l [3, 4, 1, 5, 2]"
proof -
  have "cmp_by (\<lambda>a b. int (a mod 3) - int (b mod 3)) (\<lambda>a. a mod 3)" by (auto simp: cmp_by_def)
  moreover have "kind_list K_dl five_dl [5, 4, 3, 2, 1]" by (simp add: dl_list_def five_dl_def)
  ultimately show ?thesis
    using sort_macros_sort [of K_dl "\<lambda>a b. int (a mod 3) - int (b mod 3)" "\<lambda>a. a mod 3" five_dl "[5, 4, 3, 2, 1]"]
    by simp
qed

section \<open>Appending twice\<close>

text \<open>A loop that cannot leave a set of nodes does not return.\<close>

lemma foreach_stuck:
  assumes "\<And>e. e \<in> S \<Longrightarrow> \<exists>f \<in> S. nx e = Some f" "e \<in> S"
  shows "LL_FOREACH nx body (Some e) s = None"
proof -
  have "\<forall>x. el = Some x \<longrightarrow> x \<notin> S" if "LL_FOREACH nx body el s = Some t" for el s t
  proof (rule LL_FOREACH.raw_induct [OF _ that, where P = "\<lambda>nx' b el s t. nx' = nx \<longrightarrow> (\<forall>x. el = Some x \<longrightarrow> x \<notin> S)",
        THEN mp, OF _ refl], goal_cases)
    case (1 F nx' b el s t)
    then show ?case using assms(1) by (cases el) fastforce+
  qed
  with assms(2) show ?thesis by (cases "LL_FOREACH nx body (Some e) s") auto
qed

text \<open>
  C16: appending an element that is in the list already drops the elements after it and
  links it to itself: \<open>LL_APPEND\<close> returns, and from then on no loop over the list does.
\<close>

theorem append_twice_closes_cycle:
  assumes "ll_list (head, nx) (xs @ a # ys)"
  shows "\<exists>head' nx'. LL_APPEND a (head, nx) = Some (Inr (head', nx')) \<and> nx' a = Some a \<and>
    (\<forall>body s. LL_FOREACH nx' body head' (s :: 's) = None)"
proof -
  let ?nx1 = "nx(a := None)" and ?zs = "xs @ [a]"
  have c: "chain nx head (xs @ a # ys) None" using assms by (simp add: ll_list_def)
  then have a: "a \<notin> set xs" using chain_distinct by fastforce
  have c1: "chain ?nx1 head ?zs None" using c a by simp
  obtain x us where x: "?zs = x # us" by (cases ?zs) auto
  then have h: "head = Some x" using c1 by simp
  then have "ll_tail ?nx1 x = Some a" using ll_tail_last [of ?nx1 x us] c1 x by (metis last_snoc)
  then have ap: "LL_APPEND a (head, nx) = Some (Inr (head, nx(a := Some a)))" by (simp add: LL_APPEND_def h)
  have st: "\<exists>f \<in> set ?zs. (nx(a := Some a)) e = Some f" if "e \<in> set ?zs" for e
  proof (cases "e = a")
    case False
    with that obtain us vs where "?zs = us @ e # vs" "vs \<noteq> []" by (metis append_Nil2 append_self_conv2 last_snoc neq_Nil_conv split_list)
    with c1 have "nx e = first_of vs None" "e \<noteq> a" using chain_first [of ?nx1 "?nx1 e" vs None] False by auto
    with \<open>?zs = us @ e # vs\<close> \<open>vs \<noteq> []\<close> show ?thesis by (cases vs) auto
  qed auto
  have "x \<in> set ?zs" by (simp add: x)
  from foreach_stuck [of "set ?zs" "nx(a := Some a)", OF st this] ap h show ?thesis by auto
qed

theorem append_twice_closes_cycle_witness:
  "\<exists>head nx. LL_APPEND 4 (Some 3, (\<lambda>_. None)(3 := Some 4, 4 := Some 5)) = Some (Inr (head, nx)) \<and> nx 4 = Some 4 \<and>
     (\<forall>body s. LL_FOREACH nx body head (s :: nat) = None)"
  by (rule append_twice_closes_cycle [where xs = "[3]" and ys = "[5]"]) (simp add: ll_list_def)

end
