(* ===== verification/Utlist_Variants.thy ===== *)
theory Utlist_Variants
  imports Utlist_Claims
begin

text \<open>
  The variants of util/utlist.h for compilers without \<open>decltype\<close>, which use a field of the new
  element or the head as their temporary variable, and the loops that are safe for deletion.
\<close>

section \<open>The variants for VS2008\<close>

text \<open>\<open>while (add->next->next) { add->next = add->next->next; }\<close>\<close>

partial_function (option) vs2008_tail :: "nat \<Rightarrow> (nat \<Rightarrow> ptr) \<Rightarrow> (nat \<Rightarrow> ptr) run" where
  "vs2008_tail add nx =
     (case nx add of
        None \<Rightarrow> Some (Inl NullDeref)
      | Some t \<Rightarrow> (case nx t of None \<Rightarrow> Some (Inr nx) | Some u \<Rightarrow> vs2008_tail add (nx(add := Some u))))"

definition LL_APPEND_VS2008 :: "nat \<Rightarrow> ll \<Rightarrow> ll run" where
  "LL_APPEND_VS2008 add = (\<lambda>(head, nx).
     case head of
       Some h \<Rightarrow>
         run_bind (vs2008_tail add (nx(add := Some h))) (\<lambda>nx1.
         run_bind (Some (deref (nx1 add))) (\<lambda>t. Some (Inr (head, nx1(t := Some add, add := None)))))
     | None \<Rightarrow> Some (Inr (Some add, nx(add := None))))"

text \<open>\<open>while (head->next && (head->next != del)) { head = head->next; }\<close>\<close>

partial_function (option) vs2008_before :: "nat \<Rightarrow> ll \<Rightarrow> ll run" where
  "vs2008_before del l =
     (case fst l of
        None \<Rightarrow> Some (Inl NullDeref)
      | Some h \<Rightarrow> if snd l h \<noteq> None \<and> snd l h \<noteq> Some del then vs2008_before del (snd l h, snd l) else Some (Inr l))"

definition LL_DELETE_VS2008 :: "nat \<Rightarrow> ll \<Rightarrow> ll run" where
  "LL_DELETE_VS2008 del = (\<lambda>(head, nx).
     if head = Some del then Some (Inr (nx del, nx))
     else
       run_bind (vs2008_before del (head, nx)) (\<lambda>(head1, nx1).
       run_bind (Some (deref head1)) (\<lambda>h.
         Some (Inr (head, if nx1 h \<noteq> None then nx1(h := nx1 del) else nx1)))))"

lemma vs2008_tail_chain:
  "chain nx (Some e) (e # xs) None \<Longrightarrow> add \<notin> set (e # xs) \<Longrightarrow>
    vs2008_tail add (nx(add := Some e)) = Some (Inr (nx(add := Some (last (e # xs)))))"
proof (induction xs arbitrary: e)
  case Nil
  then show ?case by (subst vs2008_tail.simps) simp
next
  case (Cons x xs)
  then have "vs2008_tail add (nx(add := Some x)) = Some (Inr (nx(add := Some (last (x # xs)))))" by (intro Cons.IH) auto
  with Cons.prems show ?case by (subst vs2008_tail.simps) simp
qed

lemma vs2008_before_same:
  "vs2008_before del (Some h, nx) = map_option (\<lambda>t. Inr (Some t, nx)) (ll_before nx del h)"
  if "chain nx (Some h) (h # xs) None"
  using that
proof (induction xs arbitrary: h)
  case Nil
  then show ?case by (subst vs2008_before.simps, subst ll_before.simps) simp
next
  case (Cons x xs)
  then show ?case by (subst vs2008_before.simps, subst ll_before.simps) auto
qed

text \<open>
  On a list that ends, \<open>LL_APPEND_VS2008\<close> and \<open>LL_DELETE_VS2008\<close> are the same functions
  as \<open>LL_APPEND\<close> and \<open>LL_DELETE\<close>, every link included, although they walk with \<open>add->next\<close>
  and with the head; the new element must not be in the list.
\<close>

theorem vs2008_variants_equal:
  assumes "ll_list (head, nx) xs" "add \<notin> set xs"
  shows "LL_APPEND_VS2008 add (head, nx) = LL_APPEND add (head, nx) \<and>
    LL_DELETE_VS2008 del (head, nx) = LL_DELETE del (head, nx)"
proof
  show "LL_APPEND_VS2008 add (head, nx) = LL_APPEND add (head, nx)"
  proof (cases xs)
    case Nil
    with assms(1) show ?thesis by (simp add: ll_list_def LL_APPEND_VS2008_def LL_APPEND_def)
  next
    case (Cons x ys)
    then have c: "chain nx (Some x) (x # ys) None" "head = Some x" "add \<notin> set (x # ys)" using assms by (simp_all add: ll_list_def)
    have "chain (nx(add := None)) (Some x) (x # ys) None" using c(1,3) by simp
    then have t: "ll_tail (nx(add := None)) x = Some (last (x # ys))" by (rule ll_tail_last)
    have "add \<noteq> last (x # ys)" using c(3) last_in_set [of "x # ys"] by auto
    then show ?thesis
      using vs2008_tail_chain [OF c(1,3)] t c(2)
      by (simp add: LL_APPEND_VS2008_def LL_APPEND_def Let_def fun_upd_twist)
  qed
  show "LL_DELETE_VS2008 del (head, nx) = LL_DELETE del (head, nx)"
  proof (cases xs)
    case Nil
    with assms(1) have "head = None" by (simp add: ll_list_def)
    then show ?thesis by (simp add: LL_DELETE_VS2008_def LL_DELETE_def) (subst vs2008_before.simps, simp)
  next
    case (Cons x ys)
    then have c: "chain nx (Some x) (x # ys) None" "head = Some x" using assms by (simp_all add: ll_list_def)
    show ?thesis
      by (cases "ll_before nx del x") (simp_all add: LL_DELETE_VS2008_def LL_DELETE_def c(2) vs2008_before_same [OF c(1)])
  qed
qed

theorem vs2008_variants_equal_witness:
  "LL_APPEND_VS2008 9 (Some 3, (\<lambda>_. None)(3 := Some 4, 4 := Some 5)) = LL_APPEND 9 (Some 3, (\<lambda>_. None)(3 := Some 4, 4 := Some 5)) \<and>
   LL_DELETE_VS2008 5 (Some 3, (\<lambda>_. None)(3 := Some 4, 4 := Some 5)) = LL_DELETE 5 (Some 3, (\<lambda>_. None)(3 := Some 4, 4 := Some 5))"
proof -
  have "ll_list (Some 3, (\<lambda>_. None)(3 := Some 4, 4 := Some 5)) [3, 4, 5]" by (simp add: ll_list_def)
  from vs2008_variants_equal [OF this, of 9 5] show ?thesis by auto
qed

section \<open>Loops that are safe for deletion\<close>

text \<open>
  \<open>CDL_FOREACH_SAFE\<close>: the loop ends at the node that was the last one at the start, \<open>tmp1\<close>;
  \<open>next\<close> is read before the body.
\<close>

partial_function (option) cdl_safe_loop :: "ptr \<Rightarrow> (nat \<Rightarrow> dl \<Rightarrow> dl res) \<Rightarrow> ptr \<times> dl \<Rightarrow> dl run" where
  "cdl_safe_loop tmp1 body z =
     (case fst z of
        None \<Rightarrow> Some (Inr (snd z))
      | Some e \<Rightarrow>
          let tmp2 = dl_next (snd z) e
          in case body e (snd z) of
               Inl f \<Rightarrow> Some (Inl f)
             | Inr l \<Rightarrow> cdl_safe_loop tmp1 body (if Some e = tmp1 then None else tmp2, l))"

definition CDL_FOREACH_SAFE :: "(nat \<Rightarrow> dl \<Rightarrow> dl res) \<Rightarrow> dl \<Rightarrow> dl run" where
  "CDL_FOREACH_SAFE body l =
     cdl_safe_loop (case dl_head l of Some h \<Rightarrow> dl_prev l h | None \<Rightarrow> None) body (dl_head l, l)"

definition DL_FOREACH_SAFE :: "(nat \<Rightarrow> dl \<Rightarrow> dl res) \<Rightarrow> dl \<Rightarrow> dl run" where
  "DL_FOREACH_SAFE body l = ptr_loop dl_next body (dl_head l, l)"

lemma cdl_safe_delete:
  "cdl_list l xs \<Longrightarrow> xs \<noteq> [] \<Longrightarrow>
    \<exists>l'. cdl_safe_loop (last_of None xs) CDL_DELETE (first_of xs None, l) = Some (Inr l') \<and> dl_head l' = None"
proof (induction xs arbitrary: l)
  case (Cons x xs)
  from cdl_delete_list [OF Cons.prems(1), of x] obtain l' where l': "CDL_DELETE x l = Inr l'" "cdl_list l' xs" by auto
  have nx: "xs \<noteq> [] \<Longrightarrow> dl_next l x = first_of xs None" and d: "x \<notin> set xs"
    using Cons.prems(1) chain_first [of "dl_next l" "dl_next l x" xs] by (auto simp: cdl_list_def first_of_def split: list.splits)
  show ?case
  proof (cases "xs = []")
    case True
    with l' show ?thesis by (subst cdl_safe_loop.simps) (simp, subst cdl_safe_loop.simps, simp add: cdl_list_def)
  next
    case False
    with d have "x \<noteq> last xs" by auto
    with Cons.IH [OF l'(2) False] l'(1) nx [OF False] False show ?thesis
      by (subst cdl_safe_loop.simps) (simp add: last_of_def)
  qed
qed simp

lemma dl_safe_delete: "dl_list l xs \<Longrightarrow> \<exists>l'. ptr_loop dl_next DL_DELETE (first_of xs None, l) = Some (Inr l') \<and> dl_head l' = None"
proof (induction xs arbitrary: l)
  case Nil
  then show ?case by (subst ptr_loop.simps) (simp add: dl_list_def)
next
  case (Cons x xs)
  from dl_delete_list [OF Cons.prems, of x] obtain l' where l': "DL_DELETE x l = Inr l'" "dl_list l' xs" by auto
  have "dl_next l x = first_of xs None"
    using Cons.prems chain_first [of "dl_next l" "dl_next l x" xs] by (auto simp: dl_list_def)
  with Cons.IH [OF l'(2)] l'(1) show ?case by (subst ptr_loop.simps) simp
qed

text \<open>
  \<open>DL_FOREACH_SAFE\<close> and \<open>CDL_FOREACH_SAFE\<close> allow the body to delete the node it is
  given: deleting every node that way returns, without a fault, and leaves the empty list.
\<close>

theorem safe_loops_delete_all:
  assumes "kind = K_dl \<or> kind = K_cdl" "kind_list kind l xs"
  shows "\<exists>l'. (if kind = K_dl then DL_FOREACH_SAFE DL_DELETE l else CDL_FOREACH_SAFE CDL_DELETE l) = Some (Inr l') \<and>
    kind_list kind l' []"
proof (cases "kind = K_dl")
  case True
  with assms(2) have l: "dl_list l xs" by simp
  then have "dl_head l = first_of xs None" using chain_first by (auto simp: dl_list_def)
  with dl_safe_delete [OF l] True show ?thesis by (auto simp: DL_FOREACH_SAFE_def dl_list_def)
next
  case False
  with assms have l: "kind = K_cdl" "cdl_list l xs" by auto
  then have h: "dl_head l = first_of xs None" "xs \<noteq> [] \<Longrightarrow> dl_prev l (hd xs) = last_of None xs" by (cases xs; auto simp: cdl_list_def)+
  show ?thesis
  proof (cases xs)
    case Nil
    then show ?thesis using l h(1) by (simp add: CDL_FOREACH_SAFE_def cdl_list_def) (subst cdl_safe_loop.simps, simp)
  next
    case (Cons x ys)
    with cdl_safe_delete [OF l(2)] h l(1) show ?thesis by (auto simp: CDL_FOREACH_SAFE_def cdl_list_def)
  qed
qed

theorem safe_loops_delete_all_witness:
  "\<exists>l. DL_FOREACH_SAFE DL_DELETE five_dl = Some (Inr l) \<and> dl_list l []"
proof -
  have "kind_list K_dl five_dl [5, 4, 3, 2, 1]" by (simp add: dl_list_def five_dl_def)
  from safe_loops_delete_all [OF _ this] show ?thesis by simp
qed

end
