(* ===== verification/Uthash_Fn.thy ===== *)
theory Uthash_Fn
  imports Prelude
begin

text \<open>
  The hash functions of util/uthash.h. \<open>HASH_FCN\<close> is \<open>HASH_JEN\<close> unless the build defines
  \<open>HASH_FUNCTION\<close>, which this one does not. A macro reads \<open>keylen\<close> bytes at \<open>key\<close> and
  sets \<open>hashv\<close>, an \<open>unsigned\<close> of 32 bits; a key object with fewer bytes is read out of bounds.
  Keys of 4 GB and more, for which the counters would wrap, are not considered.
\<close>

unbundle bit_operations_syntax

type_synonym u32 = "32 word"
type_synonym hash_fcn = "bytes \<Rightarrow> size_t \<Rightarrow> u32 res"

text \<open>A byte as \<open>unsigned char\<close> and as \<open>char\<close>, which is signed here.\<close>

definition ubyte :: "char \<Rightarrow> u32" where
  "ubyte c = of_char c"

definition sbyte :: "char \<Rightarrow> u32" where
  "sbyte c = scast (of_char c :: 8 word)"

text \<open>The bytes that a macro reads; \<open>n\<close> is its count of bytes.\<close>

definition key_bytes :: "bytes \<Rightarrow> nat \<Rightarrow> (bytes \<Rightarrow> u32) \<Rightarrow> u32 res" where
  "key_bytes key n f = res_of_option OutOfBounds (map_option f (mem_read key 0 n))"

section \<open>Bernstein, SAX, FNV and one-at-a-time\<close>

definition HASH_BER :: hash_fcn where
  "HASH_BER key keylen = key_bytes key (unat (ucast keylen :: u32)) (\<lambda>ks. fold (\<lambda>c h. h * 33 + sbyte c) ks 0)"

definition HASH_SAX :: hash_fcn where
  "HASH_SAX key keylen = key_bytes key (unat keylen)
     (\<lambda>ks. fold (\<lambda>c h. h XOR (push_bit 5 h + drop_bit 2 h + sbyte c)) ks 0)"

definition HASH_FNV :: hash_fcn where
  "HASH_FNV key keylen = key_bytes key (unat keylen) (\<lambda>ks. fold (\<lambda>c h. (h * 16777619) XOR sbyte c) ks 2166136261)"

definition oat_step :: "char \<Rightarrow> u32 \<Rightarrow> u32" where
  "oat_step c h = (let h = h + sbyte c; h = h + push_bit 10 h in h XOR drop_bit 6 h)"

definition HASH_OAT :: hash_fcn where
  "HASH_OAT key keylen = key_bytes key (unat keylen)
     (\<lambda>ks. let h = fold oat_step ks 0; h = h + push_bit 3 h; h = h XOR drop_bit 11 h in h + push_bit 15 h)"

section \<open>Jenkins\<close>

definition jen_mix :: "u32 \<times> u32 \<times> u32 \<Rightarrow> u32 \<times> u32 \<times> u32" where
  "jen_mix = (\<lambda>(a, b, c).
     let a = (a - b - c) XOR drop_bit 13 c;
         b = (b - c - a) XOR push_bit 8 a;
         c = (c - a - b) XOR drop_bit 13 b;
         a = (a - b - c) XOR drop_bit 12 c;
         b = (b - c - a) XOR push_bit 16 a;
         c = (c - a - b) XOR drop_bit 5 b;
         a = (a - b - c) XOR drop_bit 3 c;
         b = (b - c - a) XOR push_bit 10 a;
         c = (c - a - b) XOR drop_bit 15 b
     in (a, b, c))"

text \<open>Four bytes from index \<open>i\<close>, the first one lowest.\<close>

definition le32 :: "bytes \<Rightarrow> nat \<Rightarrow> u32" where
  "le32 ks i = ubyte (ks ! i) + push_bit 8 (ubyte (ks ! (i + 1))) + push_bit 16 (ubyte (ks ! (i + 2))) +
     push_bit 24 (ubyte (ks ! (i + 3)))"

text \<open>The loop over 12 bytes at a time: the bytes that are left and \<open>i\<close>, \<open>j\<close>, \<open>hashv\<close>.\<close>

function jen_blocks :: "bytes \<Rightarrow> u32 \<times> u32 \<times> u32 \<Rightarrow> bytes \<times> u32 \<times> u32 \<times> u32" where
  "jen_blocks ks s =
     (if length ks \<ge> 12 then
        (let (i, j, h) = s in jen_blocks (drop 12 ks) (jen_mix (i + le32 ks 0, j + le32 ks 4, h + le32 ks 8)))
      else (ks, s))"
  by auto

termination
  by (relation "measure (\<lambda>(ks, s). length ks)") auto

declare jen_blocks.simps [simp del]

text \<open>One case of the \<open>switch\<close> with its fall-through: the byte \<open>n\<close> counts when there are as many.\<close>

definition jen_case :: "bytes \<Rightarrow> nat \<Rightarrow> nat \<Rightarrow> u32 \<Rightarrow> u32" where
  "jen_case ks n s v = (if n \<le> length ks then v + push_bit s (ubyte (ks ! (n - 1))) else v)"

definition HASH_JEN :: hash_fcn where
  "HASH_JEN key keylen = key_bytes key (unat (ucast keylen :: u32)) (\<lambda>ks.
     let (r, i, j, h) = jen_blocks ks (0x9e3779b9, 0x9e3779b9, 0xfeedbeef);
         h = h + ucast keylen;
         h = jen_case r 9 8 (jen_case r 10 16 (jen_case r 11 24 h));
         j = jen_case r 5 0 (jen_case r 6 8 (jen_case r 7 16 (jen_case r 8 24 j)));
         i = jen_case r 1 0 (jen_case r 2 8 (jen_case r 3 16 (jen_case r 4 24 i)))
     in snd (snd (jen_mix (i, j, h))))"

section \<open>Hsieh\<close>

definition get16bits :: "bytes \<Rightarrow> nat \<Rightarrow> u32" where
  "get16bits ks i = push_bit 8 (ubyte (ks ! (i + 1))) + ubyte (ks ! i)"

fun sfh_loop :: "nat \<Rightarrow> bytes \<Rightarrow> u32 \<Rightarrow> bytes \<times> u32" where
  "sfh_loop 0 ks h = (ks, h)"
| "sfh_loop (Suc n) ks h =
     (let h = h + get16bits ks 0;
          t = push_bit 11 (get16bits ks 2) XOR h;
          h = push_bit 16 h XOR t
      in sfh_loop n (drop 4 ks) (h + drop_bit 11 h))"

definition sfh_rest :: "nat \<Rightarrow> bytes \<Rightarrow> u32 \<Rightarrow> u32" where
  "sfh_rest n ks h =
     (if n = 3 then
        (let h = h + get16bits ks 0; h = h XOR push_bit 16 h; h = h XOR push_bit 18 (ubyte (ks ! 2)) in h + drop_bit 11 h)
      else if n = 2 then (let h = h + get16bits ks 0; h = h XOR push_bit 11 h in h + drop_bit 17 h)
      else if n = 1 then (let h = h + ubyte (ks ! 0); h = h XOR push_bit 10 h in h + drop_bit 1 h)
      else h)"

definition HASH_SFH :: hash_fcn where
  "HASH_SFH key keylen =
     (let n = unat (ucast keylen :: u32)
      in key_bytes key n (\<lambda>ks.
           let (r, h) = sfh_loop (n div 4) ks 0xcafebabe;
               h = sfh_rest (n mod 4) r h;
               h = h XOR push_bit 3 h; h = h + drop_bit 5 h; h = h XOR push_bit 4 h; h = h + drop_bit 17 h;
               h = h XOR push_bit 25 h
           in h + drop_bit 6 h))"

section \<open>Murmur\<close>

definition mur_rotl :: "u32 \<Rightarrow> nat \<Rightarrow> u32" where
  "mur_rotl x r = push_bit r x OR drop_bit (32 - r) x"

definition mur_fmix :: "u32 \<Rightarrow> u32" where
  "mur_fmix h =
     (let h = h XOR drop_bit 16 h; h = h * 0x85ebca6b; h = h XOR drop_bit 13 h; h = h * 0xc2b2ae35
      in h XOR drop_bit 16 h)"

definition mur_k :: "u32 \<Rightarrow> u32" where
  "mur_k k = mur_rotl (k * 0xcc9e2d51) 15 * 0x1b873593"

fun mur_blocks :: "nat \<Rightarrow> bytes \<Rightarrow> u32 \<Rightarrow> bytes \<times> u32" where
  "mur_blocks 0 ks h = (ks, h)"
| "mur_blocks (Suc n) ks h = mur_blocks n (drop 4 ks) (mur_rotl (h XOR mur_k (le32 ks 0)) 13 * 5 + 0xe6546b64)"

text \<open>The last bytes.\<close>

definition mur_tail :: "bytes \<Rightarrow> u32 \<Rightarrow> u32" where
  "mur_tail ks h =
     (let k = 0;
          k = (if 3 \<le> length ks then k XOR push_bit 16 (ubyte (ks ! 2)) else k);
          k = (if 2 \<le> length ks then k XOR push_bit 8 (ubyte (ks ! 1)) else k)
      in if 1 \<le> length ks then h XOR mur_k (k XOR ubyte (ks ! 0)) else h)"

text \<open>
  The number of blocks is an \<open>int\<close>, and \<open>_mur_nblocks * 4\<close> is computed in \<open>int\<close>: it
  overflows for keys of 2 GB and more.
\<close>

definition HASH_MUR :: hash_fcn where
  "HASH_MUR key keylen =
     (if sint (ucast (keylen div 4) :: u32) * 4 \<notin> {- (2 ^ 31) ..< 2 ^ 31} then Inl IntOverflow
      else key_bytes key (unat keylen) (\<lambda>ks.
        let (r, h) = mur_blocks (length ks div 4) ks 0xf88D5353
        in mur_fmix (mur_tail r h XOR ucast keylen)))"

section \<open>The interface\<close>

text \<open>
  What the table needs of a hash function: it returns for every key that has its bytes and is
  shorter than a limit, and the value depends on these bytes only.
\<close>

locale hash_function =
  fixes hf :: hash_fcn
    and lim :: nat
  assumes limit: "lim \<le> 2 ^ 32"
    and returns: "unat n < lim \<Longrightarrow> unat n \<le> length k \<Longrightarrow> \<exists>h. hf k n = Inr h"
    and bytes_only: "unat n < lim \<Longrightarrow> unat n \<le> length k \<Longrightarrow> unat n \<le> length k' \<Longrightarrow>
      take (unat n) k = take (unat n) k' \<Longrightarrow> hf k n = hf k' n"

lemma key_bytes_function:
  assumes "lim \<le> 2 ^ 32" "\<And>k n. unat n < lim \<Longrightarrow> hf k n = key_bytes k (unat n) (f n)"
  shows "hash_function hf lim"
  by unfold_locales (auto simp: assms key_bytes_def mem_read_def simp del: power_numeral)

lemma unat_ucast_small: "unat n < 2 ^ 32 \<Longrightarrow> unat (ucast n :: u32) = unat n" for n :: size_t
  by (simp add: unsigned_ucast_eq take_bit_nat_eq_self)

interpretation jen: hash_function HASH_JEN "2 ^ 32"
  by (rule key_bytes_function) (simp_all add: HASH_JEN_def unat_ucast_small)

interpretation ber: hash_function HASH_BER "2 ^ 32"
  by (rule key_bytes_function) (simp_all add: HASH_BER_def unat_ucast_small)

interpretation sax: hash_function HASH_SAX "2 ^ 32"
  by (rule key_bytes_function) (simp_all add: HASH_SAX_def)

interpretation fnv: hash_function HASH_FNV "2 ^ 32"
  by (rule key_bytes_function) (simp_all add: HASH_FNV_def)

interpretation oat: hash_function HASH_OAT "2 ^ 32"
  by (rule key_bytes_function) (simp_all add: HASH_OAT_def)

interpretation sfh: hash_function HASH_SFH "2 ^ 32"
  by (rule key_bytes_function) (simp, simp add: HASH_SFH_def unat_ucast_small Let_def)

lemma mur_nblocks:
  fixes n :: size_t
  assumes "unat n < 2 ^ 31"
  shows "sint (ucast (n div 4) :: u32) * 4 \<in> {- (2 ^ 31) ..< 2 ^ 31}"
proof -
  have q: "unat (n div 4) = unat n div 4" by (simp add: unat_div)
  have lt: "unat n div 4 < 2 ^ 29" using assms by simp
  then have "unat (ucast (n div 4) :: u32) = unat n div 4" using q by (subst unat_ucast_small) simp_all
  then have u: "uint (ucast (n div 4) :: u32) = int (unat n div 4)" by (metis uint_nat)
  have "sint (ucast (n div 4) :: u32) = signed_take_bit 31 (uint (ucast (n div 4) :: u32))" by (simp add: sint_uint)
  also have "\<dots> = int (unat n div 4)" unfolding u using lt by (intro signed_take_bit_int_eq_self) auto
  finally show ?thesis using assms by auto
qed

lemma HASH_MUR_small:
  "unat n < 2 ^ 31 \<Longrightarrow> HASH_MUR k n = key_bytes k (unat n) (\<lambda>ks.
     let (r, h) = mur_blocks (length ks div 4) ks 0xf88D5353 in mur_fmix (mur_tail r h XOR ucast n))"
  by (simp only: HASH_MUR_def mur_nblocks not_True_eq_False if_False)

interpretation mur: hash_function HASH_MUR "2 ^ 31"
  by (rule key_bytes_function [OF _ HASH_MUR_small]) simp_all

end
