(* ===== verification/Uthash.thy ===== *)
theory Uthash
  imports Uthash_Fn Utlist_Sort
begin

text \<open>
  The hash table of util/uthash.h. The fields of the handle \<open>UT_hash_handle\<close> inside the
  elements are functions from elements; the pointer \<open>tbl\<close> of every handle is that of the
  one table, and the conversions between an element and its handle are the identity. The
  elements are in a doubly linked list in the order of their insertion and each in the
  chain of a bucket. The hash function and the success of \<open>malloc\<close> for a size are
  parameters; where \<open>malloc\<close> fails \<open>uthash_fatal\<close> exits.
\<close>

section \<open>Data\<close>

record ut_bucket =
  hh_head :: ptr
  b_count :: u32
  expand_mult :: u32

record ut_table =
  buckets :: "ut_bucket list"
  num_buckets :: u32
  log2_num_buckets :: u32
  num_items :: u32
  ht_tail :: nat
  ideal_chain_maxlen :: u32
  nonideal_items :: u32
  ineff_expands :: u32
  noexpand :: u32

text \<open>The links \<open>hh_next\<close> and \<open>hh_prev\<close> in the buckets.\<close>

record ut_chains =
  hh_next :: "nat \<Rightarrow> ptr"
  hh_prev :: "nat \<Rightarrow> ptr"

text \<open>The head with the links \<open>next\<close> and \<open>prev\<close>, the other fields of the handles, the table.\<close>

record ut_hash =
  h_app :: dl
  h_chains :: ut_chains
  h_key :: "nat \<Rightarrow> bytes"
  h_keylen :: "nat \<Rightarrow> u32"
  h_hashv :: "nat \<Rightarrow> u32"
  h_tbl :: "ut_table option"

type_synonym malloc = "size_t \<Rightarrow> bool"

definition HASH_INITIAL_NUM_BUCKETS :: u32 where "HASH_INITIAL_NUM_BUCKETS = 32"
definition HASH_INITIAL_NUM_BUCKETS_LOG2 :: u32 where "HASH_INITIAL_NUM_BUCKETS_LOG2 = 5"
definition HASH_BKT_CAPACITY_THRESH :: u32 where "HASH_BKT_CAPACITY_THRESH = 10"

definition zero_bucket :: ut_bucket where
  "zero_bucket = \<lparr>hh_head = None, b_count = 0, expand_mult = 0\<rparr>"

definition set_hh_next :: "nat \<Rightarrow> ptr \<Rightarrow> ut_chains \<Rightarrow> ut_chains" where
  "set_hh_next e p c = c\<lparr>hh_next := (hh_next c)(e := p)\<rparr>"

definition set_hh_prev :: "nat \<Rightarrow> ptr \<Rightarrow> ut_chains \<Rightarrow> ut_chains" where
  "set_hh_prev e p c = c\<lparr>hh_prev := (hh_prev c)(e := p)\<rparr>"

text \<open>The table of a non-empty hash.\<close>

definition the_tbl :: "ut_hash \<Rightarrow> ut_table res" where
  "the_tbl h = res_of_option NullDeref (h_tbl h)"

section \<open>Finding\<close>

definition HASH_TO_BKT :: "u32 \<Rightarrow> u32 \<Rightarrow> u32" where
  "HASH_TO_BKT hashv num_bkts = hashv AND (num_bkts - 1)"

definition nth_bucket :: "ut_bucket list \<Rightarrow> u32 \<Rightarrow> ut_bucket res" where
  "nth_bucket bs b = (if unat b < length bs then Inr (bs ! unat b) else Inl OutOfBounds)"

definition HASH_KEYCMP :: "bytes \<Rightarrow> bytes \<Rightarrow> size_t \<Rightarrow> bool res" where
  "HASH_KEYCMP a b len =
     res_bind (res_of_option OutOfBounds (mem_read a 0 (unat len))) (\<lambda>x.
     res_bind (res_of_option OutOfBounds (mem_read b 0 (unat len))) (\<lambda>y. Inr (x = y)))"

definition same_key :: "ut_hash \<Rightarrow> bytes \<Rightarrow> size_t \<Rightarrow> nat \<Rightarrow> bool res" where
  "same_key h keyptr keylen e = (if ucast (h_keylen h e) = keylen then HASH_KEYCMP (h_key h e) keyptr keylen else Inr False)"

text \<open>The first element of a chain that passes a test.\<close>

partial_function (option) find_loop :: "(nat \<Rightarrow> ptr) \<Rightarrow> (nat \<Rightarrow> bool res) \<Rightarrow> ptr \<Rightarrow> ptr run" where
  "find_loop nx test out =
     (case out of
        None \<Rightarrow> Some (Inr None)
      | Some e \<Rightarrow>
          (case test e of
             Inl f \<Rightarrow> Some (Inl f)
           | Inr eq \<Rightarrow> if eq then Some (Inr (Some e)) else find_loop nx test (nx e)))"

definition HASH_FIND_IN_BKT :: "ut_hash \<Rightarrow> bytes \<Rightarrow> size_t \<Rightarrow> ut_bucket \<Rightarrow> ptr run" where
  "HASH_FIND_IN_BKT h keyptr keylen b = find_loop (hh_next (h_chains h)) (same_key h keyptr keylen) (hh_head b)"

definition HASH_FIND :: "hash_fcn \<Rightarrow> bytes \<Rightarrow> size_t \<Rightarrow> ut_hash \<Rightarrow> ptr run" where
  "HASH_FIND hf keyptr keylen h =
     (if dl_head (h_app h) = None then Some (Inr None)
      else
        case res_bind (the_tbl h) (\<lambda>t. res_bind (hf keyptr keylen) (\<lambda>hashv.
               nth_bucket (buckets t) (HASH_TO_BKT hashv (num_buckets t)))) of
          Inl f \<Rightarrow> Some (Inl f)
        | Inr b \<Rightarrow> HASH_FIND_IN_BKT h keyptr keylen b)"

section \<open>Adding\<close>

definition HASH_MAKE_TABLE :: "malloc \<Rightarrow> nat \<Rightarrow> ut_hash \<Rightarrow> ut_hash res" where
  "HASH_MAKE_TABLE um head h =
     (if \<not> um 64 \<or> \<not> um (ucast HASH_INITIAL_NUM_BUCKETS * 16) then Inl Exited
      else Inr (h\<lparr>h_tbl := Some \<lparr>buckets = replicate (unat HASH_INITIAL_NUM_BUCKETS) zero_bucket,
             num_buckets = HASH_INITIAL_NUM_BUCKETS, log2_num_buckets = HASH_INITIAL_NUM_BUCKETS_LOG2, num_items = 0,
             ht_tail = head, ideal_chain_maxlen = 0, nonideal_items = 0, ineff_expands = 0, noexpand = 0\<rparr>\<rparr>))"

text \<open>An element is pushed to the front of the chain of a bucket.\<close>

definition push_bkt :: "nat \<Rightarrow> ut_bucket \<Rightarrow> ut_chains \<Rightarrow> ut_chains" where
  "push_bkt e b c =
     (let c1 = set_hh_next e (hh_head b) (set_hh_prev e None c)
      in case hh_head b of None \<Rightarrow> c1 | Some f \<Rightarrow> set_hh_prev f (Some e) c1)"

text \<open>One element is moved to a new bucket: the chains, the new buckets, the count of nonideal items.\<close>

definition move_item :: "(nat \<Rightarrow> u32) \<Rightarrow> u32 \<Rightarrow> u32 \<Rightarrow> nat \<Rightarrow> ut_chains \<times> ut_bucket list \<times> u32 \<Rightarrow>
    (ut_chains \<times> ut_bucket list \<times> u32) res" where
  "move_item hashv nb2 ideal e = (\<lambda>(c, nbs, ni).
     let b = HASH_TO_BKT (hashv e) nb2
     in res_bind (nth_bucket nbs b) (\<lambda>bk.
        let cnt = b_count bk + 1
        in if cnt > ideal \<and> ideal = 0 then Inl DivByZero
           else Inr (push_bkt e bk c,
             nbs[unat b := \<lparr>hh_head = Some e, b_count = cnt,
               expand_mult = (if cnt > ideal then cnt div ideal else expand_mult bk)\<rparr>],
             if cnt > ideal then ni + 1 else ni)))"

text \<open>The loops over the old buckets and over their elements.\<close>

fun expand_all :: "(nat \<Rightarrow> u32) \<Rightarrow> u32 \<Rightarrow> u32 \<Rightarrow> ut_bucket list \<Rightarrow> ut_chains \<times> ut_bucket list \<times> u32 \<Rightarrow>
    (ut_chains \<times> ut_bucket list \<times> u32) run" where
  "expand_all hashv nb2 ideal [] s = Some (Inr s)"
| "expand_all hashv nb2 ideal (b # bs) s =
     run_bind (ptr_loop (\<lambda>(c, _). hh_next c) (move_item hashv nb2 ideal) (hh_head b, s)) (expand_all hashv nb2 ideal bs)"

definition ideal_len :: "ut_table \<Rightarrow> u32" where
  "ideal_len t = drop_bit (unat (log2_num_buckets t + 1)) (num_items t) +
     (if num_items t AND (num_buckets t * 2 - 1) \<noteq> 0 then 1 else 0)"

definition HASH_EXPAND_BUCKETS :: "malloc \<Rightarrow> (nat \<Rightarrow> u32) \<Rightarrow> ut_table \<Rightarrow> ut_chains \<Rightarrow> (ut_table \<times> ut_chains) run" where
  "HASH_EXPAND_BUCKETS um hashv t c =
     (if \<not> um (ucast (2 * num_buckets t) * 16) then Some (Inl Exited)
      else if length (buckets t) < unat (num_buckets t) then Some (Inl OutOfBounds)
      else
        run_bind (expand_all hashv (num_buckets t * 2) (ideal_len t) (take (unat (num_buckets t)) (buckets t))
                    (c, replicate (unat (2 * num_buckets t)) zero_bucket, 0)) (\<lambda>(c', nbs, ni).
        let ineff = (if ni > drop_bit 1 (num_items t) then ineff_expands t + 1 else 0)
        in Some (Inr (t\<lparr>buckets := nbs, num_buckets := num_buckets t * 2, log2_num_buckets := log2_num_buckets t + 1,
             ideal_chain_maxlen := ideal_len t, nonideal_items := ni, ineff_expands := ineff,
             noexpand := (if ineff > 1 then 1 else noexpand t)\<rparr>, c'))))"

definition HASH_ADD_TO_BKT :: "malloc \<Rightarrow> (nat \<Rightarrow> u32) \<Rightarrow> u32 \<Rightarrow> nat \<Rightarrow> ut_table \<Rightarrow> ut_chains \<Rightarrow> (ut_table \<times> ut_chains) run" where
  "HASH_ADD_TO_BKT um hashv b add t c =
     (case nth_bucket (buckets t) b of
        Inl f \<Rightarrow> Some (Inl f)
      | Inr bk \<Rightarrow>
          let bk' = bk\<lparr>b_count := b_count bk + 1, hh_head := Some add\<rparr>;
              c' = push_bkt add bk c;
              t' = t\<lparr>buckets := (buckets t)[unat b := bk']\<rparr>
          in if b_count bk' \<ge> (expand_mult bk' + 1) * HASH_BKT_CAPACITY_THRESH \<and> noexpand t' \<noteq> 1
             then HASH_EXPAND_BUCKETS um hashv t' c'
             else Some (Inr (t', c')))"

text \<open>The new element becomes the head, with a new table, or the last one.\<close>

definition link_last :: "malloc \<Rightarrow> nat \<Rightarrow> ut_hash \<Rightarrow> ut_hash res" where
  "link_last um add h =
     (if dl_head (h_app h) = None then
        HASH_MAKE_TABLE um add (h\<lparr>h_app := set_prev add None ((h_app h)\<lparr>dl_head := Some add\<rparr>)\<rparr>)
      else
        res_bind (the_tbl h) (\<lambda>t.
        Inr (h\<lparr>h_app := set_prev add (Some (ht_tail t)) (set_next (ht_tail t) (Some add) (h_app h)),
          h_tbl := Some (t\<lparr>ht_tail := add\<rparr>)\<rparr>)))"

definition HASH_ADD_KEYPTR :: "hash_fcn \<Rightarrow> malloc \<Rightarrow> bytes \<Rightarrow> size_t \<Rightarrow> nat \<Rightarrow> ut_hash \<Rightarrow> ut_hash run" where
  "HASH_ADD_KEYPTR hf um keyptr keylen add h =
     (let h1 = h\<lparr>h_app := set_next add None (h_app h), h_key := (h_key h)(add := keyptr),
                h_keylen := (h_keylen h)(add := ucast keylen)\<rparr>
      in case res_bind (link_last um add h1) (\<lambda>h2. res_bind (the_tbl h2) (\<lambda>t. res_bind (hf keyptr keylen) (\<lambda>hashv.
              Inr (h2\<lparr>h_hashv := (h_hashv h2)(add := hashv)\<rparr>, t\<lparr>num_items := num_items t + 1\<rparr>, hashv)))) of
           Inl f \<Rightarrow> Some (Inl f)
         | Inr (h3, t, hashv) \<Rightarrow>
             run_bind (HASH_ADD_TO_BKT um (h_hashv h3) (HASH_TO_BKT hashv (num_buckets t)) add t (h_chains h3))
               (\<lambda>(t', c'). Some (Inr (h3\<lparr>h_tbl := Some t', h_chains := c'\<rparr>))))"

section \<open>Deleting\<close>

definition HASH_DEL_IN_BKT :: "nat \<Rightarrow> u32 \<Rightarrow> ut_table \<Rightarrow> ut_chains \<Rightarrow> (ut_table \<times> ut_chains) res" where
  "HASH_DEL_IN_BKT del b t c =
     res_bind (nth_bucket (buckets t) b) (\<lambda>bk.
     let bk' = bk\<lparr>b_count := b_count bk - 1, hh_head := (if hh_head bk = Some del then hh_next c del else hh_head bk)\<rparr>;
         c1 = (case hh_prev c del of Some p \<Rightarrow> set_hh_next p (hh_next c del) c | None \<Rightarrow> c);
         c2 = (case hh_next c1 del of Some n \<Rightarrow> set_hh_prev n (hh_prev c1 del) c1 | None \<Rightarrow> c1)
     in Inr (t\<lparr>buckets := (buckets t)[unat b := bk']\<rparr>, c2))"

text \<open>The table is that of the head.\<close>

definition HASH_DELETE :: "nat \<Rightarrow> ut_hash \<Rightarrow> ut_hash res" where
  "HASH_DELETE del h =
     res_bind (deref (dl_head (h_app h))) (\<lambda>_. res_bind (the_tbl h) (\<lambda>t.
     if dl_prev (h_app h) del = None \<and> dl_next (h_app h) del = None then
        Inr (h\<lparr>h_app := (h_app h)\<lparr>dl_head := None\<rparr>, h_tbl := None\<rparr>)
      else
        res_bind (if del = ht_tail t then res_bind (deref (dl_prev (h_app h) del)) (\<lambda>p. Inr (t\<lparr>ht_tail := p\<rparr>)) else Inr t) (\<lambda>t1.
        let a1 = (case dl_prev (h_app h) del of
                    Some p \<Rightarrow> set_next p (dl_next (h_app h) del) (h_app h)
                  | None \<Rightarrow> (h_app h)\<lparr>dl_head := dl_next (h_app h) del\<rparr>);
            a2 = (case dl_next a1 del of Some n \<Rightarrow> set_prev n (dl_prev a1 del) a1 | None \<Rightarrow> a1)
        in res_bind (HASH_DEL_IN_BKT del (HASH_TO_BKT (h_hashv h del) (num_buckets t1)) t1 (h_chains h)) (\<lambda>(t2, c).
           Inr (h\<lparr>h_app := a2, h_chains := c, h_tbl := Some (t2\<lparr>num_items := num_items t2 - 1\<rparr>)\<rparr>)))))"

text \<open>\<open>HASH_REPLACE\<close>: an element with the same key is deleted first, and returned in \<open>replaced\<close>.\<close>

definition HASH_REPLACE :: "hash_fcn \<Rightarrow> malloc \<Rightarrow> bytes \<Rightarrow> size_t \<Rightarrow> nat \<Rightarrow> ut_hash \<Rightarrow> (ptr \<times> ut_hash) run" where
  "HASH_REPLACE hf um keyptr keylen add h =
     run_bind (HASH_FIND hf keyptr keylen h) (\<lambda>replaced.
     run_bind (case replaced of None \<Rightarrow> Some (Inr h) | Some e \<Rightarrow> Some (HASH_DELETE e h)) (\<lambda>h1.
     run_bind (HASH_ADD_KEYPTR hf um keyptr keylen add h1) (\<lambda>h2. Some (Inr (replaced, h2)))))"

definition HASH_CLEAR :: "ut_hash \<Rightarrow> ut_hash" where
  "HASH_CLEAR h = (if dl_head (h_app h) = None then h else h\<lparr>h_app := (h_app h)\<lparr>dl_head := None\<rparr>, h_tbl := None\<rparr>)"

definition HASH_CNT :: "ut_hash \<Rightarrow> u32 res" where
  "HASH_CNT h = (if dl_head (h_app h) = None then Inr 0 else res_bind (the_tbl h) (\<lambda>t. Inr (num_items t)))"

text \<open>\<open>HASH_ITER\<close> reads \<open>next\<close> of an element before the body is run.\<close>

definition HASH_ITER :: "('s \<Rightarrow> ut_hash) \<Rightarrow> (nat \<Rightarrow> 's \<Rightarrow> 's) \<Rightarrow> 's \<Rightarrow> 's option" where
  "HASH_ITER hash body s = LL_FOREACH_SAFE (\<lambda>s. dl_next (h_app (hash s))) body (dl_head (h_app (hash s))) s"

text \<open>\<open>HASH_SRT\<close>: the list in the order of insertion is sorted, the buckets stay.\<close>

definition HASH_SRT :: "(nat \<Rightarrow> nat \<Rightarrow> int) \<Rightarrow> ut_hash \<Rightarrow> ut_hash run" where
  "HASH_SRT cmp h =
     (if dl_head (h_app h) = None then Some (Inr h)
      else run_bind (sort_loop K_hh cmp 1 (h_app h)) (\<lambda>(a, tail).
        Some (res_bind (the_tbl h) (\<lambda>t. res_bind (deref tail) (\<lambda>e.
          Inr (h\<lparr>h_app := a, h_tbl := Some (t\<lparr>ht_tail := e\<rparr>)\<rparr>))))))"

section \<open>The consistency check\<close>

text \<open>\<open>HASH_FSCK\<close>, compiled with \<open>HASH_DEBUG\<close>: every \<open>HASH_OOPS\<close> exits.\<close>

definition fsck_item :: "(nat \<Rightarrow> ptr) \<Rightarrow> nat \<Rightarrow> ptr \<times> u32 \<Rightarrow> (ptr \<times> u32) res" where
  "fsck_item pv e = (\<lambda>(prev, cnt). if prev \<noteq> pv e then Inl Exited else Inr (Some e, cnt + 1))"

definition fsck_chain :: "(nat \<Rightarrow> ptr) \<Rightarrow> (nat \<Rightarrow> ptr) \<Rightarrow> ptr \<Rightarrow> u32 run" where
  "fsck_chain nx pv thh = map_option (map_sum id snd) (ptr_loop (\<lambda>_. nx) (fsck_item pv) (thh, (None, 0)))"

fun fsck_buckets :: "ut_chains \<Rightarrow> ut_bucket list \<Rightarrow> u32 \<Rightarrow> u32 run" where
  "fsck_buckets c [] cnt = Some (Inr cnt)"
| "fsck_buckets c (b # bs) cnt =
     run_bind (fsck_chain (hh_next c) (hh_prev c) (hh_head b)) (\<lambda>bkt_count.
       if b_count b \<noteq> bkt_count then Some (Inl Exited) else fsck_buckets c bs (cnt + bkt_count))"

definition HASH_FSCK :: "ut_hash \<Rightarrow> unit run" where
  "HASH_FSCK h =
     (if dl_head (h_app h) = None then Some (Inr ())
      else case the_tbl h of
        Inl f \<Rightarrow> Some (Inl f)
      | Inr t \<Rightarrow>
          run_bind (fsck_buckets (h_chains h) (take (unat (num_buckets t)) (buckets t)) 0) (\<lambda>cnt.
          if cnt \<noteq> num_items t then Some (Inl Exited)
          else run_bind (fsck_chain (dl_next (h_app h)) (dl_prev (h_app h)) (dl_head (h_app h))) (\<lambda>cnt.
            if cnt \<noteq> num_items t then Some (Inl Exited) else Some (Inr ()))))"

end
