(* ===== verification/Uthash_Inv.thy ===== *)
theory Uthash_Inv
  imports Uthash
begin

text \<open>
  The invariant of the hash table: the elements in the order of insertion, each in the chain
  of the bucket of its hash value, counted; what a lookup finds; and that adding, with the
  doubling of the buckets, keeps the invariant.
\<close>

section \<open>Buckets\<close>

text \<open>The chain of a bucket.\<close>

definition bkt_chain :: "ut_chains \<Rightarrow> ut_bucket \<Rightarrow> nat list \<Rightarrow> bool" where
  "bkt_chain c b xs \<longleftrightarrow> chain (hh_next c) (hh_head b) xs None \<and> backs_to (hh_prev c) None xs \<and>
     b_count b = of_nat (length xs)"

text \<open>The elements \<open>D\<close> are distributed over the buckets by \<open>f\<close>.\<close>

definition bkts_ok :: "ut_chains \<Rightarrow> ut_bucket list \<Rightarrow> (nat \<Rightarrow> nat) \<Rightarrow> nat set \<Rightarrow> bool" where
  "bkts_ok c bs f D \<longleftrightarrow> (\<forall>j < length bs. \<exists>xs. bkt_chain c (bs ! j) xs \<and> set xs = {e \<in> D. f e = j})"

lemma set_hh_fields [simp]:
  "hh_next (set_hh_next e p c) = (hh_next c)(e := p)" "hh_prev (set_hh_next e p c) = hh_prev c"
  "hh_next (set_hh_prev e p c) = hh_next c" "hh_prev (set_hh_prev e p c) = (hh_prev c)(e := p)"
  by (simp_all add: set_hh_next_def set_hh_prev_def)

lemma bkt_chain_frame:
  assumes "bkt_chain c b xs" "\<And>x. x \<in> set xs \<Longrightarrow> hh_next c' x = hh_next c x \<and> hh_prev c' x = hh_prev c x"
  shows "bkt_chain c' b xs"
proof -
  have "chain (hh_next c') (hh_head b) xs None = chain (hh_next c) (hh_head b) xs None"
    "backs_to (hh_prev c') None xs = backs_to (hh_prev c) None xs"
    using assms(2) by (auto intro!: chain_frame backs_to_frame)
  with assms(1) show ?thesis by (simp add: bkt_chain_def)
qed

lemma push_bkt_next: "x \<noteq> e \<Longrightarrow> hh_next (push_bkt e b c) x = hh_next c x"
  by (auto simp: push_bkt_def Let_def split: option.splits)

lemma push_bkt_chain:
  assumes "bkt_chain c b xs" "e \<notin> set xs" "hh_head b' = Some e" "b_count b' = b_count b + 1"
  shows "bkt_chain (push_bkt e b c) b' (e # xs)"
    "x \<notin> set (e # xs) \<Longrightarrow> hh_next (push_bkt e b c) x = hh_next c x \<and> hh_prev (push_bkt e b c) x = hh_prev c x"
  using assms chain_first [of "hh_next c" "hh_head b" xs None] chain_distinct [of "hh_next c" "hh_head b" xs]
  by (cases xs; auto simp: push_bkt_def bkt_chain_def Let_def)+

text \<open>An element that is not yet distributed goes to the bucket that \<open>f\<close> gives it.\<close>

lemma bkts_push:
  assumes ok: "bkts_ok c bs f D" and e: "e \<notin> D" "f e < length bs"
    and b': "hh_head b' = Some e" "b_count b' = b_count (bs ! f e) + 1"
  shows "bkts_ok (push_bkt e (bs ! f e) c) (bs[f e := b']) f (insert e D)"
  unfolding bkts_ok_def
proof (intro allI impI)
  fix j assume j: "j < length (bs[f e := b'])"
  from ok e(2) obtain ys where ys: "bkt_chain c (bs ! f e) ys" "set ys = {x \<in> D. f x = f e}" by (auto simp: bkts_ok_def)
  have ey: "e \<notin> set ys" using ys(2) e(1) by simp
  note push = push_bkt_chain [OF ys(1) ey b']
  show "\<exists>xs. bkt_chain (push_bkt e (bs ! f e) c) (bs[f e := b'] ! j) xs \<and> set xs = {x \<in> insert e D. f x = j}"
  proof (cases "j = f e")
    case True
    with push(1) ys(2) e(2) show ?thesis by (intro exI [of _ "e # ys"]) auto
  next
    case False
    from ok j obtain xs where xs: "bkt_chain c (bs ! j) xs" "set xs = {x \<in> D. f x = j}" by (auto simp: bkts_ok_def)
    have "x \<notin> set (e # ys)" if "x \<in> set xs" for x using that xs(2) ys(2) e(1) False by auto
    then have "bkt_chain (push_bkt e (bs ! f e) c) (bs ! j) xs"
      by (intro bkt_chain_frame [OF xs(1)] push(2))
    with False xs(2) show ?thesis by (intro exI [of _ xs]) auto
  qed
qed

lemma bkts_ok_zero: "bkts_ok c (replicate n zero_bucket) f {}"
  by (auto simp: bkts_ok_def bkt_chain_def zero_bucket_def)

section \<open>Doubling the buckets\<close>

definition mask_bkt :: "u32 \<Rightarrow> (nat \<Rightarrow> u32) \<Rightarrow> nat \<Rightarrow> nat" where
  "mask_bkt n hashv e = unat (HASH_TO_BKT (hashv e) n)"

lemma mask_bkt_less: "k < 32 \<Longrightarrow> mask_bkt (2 ^ k) hashv e < 2 ^ k"
proof -
  assume k: "k < 32"
  have "mask_bkt (2 ^ k) hashv e = unat (take_bit k (hashv e))"
    by (simp add: mask_bkt_def HASH_TO_BKT_def take_bit_eq_mask mask_eq_exp_minus_1)
  also have "\<dots> < 2 ^ k" using k by (simp add: unsigned_take_bit_eq)
  finally show ?thesis .
qed

lemma move_item_ok:
  assumes "bkts_ok c nbs (mask_bkt nb2 hashv) D" "e \<notin> D" "mask_bkt nb2 hashv e < length nbs" "ideal \<noteq> 0"
  shows "\<exists>nbs' ni'. move_item hashv nb2 ideal e (c, nbs, ni) = Inr (push_bkt e (nbs ! mask_bkt nb2 hashv e) c, nbs', ni') \<and>
    bkts_ok (push_bkt e (nbs ! mask_bkt nb2 hashv e) c) nbs' (mask_bkt nb2 hashv) (insert e D) \<and> length nbs' = length nbs"
proof -
  let ?b = "mask_bkt nb2 hashv e"
  let ?nb = "\<lparr>hh_head = Some e, b_count = b_count (nbs ! ?b) + 1,
    expand_mult = (if b_count (nbs ! ?b) + 1 > ideal then (b_count (nbs ! ?b) + 1) div ideal else expand_mult (nbs ! ?b))\<rparr>"
  have "bkts_ok (push_bkt e (nbs ! ?b) c) (nbs[?b := ?nb]) (mask_bkt nb2 hashv) (insert e D)"
    by (rule bkts_push [OF assms(1-3)]) simp_all
  moreover have "move_item hashv nb2 ideal e (c, nbs, ni) = Inr (push_bkt e (nbs ! ?b) c, nbs[?b := ?nb],
      if b_count (nbs ! ?b) + 1 > ideal then ni + 1 else ni)"
    using assms(3,4) by (simp add: move_item_def nth_bucket_def mask_bkt_def [symmetric] Let_def)
  ultimately show ?thesis by simp
qed

text \<open>One old bucket; the links of the elements outside its chain stay as they are.\<close>

lemma expand_chain_ok:
  assumes ch: "chain (hh_next c) p xs None" and ok: "bkts_ok c nbs (mask_bkt nb2 hashv) D" and new: "set xs \<inter> D = {}"
    and b: "\<forall>e. mask_bkt nb2 hashv e < length nbs" and ideal: "ideal \<noteq> 0"
  shows "\<exists>c' nbs' ni'. ptr_loop (\<lambda>(c, _). hh_next c) (move_item hashv nb2 ideal) (p, c, nbs, ni) = Some (Inr (c', nbs', ni')) \<and>
    bkts_ok c' nbs' (mask_bkt nb2 hashv) (D \<union> set xs) \<and> length nbs' = length nbs \<and> (\<forall>x. x \<notin> set xs \<longrightarrow> hh_next c' x = hh_next c x)"
proof -
  define P where "P ys s \<longleftrightarrow> (case s of (c', nbs', ni') \<Rightarrow> bkts_ok c' nbs' (mask_bkt nb2 hashv) (D \<union> set ys) \<and>
    length nbs' = length nbs \<and> (\<forall>x. x \<notin> set ys \<longrightarrow> hh_next c' x = hh_next c x))" for ys and s :: "ut_chains \<times> ut_bucket list \<times> u32"
  have d: "distinct xs" using ch by (rule chain_distinct)
  have "\<exists>s'. ptr_loop (\<lambda>(c, _). hh_next c) (move_item hashv nb2 ideal) (p, (c, nbs, ni)) = Some (Inr s') \<and> P xs s'"
  proof (rule ptr_loop_inv)
    show "chain (case (c, nbs, ni) of (c, _) \<Rightarrow> hh_next c) p xs None" using ch by simp
    show "P [] (c, nbs, ni)" using ok by (simp add: P_def)
    fix ys x zs and t :: "ut_chains \<times> ut_bucket list \<times> u32"
    assume xs: "xs = ys @ x # zs" and P: "P ys t"
    obtain c1 nbs1 ni1 where t: "t = (c1, nbs1, ni1)" by (cases t) auto
    from P have P1: "bkts_ok c1 nbs1 (mask_bkt nb2 hashv) (D \<union> set ys)" "length nbs1 = length nbs"
      "\<forall>y. y \<notin> set ys \<longrightarrow> hh_next c1 y = hh_next c y" by (simp_all add: P_def t)
    have "x \<notin> D \<union> set ys" "mask_bkt nb2 hashv x < length nbs1" using xs new d b P1(2) by auto
    from move_item_ok [OF P1(1) this ideal, of ni1] obtain nbs2 ni2 where
      m: "move_item hashv nb2 ideal x t = Inr (push_bkt x (nbs1 ! mask_bkt nb2 hashv x) c1, nbs2, ni2)"
        "bkts_ok (push_bkt x (nbs1 ! mask_bkt nb2 hashv x) c1) nbs2 (mask_bkt nb2 hashv) (insert x (D \<union> set ys))"
        "length nbs2 = length nbs1" unfolding t by blast
    have "\<forall>z \<in> set zs. z \<noteq> x" using d xs by auto
    with m P1 show "\<exists>t'. move_item hashv nb2 ideal x t = Inr t' \<and> P (ys @ [x]) t' \<and>
      (\<forall>z \<in> set zs. (case t' of (c, _) \<Rightarrow> hh_next c) z = (case t of (c, _) \<Rightarrow> hh_next c) z)"
      by (auto simp: P_def t push_bkt_next)
  qed
  then show ?thesis by (auto simp: P_def)
qed

lemma expand_all_ok:
  assumes "\<forall>j < length bs. chain (hh_next c) (hh_head (bs ! j)) (xss ! j) None" "length xss = length bs"
    and "distinct (concat xss)" "set (concat xss) \<inter> D = {}"
    and "bkts_ok c nbs (mask_bkt nb2 hashv) D" "\<forall>e. mask_bkt nb2 hashv e < length nbs" "ideal \<noteq> 0"
  shows "\<exists>c' nbs' ni'. expand_all hashv nb2 ideal bs (c, nbs, ni) = Some (Inr (c', nbs', ni')) \<and>
    bkts_ok c' nbs' (mask_bkt nb2 hashv) (D \<union> set (concat xss)) \<and> length nbs' = length nbs"
  using assms
proof (induction bs arbitrary: xss c nbs ni D)
  case (Cons b bs)
  then obtain xs yss where xss: "xss = xs # yss" by (cases xss) auto
  have c: "chain (hh_next c) (hh_head b) xs None" using Cons.prems(1) xss by auto
  have "set xs \<inter> D = {}" using Cons.prems(4) xss by auto
  from expand_chain_ok [OF c Cons.prems(5) this Cons.prems(6,7)] obtain c1 nbs1 ni1 where
    1: "ptr_loop (\<lambda>(c, _). hh_next c) (move_item hashv nb2 ideal) (hh_head b, c, nbs, ni) = Some (Inr (c1, nbs1, ni1))"
      "bkts_ok c1 nbs1 (mask_bkt nb2 hashv) (D \<union> set xs)" "length nbs1 = length nbs"
      "\<forall>x. x \<notin> set xs \<longrightarrow> hh_next c1 x = hh_next c x" by blast
  have rest: "chain (hh_next c1) (hh_head (bs ! j)) (yss ! j) None" if j: "j < length bs" for j
  proof -
    have "chain (hh_next c) (hh_head (bs ! j)) (yss ! j) None" using Cons.prems(1) j xss by auto
    moreover have "yss ! j \<in> set yss" using j Cons.prems(2) xss by simp
    then have "set (yss ! j) \<subseteq> set (concat yss)" by auto
    then have "x \<notin> set xs" if "x \<in> set (yss ! j)" for x using that Cons.prems(3) xss by auto
    then have "chain (hh_next c1) (hh_head (bs ! j)) (yss ! j) None = chain (hh_next c) (hh_head (bs ! j)) (yss ! j) None"
      using 1(4) by (intro chain_frame) auto
    ultimately show ?thesis by simp
  qed
  have "length yss = length bs" "distinct (concat yss)" "set (concat yss) \<inter> (D \<union> set xs) = {}"
    "\<forall>e. mask_bkt nb2 hashv e < length nbs1"
    using Cons.prems xss 1(3) by auto
  with Cons.IH [of c1 yss "D \<union> set xs" nbs1 ni1] rest 1(2,3) Cons.prems(7) obtain c' nbs' ni' where
    "expand_all hashv nb2 ideal bs (c1, nbs1, ni1) = Some (Inr (c', nbs', ni'))"
    "bkts_ok c' nbs' (mask_bkt nb2 hashv) (D \<union> set xs \<union> set (concat yss))" "length nbs' = length nbs1" by auto
  with 1 show ?case by (auto simp: xss Un_assoc)
qed auto

text \<open>The sizes of a table with \<open>2 ^ k\<close> buckets.\<close>

definition bkt_sizes :: "ut_table \<Rightarrow> nat \<Rightarrow> bool" where
  "bkt_sizes t k \<longleftrightarrow> k < 31 \<and> num_buckets t = 2 ^ k \<and> log2_num_buckets t = of_nat k \<and> length (buckets t) = 2 ^ k"

text \<open>At 32 GB, the size of \<open>2 ^ 31\<close> buckets, \<open>malloc\<close> has failed.\<close>

definition mem_bound :: "malloc \<Rightarrow> bool" where
  "mem_bound um \<longleftrightarrow> \<not> um (2 ^ 35)"

lemma bkt_sizes_double:
  assumes "bkt_sizes t k"
  shows "num_buckets t * 2 = 2 ^ (k + 1)" "2 * num_buckets t = 2 ^ (k + 1)" "unat (num_buckets t) = 2 ^ k"
    "unat (2 * num_buckets t) = 2 ^ (k + 1)" "unat (log2_num_buckets t + 1) = k + 1"
proof -
  have k: "k < 31" "num_buckets t = 2 ^ k" "log2_num_buckets t = of_nat k" using assms by (simp_all add: bkt_sizes_def)
  show d: "num_buckets t * 2 = 2 ^ (k + 1)" "2 * num_buckets t = 2 ^ (k + 1)" by (simp_all add: k(2))
  show "unat (num_buckets t) = 2 ^ k" unfolding k(2) using k(1) by (intro unat_pow2) simp
  show "unat (2 * num_buckets t) = 2 ^ (k + 1)" unfolding d(2) using k(1) by (intro unat_pow2) simp
  have "unat (of_nat (k + 1) :: u32) = k + 1" using k(1) by (intro unat_of_nat_le [where c = "31 :: u32"]) simp
  then show "unat (log2_num_buckets t + 1) = k + 1" by (simp add: k(3) add.commute)
qed

lemma ideal_len_pos:
  assumes "bkt_sizes t k" "num_items t \<noteq> 0"
  shows "ideal_len t \<noteq> 0"
proof -
  note d = bkt_sizes_double [OF assms(1)]
  let ?n = "num_items t"
  have m: "?n AND (num_buckets t * 2 - 1) = take_bit (k + 1) ?n"
    unfolding d(1) by (simp add: take_bit_eq_mask mask_eq_exp_minus_1)
  have i: "ideal_len t = drop_bit (k + 1) ?n + (if take_bit (k + 1) ?n \<noteq> 0 then 1 else 0)"
    unfolding ideal_len_def m d(5) by simp
  show ?thesis
  proof (cases "take_bit (k + 1) ?n = 0")
    case True
    have "push_bit (k + 1) (drop_bit (k + 1) ?n) + take_bit (k + 1) ?n = ?n" by (rule bits_ident)
    with True assms(2) have "drop_bit (k + 1) ?n \<noteq> 0" by auto
    with i True show ?thesis by simp
  next
    case False
    have "unat (drop_bit (k + 1) ?n) = unat ?n div 2 ^ (k + 1)" by (rule unat_drop_bit)
    also have "\<dots> \<le> unat ?n div 2" by (intro div_le_mono2) simp_all
    finally have "unat (drop_bit (k + 1) ?n) + 1 < 2 ^ 32" using unat_less_limit [of ?n] by simp
    then have "unat (drop_bit (k + 1) ?n + 1) = unat (drop_bit (k + 1) ?n) + 1" by (subst unat_add_less) simp_all
    with i False show ?thesis by (auto simp: unat_0)
  qed
qed

text \<open>The elements bucket by bucket.\<close>

lemma bkts_lists:
  assumes ok: "bkts_ok c bs f D" and f: "\<forall>e \<in> D. f e < length bs"
  obtains xss where "length xss = length bs" "\<forall>j < length bs. bkt_chain c (bs ! j) (xss ! j)"
    "distinct (concat xss)" "set (concat xss) = D"
proof -
  from ok have "\<forall>j. \<exists>xs. j < length bs \<longrightarrow> bkt_chain c (bs ! j) xs \<and> set xs = {e \<in> D. f e = j}" by (auto simp: bkts_ok_def)
  then obtain X where X: "\<And>j. j < length bs \<Longrightarrow> bkt_chain c (bs ! j) (X j) \<and> set (X j) = {e \<in> D. f e = j}" by metis
  have X': "bkt_chain c (bs ! j) (X j)" "set (X j) = {e \<in> D. f e = j}" "distinct (X j)" if "j < length bs" for j
    using X [OF that] chain_distinct by (auto simp: bkt_chain_def)
  have "distinct (concat (map X [0 ..< n]))" if "n \<le> length bs" for n
    using that
  proof (induction n)
    case (Suc n)
    have "set (X n) \<inter> set (concat (map X [0 ..< n])) = {}" using X'(2) Suc.prems by fastforce
    with Suc X'(3) [of n] show ?case by auto
  qed simp
  then have "distinct (concat (map X [0 ..< length bs]))" by simp
  moreover have "set (concat (map X [0 ..< length bs])) = D" using X'(2) f by fastforce
  ultimately show ?thesis using that [of "map X [0 ..< length bs]"] X'(1) by simp
qed

text \<open>The bytes of the doubled buckets.\<close>

lemma bkt_bytes:
  assumes "bkt_sizes t k"
  shows "ucast (2 * num_buckets t) * 16 = (2 ^ (k + 5) :: size_t)"
proof -
  have k: "k < 31" using assms by (simp add: bkt_sizes_def)
  have "ucast (2 ^ (k + 1) :: u32) = (2 ^ (k + 1) :: size_t)"
    using k by (intro bit_eqI) (auto simp: bit_simps)
  then show ?thesis unfolding bkt_sizes_double(2) [OF assms] by (simp add: power_add)
qed

lemma expand_ok:
  assumes sz: "bkt_sizes t k" and n: "num_items t \<noteq> 0" and um: "mem_bound um"
    and ok: "bkts_ok c (buckets t) (mask_bkt (num_buckets t) hashv) D"
  shows "\<not> um (2 ^ (k + 5)) \<and> HASH_EXPAND_BUCKETS um hashv t c = Some (Inl Exited) \<or>
    (\<exists>t' c'. HASH_EXPAND_BUCKETS um hashv t c = Some (Inr (t', c')) \<and> bkt_sizes t' (k + 1) \<and>
      bkts_ok c' (buckets t') (mask_bkt (num_buckets t') hashv) D \<and> num_items t' = num_items t \<and> ht_tail t' = ht_tail t)"
proof (cases "um (ucast (2 * num_buckets t) * 16)")
  case False
  with bkt_bytes [OF sz] show ?thesis by (simp add: HASH_EXPAND_BUCKETS_def)
next
  case True
  note d = bkt_sizes_double [OF sz]
  have k: "k < 31" "num_buckets t = 2 ^ k" "length (buckets t) = 2 ^ k" using sz by (simp_all add: bkt_sizes_def)
  have k30: "k < 30"
  proof (rule ccontr)
    assume "\<not> k < 30"
    with k(1) have "k = 30" by simp
    then have "ucast (2 * num_buckets t) * 16 = (2 ^ 35 :: size_t)" by (simp add: k(2))
    with True um show False by (simp add: mem_bound_def)
  qed
  have old: "\<forall>e \<in> D. mask_bkt (num_buckets t) hashv e < length (buckets t)"
    using mask_bkt_less [of k hashv] k by simp
  from bkts_lists [OF ok old] obtain xss where x: "length xss = length (buckets t)"
    "\<forall>j < length (buckets t). bkt_chain c (buckets t ! j) (xss ! j)" "distinct (concat xss)" "set (concat xss) = D" by blast
  have ch: "\<forall>j < length (buckets t). chain (hh_next c) (hh_head (buckets t ! j)) (xss ! j) None"
    using x(2) by (simp add: bkt_chain_def)
  have new: "\<forall>e. mask_bkt (num_buckets t * 2) hashv e < length (replicate (unat (2 * num_buckets t)) zero_bucket)"
    unfolding d(1) using mask_bkt_less [of "k + 1" hashv] k(1) by (simp only: length_replicate d(4)) simp
  from expand_all_ok [OF ch x(1,3) _ bkts_ok_zero new ideal_len_pos [OF sz n], of "0"] obtain c' nbs ni where
    e: "expand_all hashv (num_buckets t * 2) (ideal_len t) (buckets t) (c, replicate (unat (2 * num_buckets t)) zero_bucket, 0) =
        Some (Inr (c', nbs, ni))"
      "bkts_ok c' nbs (mask_bkt (num_buckets t * 2) hashv) D" "length nbs = 2 ^ (k + 1)"
    unfolding x(4) length_replicate d(4) by auto
  define ineff where "ineff = (if ni > drop_bit 1 (num_items t) then ineff_expands t + 1 else 0)"
  let ?t = "t\<lparr>buckets := nbs, num_buckets := num_buckets t * 2, log2_num_buckets := log2_num_buckets t + 1,
             ideal_chain_maxlen := ideal_len t, nonideal_items := ni, ineff_expands := ineff,
             noexpand := (if ineff > 1 then 1 else noexpand t)\<rparr>"
  have all: "take (unat (num_buckets t)) (buckets t) = buckets t" "\<not> length (buckets t) < unat (num_buckets t)"
    unfolding d(3) by (simp_all add: k(3))
  have run: "HASH_EXPAND_BUCKETS um hashv t c = Some (Inr (?t, c'))"
    using True all by (simp add: HASH_EXPAND_BUCKETS_def e(1) Let_def ineff_def)
  have "bkt_sizes ?t (k + 1)" using sz k30 e(3) d(1) by (simp add: bkt_sizes_def add.commute)
  with run e(2) show ?thesis by (intro disjI2 exI [of _ ?t] exI [of _ c']) simp
qed

section \<open>The invariant\<close>

text \<open>The key of an element.\<close>

definition hkey :: "ut_hash \<Rightarrow> nat \<Rightarrow> bytes" where
  "hkey h e = take (unat (h_keylen h e)) (h_key h e)"

definition keys_ok :: "hash_fcn \<Rightarrow> ut_hash \<Rightarrow> nat set \<Rightarrow> bool" where
  "keys_ok hf h D \<longleftrightarrow> (\<forall>e \<in> D. unat (h_keylen h e) \<le> length (h_key h e) \<and>
     hf (h_key h e) (ucast (h_keylen h e)) = Inr (h_hashv h e))"

definition table_ok :: "hash_fcn \<Rightarrow> ut_hash \<Rightarrow> ut_table \<Rightarrow> nat list \<Rightarrow> bool" where
  "table_ok hf h t A \<longleftrightarrow> ht_tail t = last A \<and> (\<exists>k. bkt_sizes t k) \<and> num_items t = of_nat (length A) \<and> length A < 2 ^ 32 \<and>
     bkts_ok (h_chains h) (buckets t) (mask_bkt (num_buckets t) (h_hashv h)) (set A) \<and> keys_ok hf h (set A)"

definition hash_ok :: "hash_fcn \<Rightarrow> ut_hash \<Rightarrow> nat list \<Rightarrow> bool" where
  "hash_ok hf h A \<longleftrightarrow> chain (dl_next (h_app h)) (dl_head (h_app h)) A None \<and> backs_to (dl_prev (h_app h)) None A \<and>
     (A \<noteq> [] \<longrightarrow> (\<exists>t. h_tbl h = Some t \<and> table_ok hf h t A))"

lemma hash_ok_head: "hash_ok hf h A \<Longrightarrow> dl_head (h_app h) = first_of A None"
  using chain_first by (auto simp: hash_ok_def)

lemma hash_ok_distinct: "hash_ok hf h A \<Longrightarrow> distinct A"
  using chain_distinct by (auto simp: hash_ok_def)

text \<open>A bound on the logarithm of the number of buckets, and the memory that it allows to be asked for.\<close>

definition bits_le :: "ut_hash \<Rightarrow> nat \<Rightarrow> bool" where
  "bits_le h b \<longleftrightarrow> 5 \<le> b \<and> (dl_head (h_app h) \<noteq> None \<longrightarrow> (\<forall>t. h_tbl h = Some t \<longrightarrow> unat (log2_num_buckets t) \<le> b))"

definition no_memory :: "malloc \<Rightarrow> nat \<Rightarrow> bool" where
  "no_memory um b \<longleftrightarrow> (\<exists>j \<in> {5..b + 5}. \<not> um (2 ^ j))"

lemma bkt_sizes_log: "bkt_sizes t k \<Longrightarrow> unat (log2_num_buckets t) = k"
  unfolding bkt_sizes_def by (auto intro: unat_of_nat_le [where c = "31 :: u32"])

section \<open>Lookup\<close>

lemma find_loop_chain:
  assumes "chain nx p xs None" "\<And>e. e \<in> set xs \<Longrightarrow> test e = Inr (P e)"
  shows "find_loop nx test p = Some (Inr (List.find P xs))"
  using assms
proof (induction xs arbitrary: p)
  case Nil
  then show ?case by (subst find_loop.simps) simp
next
  case (Cons x xs)
  then show ?case by (subst find_loop.simps) simp
qed

lemma unat_ucast_up: "unat (ucast w :: size_t) = unat w" for w :: u32
proof -
  have "unat w < 2 ^ 64" using unat_less_limit [of w] by simp
  then show ?thesis by (simp add: unsigned_ucast_eq take_bit_nat_eq_self)
qed

lemma same_key_ok:
  assumes "keys_ok hf h D" "e \<in> D" "unat n \<le> length k"
  shows "same_key h k n e = Inr (hkey h e = take (unat n) k)"
proof -
  have l: "unat (h_keylen h e) \<le> length (h_key h e)" using assms by (simp add: keys_ok_def)
  show ?thesis
  proof (cases "ucast (h_keylen h e) = n")
    case True
    then have "unat n = unat (h_keylen h e)" using unat_ucast_up by auto
    with True l assms(3) show ?thesis by (simp add: same_key_def HASH_KEYCMP_def mem_read_def hkey_def)
  next
    case False
    then have "unat (h_keylen h e) \<noteq> unat n" using unat_ucast_up [of "h_keylen h e"] by (metis word_unat_eq_iff)
    then have "length (hkey h e) \<noteq> length (take (unat n) k)" using l assms(3) by (simp add: hkey_def)
    then have "hkey h e \<noteq> take (unat n) k" by metis
    with False show ?thesis by (simp add: same_key_def)
  qed
qed

context hash_function
begin

lemma same_hash:
  assumes "keys_ok hf h D" "e \<in> D" "unat n < lim" "unat n \<le> length k" "hkey h e = take (unat n) k" "hf k n = Inr v"
  shows "h_hashv h e = v"
proof -
  have l: "unat (h_keylen h e) \<le> length (h_key h e)" "hf (h_key h e) (ucast (h_keylen h e)) = Inr (h_hashv h e)"
    using assms(1,2) by (simp_all add: keys_ok_def)
  from assms(5) have "length (hkey h e) = length (take (unat n) k)" by simp
  then have n: "unat (h_keylen h e) = unat n" using l(1) assms(4) by (simp add: hkey_def)
  then have u: "ucast (h_keylen h e) = n" using unat_ucast_up [of "h_keylen h e"] by (metis word_unat_eq_iff)
  have "hf (h_key h e) n = hf k n"
    using assms(3-5) l(1) n by (intro bytes_only) (simp_all add: hkey_def)
  with l(2) u assms(6) show ?thesis by simp
qed

lemma find_ok:
  assumes ok: "hash_ok hf h A" and n: "unat n < lim" "unat n \<le> length k"
  shows "\<exists>r. HASH_FIND hf k n h = Some (Inr r) \<and>
    (case r of None \<Rightarrow> \<forall>e \<in> set A. hkey h e \<noteq> take (unat n) k | Some e \<Rightarrow> e \<in> set A \<and> hkey h e = take (unat n) k)"
proof (cases "A = []")
  case True
  with hash_ok_head [OF ok] show ?thesis by (simp add: HASH_FIND_def)
next
  case False
  with ok obtain t where t: "h_tbl h = Some t" "table_ok hf h t A" by (auto simp: hash_ok_def)
  from t(2) obtain b where b: "bkt_sizes t b" and bk: "bkts_ok (h_chains h) (buckets t) (mask_bkt (num_buckets t) (h_hashv h)) (set A)"
    and keys: "keys_ok hf h (set A)" by (auto simp: table_ok_def)
  have nb: "num_buckets t = 2 ^ b" "length (buckets t) = 2 ^ b" "b < 32" using b by (simp_all add: bkt_sizes_def)
  from returns [OF n] obtain v where v: "hf k n = Inr v" ..
  define j where "j = unat (HASH_TO_BKT v (num_buckets t))"
  have j: "j < length (buckets t)"
    using mask_bkt_less [OF nb(3), of "\<lambda>_. v"] unfolding j_def nb(1,2) mask_bkt_def .
  with bk obtain xs where xs: "bkt_chain (h_chains h) (buckets t ! j) xs"
    "set xs = {e \<in> set A. mask_bkt (num_buckets t) (h_hashv h) e = j}" by (auto simp: bkts_ok_def)
  let ?P = "\<lambda>e. hkey h e = take (unat n) k"
  have fl: "find_loop (hh_next (h_chains h)) (same_key h k n) (hh_head (buckets t ! j)) = Some (Inr (List.find ?P xs))"
    using xs same_key_ok [OF keys _ n(2)] by (intro find_loop_chain) (auto simp: bkt_chain_def)
  obtain a where "dl_head (h_app h) = Some a" using hash_ok_head [OF ok] False by (cases A) auto
  then have run: "HASH_FIND hf k n h = Some (Inr (List.find ?P xs))"
    using fl j by (simp add: HASH_FIND_def the_tbl_def t(1) v nth_bucket_def j_def [symmetric] HASH_FIND_IN_BKT_def)
  show ?thesis
  proof (cases "List.find ?P xs")
    case None
    have "\<not> ?P e" if e: "e \<in> set A" for e
    proof
      assume "?P e"
      with same_hash [OF keys e n _ v] have "h_hashv h e = v" by simp
      then have "mask_bkt (num_buckets t) (h_hashv h) e = j" by (simp add: mask_bkt_def j_def)
      with e xs(2) have "e \<in> set xs" by simp
      with None \<open>?P e\<close> show False by (auto simp: find_None_iff)
    qed
    with None run show ?thesis by simp
  next
    case (Some e)
    then have "e \<in> set xs" "?P e" by (auto simp: find_Some_iff)
    with xs(2) Some run show ?thesis by simp
  qed
qed

end

section \<open>Adding\<close>

lemma add_to_bkt_ok:
  assumes sz: "bkt_sizes t k" and ok: "bkts_ok c (buckets t) (mask_bkt (num_buckets t) hashv) D"
    and new: "add \<notin> D" and n: "num_items t \<noteq> 0" and um: "mem_bound um"
  shows "\<not> um (2 ^ (k + 5)) \<and> HASH_ADD_TO_BKT um hashv (HASH_TO_BKT (hashv add) (num_buckets t)) add t c = Some (Inl Exited) \<or>
    (\<exists>t' c'. HASH_ADD_TO_BKT um hashv (HASH_TO_BKT (hashv add) (num_buckets t)) add t c = Some (Inr (t', c')) \<and>
      (\<exists>k'. k' \<le> k + 1 \<and> bkt_sizes t' k') \<and> bkts_ok c' (buckets t') (mask_bkt (num_buckets t') hashv) (insert add D) \<and>
      num_items t' = num_items t \<and> ht_tail t' = ht_tail t)"
proof -
  let ?b = "mask_bkt (num_buckets t) hashv add"
  let ?bk = "(buckets t ! ?b)\<lparr>b_count := b_count (buckets t ! ?b) + 1, hh_head := Some add\<rparr>"
  let ?c = "push_bkt add (buckets t ! ?b) c" and ?t = "t\<lparr>buckets := (buckets t)[?b := ?bk]\<rparr>"
  have b: "?b < length (buckets t)" using sz mask_bkt_less [of k hashv add] by (simp add: bkt_sizes_def)
  have push: "bkts_ok ?c (buckets ?t) (mask_bkt (num_buckets ?t) hashv) (insert add D)"
    using bkts_push [OF ok new b, of ?bk] by simp
  have sz': "bkt_sizes ?t k" "num_items ?t \<noteq> 0" using sz n by (simp_all add: bkt_sizes_def)
  have run: "HASH_ADD_TO_BKT um hashv (HASH_TO_BKT (hashv add) (num_buckets t)) add t c =
    (if b_count ?bk \<ge> (expand_mult ?bk + 1) * HASH_BKT_CAPACITY_THRESH \<and> noexpand ?t \<noteq> 1
     then HASH_EXPAND_BUCKETS um hashv ?t ?c else Some (Inr (?t, ?c)))"
    using b by (simp add: HASH_ADD_TO_BKT_def nth_bucket_def mask_bkt_def [symmetric] Let_def)
  show ?thesis
  proof (cases "b_count ?bk \<ge> (expand_mult ?bk + 1) * HASH_BKT_CAPACITY_THRESH \<and> noexpand ?t \<noteq> 1")
    case True
    then have "HASH_ADD_TO_BKT um hashv (HASH_TO_BKT (hashv add) (num_buckets t)) add t c = HASH_EXPAND_BUCKETS um hashv ?t ?c"
      unfolding run by (rule if_P)
    with expand_ok [OF sz' um push] show ?thesis by auto
  next
    case False
    then have "HASH_ADD_TO_BKT um hashv (HASH_TO_BKT (hashv add) (num_buckets t)) add t c = Some (Inr (?t, ?c))"
      unfolding run by (rule if_not_P)
    with push sz' show ?thesis by (intro disjI2 exI [of _ ?t] exI [of _ ?c]) (auto intro!: exI [of _ k])
  qed
qed

lemma keys_ok_insert:
  assumes "keys_ok hf h D" "add \<notin> D" "unat n < 2 ^ 32" "unat n \<le> length k" "hf k n = Inr v"
    and "h_key h' = (h_key h)(add := k)" "h_keylen h' = (h_keylen h)(add := ucast n)" "h_hashv h' = (h_hashv h)(add := v)"
  shows "keys_ok hf h' (insert add D)"
proof -
  have u: "unat (ucast n :: u32) = unat n" by (rule unat_ucast_small [OF assms(3)])
  then have "ucast (ucast n :: u32) = n" using unat_ucast_up [of "ucast n"] by (metis word_unat_eq_iff)
  then have "unat (h_keylen h' e) \<le> length (h_key h' e) \<and> hf (h_key h' e) (ucast (h_keylen h' e)) = Inr (h_hashv h' e)"
    if "e \<in> insert add D" for e
    using that assms(1,2,4,5) u by (cases "e = add") (auto simp: assms(6-8) keys_ok_def)
  then show ?thesis by (simp add: keys_ok_def)
qed

lemma mask_bkt_cong: "(\<And>e. e \<in> D \<Longrightarrow> f e = g e) \<Longrightarrow> bkts_ok c bs f D = bkts_ok c bs g D"
proof -
  assume "\<And>e. e \<in> D \<Longrightarrow> f e = g e"
  then have "{e \<in> D. f e = j} = {e \<in> D. g e = j}" for j by auto
  then show ?thesis by (simp add: bkts_ok_def)
qed

lemma bkts_ok_hashv [simp]: "e \<notin> D \<Longrightarrow> bkts_ok c bs (mask_bkt n (hv(e := v))) D = bkts_ok c bs (mask_bkt n hv) D"
  by (rule mask_bkt_cong) (auto simp: mask_bkt_def)

lemma make_table_ok:
  assumes "HASH_MAKE_TABLE um add h = Inr h'"
  shows "\<exists>t. h' = h\<lparr>h_tbl := Some t\<rparr> \<and> bkt_sizes t 5 \<and> num_items t = 0 \<and> ht_tail t = add \<and> bkts_ok c (buckets t) f {}"
proof -
  let ?t = "\<lparr>buckets = replicate (unat HASH_INITIAL_NUM_BUCKETS) zero_bucket,
             num_buckets = HASH_INITIAL_NUM_BUCKETS, log2_num_buckets = HASH_INITIAL_NUM_BUCKETS_LOG2, num_items = 0,
             ht_tail = add, ideal_chain_maxlen = 0, nonideal_items = 0, ineff_expands = 0, noexpand = 0\<rparr>"
  have "h' = h\<lparr>h_tbl := Some ?t\<rparr>" using assms by (auto simp: HASH_MAKE_TABLE_def split: if_splits)
  moreover have "bkt_sizes ?t 5" by (simp add: bkt_sizes_def HASH_INITIAL_NUM_BUCKETS_def HASH_INITIAL_NUM_BUCKETS_LOG2_def)
  ultimately show ?thesis using bkts_ok_zero by (intro exI [of _ ?t]) simp
qed

text \<open>What the new element is linked to before it goes to its bucket.\<close>

definition linked_last :: "ut_hash \<Rightarrow> nat list \<Rightarrow> nat \<Rightarrow> bytes \<Rightarrow> size_t \<Rightarrow> ut_hash \<Rightarrow> ut_table \<Rightarrow> bool" where
  "linked_last h A add k n h2 t \<longleftrightarrow>
     chain (dl_next (h_app h2)) (dl_head (h_app h2)) (A @ [add]) None \<and> backs_to (dl_prev (h_app h2)) None (A @ [add]) \<and>
     h_key h2 = (h_key h)(add := k) \<and> h_keylen h2 = (h_keylen h)(add := ucast n) \<and> h_hashv h2 = h_hashv h \<and>
     h_chains h2 = h_chains h \<and> h_tbl h2 = Some t \<and> (\<exists>b. bkt_sizes t b) \<and> num_items t = of_nat (length A) \<and> ht_tail t = add \<and>
     (\<forall>b. bits_le h b \<longrightarrow> unat (log2_num_buckets t) \<le> b) \<and> bkts_ok (h_chains h) (buckets t) (mask_bkt (num_buckets t) (h_hashv h)) (set A)"

lemma link_last_ok:
  fixes h add k n
  defines "h1 \<equiv> h\<lparr>h_app := set_next add None (h_app h), h_key := (h_key h)(add := k), h_keylen := (h_keylen h)(add := ucast n)\<rparr>"
  assumes ok: "hash_ok hf h A" and new: "add \<notin> set A"
    and link: "link_last um add h1 = Inr h2"
  shows "\<exists>t. linked_last h A add k n h2 t"
proof (cases A rule: rev_cases)
  case Nil
  then have hd: "dl_head (h_app h1) = None" using hash_ok_head [OF ok] by (simp add: h1_def)
  from make_table_ok [OF link [unfolded link_last_def if_P [OF hd]], of "h_chains h" "mask_bkt 32 (h_hashv h)"] obtain t where
    t: "h2 = h1\<lparr>h_app := set_prev add None ((h_app h1)\<lparr>dl_head := Some add\<rparr>), h_tbl := Some t\<rparr>" "bkt_sizes t 5"
      "num_items t = 0" "ht_tail t = add" "bkts_ok (h_chains h) (buckets t) (mask_bkt 32 (h_hashv h)) {}" by auto
  have "num_buckets t = 32" using t(2) by (simp add: bkt_sizes_def)
  moreover have "unat (log2_num_buckets t) = 5" by (rule bkt_sizes_log [OF t(2)])
  ultimately show ?thesis using t Nil by (auto simp: linked_last_def h1_def bits_le_def)
next
  case (snoc B z)
  then have "A \<noteq> []" by simp
  with ok obtain t where t: "h_tbl h = Some t" "table_ok hf h t A" by (auto simp: hash_ok_def)
  have hd: "dl_head (h_app h1) \<noteq> None" using hash_ok_head [OF ok] snoc by (cases B) (simp_all add: h1_def)
  have tb: "h_tbl h1 = Some t" by (simp add: h1_def t(1))
  have h2: "h2 = h1\<lparr>h_app := set_prev add (Some (ht_tail t)) (set_next (ht_tail t) (Some add) (h_app h1)), h_tbl := Some (t\<lparr>ht_tail := add\<rparr>)\<rparr>"
    using link [unfolded link_last_def if_not_P [OF hd]] by (simp add: the_tbl_def tb)
  have z: "ht_tail t = z" using t(2) snoc by (simp add: table_ok_def)
  have ap: "chain (dl_next (h_app h)) (dl_head (h_app h)) A None" "backs_to (dl_prev (h_app h)) None A"
    using ok by (simp_all add: hash_ok_def)
  have d: "distinct A" using ok by (rule hash_ok_distinct)
  have "chain (dl_next (h_app h2)) (dl_head (h_app h2)) (A @ [add]) None" "backs_to (dl_prev (h_app h2)) None (A @ [add])"
    using ap d new snoc unfolding h2 z by (cases B; auto simp: h1_def)+
  moreover have "\<exists>b. bkt_sizes (t\<lparr>ht_tail := add\<rparr>) b" using t(2) by (auto simp: table_ok_def bkt_sizes_def)
  moreover have "\<forall>b. bits_le h b \<longrightarrow> unat (log2_num_buckets t) \<le> b" using hd t(1) by (simp add: bits_le_def h1_def)
  ultimately show ?thesis
    using t(2) h2 new \<open>A \<noteq> []\<close> by (intro exI [of _ "t\<lparr>ht_tail := add\<rparr>"]) (simp add: linked_last_def h1_def table_ok_def last_of_def)
qed

lemma make_table_faults: "HASH_MAKE_TABLE um e h = Inl f \<Longrightarrow> f = Exited \<and> (\<not> um 64 \<or> \<not> um (2 ^ 9))"
  by (auto simp: HASH_MAKE_TABLE_def HASH_INITIAL_NUM_BUCKETS_def split: if_splits)

context hash_function
begin

lemma add_ok:
  assumes ok: "hash_ok hf h A" and new: "add \<notin> set A" and n: "unat n < lim" "unat n \<le> length k"
    and len: "length A + 1 < 2 ^ 32" and um: "mem_bound um" and bits: "bits_le h c"
  shows "no_memory um c \<and> HASH_ADD_KEYPTR hf um k n add h = Some (Inl Exited) \<or>
    (\<exists>h'. HASH_ADD_KEYPTR hf um k n add h = Some (Inr h') \<and> hash_ok hf h' (A @ [add]) \<and> bits_le h' (c + 1) \<and>
      hkey h' add = take (unat n) k \<and> (\<forall>e. e \<noteq> add \<longrightarrow> hkey h' e = hkey h e))"
proof -
  let ?h1 = "h\<lparr>h_app := set_next add None (h_app h), h_key := (h_key h)(add := k), h_keylen := (h_keylen h)(add := ucast n)\<rparr>"
  have n32: "unat n < 2 ^ 32" using n(1) limit by linarith
  from returns [OF n] obtain v where v: "hf k n = Inr v" ..
  show ?thesis
  proof (cases "link_last um add ?h1")
    case (Inl f)
    have "f = Exited \<and> no_memory um c"
    proof (cases "A = []")
      case True
      then have "f = Exited \<and> (\<not> um (2 ^ 6) \<or> \<not> um (2 ^ 9))" "5 \<le> c"
        using Inl hash_ok_head [OF ok] bits make_table_faults [where um = um and e = add and f = f]
        by (auto simp: link_last_def bits_le_def)
      then show ?thesis unfolding no_memory_def by (auto intro: bexI [of _ "6 :: nat"] bexI [of _ "9 :: nat"] simp del: power_numeral)
    next
      case False
      with ok obtain t where "h_tbl h = Some t" by (auto simp: hash_ok_def)
      moreover obtain a where "dl_head (h_app h) = Some a" using hash_ok_head [OF ok] False by (cases A) auto
      ultimately show ?thesis using Inl by (simp add: link_last_def the_tbl_def)
    qed
    with Inl show ?thesis by (simp add: HASH_ADD_KEYPTR_def Let_def)
  next
    case (Inr h2)
    from link_last_ok [OF ok new, where k = k and n = n and um = um] Inr obtain t where "linked_last h A add k n h2 t" by blast
    then have l: "chain (dl_next (h_app h2)) (dl_head (h_app h2)) (A @ [add]) None" "backs_to (dl_prev (h_app h2)) None (A @ [add])"
      "h_key h2 = (h_key h)(add := k)" "h_keylen h2 = (h_keylen h)(add := ucast n)" "h_hashv h2 = h_hashv h"
      "h_chains h2 = h_chains h" "h_tbl h2 = Some t" "\<exists>b. bkt_sizes t b" "num_items t = of_nat (length A)" "ht_tail t = add"
      "\<forall>b. bits_le h b \<longrightarrow> unat (log2_num_buckets t) \<le> b"
      "bkts_ok (h_chains h) (buckets t) (mask_bkt (num_buckets t) (h_hashv h)) (set A)" by (simp_all add: linked_last_def)
    let ?t = "t\<lparr>num_items := num_items t + 1\<rparr>" and ?hv = "(h_hashv h)(add := v)"
    from l(8) obtain b where sz: "bkt_sizes ?t b" by (auto simp: bkt_sizes_def)
    have cnt: "num_items ?t = of_nat (length (A @ [add]))" using l(9) by simp
    have "unat (num_items ?t) = length (A @ [add])" unfolding cnt using len
      by (simp only: unsigned_of_nat of_nat_id) (simp add: take_bit_nat_eq_self)
    then have nz: "num_items ?t \<noteq> 0" by (auto simp: unat_0)
    have bk: "bkts_ok (h_chains h) (buckets ?t) (mask_bkt (num_buckets ?t) ?hv) (set A)" using l(12) new by simp
    note a = add_to_bkt_ok [OF sz bk new nz um]
    have run: "HASH_ADD_KEYPTR hf um k n add h =
      run_bind (HASH_ADD_TO_BKT um ?hv (HASH_TO_BKT (?hv add) (num_buckets ?t)) add ?t (h_chains h))
        (\<lambda>(t', c'). Some (Inr (h2\<lparr>h_hashv := ?hv, h_tbl := Some t', h_chains := c'\<rparr>)))"
      by (simp add: HASH_ADD_KEYPTR_def Let_def Inr the_tbl_def l(5-7) v)
    have bc: "b \<le> c" using bkt_sizes_log [OF sz] l(11) bits by simp
    from a show ?thesis
    proof (elim disjE exE conjE)
      assume "\<not> um (2 ^ (b + 5))"
        "HASH_ADD_TO_BKT um ?hv (HASH_TO_BKT (?hv add) (num_buckets ?t)) add ?t (h_chains h) = Some (Inl Exited)"
      then show ?thesis using bc by (auto simp: run no_memory_def intro!: bexI [of _ "b + 5"])
    next
      fix t' c' k'
      assume b: "HASH_ADD_TO_BKT um ?hv (HASH_TO_BKT (?hv add) (num_buckets ?t)) add ?t (h_chains h) = Some (Inr (t', c'))"
        "k' \<le> b + 1" "bkt_sizes t' k'" "bkts_ok c' (buckets t') (mask_bkt (num_buckets t') ?hv) (insert add (set A))"
        "num_items t' = num_items ?t" "ht_tail t' = ht_tail ?t"
      let ?h' = "h2\<lparr>h_hashv := ?hv, h_tbl := Some t', h_chains := c'\<rparr>"
      have "keys_ok hf h (set A)" using ok by (cases "A = []") (auto simp: hash_ok_def table_ok_def keys_ok_def)
      then have ks: "keys_ok hf ?h' (insert add (set A))"
        using keys_ok_insert [where hf = hf and h = h and D = "set A" and add = add and n = n and k = k and v = v] new n32 n(2) v
        by (simp add: l)
      have "table_ok hf ?h' t' (A @ [add])"
        using b(3-6) ks cnt len l(10) unfolding table_ok_def by auto
      then have "hash_ok hf ?h' (A @ [add])" using l(1,2) by (simp add: hash_ok_def)
      moreover have "bits_le ?h' (c + 1)" using bits b(2) bc bkt_sizes_log [OF b(3)] by (simp add: bits_le_def)
      moreover have "hkey ?h' add = take (unat n) k" by (simp add: hkey_def l unat_ucast_small [OF n32])
      moreover have "\<forall>e. e \<noteq> add \<longrightarrow> hkey ?h' e = hkey h e" by (simp add: hkey_def l)
      moreover have "HASH_ADD_KEYPTR hf um k n add h = Some (Inr ?h')" unfolding run b(1) by simp
      ultimately show ?thesis by blast
    qed
  qed
qed

end

text \<open>The bound on the buckets exists, and the operations that do not add keep it.\<close>

lemma bits_le_ex: "\<exists>b. bits_le h b"
proof (cases "h_tbl h")
  case None
  then show ?thesis by (intro exI [of _ 5]) (simp add: bits_le_def)
next
  case (Some t)
  then show ?thesis by (intro exI [of _ "max 5 (unat (log2_num_buckets t))"]) (simp add: bits_le_def)
qed

lemma bits_le_null: "dl_head (h_app h) = None \<Longrightarrow> bits_le h 5"
  by (simp add: bits_le_def)

lemma bits_le_mono: "bits_le h b \<Longrightarrow> b \<le> b' \<Longrightarrow> bits_le h b'"
  by (auto simp: bits_le_def)

lemma no_memory_mono: "no_memory um b \<Longrightarrow> b \<le> b' \<Longrightarrow> no_memory um b'"
  by (auto simp: no_memory_def)

lemma delete_bits:
  assumes "HASH_DELETE e h = Inr h'" "bits_le h b"
  shows "bits_le h' b"
proof -
  from assms(1) obtain x t where x: "dl_head (h_app h) = Some x" "h_tbl h = Some t"
    by (cases "dl_head (h_app h)"; cases "h_tbl h") (auto simp: HASH_DELETE_def the_tbl_def)
  show ?thesis
  proof (cases "dl_prev (h_app h) e = None \<and> dl_next (h_app h) e = None")
    case True
    with assms x show ?thesis by (auto simp: HASH_DELETE_def the_tbl_def bits_le_def)
  next
    case False
    then obtain t2 where t: "h_tbl h' = Some t2" "log2_num_buckets t2 = log2_num_buckets t"
      using assms(1) x unfolding HASH_DELETE_def if_not_P [OF False]
      by (cases "dl_prev (h_app h) e")
        (auto simp: the_tbl_def HASH_DEL_IN_BKT_def nth_bucket_def Let_def res_bind_def split: if_splits sum.splits)
    then show ?thesis using assms(2) x by (simp add: bits_le_def)
  qed
qed

lemma clear_bits: "bits_le h b \<Longrightarrow> bits_le (HASH_CLEAR h) b"
  by (simp add: HASH_CLEAR_def bits_le_def)

lemma sort_bits: "HASH_SRT cmp h = Some (Inr h') \<Longrightarrow> bits_le h b \<Longrightarrow> bits_le h' b"
  by (auto simp: HASH_SRT_def bits_le_def run_bind_def the_tbl_def res_bind_def split: if_splits option.splits sum.splits)

end
