(* ===== verification/Uthash_Delete.thy ===== *)
theory Uthash_Delete
  imports Uthash_Inv Utlist_Sort_Props
begin

text \<open>
  Deleting, sorting, counting, walking over and checking a hash table that meets the
  invariant.
\<close>

section \<open>Deleting\<close>

lemma unlink_bkt_chain:
  assumes ch: "bkt_chain c b (us @ d # vs)"
  defines "c1 \<equiv> (case hh_prev c d of Some p \<Rightarrow> set_hh_next p (hh_next c d) c | None \<Rightarrow> c)"
  defines "c2 \<equiv> (case hh_next c1 d of Some n \<Rightarrow> set_hh_prev n (hh_prev c1 d) c1 | None \<Rightarrow> c1)"
  shows "bkt_chain c2 (b\<lparr>b_count := b_count b - 1, hh_head := (if hh_head b = Some d then hh_next c d else hh_head b)\<rparr>) (us @ vs)"
    "x \<notin> set (us @ d # vs) \<Longrightarrow> hh_next c2 x = hh_next c x \<and> hh_prev c2 x = hh_prev c x"
proof -
  have d: "distinct (us @ d # vs)" using ch by (intro chain_distinct [of "hh_next c" "hh_head b"]) (simp only: bkt_chain_def)
  have l: "hh_next c d = first_of vs None" "hh_prev c d = last_of None us"
    using ch chain_first [of "hh_next c" "hh_next c d" vs None] by (auto simp: bkt_chain_def)
  have h: "hh_head b = first_of us (Some d)" using ch chain_first by (fastforce simp: bkt_chain_def)
  have "bkt_chain c2 (b\<lparr>b_count := b_count b - 1, hh_head := (if hh_head b = Some d then hh_next c d else hh_head b)\<rparr>) (us @ vs) \<and>
    (\<forall>x. x \<notin> set (us @ d # vs) \<longrightarrow> hh_next c2 x = hh_next c x \<and> hh_prev c2 x = hh_prev c x)"
  proof (cases us rule: rev_cases)
    case Nil
    then show ?thesis using ch d l h by (cases vs) (auto simp: bkt_chain_def c1_def c2_def)
  next
    case (snoc us' t)
    then show ?thesis using ch d l h by (cases us'; cases vs) (auto simp: bkt_chain_def c1_def c2_def)
  qed
  then show "bkt_chain c2 (b\<lparr>b_count := b_count b - 1, hh_head := (if hh_head b = Some d then hh_next c d else hh_head b)\<rparr>) (us @ vs)"
    "x \<notin> set (us @ d # vs) \<Longrightarrow> hh_next c2 x = hh_next c x \<and> hh_prev c2 x = hh_prev c x" by blast+
qed

lemma del_in_bkt_ok:
  assumes ok: "bkts_ok c (buckets t) f D" and d: "d \<in> D" "f d < length (buckets t)" and b: "f d = unat b"
  shows "\<exists>nbs c'. HASH_DEL_IN_BKT d b t c = Inr (t\<lparr>buckets := nbs\<rparr>, c') \<and> bkts_ok c' nbs f (D - {d}) \<and>
    length nbs = length (buckets t)"
proof -
  from ok d(2) obtain xs where xs: "bkt_chain c (buckets t ! f d) xs" "set xs = {e \<in> D. f e = f d}" by (auto simp: bkts_ok_def)
  then have "d \<in> set xs" using d(1) by simp
  then obtain us vs where s: "xs = us @ d # vs" by (meson split_list)
  have dist: "distinct xs" using xs(1) chain_distinct by (auto simp: bkt_chain_def)
  let ?bk = "buckets t ! f d"
  let ?bk' = "?bk\<lparr>b_count := b_count ?bk - 1, hh_head := (if hh_head ?bk = Some d then hh_next c d else hh_head ?bk)\<rparr>"
  define c1 where "c1 = (case hh_prev c d of Some p \<Rightarrow> set_hh_next p (hh_next c d) c | None \<Rightarrow> c)"
  define c2 where "c2 = (case hh_next c1 d of Some n \<Rightarrow> set_hh_prev n (hh_prev c1 d) c1 | None \<Rightarrow> c1)"
  note u = unlink_bkt_chain [OF xs(1) [unfolded s], folded c1_def, folded c2_def]
  have "bkts_ok c2 ((buckets t)[f d := ?bk']) f (D - {d})"
    unfolding bkts_ok_def
  proof (intro allI impI)
    fix j assume j: "j < length ((buckets t)[f d := ?bk'])"
    show "\<exists>ys. bkt_chain c2 ((buckets t)[f d := ?bk'] ! j) ys \<and> set ys = {e \<in> D - {d}. f e = j}"
    proof (cases "j = f d")
      case True
      have "set (us @ vs) = {e \<in> D - {d}. f e = f d}" using xs(2) dist s by auto
      with True u(1) d(2) show ?thesis by (intro exI [of _ "us @ vs"]) simp
    next
      case False
      from ok j obtain ys where ys: "bkt_chain c (buckets t ! j) ys" "set ys = {e \<in> D. f e = j}" by (auto simp: bkts_ok_def)
      have "x \<notin> set (us @ d # vs)" if "x \<in> set ys" for x using that ys(2) xs(2) False unfolding s [symmetric] by auto
      then have "bkt_chain c2 (buckets t ! j) ys" by (intro bkt_chain_frame [OF ys(1)] u(2))
      with False ys(2) show ?thesis by (intro exI [of _ ys]) auto
    qed
  qed
  moreover have "HASH_DEL_IN_BKT d b t c = Inr (t\<lparr>buckets := (buckets t)[f d := ?bk']\<rparr>, c2)"
    using d(2) b by (simp add: HASH_DEL_IN_BKT_def nth_bucket_def c1_def [symmetric] c2_def [symmetric] Let_def)
  ultimately show ?thesis by auto
qed

text \<open>The list in the order of insertion without \<open>d\<close>.\<close>

lemma unlink_app_ok:
  assumes ch: "chain (dl_next a) (dl_head a) (as @ d # bs) None" "backs_to (dl_prev a) None (as @ d # bs)"
  defines "a1 \<equiv> (case dl_prev a d of Some p \<Rightarrow> set_next p (dl_next a d) a | None \<Rightarrow> a\<lparr>dl_head := dl_next a d\<rparr>)"
  defines "a2 \<equiv> (case dl_next a1 d of Some n \<Rightarrow> set_prev n (dl_prev a1 d) a1 | None \<Rightarrow> a1)"
  shows "chain (dl_next a2) (dl_head a2) (as @ bs) None \<and> backs_to (dl_prev a2) None (as @ bs)"
proof -
  have d: "distinct (as @ d # bs)" using ch(1) by (rule chain_distinct)
  have l: "dl_next a d = first_of bs None" "dl_prev a d = last_of None as"
    using ch chain_first [of "dl_next a" "dl_next a d" bs None] by auto
  show ?thesis
  proof (cases as rule: rev_cases)
    case Nil
    then show ?thesis using ch d l by (cases bs) (auto simp: a1_def a2_def)
  next
    case (snoc as' t)
    then show ?thesis using ch d l by (cases as'; cases bs) (auto simp: a1_def a2_def)
  qed
qed

lemma delete_ok:
  assumes ok: "hash_ok hf h A" and d: "d \<in> set A"
  shows "\<exists>h'. HASH_DELETE d h = Inr h' \<and> hash_ok hf h' (remove1 d A) \<and> hkey h' = hkey h"
proof -
  from d obtain as bs where A: "A = as @ d # bs" by (meson split_list)
  have dist: "distinct A" using ok by (rule hash_ok_distinct)
  then have r: "remove1 d A = as @ bs" unfolding A by (rule remove1_split)
  have ap: "chain (dl_next (h_app h)) (dl_head (h_app h)) (as @ d # bs) None" "backs_to (dl_prev (h_app h)) None (as @ d # bs)"
    using ok A by (simp_all add: hash_ok_def)
  have l: "dl_next (h_app h) d = first_of bs None" "dl_prev (h_app h) d = last_of None as"
    using ap chain_first [of "dl_next (h_app h)" "dl_next (h_app h) d" bs None] by auto
  from ok A obtain t where t: "h_tbl h = Some t" "table_ok hf h t A" by (auto simp: hash_ok_def)
  obtain x where x: "dl_head (h_app h) = Some x" using ap(1) by (cases as) auto
  show ?thesis
  proof (cases "as = [] \<and> bs = []")
    case True
    then have "HASH_DELETE d h = Inr (h\<lparr>h_app := (h_app h)\<lparr>dl_head := None\<rparr>, h_tbl := None\<rparr>)"
      using l x t(1) by (simp add: HASH_DELETE_def the_tbl_def)
    with True r show ?thesis by (simp add: hash_ok_def hkey_def fun_eq_iff)
  next
    case False
    then have nz: "\<not> (dl_prev (h_app h) d = None \<and> dl_next (h_app h) d = None)"
      using l by (cases bs) (auto simp: last_of_def)
    define t1 where "t1 = (if bs = [] then t\<lparr>ht_tail := last as\<rparr> else t)"
    have last: "d = ht_tail t \<longleftrightarrow> bs = []"
      using t(2) A dist last_in_set [of bs] by (auto simp: table_ok_def)
    have t1: "(if d = ht_tail t then res_bind (deref (dl_prev (h_app h) d)) (\<lambda>p. Inr (t\<lparr>ht_tail := p\<rparr>)) else Inr t) = Inr t1"
      using False l(2) unfolding last t1_def by (auto simp: last_of_def)
    define a1 where "a1 = (case dl_prev (h_app h) d of Some p \<Rightarrow> set_next p (dl_next (h_app h) d) (h_app h)
      | None \<Rightarrow> (h_app h)\<lparr>dl_head := dl_next (h_app h) d\<rparr>)"
    define a2 where "a2 = (case dl_next a1 d of Some n \<Rightarrow> set_prev n (dl_prev a1 d) a1 | None \<Rightarrow> a1)"
    note u = unlink_app_ok [OF ap, folded a1_def, folded a2_def]
    from t(2) obtain k where sz: "bkt_sizes t k" by (auto simp: table_ok_def)
    have same: "buckets t1 = buckets t" "num_buckets t1 = num_buckets t" "num_items t1 = num_items t" "bkt_sizes t1 k"
      using sz by (simp_all add: t1_def bkt_sizes_def)
    have bk: "bkts_ok (h_chains h) (buckets t1) (mask_bkt (num_buckets t1) (h_hashv h)) (set A)"
      using t(2) same by (simp add: table_ok_def)
    have lt: "mask_bkt (num_buckets t1) (h_hashv h) d < length (buckets t1)"
      using same(4) mask_bkt_less [of k "h_hashv h" d] by (simp add: bkt_sizes_def)
    have "mask_bkt (num_buckets t1) (h_hashv h) d = unat (HASH_TO_BKT (h_hashv h d) (num_buckets t1))" by (simp only: mask_bkt_def)
    from del_in_bkt_ok [OF bk d lt this] obtain nbs c' where
      b: "HASH_DEL_IN_BKT d (HASH_TO_BKT (h_hashv h d) (num_buckets t1)) t1 (h_chains h) = Inr (t1\<lparr>buckets := nbs\<rparr>, c')"
        "bkts_ok c' nbs (mask_bkt (num_buckets t1) (h_hashv h)) (set A - {d})" "length nbs = length (buckets t1)" by blast
    let ?t2 = "t1\<lparr>buckets := nbs, num_items := num_items t1 - 1\<rparr>"
    let ?h = "h\<lparr>h_app := a2, h_chains := c', h_tbl := Some ?t2\<rparr>"
    have run: "HASH_DELETE d h = Inr ?h"
      unfolding HASH_DELETE_def if_not_P [OF nz] by (simp add: x the_tbl_def t(1) t1 a1_def [symmetric] a2_def [symmetric] b(1) Let_def)
    have sub: "set (as @ bs) = set A - {d}" using A dist by auto
    have "table_ok hf ?h ?t2 (as @ bs)"
      unfolding table_ok_def
    proof (intro conjI)
      show "ht_tail ?t2 = last (as @ bs)" using t(2) A by (auto simp: t1_def table_ok_def)
      show "\<exists>k. bkt_sizes ?t2 k" using same b(3) by (auto simp: bkt_sizes_def)
      show "num_items ?t2 = of_nat (length (as @ bs))" using t(2) A by (simp add: same(3) table_ok_def)
      show "length (as @ bs) < 2 ^ 32" using t(2) A by (simp add: table_ok_def)
      show "bkts_ok (h_chains ?h) (buckets ?t2) (mask_bkt (num_buckets ?t2) (h_hashv ?h)) (set (as @ bs))"
        using b(2) unfolding sub by simp
      show "keys_ok hf ?h (set (as @ bs))" using t(2) unfolding sub by (simp add: table_ok_def keys_ok_def)
    qed
    with run u r show ?thesis by (simp add: hash_ok_def hkey_def fun_eq_iff)
  qed
qed

section \<open>Sorting\<close>

lemma sort_ok:
  assumes ok: "hash_ok hf h A" and c: "cmp_by cmp f" and len: "length A \<le> 2 ^ 30"
  shows "\<exists>h'. HASH_SRT cmp h = Some (Inr h') \<and> hash_ok hf h' (sort_key f A) \<and> hkey h' = hkey h"
proof (cases "A = []")
  case True
  with ok show ?thesis using hash_ok_head [OF ok] by (simp add: HASH_SRT_def)
next
  case False
  with ok obtain t where t: "h_tbl h = Some t" "table_ok hf h t A" by (auto simp: hash_ok_def)
  have "kind_list K_hh (h_app h) A" using ok by (simp add: hash_ok_def)
  from sort_loop_sorts [OF c this False len] obtain a where
    a: "sort_loop K_hh cmp 1 (h_app h) = Some (Inr (a, last_of None (sort_key f A)))" "kind_list K_hh a (sort_key f A)" by blast
  have ne: "sort_key f A \<noteq> []" using False by (metis length_0_conv length_sort)
  then have tail: "last_of None (sort_key f A) = Some (last (sort_key f A))" by (simp add: last_of_def)
  let ?t = "t\<lparr>ht_tail := last (sort_key f A)\<rparr>"
  let ?h = "h\<lparr>h_app := a, h_tbl := Some ?t\<rparr>"
  have hd: "dl_head (h_app h) \<noteq> None" using hash_ok_head [OF ok] False by (cases A) auto
  have run: "HASH_SRT cmp h = Some (Inr ?h)"
    unfolding HASH_SRT_def if_not_P [OF hd] a(1) tail by (simp add: the_tbl_def t(1))
  have "table_ok hf ?h ?t (sort_key f A)" using t(2) by (simp add: table_ok_def bkt_sizes_def keys_ok_def)
  then have "hash_ok hf ?h (sort_key f A)" using a(2) by (simp add: hash_ok_def)
  with run show ?thesis by (simp add: hkey_def fun_eq_iff)
qed

section \<open>Counting, walking, checking\<close>

lemma cnt_ok: "hash_ok hf h A \<Longrightarrow> HASH_CNT h = Inr (of_nat (length A))"
proof -
  assume ok: "hash_ok hf h A"
  show ?thesis
  proof (cases A)
    case (Cons a as)
    with ok obtain t where "h_tbl h = Some t" "table_ok hf h t A" by (auto simp: hash_ok_def)
    with hash_ok_head [OF ok] Cons show ?thesis by (simp add: HASH_CNT_def the_tbl_def table_ok_def)
  qed (use hash_ok_head [OF ok] in \<open>simp add: HASH_CNT_def\<close>)
qed

lemma fsck_chain_ok:
  assumes "chain nx p xs None" "backs_to pv None xs"
  shows "fsck_chain nx pv p = Some (Inr (of_nat (length xs)))"
proof -
  define P where "P ys s \<longleftrightarrow> s = (last_of None ys, of_nat (length ys) :: u32)" for ys and s :: "ptr \<times> u32"
  have "\<exists>s'. ptr_loop (\<lambda>_. nx) (fsck_item pv) (p, (None, 0)) = Some (Inr s') \<and> P xs s'"
  proof (rule ptr_loop_inv)
    fix ys x zs and t :: "ptr \<times> u32"
    assume "xs = ys @ x # zs" "P ys t"
    with assms(2) show "\<exists>t'. fsck_item pv x t = Inr t' \<and> P (ys @ [x]) t' \<and> (\<forall>z \<in> set zs. nx z = nx z)"
      by (auto simp: P_def fsck_item_def)
  qed (use assms in \<open>simp_all add: P_def\<close>)
  then show ?thesis by (auto simp: fsck_chain_def P_def)
qed

lemma fsck_buckets_ok:
  assumes "\<forall>j < length bs. bkt_chain c (bs ! j) (xss ! j)" "length xss = length bs"
  shows "fsck_buckets c bs cnt = Some (Inr (cnt + of_nat (length (concat xss))))"
  using assms
proof (induction bs arbitrary: xss cnt)
  case (Cons b bs)
  then obtain xs yss where x: "xss = xs # yss" by (cases xss) auto
  with Cons.prems have b: "bkt_chain c b xs" by auto
  have rest: "\<forall>j < length bs. bkt_chain c (bs ! j) (yss ! j)" "length yss = length bs" using Cons.prems x by auto
  have "fsck_chain (hh_next c) (hh_prev c) (hh_head b) = Some (Inr (of_nat (length xs)))" "b_count b = of_nat (length xs)"
    using b fsck_chain_ok by (auto simp: bkt_chain_def)
  with Cons.IH [OF rest] x show ?case by (simp add: add.assoc)
qed simp

lemma fsck_ok:
  assumes ok: "hash_ok hf h A"
  shows "HASH_FSCK h = Some (Inr ())"
proof (cases "A = []")
  case True
  with hash_ok_head [OF ok] show ?thesis by (simp add: HASH_FSCK_def)
next
  case False
  with ok obtain t where t: "h_tbl h = Some t" "table_ok hf h t A" by (auto simp: hash_ok_def)
  then obtain k where sz: "bkt_sizes t k" and bk: "bkts_ok (h_chains h) (buckets t) (mask_bkt (num_buckets t) (h_hashv h)) (set A)"
    and n: "num_items t = of_nat (length A)" by (auto simp: table_ok_def)
  have all: "take (unat (num_buckets t)) (buckets t) = buckets t"
    unfolding bkt_sizes_double(3) [OF sz] using sz by (simp add: bkt_sizes_def)
  have "\<forall>e \<in> set A. mask_bkt (num_buckets t) (h_hashv h) e < length (buckets t)"
    using sz mask_bkt_less [of k "h_hashv h"] by (simp add: bkt_sizes_def)
  from bkts_lists [OF bk this] obtain xss where x: "length xss = length (buckets t)"
    "\<forall>j < length (buckets t). bkt_chain (h_chains h) (buckets t ! j) (xss ! j)" "distinct (concat xss)" "set (concat xss) = set A" by blast
  have "length (concat xss) = length A"
    using distinct_card [OF x(3)] distinct_card [OF hash_ok_distinct [OF ok]] x(4) by simp
  then have fb: "fsck_buckets (h_chains h) (buckets t) 0 = Some (Inr (of_nat (length A)))"
    using fsck_buckets_ok [OF x(2,1), of 0] by simp
  have fa: "fsck_chain (dl_next (h_app h)) (dl_prev (h_app h)) (dl_head (h_app h)) = Some (Inr (of_nat (length A)))"
    using ok by (intro fsck_chain_ok) (simp_all add: hash_ok_def)
  have hd: "dl_head (h_app h) \<noteq> None" using hash_ok_head [OF ok] False by (cases A) auto
  show ?thesis unfolding HASH_FSCK_def if_not_P [OF hd] by (simp add: the_tbl_def t(1) all fb fa n)
qed

text \<open>\<open>HASH_ITER\<close> visits the elements in order, also when the body deletes its element.\<close>

lemma iter_ok:
  assumes "hash_ok hf (hash s) A" "\<And>x t y. x \<in> set A \<Longrightarrow> y \<noteq> x \<Longrightarrow> dl_next (h_app (hash (body x t))) y = dl_next (h_app (hash t)) y"
  shows "HASH_ITER hash body s = Some (fold body A s)"
  unfolding HASH_ITER_def using assms by (intro foreach_safe_chain) (auto simp: hash_ok_def)

end
