(* ===== verification/Uthash_Props.thy ===== *)
theory Uthash_Props
  imports Uthash_Delete
begin

text \<open>
  The hash table refines a map, kept as the association list of its entries in the order of
  insertion, for every hash function of uthash.h.
\<close>

section \<open>The abstract map\<close>

definition entries :: "ut_hash \<Rightarrow> nat list \<Rightarrow> (bytes \<times> nat) list" where
  "entries h A = map (\<lambda>e. (hkey h e, e)) A"

definition hash_rel :: "hash_fcn \<Rightarrow> nat \<Rightarrow> malloc \<Rightarrow> ut_hash \<Rightarrow> (bytes \<times> nat) list \<Rightarrow> bool" where
  "hash_rel hf lim um h al \<longleftrightarrow> hash_function hf lim \<and> mem_bound um \<and>
     (\<exists>A. hash_ok hf h A \<and> al = entries h A \<and> distinct (map fst al))"

datatype hash_op = H_add bytes nat | H_delete nat | H_replace bytes nat | H_clear | H_sort "nat \<Rightarrow> nat \<Rightarrow> int" "nat \<Rightarrow> int"

fun hash_spec :: "hash_op \<Rightarrow> (bytes \<times> nat) list \<Rightarrow> (bytes \<times> nat) list res" where
  "hash_spec (H_add k e) al = Inr (al @ [(k, e)])"
| "hash_spec (H_delete e) al = Inr (filter (\<lambda>x. snd x \<noteq> e) al)"
| "hash_spec (H_replace k e) al = Inr (filter (\<lambda>x. fst x \<noteq> k) al @ [(k, e)])"
| "hash_spec H_clear al = Inr []"
| "hash_spec (H_sort cmp f) al = Inr (sort_key (f \<circ> snd) al)"

text \<open>
  An element is added once, under a key that is not there; keys are shorter than the limit
  of the hash function, and the count fits its field of 32 bits; a comparison orders the elements by the key that goes with it.
\<close>

fun hash_pre :: "nat \<Rightarrow> hash_op \<Rightarrow> (bytes \<times> nat) list \<Rightarrow> bool" where
  "hash_pre lim (H_add k e) al = (k \<notin> fst ` set al \<and> e \<notin> snd ` set al \<and> length k < lim \<and> length al + 1 < 2 ^ 32)"
| "hash_pre lim (H_delete e) al = (e \<in> snd ` set al)"
| "hash_pre lim (H_replace k e) al = (e \<notin> snd ` {x \<in> set al. fst x \<noteq> k} \<and> length k < lim \<and> length al + 1 < 2 ^ 32)"
| "hash_pre lim H_clear al = True"
| "hash_pre lim (H_sort cmp f) al = (cmp_by cmp f \<and> length al \<le> 2 ^ 30)"

fun hash_step :: "hash_fcn \<Rightarrow> malloc \<Rightarrow> hash_op \<Rightarrow> ut_hash \<Rightarrow> ut_hash run" where
  "hash_step hf um (H_add k e) h = HASH_ADD_KEYPTR hf um k (of_nat (length k)) e h"
| "hash_step hf um (H_delete e) h = Some (HASH_DELETE e h)"
| "hash_step hf um (H_replace k e) h = run_bind (HASH_REPLACE hf um k (of_nat (length k)) e h) (\<lambda>(_, h'). Some (Inr h'))"
| "hash_step hf um H_clear h = Some (Inr (HASH_CLEAR h))"
| "hash_step hf um (H_sort cmp f) h = HASH_SRT cmp h"

section \<open>The operations\<close>

lemma entries_fst: "distinct (map fst (entries h A)) \<Longrightarrow> e \<in> set A \<Longrightarrow> map_of (entries h A) (hkey h e) = Some e"
  by (rule map_of_is_SomeI) (auto simp: entries_def)

lemma key_size:
  assumes "hash_function hf lim" "length k < lim"
  shows "unat (of_nat (length k) :: size_t) = length k"
proof -
  have "length k < 2 ^ 32" using hash_function.limit [OF assms(1)] assms(2) by linarith
  then show ?thesis by (intro unat_of_nat_le [where c = "4294967296 :: size_t"]) simp
qed

lemma find_map:
  assumes "hash_rel hf lim um h al" "length k < lim"
  shows "HASH_FIND hf k (of_nat (length k)) h = Some (Inr (map_of al k))"
proof -
  from assms(1) obtain A where A: "hash_function hf lim" "hash_ok hf h A" "al = entries h A" "distinct (map fst al)"
    by (auto simp: hash_rel_def)
  have n: "unat (of_nat (length k) :: size_t) < lim" "unat (of_nat (length k) :: size_t) \<le> length k"
    unfolding key_size [OF A(1) assms(2)] using assms(2) by simp_all
  have f: "\<exists>r. HASH_FIND hf k (of_nat (length k)) h = Some (Inr r) \<and>
      (case r of None \<Rightarrow> \<forall>e \<in> set A. hkey h e \<noteq> k | Some e \<Rightarrow> e \<in> set A \<and> hkey h e = k)"
    using hash_function.find_ok [OF A(1,2) n] unfolding key_size [OF A(1) assms(2)] take_all [OF order_refl] .
  then obtain r where
    r: "HASH_FIND hf k (of_nat (length k)) h = Some (Inr r)"
      "case r of None \<Rightarrow> \<forall>e \<in> set A. hkey h e \<noteq> k | Some e \<Rightarrow> e \<in> set A \<and> hkey h e = k" by blast
  have "map_of al k = r"
  proof (cases r)
    case None
    with r(2) have "k \<notin> fst ` set al" by (auto simp: A(3) entries_def)
    with None show ?thesis by (simp add: map_of_eq_None_iff)
  next
    case (Some e)
    with r(2) A(3,4) entries_fst [of h A e] show ?thesis by simp
  qed
  with r(1) show ?thesis by simp
qed

lemma add_map:
  assumes "hash_rel hf lim um h al" "hash_pre lim (H_add k e) al"
  shows "\<exists>r. HASH_ADD_KEYPTR hf um k (of_nat (length k)) e h = Some r \<and> outcome {Exited} (hash_rel hf lim um) r (Inr (al @ [(k, e)]))"
proof -
  from assms(1) obtain A where A: "hash_function hf lim" "mem_bound um" "hash_ok hf h A" "al = entries h A" "distinct (map fst al)"
    by (auto simp: hash_rel_def)
  have p: "k \<notin> fst ` set al" "e \<notin> set A" "length k < lim" "length A + 1 < 2 ^ 32"
    using assms(2) by (auto simp: A(4) entries_def image_image)
  have n: "unat (of_nat (length k) :: size_t) < lim" "unat (of_nat (length k) :: size_t) \<le> length k"
    unfolding key_size [OF A(1) p(3)] using p(3) by simp_all
  from bits_le_ex obtain b where "bits_le h b" ..
  from hash_function.add_ok [OF A(1,3) p(2) n p(4) A(2) this] show ?thesis
  proof (elim disjE exE conjE)
    fix h' assume h': "HASH_ADD_KEYPTR hf um k (of_nat (length k)) e h = Some (Inr h')" "hash_ok hf h' (A @ [e])"
      "hkey h' e = take (unat (of_nat (length k) :: size_t)) k" "\<forall>x. x \<noteq> e \<longrightarrow> hkey h' x = hkey h x"
    have "entries h' A = entries h A" using h'(4) p(2) by (auto simp: entries_def)
    then have "entries h' (A @ [e]) = al @ [(k, e)]"
      using h'(3) key_size [OF A(1) p(3)] by (simp add: A(4)) (simp add: entries_def)
    with h'(2) A(1,2,5) p(1) have "hash_rel hf lim um h' (al @ [(k, e)])"
      unfolding hash_rel_def by (auto intro!: exI [of _ "A @ [e]"])
    with h'(1) show ?thesis by (simp add: outcome_Inr)
  qed (simp add: outcome_Inr)
qed

lemma filter_entries:
  assumes "distinct A" "e \<in> set A"
  shows "entries h (remove1 e A) = filter (\<lambda>x. snd x \<noteq> e) (entries h A)"
  using assms by (simp add: entries_def filter_map comp_def distinct_remove1_removeAll removeAll_filter_not_eq eq_commute)

lemma delete_map:
  assumes "hash_rel hf lim um h al" "hash_pre lim (H_delete e) al"
  shows "\<exists>h'. HASH_DELETE e h = Inr h' \<and> hash_rel hf lim um h' (filter (\<lambda>x. snd x \<noteq> e) al)"
proof -
  from assms(1) obtain A where A: "hash_function hf lim" "mem_bound um" "hash_ok hf h A" "al = entries h A" "distinct (map fst al)"
    by (auto simp: hash_rel_def)
  have e: "e \<in> set A" using assms(2) by (auto simp: A(4) entries_def)
  from delete_ok [OF A(3) e] obtain h' where h': "HASH_DELETE e h = Inr h'" "hash_ok hf h' (remove1 e A)" "hkey h' = hkey h" by blast
  have "entries h' (remove1 e A) = filter (\<lambda>x. snd x \<noteq> e) al"
    using filter_entries [OF hash_ok_distinct [OF A(3)] e, of h] h'(3) by (simp add: A(4)) (simp add: entries_def)
  moreover have "distinct (map fst (filter (\<lambda>x. snd x \<noteq> e) al))" using A(5) by (simp add: distinct_map_filter)
  ultimately show ?thesis using h'(1,2) A(1,2) by (auto simp: hash_rel_def)
qed

lemma clear_map: "hash_rel hf lim um h al \<Longrightarrow> hash_rel hf lim um (HASH_CLEAR h) []"
proof -
  assume "hash_rel hf lim um h al"
  then obtain A where A: "hash_function hf lim" "mem_bound um" "hash_ok hf h A" by (auto simp: hash_rel_def)
  have "hash_ok hf (HASH_CLEAR h) []" using hash_ok_head [OF A(3)] A(3) by (auto simp: HASH_CLEAR_def hash_ok_def)
  with A show ?thesis by (auto simp: hash_rel_def entries_def intro!: exI [of _ "[]"])
qed

text \<open>The element that is replaced is deleted first.\<close>

lemma replaced_map:
  assumes "hash_rel hf lim um h al" "hash_pre lim (H_replace k e) al"
  shows "\<exists>h1. (case map_of al k of None \<Rightarrow> Some (Inr h) | Some x \<Rightarrow> Some (HASH_DELETE x h)) = Some (Inr h1) \<and>
    hash_rel hf lim um h1 (filter (\<lambda>x. fst x \<noteq> k) al) \<and> hash_pre lim (H_add k e) (filter (\<lambda>x. fst x \<noteq> k) al)"
proof -
  let ?al = "filter (\<lambda>x. fst x \<noteq> k) al"
  have d: "distinct (map fst al)" "distinct (map snd al)"
    using assms(1) hash_ok_distinct by (auto simp: hash_rel_def entries_def comp_def)
  have "length ?al \<le> length al" by simp
  then have "length ?al + 1 < 2 ^ 32" using assms(2) by (auto simp del: length_filter_le)
  then have pre: "hash_pre lim (H_add k e) ?al" using assms(2) by auto
  show ?thesis
  proof (cases "map_of al k")
    case None
    then have "?al = al" by (auto simp: map_of_eq_None_iff intro!: filter_True)
    with None assms(1) pre show ?thesis by simp
  next
    case (Some x)
    then have x: "(k, x) \<in> set al" by (rule map_of_SomeD)
    then have "hash_pre lim (H_delete x) al" by force
    from delete_map [OF assms(1) this] obtain h1 where h1: "HASH_DELETE x h = Inr h1" "hash_rel hf lim um h1 (filter (\<lambda>y. snd y \<noteq> x) al)" by blast
    have "snd y \<noteq> x \<longleftrightarrow> fst y \<noteq> k" if "y \<in> set al" for y
      using that x d by (metis eq_key_imp_eq_value inj_onD distinct_map prod.collapse snd_conv fst_conv)
    then have "filter (\<lambda>y. snd y \<noteq> x) al = ?al" by (intro filter_cong) auto
    with Some h1 pre show ?thesis by simp
  qed
qed

lemma replace_map:
  assumes "hash_rel hf lim um h al" "hash_pre lim (H_replace k e) al"
  shows "\<exists>r. run_bind (HASH_REPLACE hf um k (of_nat (length k)) e h) (\<lambda>(_, h'). Some (Inr h')) = Some r \<and>
    outcome {Exited} (hash_rel hf lim um) r (Inr (filter (\<lambda>x. fst x \<noteq> k) al @ [(k, e)]))"
proof -
  have k: "length k < lim" using assms(2) by simp
  from replaced_map [OF assms] obtain h1 where
    h1: "(case map_of al k of None \<Rightarrow> Some (Inr h) | Some x \<Rightarrow> Some (HASH_DELETE x h)) = Some (Inr h1)"
      "hash_rel hf lim um h1 (filter (\<lambda>x. fst x \<noteq> k) al)" "hash_pre lim (H_add k e) (filter (\<lambda>x. fst x \<noteq> k) al)" by blast
  from add_map [OF h1(2,3)] obtain r where
    r: "HASH_ADD_KEYPTR hf um k (of_nat (length k)) e h1 = Some r"
      "outcome {Exited} (hash_rel hf lim um) r (Inr (filter (\<lambda>x. fst x \<noteq> k) al @ [(k, e)]))" by blast
  have "run_bind (HASH_REPLACE hf um k (of_nat (length k)) e h) (\<lambda>(_, h'). Some (Inr h')) = Some r"
    by (cases r) (simp_all add: HASH_REPLACE_def find_map [OF assms(1) k] h1(1) r(1))
  with r(2) show ?thesis by blast
qed

text \<open>Sorting the entries sorts the elements.\<close>

lemma map_insort: "map g (insort_key (f \<circ> g) x xs) = insort_key f (g x) (map g xs)"
  by (induction xs) auto

lemma map_sort_key: "map g (sort_key (f \<circ> g) xs) = sort_key f (map g xs)"
proof (induction xs)
  case (Cons x xs)
  then show ?case using map_insort [of g f x "sort_key (f \<circ> g) xs"] by (simp del: sort_key_simps add: sort_key_simps [unfolded comp_def] comp_def)
qed simp

lemma sort_map:
  assumes "hash_rel hf lim um h al" "hash_pre lim (H_sort cmp f) al"
  shows "\<exists>h'. HASH_SRT cmp h = Some (Inr h') \<and> hash_rel hf lim um h' (sort_key (f \<circ> snd) al)"
proof -
  from assms(1) obtain A where A: "hash_function hf lim" "mem_bound um" "hash_ok hf h A" "al = entries h A" "distinct (map fst al)"
    by (auto simp: hash_rel_def)
  have l: "length A \<le> 2 ^ 30" and c: "cmp_by cmp f" using assms(2) by (simp_all add: A(4) entries_def)
  from sort_ok [OF A(3) c l] obtain h' where
    h': "HASH_SRT cmp h = Some (Inr h')" "hash_ok hf h' (sort_key f A)" "hkey h' = hkey h" by blast
  have s: "sort_key (f \<circ> snd) al = entries h' (sort_key f A)"
    unfolding A(4) entries_def h'(3) by (subst map_sort_key [where g = "\<lambda>e. (hkey h e, e)" and f = "f \<circ> snd", symmetric]) (simp add: comp_def)
  have "mset (map fst (sort_key (f \<circ> snd) al)) = mset (map fst al)" by simp
  with A(5) have "distinct (map fst (sort_key (f \<circ> snd) al))" by (metis mset_eq_imp_distinct_iff)
  with h' s A(1,2) show ?thesis by (auto simp: hash_rel_def)
qed

lemma hash_step_map:
  assumes "hash_rel hf lim um h al" "hash_pre lim i al"
  shows "\<exists>r. hash_step hf um i h = Some r \<and> outcome {Exited} (hash_rel hf lim um) r (hash_spec i al)"
proof (cases i)
  case (H_add k e)
  with add_map [OF assms(1)] assms(2) show ?thesis by simp
next
  case (H_delete e)
  with delete_map [OF assms(1)] assms(2) show ?thesis by (auto simp: outcome_Inr)
next
  case (H_replace k e)
  with replace_map [OF assms(1)] assms(2) show ?thesis by simp
next
  case H_clear
  with clear_map [OF assms(1)] show ?thesis by (simp add: outcome_Inr)
next
  case (H_sort cmp f)
  with sort_map [OF assms(1), of cmp f] assms(2) show ?thesis by (auto simp: outcome_Inr)
qed

text \<open>The memory asked for: doubling the buckets is the only operation that asks for more.\<close>

lemma add_bits:
  assumes "hash_rel hf lim um h al" "hash_pre lim (H_add k e) al" "bits_le h b"
    and r: "HASH_ADD_KEYPTR hf um k (of_nat (length k)) e h = Some r"
  shows "case r of Inl _ \<Rightarrow> no_memory um b | Inr h' \<Rightarrow> bits_le h' (Suc b)"
proof -
  from assms(1) obtain A where A: "hash_function hf lim" "mem_bound um" "hash_ok hf h A" "al = entries h A"
    by (auto simp: hash_rel_def)
  have p: "e \<notin> set A" "length k < lim" "length A + 1 < 2 ^ 32" using assms(2) by (auto simp: A(4) entries_def image_image)
  have n: "unat (of_nat (length k) :: size_t) < lim" "unat (of_nat (length k) :: size_t) \<le> length k"
    unfolding key_size [OF A(1) p(2)] using p(2) by simp_all
  from hash_function.add_ok [OF A(1,3) p(1) n p(3) A(2) assms(3)] r show ?thesis by auto
qed

lemma replace_bits:
  assumes "hash_rel hf lim um h al" "hash_pre lim (H_replace k e) al" "bits_le h b"
    and r: "hash_step hf um (H_replace k e) h = Some r"
  shows "case r of Inl _ \<Rightarrow> no_memory um b | Inr h' \<Rightarrow> bits_le h' (Suc b)"
proof -
  from replaced_map [OF assms(1,2)] obtain h1 where
    h1: "(case map_of al k of None \<Rightarrow> Some (Inr h) | Some x \<Rightarrow> Some (HASH_DELETE x h)) = Some (Inr h1)"
      "hash_rel hf lim um h1 (filter (\<lambda>x. fst x \<noteq> k) al)" "hash_pre lim (H_add k e) (filter (\<lambda>x. fst x \<noteq> k) al)" by blast
  have "bits_le h1 b"
  proof (cases "map_of al k")
    case (Some x)
    with delete_bits [of x h h1 b] Some h1(1) assms(3) show ?thesis by simp
  qed (use h1(1) assms(3) in simp)
  moreover obtain r1 where "HASH_ADD_KEYPTR hf um k (of_nat (length k)) e h1 = Some r1" using add_map [OF h1(2,3)] by blast
  moreover from this have "r = r1" using r assms(2) h1(1) by (cases r1) (simp_all add: HASH_REPLACE_def find_map [OF assms(1)])
  ultimately show ?thesis using add_bits [OF h1(2,3)] by blast
qed

lemma hash_step_bits:
  assumes "hash_rel hf lim um h al" "hash_pre lim i al" "bits_le h b" "hash_step hf um i h = Some r"
  shows "case r of Inl _ \<Rightarrow> no_memory um b | Inr h' \<Rightarrow> bits_le h' (Suc b)"
proof (cases i)
  case (H_add k e)
  with add_bits [OF assms(1) _ assms(3), of k e r] assms(2,4) show ?thesis by simp
next
  case (H_delete e)
  from H_delete delete_map [OF assms(1)] assms(2,4) obtain h' where "r = Inr h'" "HASH_DELETE e h = Inr h'" by auto
  with delete_bits [OF this(2) assms(3)] show ?thesis by (simp add: bits_le_mono)
next
  case (H_replace k e)
  with replace_bits [OF assms(1) _ assms(3)] assms(2,4) show ?thesis by blast
next
  case H_clear
  with clear_bits [OF assms(3)] assms(4) show ?thesis by (auto simp: bits_le_mono)
next
  case (H_sort cmp f)
  with sort_map [OF assms(1), of cmp f] assms(2,4) obtain h' where "r = Inr h'" "HASH_SRT cmp h = Some (Inr h')" by auto
  with sort_bits [OF this(2) assms(3)] show ?thesis by (simp add: bits_le_mono)
qed

interpretation hash: op_resources "{Exited}" "hash_rel hf lim um" "hash_pre lim" "hash_step hf um" hash_spec bits_le "no_memory um" for hf lim um
proof
  show "no_memory um b" if "hash_rel hf lim um h al" "hash_pre lim i al" "bits_le h b" "hash_step hf um i h = Some (Inl f)" for h al i b f
    using hash_step_bits [OF that] by simp
  show "bits_le h' (Suc b)" if "hash_rel hf lim um h al" "hash_pre lim i al" "bits_le h b" "hash_step hf um i h = Some (Inr h')" for h al i b h'
    using hash_step_bits [OF that] by simp
qed (rule hash_step_map no_memory_mono; assumption)+

section \<open>Properties\<close>

text \<open>The hash functions, and the length that a key has to stay below.\<close>

definition uthash_fcns :: "(hash_fcn \<times> nat) list" where
  "uthash_fcns = [(HASH_JEN, 2 ^ 32), (HASH_BER, 2 ^ 32), (HASH_SAX, 2 ^ 32), (HASH_FNV, 2 ^ 32), (HASH_OAT, 2 ^ 32),
     (HASH_SFH, 2 ^ 32), (HASH_MUR, 2 ^ 31)]"

lemma uthash_fcns_ok: "(hf, lim) \<in> set uthash_fcns \<Longrightarrow> hash_function hf lim"
  unfolding uthash_fcns_def list.set insert_iff empty_iff prod.inject
  by (elim disjE FalseE conjE; hypsubst; intro jen.hash_function_axioms ber.hash_function_axioms sax.hash_function_axioms
      fnv.hash_function_axioms oat.hash_function_axioms sfh.hash_function_axioms mur.hash_function_axioms)

text \<open>A hash with a null head, before anything is added; the other memory is arbitrary.\<close>

lemma null_hash_rel: "(hf, lim) \<in> set uthash_fcns \<Longrightarrow> mem_bound um \<Longrightarrow> dl_head (h_app h) = None \<Longrightarrow> hash_rel hf lim um h []"
  by (auto simp: hash_rel_def hash_ok_def entries_def uthash_fcns_ok intro!: exI [of _ "[]"])

lemma hash_rel_checks:
  assumes "hash_rel hf lim um h al"
  shows "HASH_FSCK h = Some (Inr ())" "HASH_CNT h = Inr (of_nat (length al))"
    "HASH_ITER fst (\<lambda>e (h, es). (h, es @ [e])) (h, []) = Some (h, map snd al)"
proof -
  from assms obtain A where A: "hash_ok hf h A" "al = entries h A" by (auto simp: hash_rel_def)
  show "HASH_FSCK h = Some (Inr ())" by (rule fsck_ok [OF A(1)])
  show "HASH_CNT h = Inr (of_nat (length al))" using cnt_ok [OF A(1)] by (simp add: A(2) entries_def)
  have f: "fold (\<lambda>e (h, es). (h, es @ [e])) B (g, es) = (g, es @ B)" for B es and g :: ut_hash
    by (induction B arbitrary: es) auto
  show "HASH_ITER fst (\<lambda>e (h, es). (h, es @ [e])) (h, []) = Some (h, map snd al)"
    using iter_ok [of hf fst "(h, [])" A "\<lambda>e (h, es). (h, es @ [e])"] A by (auto simp: f entries_def comp_def split_beta)
qed

text \<open>
  C8: the hash table is a map: from an empty hash, any sequence of \<open>HASH_ADD_KEYPTR\<close>,
  \<open>HASH_DELETE\<close>, \<open>HASH_REPLACE\<close>, \<open>HASH_CLEAR\<close> and \<open>HASH_SRT\<close>, with any hash function of
  uthash.h and keys below the length it is good for (4 GB, for \<open>HASH_MUR\<close> 2 GB), returns. It
  exits only if \<open>malloc\<close> refuses a power of two of bytes that the table can have grown to after
  so many operations; nothing else goes wrong, and what it leaves is the association list the
  same sequence gives: \<open>HASH_FIND\<close> finds the element of every key and nothing for the others,
  \<open>HASH_CNT\<close> counts the elements, \<open>HASH_ITER\<close> visits them in order and the consistency check
  \<open>HASH_FSCK\<close> passes.
\<close>

theorem hash_refines_map:
  assumes "(hf, lim) \<in> set uthash_fcns" "mem_bound um" "dl_head (h_app h) = None" "pre_ops (hash_pre lim) hash_spec is []"
  shows "no_memory um (5 + length is) \<and> run_ops (hash_step hf um) is h = Some (Inl Exited) \<or>
    (\<exists>h' al. run_ops (hash_step hf um) is h = Some (Inr h') \<and> spec_ops hash_spec is [] = Inr al \<and>
       (\<forall>k. length k < lim \<longrightarrow> HASH_FIND hf k (of_nat (length k)) h' = Some (Inr (map_of al k))) \<and>
       HASH_CNT h' = Inr (of_nat (length al)) \<and>
       HASH_ITER fst (\<lambda>e (h, es). (h, es @ [e])) (h', []) = Some (h', map snd al) \<and>
       HASH_FSCK h' = Some (Inr ()))"
proof -
  have "spec_ops hash_spec is a = Inr (the (case spec_ops hash_spec is a of Inl _ \<Rightarrow> None | Inr b \<Rightarrow> Some b))" for a
  proof (induction "is" arbitrary: a)
    case (Cons i "is")
    then show ?case by (cases i) (simp_all add: res_bind_def)
  qed simp
  then obtain al where al: "spec_ops hash_spec is [] = Inr al" by blast
  note rel = null_hash_rel [OF assms(1-3)]
  from hash.run_simulates [OF rel assms(4)] obtain r where
    r: "run_ops (hash_step hf um) is h = Some r" "outcome {Exited} (hash_rel hf lim um) r (Inr al)" by (auto simp: al)
  then consider "r = Inl Exited" | h' where "r = Inr h'" "hash_rel hf lim um h' al" by (auto simp: outcome_Inr)
  then show ?thesis
  proof cases
    case 2
    with r(1) al find_map [OF 2(2)] hash_rel_checks [OF 2(2)] show ?thesis by blast
  next
    case 1
    with hash.run_lacks [OF rel assms(4) bits_le_null [OF assms(3)]] r(1) show ?thesis by simp
  qed
qed

text \<open>Three operations on a hash in memory that holds other pointers.\<close>

definition null_hash :: ut_hash where
  "null_hash = \<lparr>h_app = \<lparr>dl_head = None, dl_next = (\<lambda>_. Some 99), dl_prev = (\<lambda>_. Some 98)\<rparr>,
     h_chains = \<lparr>hh_next = (\<lambda>_. Some 97), hh_prev = (\<lambda>_. Some 96)\<rparr>,
     h_key = (\<lambda>_. []), h_keylen = (\<lambda>_. 7), h_hashv = (\<lambda>_. 8), h_tbl = None\<rparr>"

definition three_ops :: "hash_op list" where
  "three_ops = [H_add ''PING'' 1, H_add ''004'' 2, H_delete 1]"

definition below_2_35 :: malloc where
  "below_2_35 n \<longleftrightarrow> n < 2 ^ 35"

definition run_exits :: "'a run \<Rightarrow> bool" where
  "run_exits r = (case r of Some (Inl _) \<Rightarrow> True | _ \<Rightarrow> False)"

lemma three_ops_return: "\<not> run_exits (run_ops (hash_step HASH_OAT below_2_35) three_ops null_hash)"
  by code_simp

theorem hash_refines_map_witness:
  "\<exists>h'. run_ops (hash_step HASH_OAT below_2_35) three_ops null_hash = Some (Inr h') \<and> HASH_CNT h' = Inr 1 \<and>
     HASH_FIND HASH_OAT ''004'' 3 h' = Some (Inr (Some 2)) \<and> HASH_FIND HASH_OAT ''PING'' 4 h' = Some (Inr None) \<and>
     HASH_FSCK h' = Some (Inr ())"
proof -
  have "(HASH_OAT, 2 ^ 32) \<in> set uthash_fcns" "mem_bound below_2_35" "dl_head (h_app null_hash) = None"
    "pre_ops (hash_pre (2 ^ 32)) hash_spec three_ops []"
    by (simp_all add: uthash_fcns_def mem_bound_def below_2_35_def null_hash_def three_ops_def)
  moreover have "spec_ops hash_spec three_ops [] = Inr [(''004'', 2)]" by (simp add: three_ops_def)
  moreover have "run_ops (hash_step HASH_OAT below_2_35) three_ops null_hash \<noteq> Some (Inl Exited)"
    using three_ops_return by (auto simp: run_exits_def)
  ultimately obtain h' where h': "run_ops (hash_step HASH_OAT below_2_35) three_ops null_hash = Some (Inr h')"
      "HASH_CNT h' = Inr (of_nat (length [(''004'', 2 :: nat)]))" "HASH_FSCK h' = Some (Inr ())"
      "\<forall>k. length k < 2 ^ 32 \<longrightarrow> HASH_FIND HASH_OAT k (of_nat (length k)) h' = Some (Inr (map_of [(''004'', 2)] k))"
    using hash_refines_map [of HASH_OAT "2 ^ 32" below_2_35 null_hash three_ops] by auto
  from h'(4) [rule_format, of "''004''"] h'(4) [rule_format, of "''PING''"] h'(1-3) show ?thesis by simp
qed

end
