(* ===== verification/Uthash_Select.thy ===== *)
theory Uthash_Select
  imports Uthash_Props Utlist_Claims
begin

text \<open>
  \<open>HASH_SELECT\<close> of util/uthash.h: the elements of one hash that meet a condition are put into
  another hash, through other handles, which here are the fields of the other record. The
  selected elements are in the new hash, but its \<open>tail\<close> is still its first element.
\<close>

section \<open>The macro\<close>

text \<open>A loop whose body may not return; it does not change the links that are followed.\<close>

partial_function (option) run_loop :: "(nat \<Rightarrow> ptr) \<Rightarrow> (nat \<Rightarrow> 's \<Rightarrow> 's run) \<Rightarrow> ptr \<times> 's \<Rightarrow> 's run" where
  "run_loop nx body z =
     (case fst z of
        None \<Rightarrow> Some (Inr (snd z))
      | Some e \<Rightarrow>
          (case body e (snd z) of
             None \<Rightarrow> None
           | Some r \<Rightarrow> (case r of Inl f \<Rightarrow> Some (Inl f) | Inr s \<Rightarrow> run_loop nx body (nx e, s))))"

text \<open>One selected element; \<open>_last_elt\<close> is the one selected before it.\<close>

definition select_elt :: "malloc \<Rightarrow> ut_hash \<Rightarrow> nat \<Rightarrow> ut_hash \<times> ptr \<Rightarrow> (ut_hash \<times> ptr) run" where
  "select_elt um src e = (\<lambda>(dst, last_elt).
     let d1 = dst\<lparr>h_key := (h_key dst)(e := h_key src e), h_keylen := (h_keylen dst)(e := h_keylen src e),
                h_hashv := (h_hashv dst)(e := h_hashv src e), h_app := set_next e None (set_prev e last_elt (h_app dst))\<rparr>;
         d2 = (case last_elt of None \<Rightarrow> d1 | Some l \<Rightarrow> d1\<lparr>h_app := set_next l (Some e) (h_app d1)\<rparr>)
     in case res_bind (if dl_head (h_app d2) = None then HASH_MAKE_TABLE um e (d2\<lparr>h_app := (h_app d2)\<lparr>dl_head := Some e\<rparr>\<rparr>)
                       else Inr d2) (\<lambda>d3. res_bind (the_tbl d3) (\<lambda>t. Inr (d3, t))) of
          Inl f \<Rightarrow> Some (Inl f)
        | Inr (d3, t) \<Rightarrow>
            run_bind (HASH_ADD_TO_BKT um (h_hashv d3) (HASH_TO_BKT (h_hashv d3 e) (num_buckets t)) e t (h_chains d3)) (\<lambda>(t', c').
              Some (Inr (d3\<lparr>h_tbl := Some (t'\<lparr>num_items := num_items t' + 1\<rparr>), h_chains := c'\<rparr>, Some e))))"

definition select_item :: "malloc \<Rightarrow> (nat \<Rightarrow> bool) \<Rightarrow> ut_hash \<Rightarrow> nat \<Rightarrow> ut_hash \<times> ptr \<Rightarrow> (ut_hash \<times> ptr) run" where
  "select_item um cond src e s = (if cond e then select_elt um src e s else Some (Inr s))"

fun select_buckets :: "malloc \<Rightarrow> (nat \<Rightarrow> bool) \<Rightarrow> ut_hash \<Rightarrow> ut_bucket list \<Rightarrow> ut_hash \<times> ptr \<Rightarrow> (ut_hash \<times> ptr) run" where
  "select_buckets um cond src [] s = Some (Inr s)"
| "select_buckets um cond src (b # bs) s =
     run_bind (run_loop (hh_next (h_chains src)) (select_item um cond src) (hh_head b, s)) (select_buckets um cond src bs)"

definition HASH_SELECT :: "malloc \<Rightarrow> (nat \<Rightarrow> bool) \<Rightarrow> ut_hash \<Rightarrow> ut_hash \<Rightarrow> ut_hash run" where
  "HASH_SELECT um cond src dst =
     (if dl_head (h_app src) = None then Some (Inr dst)
      else case the_tbl src of
        Inl f \<Rightarrow> Some (Inl f)
      | Inr t \<Rightarrow> run_bind (select_buckets um cond src (take (unat (num_buckets t)) (buckets t)) (dst, None)) (\<lambda>(d, _). Some (Inr d)))"

text \<open>\<open>HASH_OVERHEAD\<close>: the sizes of the three structures on a 64-bit machine.\<close>

definition HASH_OVERHEAD :: "ut_hash \<Rightarrow> size_t res" where
  "HASH_OVERHEAD h = res_bind (the_tbl h) (\<lambda>t. Inr (ucast (num_items t) * 56 + ucast (num_buckets t) * 16 + 64 + 0))"

section \<open>The loops\<close>

fun run_fold :: "(nat \<Rightarrow> 's \<Rightarrow> 's run) \<Rightarrow> nat list \<Rightarrow> 's \<Rightarrow> 's run" where
  "run_fold body [] s = Some (Inr s)"
| "run_fold body (x # xs) s = run_bind (body x s) (run_fold body xs)"

lemma run_fold_append: "run_fold body (xs @ ys) s = run_bind (run_fold body xs s) (run_fold body ys)"
proof (induction xs arbitrary: s)
  case (Cons x xs)
  show ?case
  proof (cases "body x s")
    case (Some r)
    with Cons show ?thesis by (cases r) simp_all
  qed simp
qed simp

lemma run_loop_fold: "chain nx p xs None \<Longrightarrow> run_loop nx body (p, s) = run_fold body xs s"
proof (induction xs arbitrary: p s)
  case Nil
  then show ?case by (subst run_loop.simps) simp
next
  case (Cons x xs)
  show ?case
  proof (cases "body x s")
    case None
    with Cons.prems show ?thesis by (subst run_loop.simps) simp
  next
    case (Some r)
    with Cons show ?thesis by (subst run_loop.simps) (cases r; simp)
  qed
qed

lemma run_fold_filter: "run_fold (select_item um cond src) xs s = run_fold (select_elt um src) (filter cond xs) s"
proof (induction xs arbitrary: s)
  case (Cons x xs)
  then have "run_fold (select_item um cond src) xs = run_fold (select_elt um src) (filter cond xs)" by (intro ext)
  moreover have "select_item um cond src x s = (if cond x then select_elt um src x s else Some (Inr s))"
    by (simp add: select_item_def)
  ultimately show ?case by simp
qed simp

lemma select_buckets_fold:
  assumes "length xss = length bs" "\<forall>j < length bs. chain (hh_next (h_chains src)) (hh_head (bs ! j)) (xss ! j) None"
  shows "select_buckets um cond src bs s = run_fold (select_elt um src) (filter cond (concat xss)) s"
  using assms
proof (induction bs arbitrary: xss s)
  case (Cons b bs)
  then obtain xs yss where xss: "xss = xs # yss" by (cases xss) auto
  have c: "chain (hh_next (h_chains src)) (hh_head b) xs None" using Cons.prems(2) xss by auto
  have "\<forall>j < length bs. chain (hh_next (h_chains src)) (hh_head (bs ! j)) (yss ! j) None" using Cons.prems(2) xss by auto
  with Cons.IH [of yss] Cons.prems(1) xss
  have "select_buckets um cond src bs = run_fold (select_elt um src) (filter cond (concat yss))" by (intro ext) simp
  then show ?case by (simp add: xss run_loop_fold [OF c] run_fold_filter run_fold_append)
qed simp

section \<open>The invariant of the selection\<close>

definition selected_ok :: "ut_hash \<Rightarrow> nat list \<Rightarrow> ut_hash \<times> ptr \<Rightarrow> bool" where
  "selected_ok src B s \<longleftrightarrow> (case s of (dst, last_elt) \<Rightarrow> last_elt = last_of None B \<and>
     chain (dl_next (h_app dst)) (dl_head (h_app dst)) B None \<and> backs_to (dl_prev (h_app dst)) None B \<and>
     (\<forall>e \<in> set B. h_key dst e = h_key src e \<and> h_keylen dst e = h_keylen src e \<and> h_hashv dst e = h_hashv src e) \<and>
     (B \<noteq> [] \<longrightarrow> (\<exists>t k. h_tbl dst = Some t \<and> ht_tail t = hd B \<and> bkt_sizes t k \<and> num_items t = of_nat (length B) \<and>
        bkts_ok (h_chains dst) (buckets t) (mask_bkt (num_buckets t) (h_hashv dst)) (set B))))"

text \<open>The first element goes to an empty bucket of a new table.\<close>

lemma first_to_bkt:
  assumes "HASH_MAKE_TABLE um e d = Inr d'" "h_tbl d' = Some t"
  shows "\<exists>t' c'. HASH_ADD_TO_BKT um hashv (HASH_TO_BKT (hashv e) (num_buckets t)) e t c = Some (Inr (t', c')) \<and>
    bkt_sizes t' 5 \<and> bkts_ok c' (buckets t') (mask_bkt (num_buckets t') hashv) {e} \<and> num_items t' = 0 \<and> ht_tail t' = e"
proof -
  have t: "buckets t = replicate 32 zero_bucket" "num_buckets t = 32" "log2_num_buckets t = 5" "num_items t = 0" "ht_tail t = e"
    using assms by (auto simp: HASH_MAKE_TABLE_def HASH_INITIAL_NUM_BUCKETS_def HASH_INITIAL_NUM_BUCKETS_LOG2_def split: if_splits)
  let ?b = "mask_bkt (num_buckets t) hashv e" and ?bk = "zero_bucket\<lparr>b_count := 1, hh_head := Some e\<rparr>"
  let ?t = "t\<lparr>buckets := (buckets t)[?b := ?bk]\<rparr>" and ?c = "push_bkt e zero_bucket c"
  have b: "?b < length (buckets t)" using mask_bkt_less [of 5 hashv e] by (simp add: t(1,2))
  then have z: "buckets t ! ?b = zero_bucket" by (simp add: t(1))
  have "\<not> (10 :: u32) \<le> 1" by (simp add: word_le_nat_alt)
  then have "HASH_ADD_TO_BKT um hashv (HASH_TO_BKT (hashv e) (num_buckets t)) e t c = Some (Inr (?t, ?c))"
    using b by (simp add: HASH_ADD_TO_BKT_def nth_bucket_def mask_bkt_def [symmetric] z Let_def zero_bucket_def HASH_BKT_CAPACITY_THRESH_def)
  moreover have "bkts_ok c (buckets t) (mask_bkt (num_buckets t) hashv) {}" unfolding t(1) by (rule bkts_ok_zero)
  then have "bkts_ok ?c (buckets ?t) (mask_bkt (num_buckets ?t) hashv) {e}"
    using bkts_push [of c "buckets t" "mask_bkt (num_buckets t) hashv" "{}" e ?bk] b by (simp add: z zero_bucket_def)
  moreover have "bkt_sizes ?t 5" by (simp add: bkt_sizes_def t(1-3))
  ultimately show ?thesis using t by (intro exI [of _ ?t] exI [of _ ?c]) simp
qed

lemma select_elt_ok:
  assumes ok: "selected_ok src B s" and new: "e \<notin> set B" and len: "length B + 1 < 2 ^ 32" and um: "mem_bound um"
  shows "\<exists>r. select_elt um src e s = Some r \<and> (r = Inl Exited \<or> (\<exists>s'. r = Inr s' \<and> selected_ok src (B @ [e]) s'))"
proof -
  obtain dst l where s: "s = (dst, l)" by (cases s)
  let ?hv = "(h_hashv dst)(e := h_hashv src e)"
  show ?thesis
  proof (cases B rule: rev_cases)
    case Nil
    let ?d = "dst\<lparr>h_key := (h_key dst)(e := h_key src e), h_keylen := (h_keylen dst)(e := h_keylen src e), h_hashv := ?hv,
      h_app := (set_next e None (set_prev e None (h_app dst)))\<lparr>dl_head := Some e\<rparr>\<rparr>"
    have o: "dl_head (h_app dst) = None" "l = None" using ok Nil by (auto simp: selected_ok_def s)
    show ?thesis
    proof (cases "HASH_MAKE_TABLE um e ?d")
      case (Inl f)
      then have "f = Exited" by (simp add: make_table_faults)
      with Inl o show ?thesis by (simp add: select_elt_def s Let_def)
    next
      case (Inr d')
      from make_table_ok [OF Inr] obtain t where t: "d' = ?d\<lparr>h_tbl := Some t\<rparr>" by blast
      from first_to_bkt [OF Inr, where t = t and hashv = ?hv and c = "h_chains dst"] t obtain t' c' where
        b: "HASH_ADD_TO_BKT um ?hv (HASH_TO_BKT (?hv e) (num_buckets t)) e t (h_chains dst) = Some (Inr (t', c'))"
          "bkt_sizes t' 5" "bkts_ok c' (buckets t') (mask_bkt (num_buckets t') ?hv) {e}" "num_items t' = 0" "ht_tail t' = e" by auto
      have "select_elt um src e s = Some (Inr (d'\<lparr>h_tbl := Some (t'\<lparr>num_items := num_items t' + 1\<rparr>), h_chains := c'\<rparr>, Some e))"
        using Inr o b(1) by (simp add: select_elt_def s Let_def the_tbl_def t)
      moreover have "bkt_sizes (t'\<lparr>num_items := 1\<rparr>) 5" using b(2) by (simp add: bkt_sizes_def)
      then have "selected_ok src [e] (d'\<lparr>h_tbl := Some (t'\<lparr>num_items := num_items t' + 1\<rparr>), h_chains := c'\<rparr>, Some e)"
        using b by (auto simp: selected_ok_def t)
      ultimately show ?thesis using Nil by simp
    qed
  next
    case (snoc C z)
    then have ne: "B \<noteq> []" and "last B = z" by simp_all
    with ok obtain t k where o: "l = Some z" "chain (dl_next (h_app dst)) (dl_head (h_app dst)) B None" "backs_to (dl_prev (h_app dst)) None B"
      "\<forall>e \<in> set B. h_key dst e = h_key src e \<and> h_keylen dst e = h_keylen src e \<and> h_hashv dst e = h_hashv src e"
      "h_tbl dst = Some t" "ht_tail t = hd B" "bkt_sizes t k" "num_items t = of_nat (length B)"
      "bkts_ok (h_chains dst) (buckets t) (mask_bkt (num_buckets t) (h_hashv dst)) (set B)"
      by (auto simp: selected_ok_def s last_of_def \<open>last B = z\<close>)
    let ?a = "set_next z (Some e) (set_next e None (set_prev e (Some z) (h_app dst)))"
    let ?d = "dst\<lparr>h_key := (h_key dst)(e := h_key src e), h_keylen := (h_keylen dst)(e := h_keylen src e), h_hashv := ?hv, h_app := ?a\<rparr>"
    obtain hd where hd: "dl_head (h_app dst) = Some hd" using o(2) ne by (cases B) auto
    have d: "distinct B" using o(2) by (rule chain_distinct)
    have "unat (num_items t) = length B" unfolding o(8) using len
      by (simp only: unsigned_of_nat of_nat_id) (simp add: take_bit_nat_eq_self)
    then have nz: "num_items t \<noteq> 0" using ne by (auto simp: unat_0)
    have bk: "bkts_ok (h_chains dst) (buckets t) (mask_bkt (num_buckets t) ?hv) (set B)" using o(9) new by simp
    have run: "select_elt um src e s = run_bind (HASH_ADD_TO_BKT um ?hv (HASH_TO_BKT (?hv e) (num_buckets t)) e t (h_chains dst)) (\<lambda>(t', c').
        Some (Inr (?d\<lparr>h_tbl := Some (t'\<lparr>num_items := num_items t' + 1\<rparr>), h_chains := c'\<rparr>, Some e)))"
      using hd by (simp add: select_elt_def s Let_def the_tbl_def o(1,5))
    from add_to_bkt_ok [OF o(7) bk new nz um] show ?thesis
    proof (elim disjE exE conjE)
      fix t' c' k'
      assume b: "HASH_ADD_TO_BKT um ?hv (HASH_TO_BKT (?hv e) (num_buckets t)) e t (h_chains dst) = Some (Inr (t', c'))"
        "bkt_sizes t' k'" "bkts_ok c' (buckets t') (mask_bkt (num_buckets t') ?hv) (insert e (set B))"
        "num_items t' = num_items t" "ht_tail t' = ht_tail t"
      let ?s = "(?d\<lparr>h_tbl := Some (t'\<lparr>num_items := num_items t' + 1\<rparr>), h_chains := c'\<rparr>, Some e)"
      have "chain (dl_next ?a) (dl_head ?a) (B @ [e]) None" "backs_to (dl_prev ?a) None (B @ [e])"
        using o(2,3) d new snoc by (cases C; auto)+
      moreover have "bkt_sizes (t'\<lparr>num_items := num_items t' + 1\<rparr>) k'" using b(2) by (simp add: bkt_sizes_def)
      ultimately have "selected_ok src (B @ [e]) ?s"
        using b(3-5) o(4,6,8) new ne by (auto simp: selected_ok_def)
      with run b(1) show ?thesis by simp
    qed (simp add: run)
  qed
qed

lemma select_fold_ok:
  assumes "selected_ok src B s" "distinct (B @ xs)" "length B + length xs < 2 ^ 32" "mem_bound um"
  shows "\<exists>r. run_fold (select_elt um src) xs s = Some r \<and> (r = Inl Exited \<or> (\<exists>s'. r = Inr s' \<and> selected_ok src (B @ xs) s'))"
  using assms(1-3)
proof (induction xs arbitrary: B s)
  case Nil
  then show ?case by (cases s) auto
next
  case (Cons x xs)
  have "x \<notin> set B" "length B + 1 < 2 ^ 32" using Cons.prems by auto
  from select_elt_ok [OF Cons.prems(1) this assms(4)] consider "select_elt um src x s = Some (Inl Exited)"
    | s' where "select_elt um src x s = Some (Inr s')" "selected_ok src (B @ [x]) s'" by blast
  then show ?case
  proof cases
    case 2
    with Cons.IH [OF 2(2)] Cons.prems show ?thesis by simp
  qed simp
qed

section \<open>The selected hash\<close>

text \<open>The new hash with the right \<open>tail\<close>, which only adding and deleting read.\<close>

definition with_tail :: "nat \<Rightarrow> ut_hash \<Rightarrow> ut_hash" where
  "with_tail e h = h\<lparr>h_tbl := map_option (\<lambda>t. t\<lparr>ht_tail := e\<rparr>) (h_tbl h)\<rparr>"

lemma with_tail_reads [simp]:
  "HASH_FIND hf k n (with_tail e h) = HASH_FIND hf k n h" "HASH_CNT (with_tail e h) = HASH_CNT h"
  "HASH_FSCK (with_tail e h) = HASH_FSCK h" "h_app (with_tail e h) = h_app h" "hkey (with_tail e h) = hkey h"
proof -
  have k: "same_key (with_tail e h) = same_key h" by (intro ext) (simp add: same_key_def with_tail_def)
  have f: "HASH_FIND_IN_BKT (with_tail e h) = HASH_FIND_IN_BKT h"
    by (intro ext, simp add: HASH_FIND_IN_BKT_def k, simp add: with_tail_def)
  have a: "h_app (with_tail e h) = h_app h" "h_chains (with_tail e h) = h_chains h" by (simp_all add: with_tail_def)
  show "HASH_FIND hf k n (with_tail e h) = HASH_FIND hf k n h"
    unfolding HASH_FIND_def f a by (cases "h_tbl h") (simp_all add: the_tbl_def with_tail_def)
  show "HASH_CNT (with_tail e h) = HASH_CNT h"
    unfolding HASH_CNT_def a by (cases "h_tbl h") (simp_all add: the_tbl_def with_tail_def cong: if_cong)
  show "HASH_FSCK (with_tail e h) = HASH_FSCK h"
    unfolding HASH_FSCK_def a by (cases "h_tbl h") (simp_all add: the_tbl_def with_tail_def cong: if_cong)
  show "h_app (with_tail e h) = h_app h" by (rule a)
  show "hkey (with_tail e h) = hkey h" by (intro ext) (simp add: hkey_def with_tail_def)
qed

lemma select_ok:
  assumes src: "hash_ok hf src A" and dst: "dl_head (h_app dst) = None" and um: "mem_bound um"
  shows "HASH_SELECT um cond src dst = Some (Inl Exited) \<or>
    (\<exists>d B. HASH_SELECT um cond src dst = Some (Inr d) \<and> distinct B \<and> set B = {e \<in> set A. cond e} \<and>
      hash_ok hf (with_tail (last B) d) B \<and> (\<forall>e \<in> set B. hkey d e = hkey src e) \<and>
      (B \<noteq> [] \<longrightarrow> (\<exists>t. h_tbl d = Some t \<and> ht_tail t = hd B)))"
proof (cases "A = []")
  case True
  then have "HASH_SELECT um cond src dst = Some (Inr dst)" using hash_ok_head [OF src] by (simp add: HASH_SELECT_def)
  moreover have "hash_ok hf (with_tail (last []) dst) []" using dst by (simp add: hash_ok_def)
  ultimately show ?thesis using True by auto
next
  case False
  with src obtain t where t: "h_tbl src = Some t" "table_ok hf src t A" by (auto simp: hash_ok_def)
  then obtain k where sz: "bkt_sizes t k" and bk: "bkts_ok (h_chains src) (buckets t) (mask_bkt (num_buckets t) (h_hashv src)) (set A)"
    and keys: "keys_ok hf src (set A)" and lenA: "length A < 2 ^ 32" by (auto simp: table_ok_def)
  have tk: "k < 31" "num_buckets t = 2 ^ k" "length (buckets t) = 2 ^ k" using sz by (simp_all add: bkt_sizes_def)
  have "\<forall>e \<in> set A. mask_bkt (num_buckets t) (h_hashv src) e < length (buckets t)"
    using mask_bkt_less [of k "h_hashv src"] tk by simp
  from bkts_lists [OF bk this] obtain xss where x: "length xss = length (buckets t)"
    "\<forall>j < length (buckets t). bkt_chain (h_chains src) (buckets t ! j) (xss ! j)" "distinct (concat xss)" "set (concat xss) = set A" by blast
  let ?B = "filter cond (concat xss)"
  have all: "take (unat (num_buckets t)) (buckets t) = buckets t" using bkt_sizes_double(3) [OF sz] tk(3) by simp
  obtain a where "dl_head (h_app src) = Some a" using hash_ok_head [OF src] False by (cases A) auto
  then have run: "HASH_SELECT um cond src dst = run_bind (run_fold (select_elt um src) ?B (dst, None)) (\<lambda>(d, _). Some (Inr d))"
    using select_buckets_fold [OF x(1)] x(2) by (simp add: HASH_SELECT_def the_tbl_def t(1) all bkt_chain_def)
  have "length (concat xss) = length A"
    using x(3,4) hash_ok_distinct [OF src] distinct_card by metis
  then have lenB: "length ?B < 2 ^ 32" using lenA length_filter_le [of cond "concat xss"] by linarith
  have "selected_ok src [] (dst, None)" using dst by (simp add: selected_ok_def)
  from select_fold_ok [OF this, of ?B um] x(3) lenB um consider
      "run_fold (select_elt um src) ?B (dst, None) = Some (Inl Exited)"
    | d l where "run_fold (select_elt um src) ?B (dst, None) = Some (Inr (d, l))" "selected_ok src ?B (d, l)" by auto
  then show ?thesis
  proof cases
    case 1
    with run show ?thesis by simp
  next
    case 2
    have sel: "chain (dl_next (h_app d)) (dl_head (h_app d)) ?B None" "backs_to (dl_prev (h_app d)) None ?B"
      "\<forall>e \<in> set ?B. h_key d e = h_key src e \<and> h_keylen d e = h_keylen src e \<and> h_hashv d e = h_hashv src e"
      using 2(2) by (simp_all add: selected_ok_def)
    have sub: "set ?B \<subseteq> set A" using x(4) by auto
    have hk: "\<forall>e \<in> set ?B. hkey d e = hkey src e" using sel(3) by (simp add: hkey_def)
    have "keys_ok hf d (set ?B)" unfolding keys_ok_def
    proof
      fix e assume "e \<in> set ?B"
      then show "unat (h_keylen d e) \<le> length (h_key d e) \<and> hf (h_key d e) (ucast (h_keylen d e)) = Inr (h_hashv d e)"
        using keys sub sel(3) by (metis keys_ok_def subsetD)
    qed
    then have ks: "keys_ok hf (with_tail e d) (set ?B)" for e by (simp add: keys_ok_def with_tail_def)
    have tb: "\<exists>t. h_tbl d = Some t \<and> ht_tail t = hd ?B \<and> table_ok hf (with_tail (last ?B) d) (t\<lparr>ht_tail := last ?B\<rparr>) ?B" if "?B \<noteq> []"
    proof -
      from 2(2) that obtain t' k' where t': "h_tbl d = Some t'" "ht_tail t' = hd ?B" "bkt_sizes t' k'" "num_items t' = of_nat (length ?B)"
        "bkts_ok (h_chains d) (buckets t') (mask_bkt (num_buckets t') (h_hashv d)) (set ?B)" by (auto simp: selected_ok_def)
      have "bkt_sizes (t'\<lparr>ht_tail := last ?B\<rparr>) k'" using t'(3) by (simp add: bkt_sizes_def)
      with t' ks lenB show ?thesis by (auto simp: table_ok_def with_tail_def)
    qed
    have "hash_ok hf (with_tail (last ?B) d) ?B"
      using sel(1,2) tb by (auto simp: hash_ok_def) (auto simp: with_tail_def)
    moreover have "distinct ?B" "set ?B = {e \<in> set A. cond e}" using x(3,4) by auto
    ultimately show ?thesis using run 2(1) hk tb by (intro disjI2 exI [of _ d] exI [of _ ?B]) auto
  qed
qed

section \<open>Properties\<close>

lemma visited_hash: "hash_ok hf h A \<Longrightarrow> visited (dl_next (h_app h)) (dl_head (h_app h)) = Some A"
  by (rule visited_chain) (simp add: hash_ok_def)

text \<open>
  \<open>HASH_SELECT\<close> into an empty hash: unless memory runs out, the new hash has exactly the
  elements of the source that meet the condition; it finds them by their keys and nothing
  else, counts them, visits each once, and passes the consistency check.
\<close>

theorem hash_select_ok:
  assumes "hash_rel hf lim um src al" "dl_head (h_app dst) = None"
  shows "HASH_SELECT um cond src dst = Some (Inl Exited) \<or>
    (\<exists>d es. HASH_SELECT um cond src dst = Some (Inr d) \<and>
      (\<forall>k. length k < lim \<longrightarrow>
         HASH_FIND hf k (of_nat (length k)) d = Some (Inr (map_of (filter (\<lambda>x. cond (snd x)) al) k))) \<and>
      HASH_CNT d = Inr (of_nat (length (filter (\<lambda>x. cond (snd x)) al))) \<and>
      visited (dl_next (h_app d)) (dl_head (h_app d)) = Some es \<and> distinct es \<and>
      set es = {e \<in> snd ` set al. cond e} \<and> HASH_FSCK d = Some (Inr ()))"
proof -
  from assms(1) obtain A where A: "hash_function hf lim" "mem_bound um" "hash_ok hf src A" "al = entries src A" "distinct (map fst al)"
    by (auto simp: hash_rel_def)
  let ?al = "filter (\<lambda>x. cond (snd x)) al"
  from select_ok [OF A(3) assms(2) A(2), of cond] show ?thesis
  proof (elim disjE exE conjE)
    fix d B assume d: "HASH_SELECT um cond src dst = Some (Inr d)" "distinct B" "set B = {e \<in> set A. cond e}"
      "hash_ok hf (with_tail (last B) d) B" "\<forall>e \<in> set B. hkey d e = hkey src e"
    let ?d = "with_tail (last B) d"
    have e: "entries ?d B = map (\<lambda>e. (hkey src e, e)) B" using d(5) by (simp add: entries_def)
    have al: "?al = map (\<lambda>e. (hkey src e, e)) (filter cond A)" by (simp add: A(4) entries_def filter_map comp_def)
    have s: "set (entries ?d B) = set ?al" unfolding e al using d(3) by auto
    have "distinct (map fst ?al)" using A(5) by (simp add: distinct_map_filter)
    moreover have "inj_on (hkey src) (set A)" using A(5) by (simp add: A(4) entries_def comp_def distinct_map)
    then have "inj_on (hkey src) (set B)" using d(3) by (auto intro: inj_on_subset)
    then have de: "distinct (map fst (entries ?d B))" using d(2) by (simp add: e comp_def distinct_map)
    ultimately have m: "map_of (entries ?d B) = map_of ?al" using s by (intro map_of_inject_set [THEN iffD2]) auto
    have rel: "hash_rel hf lim um ?d (entries ?d B)" using A(1,2) d(4) de by (auto simp: hash_rel_def)
    have "mset (filter cond A) = mset B" using d(2,3) hash_ok_distinct [OF A(3)] by (intro set_eq_iff_mset_eq_distinct [THEN iffD1]) auto
    then have "length B = length ?al" unfolding al by (metis length_map size_mset)
    with find_map [OF rel] hash_rel_checks(1,2) [OF rel] m have
      "\<forall>k. length k < lim \<longrightarrow> HASH_FIND hf k (of_nat (length k)) d = Some (Inr (map_of ?al k))"
      "HASH_CNT d = Inr (of_nat (length ?al))" "HASH_FSCK d = Some (Inr ())" by (simp_all add: e)
    moreover have "set B = {e \<in> snd ` set al. cond e}" using d(3) by (auto simp: A(4) entries_def image_image)
    ultimately show ?thesis using d(1,2) visited_hash [OF d(4)] by auto
  qed simp
qed

text \<open>Adding to a table whose \<open>tail\<close> is the first of several elements.\<close>

definition bytes_doubled :: "ut_table \<Rightarrow> size_t" where
  "bytes_doubled t = 2 ^ (unat (log2_num_buckets t) + 5)"

lemma add_behind_first:
  assumes "hash_function hf lim" "mem_bound um" "hash_ok hf (with_tail z d) (x # xs)" "h_tbl d = Some t" "ht_tail t = x"
    and new: "e \<notin> set (x # xs)" and len: "length k < lim" "length xs + 2 < 2 ^ 32"
  shows "\<not> um (bytes_doubled t) \<and> HASH_ADD_KEYPTR hf um k (of_nat (length k)) e d = Some (Inl Exited) \<or>
    (\<exists>d'. HASH_ADD_KEYPTR hf um k (of_nat (length k)) e d = Some (Inr d') \<and>
       visited (dl_next (h_app d')) (dl_head (h_app d')) = Some [x, e] \<and> HASH_CNT d' = Inr (of_nat (length xs + 2)))"
proof -
  note t = assms(4,5)
  have hd: "dl_head (h_app d) = Some x" using hash_ok_head [OF assms(3)] by simp
  have "unat (of_nat (length k) :: size_t) < lim" "unat (of_nat (length k) :: size_t) \<le> length k"
    unfolding key_size [OF assms(1) len(1)] using len(1) by simp_all
  from hash_function.returns [OF assms(1) this] obtain v where v: "hf k (of_nat (length k)) = Inr v" ..
  have tb: "table_ok hf (with_tail z d) (t\<lparr>ht_tail := z\<rparr>) (x # xs)"
    using assms(3) t(1) by (auto simp: hash_ok_def with_tail_def)
  let ?hv = "(h_hashv d)(e := v)" and ?t = "t\<lparr>ht_tail := e, num_items := num_items t + 1\<rparr>"
  from tb obtain b where sz: "bkt_sizes ?t b" by (auto simp: table_ok_def bkt_sizes_def)
  have cnt: "num_items ?t = of_nat (length xs + 2)" using tb by (simp add: table_ok_def)
  have "unat (num_items ?t) = length xs + 2" unfolding cnt using len(2)
    by (simp only: unsigned_of_nat of_nat_id) (simp add: take_bit_nat_eq_self)
  then have nz: "num_items ?t \<noteq> 0" by (auto simp: unat_0)
  have "bkts_ok (h_chains d) (buckets t) (mask_bkt (num_buckets t) (h_hashv d)) (set (x # xs))"
    using tb by (simp add: table_ok_def with_tail_def)
  then have bk: "bkts_ok (h_chains d) (buckets ?t) (mask_bkt (num_buckets ?t) ?hv) (set (x # xs))" using new by simp
  let ?app = "set_prev e (Some x) (set_next x (Some e) (set_next e None (h_app d)))"
  let ?d = "d\<lparr>h_key := (h_key d)(e := k), h_keylen := (h_keylen d)(e := ucast (of_nat (length k) :: size_t)), h_app := ?app, h_hashv := ?hv\<rparr>"
  have run: "HASH_ADD_KEYPTR hf um k (of_nat (length k)) e d =
      run_bind (HASH_ADD_TO_BKT um ?hv (HASH_TO_BKT (?hv e) (num_buckets ?t)) e ?t (h_chains d))
        (\<lambda>(t', c'). Some (Inr (?d\<lparr>h_tbl := Some t', h_chains := c'\<rparr>)))"
    using hd by (simp add: HASH_ADD_KEYPTR_def link_last_def the_tbl_def Let_def t v)
  from add_to_bkt_ok [OF sz bk new nz assms(2)] show ?thesis
  proof (elim disjE exE conjE)
    fix t' c' k'
    assume b: "HASH_ADD_TO_BKT um ?hv (HASH_TO_BKT (?hv e) (num_buckets ?t)) e ?t (h_chains d) = Some (Inr (t', c'))"
      "num_items t' = num_items ?t"
    let ?d' = "?d\<lparr>h_tbl := Some t', h_chains := c'\<rparr>"
    have "visited (dl_next (h_app ?d')) (dl_head (h_app ?d')) = Some [x, e]"
      using hd new by (intro visited_chain) simp
    moreover have "HASH_CNT ?d' = Inr (of_nat (length xs + 2))" using hd b(2) cnt by (simp add: HASH_CNT_def the_tbl_def)
    ultimately show ?thesis using run b(1) by auto
  next
    assume no: "\<not> um (2 ^ (b + 5))"
      "HASH_ADD_TO_BKT um ?hv (HASH_TO_BKT (?hv e) (num_buckets ?t)) e ?t (h_chains d) = Some (Inl Exited)"
    have "\<not> um (bytes_doubled t)" using no(1) bkt_sizes_log [OF sz] by (simp add: bytes_doubled_def)
    with run no(2) show ?thesis by simp
  qed
qed

text \<open>
  C15: after \<open>HASH_SELECT\<close> of two elements or more the next \<open>HASH_ADD_KEYPTR\<close> links the new
  element behind the first one, which is still the \<open>tail\<close>: all the others drop out of the
  iteration, although they are counted. It exits only if the doubled buckets get no memory.
\<close>

theorem select_then_add_drops:
  assumes "hash_rel hf lim um src al" "dl_head (h_app dst) = None" "HASH_SELECT um cond src dst = Some (Inr d)"
    and "visited (dl_next (h_app d)) (dl_head (h_app d)) = Some (x # y # es)" "e \<notin> set (x # y # es)"
    and "length k < lim" "length es + 3 < 2 ^ 32"
  shows "(\<exists>t. h_tbl d = Some t \<and> \<not> um (bytes_doubled t)) \<and> HASH_ADD_KEYPTR hf um k (of_nat (length k)) e d = Some (Inl Exited) \<or>
    (\<exists>d'. HASH_ADD_KEYPTR hf um k (of_nat (length k)) e d = Some (Inr d') \<and>
       visited (dl_next (h_app d')) (dl_head (h_app d')) = Some [x, e] \<and> HASH_CNT d' = Inr (of_nat (length es + 3)))"
proof -
  from assms(1) obtain A where A: "hash_function hf lim" "mem_bound um" "hash_ok hf src A" by (auto simp: hash_rel_def)
  from select_ok [OF A(3) assms(2) A(2), of cond] assms(3) obtain B where
    B: "hash_ok hf (with_tail (last B) d) B" "B \<noteq> [] \<longrightarrow> (\<exists>t. h_tbl d = Some t \<and> ht_tail t = hd B)" by auto
  have "B = x # y # es" using visited_hash [OF B(1)] assms(4) by simp
  note B' = B [unfolded this]
  from B'(2) obtain t where t: "h_tbl d = Some t" "ht_tail t = x" by auto
  have "length (y # es) + 2 < 2 ^ 32" using assms(7) by simp
  from add_behind_first [OF A(1,2) B'(1) t assms(5,6) this] t(1) show ?thesis by (auto simp: add.commute)
qed

text \<open>Two elements, the second of them selected, or both.\<close>

declare run_loop.simps [code]

definition two_adds :: "hash_op list" where
  "two_adds = [H_add ''PING'' 1, H_add ''004'' 2]"

definition two_selected :: "(nat \<Rightarrow> bool) \<Rightarrow> ut_hash run" where
  "two_selected cond = run_bind (run_ops (hash_step HASH_OAT below_2_35) two_adds null_hash) (\<lambda>src. HASH_SELECT below_2_35 cond src null_hash)"

lemma two_adds_return: "\<not> run_exits (run_ops (hash_step HASH_OAT below_2_35) two_adds null_hash)"
  by code_simp

lemma two_adds_rel:
  "\<exists>src. run_ops (hash_step HASH_OAT below_2_35) two_adds null_hash = Some (Inr src) \<and>
     hash_rel HASH_OAT (2 ^ 32) below_2_35 src [(''PING'', 1), (''004'', 2)]"
proof -
  have "hash_rel HASH_OAT (2 ^ 32) below_2_35 null_hash []"
    by (rule null_hash_rel) (simp_all add: uthash_fcns_def mem_bound_def below_2_35_def null_hash_def)
  moreover have "pre_ops (hash_pre (2 ^ 32)) hash_spec two_adds []" "spec_ops hash_spec two_adds [] = Inr [(''PING'', 1), (''004'', 2)]"
    by (simp_all add: two_adds_def)
  ultimately show ?thesis
    using hash.run_simulates [of HASH_OAT "2 ^ 32" below_2_35 null_hash "[]" two_adds] two_adds_return
    by (auto simp: outcome_Inr run_exits_def)
qed

lemma second_selected: "\<not> run_exits (two_selected (\<lambda>e. e = 2))"
  by code_simp

lemma add_to_selected: "\<not> run_exits (run_bind (two_selected (\<lambda>e. True)) (HASH_ADD_KEYPTR HASH_OAT below_2_35 ''JOIN'' 4 7))"
  by code_simp

lemma null_hash_head: "dl_head (h_app null_hash) = None"
  by (simp add: null_hash_def)

theorem hash_select_ok_witness:
  "\<exists>d. two_selected (\<lambda>e. e = 2) = Some (Inr d) \<and> HASH_FIND HASH_OAT ''004'' 3 d = Some (Inr (Some 2)) \<and>
     HASH_FIND HASH_OAT ''PING'' 4 d = Some (Inr None) \<and> HASH_CNT d = Inr 1"
proof -
  from two_adds_rel obtain src where src: "run_ops (hash_step HASH_OAT below_2_35) two_adds null_hash = Some (Inr src)"
    "hash_rel HASH_OAT (2 ^ 32) below_2_35 src [(''PING'', 1), (''004'', 2)]" by blast
  from hash_select_ok [OF src(2) null_hash_head, of "\<lambda>e. e = 2"] second_selected obtain d where
    d: "HASH_SELECT below_2_35 (\<lambda>e. e = 2) src null_hash = Some (Inr d)" "HASH_CNT d = Inr (of_nat (length [(''004'', 2 :: nat)]))"
      "\<forall>k. length k < 2 ^ 32 \<longrightarrow> HASH_FIND HASH_OAT k (of_nat (length k)) d = Some (Inr (map_of [(''004'', 2)] k))"
    by (auto simp: two_selected_def src(1) run_exits_def)
  from d(3) [rule_format, of "''004''"] d(3) [rule_format, of "''PING''"] d(1,2) show ?thesis
    by (simp add: two_selected_def src(1))
qed

theorem select_then_add_drops_witness:
  "\<exists>x d. run_bind (two_selected (\<lambda>e. True)) (HASH_ADD_KEYPTR HASH_OAT below_2_35 ''JOIN'' 4 7) = Some (Inr d) \<and>
     visited (dl_next (h_app d)) (dl_head (h_app d)) = Some [x, 7] \<and> HASH_CNT d = Inr 3"
proof -
  from two_adds_rel obtain src where src: "run_ops (hash_step HASH_OAT below_2_35) two_adds null_hash = Some (Inr src)"
    "hash_rel HASH_OAT (2 ^ 32) below_2_35 src [(''PING'', 1), (''004'', 2)]" by blast
  then obtain A where A: "hash_ok HASH_OAT src A" "[(''PING'', 1), (''004'', 2)] = entries src A" by (auto simp: hash_rel_def)
  have "map snd (entries src A) = A" by (simp add: entries_def comp_def)
  then have A12: "A = [1, 2]" using A(2) by (metis list.map(1) list.map(2) snd_conv)
  have "mem_bound below_2_35" by (simp add: mem_bound_def below_2_35_def)
  from select_ok [OF A(1) null_hash_head this, of "\<lambda>e. True"] add_to_selected obtain d B where
    d: "HASH_SELECT below_2_35 (\<lambda>e. True) src null_hash = Some (Inr d)" "distinct B" "set B = {1, 2}"
      "hash_ok HASH_OAT (with_tail (last B) d) B"
    by (auto simp: two_selected_def src(1) run_exits_def A12)
  have "length B = 2" using d(2,3) distinct_card [of B] by simp
  then obtain x y where B: "B = [x, y]" by (cases B; cases "tl B") auto
  have v: "visited (dl_next (h_app d)) (dl_head (h_app d)) = Some (x # y # [])" using visited_hash [OF d(4)] by (simp add: B)
  have "(7 :: nat) \<notin> set B" using d(3) by simp
  then have "7 \<notin> set (x # y # [])" by (simp add: B)
  from select_then_add_drops [OF src(2) null_hash_head d(1) v this, of "''JOIN''"] add_to_selected show ?thesis
    by (auto simp: two_selected_def src(1) d(1) run_exits_def)
qed

end
