(* ===== verification/Uthash_Bloom.thy ===== *)
theory Uthash_Bloom
  imports Uthash_Props
begin

text \<open>
  The Bloom filter of util/uthash.h, compiled in with \<open>HASH_BLOOM\<close>: a bit vector beside the
  table that a lookup tests before it goes to the bucket. The number of bits is the
  exponent \<open>nb\<close>, at most 32. The operations are those of the table together with what the
  macros do to the filter.
\<close>

section \<open>The filter\<close>

type_synonym bloom = "8 word list"

definition HASH_BLOOM_BYTELEN :: "nat \<Rightarrow> nat" where
  "HASH_BLOOM_BYTELEN nb = 2 ^ nb div 8 + (if 2 ^ nb mod 8 \<noteq> (0 :: nat) then 1 else 0)"

definition HASH_BLOOM_MAKE :: "malloc \<Rightarrow> nat \<Rightarrow> bloom res" where
  "HASH_BLOOM_MAKE um nb = (if um (of_nat (HASH_BLOOM_BYTELEN nb)) then Inr (replicate (HASH_BLOOM_BYTELEN nb) 0) else Inl Exited)"

definition HASH_BLOOM_BITSET :: "bloom \<Rightarrow> u32 \<Rightarrow> bloom res" where
  "HASH_BLOOM_BITSET bv idx =
     (let i = unat (idx div 8)
      in if i < length bv then Inr (bv[i := ucast (ucast (bv ! i) OR push_bit (unat (idx mod 8)) 1 :: u32)]) else Inl OutOfBounds)"

definition HASH_BLOOM_BITTEST :: "bloom \<Rightarrow> u32 \<Rightarrow> bool res" where
  "HASH_BLOOM_BITTEST bv idx =
     (let i = unat (idx div 8)
      in if i < length bv then Inr (ucast (bv ! i) AND push_bit (unat (idx mod 8)) 1 \<noteq> (0 :: u32)) else Inl OutOfBounds)"

text \<open>\<open>hashv & (uint32_t)((1ULL << bloom_nbits) - 1)\<close>\<close>

definition bloom_idx :: "nat \<Rightarrow> u32 \<Rightarrow> u32" where
  "bloom_idx nb hashv = hashv AND ucast (push_bit nb 1 - 1 :: 64 word)"

definition HASH_BLOOM_ADD :: "nat \<Rightarrow> bloom \<Rightarrow> u32 \<Rightarrow> bloom res" where
  "HASH_BLOOM_ADD nb bv hashv = HASH_BLOOM_BITSET bv (bloom_idx nb hashv)"

definition HASH_BLOOM_TEST :: "nat \<Rightarrow> bloom \<Rightarrow> u32 \<Rightarrow> bool res" where
  "HASH_BLOOM_TEST nb bv hashv = HASH_BLOOM_BITTEST bv (bloom_idx nb hashv)"

section \<open>The table with the filter\<close>

definition bloom_FIND :: "hash_fcn \<Rightarrow> nat \<Rightarrow> bytes \<Rightarrow> size_t \<Rightarrow> ut_hash \<times> bloom \<Rightarrow> ptr run" where
  "bloom_FIND hf nb keyptr keylen = (\<lambda>(h, bv).
     if dl_head (h_app h) = None then Some (Inr None)
     else
       case res_bind (the_tbl h) (\<lambda>t. res_bind (hf keyptr keylen) (\<lambda>hashv. res_bind (HASH_BLOOM_TEST nb bv hashv) (\<lambda>hit.
              if hit then res_bind (nth_bucket (buckets t) (HASH_TO_BKT hashv (num_buckets t))) (\<lambda>b. Inr (Some b)) else Inr None))) of
         Inl f \<Rightarrow> Some (Inl f)
       | Inr None \<Rightarrow> Some (Inr None)
       | Inr (Some b) \<Rightarrow> HASH_FIND_IN_BKT h keyptr keylen b)"

text \<open>
  With the signature, the number of bits and the pointer of the filter the table has 80 bytes
  instead of 64: the request for a table (its buckets are larger) is one for 80.
\<close>

definition bloom_malloc :: "malloc \<Rightarrow> malloc" where
  "bloom_malloc um sz = um (if sz = 64 then 80 else sz)"

text \<open>A new table comes with a new filter; the bit of the new element is set at the end.\<close>

definition bloom_ADD_KEYPTR :: "hash_fcn \<Rightarrow> malloc \<Rightarrow> nat \<Rightarrow> bytes \<Rightarrow> size_t \<Rightarrow> nat \<Rightarrow> ut_hash \<times> bloom \<Rightarrow> (ut_hash \<times> bloom) run" where
  "bloom_ADD_KEYPTR hf um nb keyptr keylen add = (\<lambda>(h, bv).
     run_bind (HASH_ADD_KEYPTR hf (bloom_malloc um) keyptr keylen add h) (\<lambda>h'.
     Some (res_bind (if dl_head (h_app h) = None then HASH_BLOOM_MAKE um nb else Inr bv) (\<lambda>bv1.
           res_bind (HASH_BLOOM_ADD nb bv1 (h_hashv h' add)) (\<lambda>bv2. Inr (h', bv2))))))"

text \<open>Deleting leaves the bits as they are.\<close>

definition bloom_DELETE :: "nat \<Rightarrow> ut_hash \<times> bloom \<Rightarrow> (ut_hash \<times> bloom) res" where
  "bloom_DELETE del = (\<lambda>(h, bv). res_bind (HASH_DELETE del h) (\<lambda>h'. Inr (h', bv)))"

section \<open>Bits\<close>

lemma bloom_idx_bits: "nb \<le> 32 \<Longrightarrow> bloom_idx nb v = take_bit nb v"
  unfolding bloom_idx_def by (rule bit_eqI) (auto simp: bit_simps mask_eq_exp_minus_1 [symmetric])

lemma bloom_idx_less: "nb \<le> 32 \<Longrightarrow> unat (bloom_idx nb v div 8) < HASH_BLOOM_BYTELEN nb"
proof -
  assume nb: "nb \<le> 32"
  have l: "unat (bloom_idx nb v) < 2 ^ nb" using nb by (simp add: bloom_idx_bits unsigned_take_bit_eq)
  have "unat (bloom_idx nb v div 8) = unat (bloom_idx nb v) div 8" by (simp add: unat_div)
  moreover have "n div 8 < m div 8 + (if m mod 8 \<noteq> 0 then 1 else 0)" if "n < m" for n m :: nat
    using that by (cases "m mod 8 = 0") (auto simp: div_less_iff_less_mult dvd_mult_div_cancel mod_eq_0_iff_dvd intro: div_le_mono le_imp_less_Suc less_imp_le)
  ultimately show ?thesis using l by (simp add: HASH_BLOOM_BYTELEN_def)
qed

lemma byte_bit: "unat (i mod 8) < 8" for i :: u32
  by (simp add: unat_mod)

lemma bittest_bit:
  "unat (i div 8) < length bv \<Longrightarrow> HASH_BLOOM_BITTEST bv i = Inr (bit (bv ! unat (i div 8)) (unat (i mod 8)))"
proof -
  have "(ucast b AND push_bit n 1 \<noteq> (0 :: u32)) = bit b n" if "n < 8" for b :: "8 word" and n
    using that by (simp add: and_exp_eq_0_iff_not_bit bit_simps)
  then show "unat (i div 8) < length bv \<Longrightarrow> HASH_BLOOM_BITTEST bv i = Inr (bit (bv ! unat (i div 8)) (unat (i mod 8)))"
    by (simp add: HASH_BLOOM_BITTEST_def Let_def byte_bit)
qed

text \<open>A bit that has been set is found, and the others keep what they were.\<close>

lemma bitset_ok:
  assumes "unat (i div 8) < length bv"
  shows "\<exists>bv'. HASH_BLOOM_BITSET bv i = Inr bv' \<and> length bv' = length bv \<and> HASH_BLOOM_BITTEST bv' i = Inr True \<and>
    (\<forall>j. HASH_BLOOM_BITTEST bv j = Inr True \<longrightarrow> HASH_BLOOM_BITTEST bv' j = Inr True)"
proof -
  let ?b = "ucast (ucast (bv ! unat (i div 8)) OR push_bit (unat (i mod 8)) 1 :: u32) :: 8 word"
  let ?bv = "bv[unat (i div 8) := ?b]"
  have b: "bit ?b n \<longleftrightarrow> bit (bv ! unat (i div 8)) n \<or> n = unat (i mod 8)" if "n < 8" for n
    using that by (auto simp: bit_simps)
  have "HASH_BLOOM_BITTEST ?bv j = Inr True" if "HASH_BLOOM_BITTEST bv j = Inr True" for j
  proof -
    have "unat (j div 8) < length bv" using that by (auto simp: HASH_BLOOM_BITTEST_def Let_def split: if_splits)
    then show ?thesis using that assms b [OF byte_bit [of j]] by (cases "unat (j div 8) = unat (i div 8)") (simp_all add: bittest_bit)
  qed
  moreover have "HASH_BLOOM_BITTEST ?bv i = Inr True" using assms b [OF byte_bit [of i]] by (simp add: bittest_bit)
  ultimately show ?thesis using assms by (simp add: HASH_BLOOM_BITSET_def Let_def)
qed

section \<open>The refinement\<close>

text \<open>The filter of a table has the bits of all its elements.\<close>

definition bloom_rel :: "hash_fcn \<Rightarrow> nat \<Rightarrow> malloc \<Rightarrow> nat \<Rightarrow> ut_hash \<times> bloom \<Rightarrow> (bytes \<times> nat) list \<Rightarrow> bool" where
  "bloom_rel hf lim um nb s al \<longleftrightarrow> (case s of (h, bv) \<Rightarrow> nb \<le> 32 \<and> hash_rel hf lim (bloom_malloc um) h al \<and>
     (al \<noteq> [] \<longrightarrow> length bv = HASH_BLOOM_BYTELEN nb \<and> (\<forall>e \<in> snd ` set al. HASH_BLOOM_TEST nb bv (h_hashv h e) = Inr True)))"

lemma bloom_test_returns:
  "nb \<le> 32 \<Longrightarrow> length bv = HASH_BLOOM_BYTELEN nb \<Longrightarrow> \<exists>hit. HASH_BLOOM_TEST nb bv v = Inr hit"
  using bloom_idx_less [of nb v] by (simp add: HASH_BLOOM_TEST_def bittest_bit)

lemma bloom_add_ok:
  assumes "nb \<le> 32" "length bv = HASH_BLOOM_BYTELEN nb"
  shows "\<exists>bv'. HASH_BLOOM_ADD nb bv v = Inr bv' \<and> length bv' = HASH_BLOOM_BYTELEN nb \<and> HASH_BLOOM_TEST nb bv' v = Inr True \<and>
    (\<forall>w. HASH_BLOOM_TEST nb bv w = Inr True \<longrightarrow> HASH_BLOOM_TEST nb bv' w = Inr True)"
  using bitset_ok [of "bloom_idx nb v" bv] bloom_idx_less [OF assms(1), of v] assms(2)
  by (auto simp: HASH_BLOOM_ADD_def HASH_BLOOM_TEST_def)

lemma add_hashv:
  assumes "HASH_ADD_KEYPTR hf um k n e h = Some (Inr h')"
  shows "\<forall>x. x \<noteq> e \<longrightarrow> h_hashv h' x = h_hashv h x"
proof -
  have l: "h_hashv h2 = h_hashv h1" if "link_last um e h1 = Inr h2" for h1 h2
    using that by (auto simp: link_last_def HASH_MAKE_TABLE_def the_tbl_def split: if_splits option.splits)
  show ?thesis
    using assms by (auto simp: HASH_ADD_KEYPTR_def Let_def run_bind_Some_Inr dest!: l split: sum.splits)
qed

lemma delete_hashv: "HASH_DELETE d h = Inr h' \<Longrightarrow> h_hashv h' = h_hashv h"
  by (auto simp: HASH_DELETE_def Let_def split: if_splits)

lemma entries_snd: "snd ` set (entries h A) = set A"
  by (auto simp: entries_def image_image)

text \<open>The filter does not change what is found.\<close>

lemma bloom_find_map:
  assumes "bloom_rel hf lim um nb (h, bv) al" "length k < lim"
  shows "bloom_FIND hf nb k (of_nat (length k)) (h, bv) = Some (Inr (map_of al k))"
proof -
  have rel: "nb \<le> 32" "hash_rel hf lim (bloom_malloc um) h al" "al \<noteq> [] \<longrightarrow> length bv = HASH_BLOOM_BYTELEN nb \<and>
      (\<forall>e \<in> snd ` set al. HASH_BLOOM_TEST nb bv (h_hashv h e) = Inr True)" using assms(1) by (simp_all add: bloom_rel_def)
  then obtain A where A: "hash_function hf lim" "hash_ok hf h A" "al = entries h A" by (auto simp: hash_rel_def)
  note f = find_map [OF rel(2) assms(2)]
  show ?thesis
  proof (cases A)
    case Nil
    then have "dl_head (h_app h) = None" using hash_ok_head [OF A(2)] by simp
    with Nil show ?thesis by (simp add: bloom_FIND_def A(3) entries_def)
  next
    case (Cons a as)
    then have ne: "al \<noteq> []" "A \<noteq> []" by (simp_all add: A(3) entries_def)
    have hd: "dl_head (h_app h) = Some a" using hash_ok_head [OF A(2)] Cons by simp
    from ne(2) A(2) obtain t where t: "h_tbl h = Some t" "table_ok hf h t A" by (auto simp: hash_ok_def)
    have n: "unat (of_nat (length k) :: size_t) < lim" "unat (of_nat (length k) :: size_t) \<le> length k"
      unfolding key_size [OF A(1) assms(2)] using assms(2) by simp_all
    from hash_function.returns [OF A(1) n] obtain v where v: "hf k (of_nat (length k)) = Inr v" ..
    from bloom_test_returns [OF rel(1), of bv v] rel(3) ne(1) obtain hit where hit: "HASH_BLOOM_TEST nb bv v = Inr hit" by auto
    show ?thesis
    proof (cases hit)
      case True
      have "bloom_FIND hf nb k (of_nat (length k)) (h, bv) = HASH_FIND hf k (of_nat (length k)) h"
        by (cases "nth_bucket (buckets t) (HASH_TO_BKT v (num_buckets t))")
          (simp_all add: bloom_FIND_def HASH_FIND_def hd the_tbl_def t(1) v hit True)
      with f show ?thesis by simp
    next
      case False
      have "map_of al k = None"
      proof (rule ccontr)
        assume "map_of al k \<noteq> None"
        then obtain e where e: "(k, e) \<in> set al" by (auto dest: map_of_SomeD)
        then have eA: "e \<in> set A" "hkey h e = k" by (auto simp: A(3) entries_def)
        have "keys_ok hf h (set A)" using t(2) by (simp add: table_ok_def)
        from hash_function.same_hash [OF A(1) this eA(1) n _ v] eA(2) have "h_hashv h e = v"
          unfolding key_size [OF A(1) assms(2)] by simp
        moreover have "HASH_BLOOM_TEST nb bv (h_hashv h e) = Inr True" using rel(3) ne(1) e by force
        ultimately show False using hit False by simp
      qed
      with hd t(1) v hit False show ?thesis by (simp add: bloom_FIND_def the_tbl_def)
    qed
  qed
qed

lemma bloom_added:
  assumes "bloom_rel hf lim um nb (h, bv) al"
    and add: "HASH_ADD_KEYPTR hf (bloom_malloc um) k (of_nat (length k)) e h = Some (Inr h')" "hash_rel hf lim (bloom_malloc um) h' (al @ [(k, e)])"
    and bv1: "(if dl_head (h_app h) = None then HASH_BLOOM_MAKE um nb else Inr bv) = Inr bv1"
  shows "\<exists>bv2. bloom_ADD_KEYPTR hf um nb k (of_nat (length k)) e (h, bv) = Some (Inr (h', bv2)) \<and>
    bloom_rel hf lim um nb (h', bv2) (al @ [(k, e)])"
proof -
  have rel: "nb \<le> 32" "hash_rel hf lim (bloom_malloc um) h al" "al \<noteq> [] \<longrightarrow> length bv = HASH_BLOOM_BYTELEN nb \<and>
      (\<forall>e \<in> snd ` set al. HASH_BLOOM_TEST nb bv (h_hashv h e) = Inr True)" using assms(1) by (simp_all add: bloom_rel_def)
  have hd: "dl_head (h_app h) = None \<longleftrightarrow> al = []"
  proof -
    from rel(2) obtain A where A: "hash_ok hf h A" "al = entries h A" by (auto simp: hash_rel_def)
    from A(2) hash_ok_head [OF A(1)] show ?thesis by (cases A) (simp_all add: entries_def)
  qed
  have l: "length bv1 = HASH_BLOOM_BYTELEN nb"
    using bv1 rel(3) hd by (auto simp: HASH_BLOOM_MAKE_def split: if_splits)
  have old: "al \<noteq> [] \<Longrightarrow> bv1 = bv" using bv1 hd by simp
  from bloom_add_ok [OF rel(1) l, of "h_hashv h' e"] obtain bv2 where
    b: "HASH_BLOOM_ADD nb bv1 (h_hashv h' e) = Inr bv2" "length bv2 = HASH_BLOOM_BYTELEN nb"
      "HASH_BLOOM_TEST nb bv2 (h_hashv h' e) = Inr True"
      "\<forall>w. HASH_BLOOM_TEST nb bv1 w = Inr True \<longrightarrow> HASH_BLOOM_TEST nb bv2 w = Inr True" by blast
  have "HASH_BLOOM_TEST nb bv2 (h_hashv h' x) = Inr True" if x: "x \<in> snd ` set (al @ [(k, e)])" for x
  proof (cases "x = e")
    case False
    with x have "x \<in> snd ` set al" by auto
    moreover from this have "al \<noteq> []" by auto
    ultimately have "HASH_BLOOM_TEST nb bv1 (h_hashv h x) = Inr True" using rel(3) old by blast
    with add_hashv [OF add(1)] b(4) False show ?thesis by simp
  qed (use b(3) in simp)
  then have "bloom_rel hf lim um nb (h', bv2) (al @ [(k, e)])" using rel(1) add(2) b(2) by (simp add: bloom_rel_def)
  moreover have "bloom_ADD_KEYPTR hf um nb k (of_nat (length k)) e (h, bv) = Some (Inr (h', bv2))"
    using add(1) bv1 b(1) by (simp add: bloom_ADD_KEYPTR_def)
  ultimately show ?thesis by blast
qed

lemma bloom_add_map:
  assumes "bloom_rel hf lim um nb (h, bv) al" "hash_pre lim (H_add k e) al"
  shows "\<exists>r. bloom_ADD_KEYPTR hf um nb k (of_nat (length k)) e (h, bv) = Some r \<and>
    outcome {Exited} (bloom_rel hf lim um nb) r (Inr (al @ [(k, e)]))"
proof -
  have "hash_rel hf lim (bloom_malloc um) h al" using assms(1) by (simp add: bloom_rel_def)
  from add_map [OF this assms(2)] consider
      "HASH_ADD_KEYPTR hf (bloom_malloc um) k (of_nat (length k)) e h = Some (Inl Exited)"
    | h' where "HASH_ADD_KEYPTR hf (bloom_malloc um) k (of_nat (length k)) e h = Some (Inr h')" "hash_rel hf lim (bloom_malloc um) h' (al @ [(k, e)])"
    by (auto simp: outcome_Inr)
  then show ?thesis
  proof cases
    case 2
    show ?thesis
    proof (cases "if dl_head (h_app h) = None then HASH_BLOOM_MAKE um nb else Inr bv")
      case (Inl f)
      then have "f = Exited" by (auto simp: HASH_BLOOM_MAKE_def split: if_splits)
      with Inl 2(1) show ?thesis by (auto simp: bloom_ADD_KEYPTR_def outcome_Inr)
    next
      case (Inr bv1)
      from bloom_added [OF assms(1) 2 Inr] show ?thesis by (auto simp: outcome_Inr)
    qed
  qed (simp add: bloom_ADD_KEYPTR_def outcome_Inr)
qed

lemma bloom_delete_map:
  assumes "bloom_rel hf lim um nb (h, bv) al" "hash_pre lim (H_delete e) al"
  shows "\<exists>s. bloom_DELETE e (h, bv) = Inr s \<and> bloom_rel hf lim um nb s (filter (\<lambda>x. snd x \<noteq> e) al)"
proof -
  from assms(1) have "hash_rel hf lim (bloom_malloc um) h al" by (simp add: bloom_rel_def)
  from delete_map [OF this assms(2)] obtain h' where h': "HASH_DELETE e h = Inr h'" "hash_rel hf lim (bloom_malloc um) h' (filter (\<lambda>x. snd x \<noteq> e) al)" by blast
  with assms(1) delete_hashv [OF h'(1)] have "bloom_rel hf lim um nb (h', bv) (filter (\<lambda>x. snd x \<noteq> e) al)"
    by (auto simp: bloom_rel_def)
  with h'(1) show ?thesis by (simp add: bloom_DELETE_def)
qed

datatype bloom_op = B_add bytes nat | B_delete nat

fun as_hash_op :: "bloom_op \<Rightarrow> hash_op" where
  "as_hash_op (B_add k e) = H_add k e"
| "as_hash_op (B_delete e) = H_delete e"

fun bloom_step :: "hash_fcn \<Rightarrow> malloc \<Rightarrow> nat \<Rightarrow> bloom_op \<Rightarrow> ut_hash \<times> bloom \<Rightarrow> (ut_hash \<times> bloom) run" where
  "bloom_step hf um nb (B_add k e) s = bloom_ADD_KEYPTR hf um nb k (of_nat (length k)) e s"
| "bloom_step hf um nb (B_delete e) s = Some (bloom_DELETE e s)"

text \<open>What a step does to the table is what the step without the filter does.\<close>

lemma bloom_step_table:
  "bloom_step hf um nb i (h, bv) = Some (Inr (h', bv')) \<Longrightarrow> hash_step hf (bloom_malloc um) (as_hash_op i) h = Some (Inr h')"
  by (cases i) (auto simp: bloom_ADD_KEYPTR_def bloom_DELETE_def run_bind_def res_bind_def split: option.splits sum.splits if_splits)

definition bloom_no_memory :: "malloc \<Rightarrow> nat \<Rightarrow> nat \<Rightarrow> bool" where
  "bloom_no_memory um nb b \<longleftrightarrow> no_memory (bloom_malloc um) b \<or> \<not> um (of_nat (HASH_BLOOM_BYTELEN nb))"

lemma bloom_step_stops:
  assumes "bloom_rel hf lim um nb (h, bv) al" "hash_pre lim (as_hash_op i) al" "bits_le h b"
    and "bloom_step hf um nb i (h, bv) = Some (Inl f)"
  shows "bloom_no_memory um nb b"
proof (cases "um (of_nat (HASH_BLOOM_BYTELEN nb))")
  case True
  have rel: "hash_rel hf lim (bloom_malloc um) h al" using assms(1) by (simp add: bloom_rel_def)
  show ?thesis
  proof (cases i)
    case (B_add k e)
    have "hash_pre lim (H_add k e) al" using assms(2) by (simp only: B_add as_hash_op.simps)
    from add_map [OF rel this] consider
        "HASH_ADD_KEYPTR hf (bloom_malloc um) k (of_nat (length k)) e h = Some (Inl Exited)"
      | h' where "HASH_ADD_KEYPTR hf (bloom_malloc um) k (of_nat (length k)) e h = Some (Inr h')" "hash_rel hf lim (bloom_malloc um) h' (al @ [(k, e)])"
      by (auto simp: outcome_Inr)
    then show ?thesis
    proof cases
      case 1
      then have "hash_step hf (bloom_malloc um) (as_hash_op i) h = Some (Inl Exited)" by (simp add: B_add)
      from hash.stops [OF rel assms(2,3) this] show ?thesis by (simp add: bloom_no_memory_def)
    next
      case 2
      obtain bv1 where "(if dl_head (h_app h) = None then HASH_BLOOM_MAKE um nb else Inr bv) = Inr bv1"
        using True by (cases "dl_head (h_app h)") (simp_all add: HASH_BLOOM_MAKE_def)
      from bloom_added [OF assms(1) 2 this] assms(4) show ?thesis by (auto simp: B_add)
    qed
  next
    case (B_delete e)
    with bloom_delete_map [OF assms(1), of e] assms(2,4) show ?thesis by auto
  qed
qed (simp add: bloom_no_memory_def)

interpretation bloom: op_resources "{Exited}" "bloom_rel hf lim um nb" "\<lambda>i. hash_pre lim (as_hash_op i)" "bloom_step hf um nb"
    "\<lambda>i. hash_spec (as_hash_op i)" "\<lambda>s. bits_le (fst s)" "bloom_no_memory um nb" for hf lim um nb
proof
  fix s al i b f s'
  assume rel: "bloom_rel hf lim um nb s al" and pre: "hash_pre lim (as_hash_op i) al"
  obtain h bv where s: "s = (h, bv)" by (cases s)
  show "\<exists>r. bloom_step hf um nb i s = Some r \<and> outcome {Exited} (bloom_rel hf lim um nb) r (hash_spec (as_hash_op i) al)"
  proof (cases i)
    case (B_add k e)
    with bloom_add_map [OF rel [unfolded s], of k e] pre show ?thesis by (simp add: s)
  next
    case (B_delete e)
    with bloom_delete_map [OF rel [unfolded s], of e] pre show ?thesis by (auto simp: s outcome_Inr)
  qed
  assume bits: "bits_le (fst s) b"
  show "bloom_no_memory um nb b" if "bloom_step hf um nb i s = Some (Inl f)"
    using bloom_step_stops [OF rel [unfolded s] pre] bits that by (simp add: s)
  have "hash_rel hf lim (bloom_malloc um) h al" using rel by (simp add: s bloom_rel_def)
  then show "bits_le (fst s') (Suc b)" if "bloom_step hf um nb i s = Some (Inr s')"
    using hash.grows [where s = h and b = b, OF _ pre] bloom_step_table that bits by (cases s') (simp add: s)
next
  show "bloom_no_memory um nb c" if "bloom_no_memory um nb b" "b \<le> c" for b c
    using that by (auto simp: bloom_no_memory_def dest: no_memory_mono)
qed

section \<open>Properties\<close>

text \<open>
  C14: with the Bloom filter compiled in, of up to \<open>2 ^ 32\<close> bits, sequences of adding and
  deleting keep the filter free of false negatives: unless the memory of the table or of the filter is
  refused they return, every bit that is read or set is inside the vector, and a lookup
  through the filter finds what the association list has, as it does without the filter.
\<close>

theorem bloom_finds_all:
  assumes "(hf, lim) \<in> set uthash_fcns" "mem_bound um" "nb \<le> 32" "dl_head (h_app h) = None"
    and "pre_ops (\<lambda>i. hash_pre lim (as_hash_op i)) (\<lambda>i. hash_spec (as_hash_op i)) is []"
  shows "bloom_no_memory um nb (5 + length is) \<and> run_ops (bloom_step hf um nb) is (h, bv) = Some (Inl Exited) \<or>
    (\<exists>h' bv' al. run_ops (bloom_step hf um nb) is (h, bv) = Some (Inr (h', bv')) \<and>
       spec_ops (\<lambda>i. hash_spec (as_hash_op i)) is [] = Inr al \<and>
       (\<forall>k. length k < lim \<longrightarrow> bloom_FIND hf nb k (of_nat (length k)) (h', bv') = Some (Inr (map_of al k)) \<and>
          HASH_FIND hf k (of_nat (length k)) h' = Some (Inr (map_of al k))))"
proof -
  have "\<exists>b. spec_ops (\<lambda>i. hash_spec (as_hash_op i)) is a = Inr b" for a
  proof (induction "is" arbitrary: a)
    case (Cons i "is")
    then show ?case by (cases i) simp_all
  qed simp
  then obtain al where al: "spec_ops (\<lambda>i. hash_spec (as_hash_op i)) is [] = Inr al" by blast
  have "mem_bound (bloom_malloc um)" using assms(2) by (simp add: mem_bound_def bloom_malloc_def)
  then have rel: "bloom_rel hf lim um nb (h, bv) []" using null_hash_rel [OF assms(1) _ assms(4)] assms(3) by (simp add: bloom_rel_def)
  from bloom.run_simulates [OF rel assms(5)] obtain r where
    r: "run_ops (bloom_step hf um nb) is (h, bv) = Some r" "outcome {Exited} (bloom_rel hf lim um nb) r (Inr al)" by (auto simp: al)
  then consider "r = Inl Exited" | h' bv' where "r = Inr (h', bv')" "bloom_rel hf lim um nb (h', bv') al" by (auto simp: outcome_Inr)
  then show ?thesis
  proof cases
    case 2
    have "hash_rel hf lim (bloom_malloc um) h' al" using 2(2) by (simp add: bloom_rel_def)
    with 2 r(1) al bloom_find_map [OF 2(2)] find_map show ?thesis by blast
  next
    case 1
    with bloom.run_lacks [OF rel assms(5)] bits_le_null [OF assms(4)] r(1) show ?thesis by simp
  qed
qed

definition three_bloom_ops :: "bloom_op list" where
  "three_bloom_ops = [B_add ''PING'' 1, B_add ''004'' 2, B_delete 1]"

lemma three_bloom_ops_return: "\<not> run_exits (run_ops (bloom_step HASH_OAT below_2_35 5) three_bloom_ops (null_hash, []))"
  by code_simp

theorem bloom_finds_all_witness:
  "\<exists>h bv. run_ops (bloom_step HASH_OAT below_2_35 5) three_bloom_ops (null_hash, []) = Some (Inr (h, bv)) \<and>
     bloom_FIND HASH_OAT 5 ''004'' 3 (h, bv) = Some (Inr (Some 2)) \<and> bloom_FIND HASH_OAT 5 ''PING'' 4 (h, bv) = Some (Inr None)"
proof -
  have "(HASH_OAT, 2 ^ 32) \<in> set uthash_fcns" "mem_bound below_2_35" "(5 :: nat) \<le> 32" "dl_head (h_app null_hash) = None"
    "pre_ops (\<lambda>i. hash_pre (2 ^ 32) (as_hash_op i)) (\<lambda>i. hash_spec (as_hash_op i)) three_bloom_ops []"
    by (simp_all add: uthash_fcns_def mem_bound_def below_2_35_def null_hash_def three_bloom_ops_def)
  moreover have "spec_ops (\<lambda>i. hash_spec (as_hash_op i)) three_bloom_ops [] = Inr [(''004'', 2)]" by (simp add: three_bloom_ops_def)
  ultimately obtain h bv where h: "run_ops (bloom_step HASH_OAT below_2_35 5) three_bloom_ops (null_hash, []) = Some (Inr (h, bv))"
      "\<forall>k. length k < 2 ^ 32 \<longrightarrow> bloom_FIND HASH_OAT 5 k (of_nat (length k)) (h, bv) = Some (Inr (map_of [(''004'', 2)] k))"
    using bloom_finds_all [of HASH_OAT "2 ^ 32" below_2_35 5 null_hash three_bloom_ops "[]"] three_bloom_ops_return
    by (auto simp: run_exits_def)
  from h(2) [rule_format, of "''004''"] h(2) [rule_format, of "''PING''"] h(1) show ?thesis by simp
qed

end
