(* ===== verification/Irc_Table.thy ===== *)
theory Irc_Table
  imports Rp_Irc Uthash_Props
begin

text \<open>
  The table of command handlers of rp_irc.c in memory: a uthash table whose entries hold the
  heads of utlist lists. It refines the association list of \<open>Rp_Irc\<close>, for every map that
  keeps the laws of \<open>key_map\<close>, which the hash table does.
\<close>

section \<open>The table\<close>

text \<open>
  The entries (\<open>rp_irc_ev_hash\<close>) have a field \<open>ev\<close>, the nodes (\<open>rp_irc_ev\<close>) the fields
  \<open>next\<close> and \<open>handler\<close>.
\<close>

record 'h ev_table =
  tb_hash :: 'h
  tb_ev :: "nat \<Rightarrow> ptr"
  tb_next :: "nat \<Rightarrow> ptr"
  tb_handler :: "nat \<Rightarrow> rp_ev_handler"

text \<open>
  \<open>register_handler\<close>; the memory from the pool for a new entry and for the node is number
  \<open>n\<close>, and what it holds before is what the fields are there. The operations of the hash
  table are parameters.
\<close>

definition table_register :: "(bytes \<Rightarrow> 'h \<Rightarrow> ptr run) \<Rightarrow> (bytes \<Rightarrow> nat \<Rightarrow> 'h \<Rightarrow> 'h run) \<Rightarrow> nat \<Rightarrow> bytes \<Rightarrow>
    rp_ev_handler \<Rightarrow> 'h ev_table \<Rightarrow> 'h ev_table run" where
  "table_register hfind hadd n cmd handler T =
     run_bind (hfind cmd (tb_hash T)) (\<lambda>found.
     run_bind (case found of
                 None \<Rightarrow> run_bind (hadd cmd n (tb_hash T)) (\<lambda>h. Some (Inr (n, T\<lparr>tb_hash := h\<rparr>)))
               | Some e \<Rightarrow> Some (Inr (e, T))) (\<lambda>(ehash, T1).
     let T2 = T1\<lparr>tb_handler := (tb_handler T1)(n := handler), tb_next := (tb_next T1)(n := None)\<rparr>
     in run_bind (LL_APPEND n (tb_ev T2 ehash, tb_next T2)) (\<lambda>(ev, nx).
        Some (Inr (T2\<lparr>tb_ev := (tb_ev T2)(ehash := ev), tb_next := nx\<rparr>)))))"

fun table_registers :: "(bytes \<Rightarrow> 'h \<Rightarrow> ptr run) \<Rightarrow> (bytes \<Rightarrow> nat \<Rightarrow> 'h \<Rightarrow> 'h run) \<Rightarrow> nat \<Rightarrow> (bytes \<times> rp_ev_handler) list \<Rightarrow>
    'h ev_table \<Rightarrow> 'h ev_table run" where
  "table_registers hfind hadd n [] T = Some (Inr T)"
| "table_registers hfind hadd n ((cmd, handler) # rs) T =
     run_bind (table_register hfind hadd n cmd handler T) (table_registers hfind hadd (Suc n) rs)"

text \<open>\<open>rp_irc_handle\<close> with the lookup and the loop over the handlers.\<close>

definition table_handle :: "(bytes \<Rightarrow> 'h \<Rightarrow> ptr run) \<Rightarrow> rp_config \<Rightarrow> 'p rp_irc_ctx \<Rightarrow> 'h ev_table \<Rightarrow> rp_fifo \<Rightarrow> rp_fifo run" where
  "table_handle hfind cfg ctx T wb =
     run_bind (Some (str_at (code_ptr (ic_msg ctx)) (code_len (ic_msg ctx)))) (\<lambda>cmd.
     run_bind (hfind cmd (tb_hash T)) (\<lambda>ehash.
       case ehash of
         None \<Rightarrow> Some (Inr wb)
       | Some e \<Rightarrow> LL_FOREACH (tb_next T) (\<lambda>x r. res_bind r (run_handler cfg ctx (tb_handler T x))) (tb_ev T e) (Inr wb)))"

section \<open>The association list\<close>

definition table_after :: "rp_irc_hash \<Rightarrow> bytes \<Rightarrow> rp_ev_handler \<Rightarrow> rp_irc_hash" where
  "table_after tab cmd handler = hash_append (if hash_find tab cmd = None then tab @ [(cmd, [])] else tab) cmd handler"

fun register_handlers :: "'p palloc \<Rightarrow> (bytes \<times> rp_ev_handler) list \<Rightarrow> 'p rp_irc_ctx \<Rightarrow> 'p rp_irc_ctx res" where
  "register_handlers pal [] ctx = Inr ctx"
| "register_handlers pal ((cmd, handler) # rs) ctx =
     res_bind (register_handler pal True ctx cmd handler) (register_handlers pal rs)"

fun tables_after :: "(bytes \<times> rp_ev_handler) list \<Rightarrow> rp_irc_hash \<Rightarrow> rp_irc_hash" where
  "tables_after [] tab = tab"
| "tables_after ((cmd, handler) # rs) tab = tables_after rs (table_after tab cmd handler)"

lemma register_handler_table:
  assumes "pal_total pal"
  shows "\<exists>p. register_handler pal True ctx cmd handler = Inr (ctx\<lparr>ic_pool := p, ic_hash := table_after (ic_hash ctx) cmd handler\<rparr>)"
proof -
  have "\<exists>q. pal p n = (q, True)" for p n using assms by (metis pal_total_def prod.collapse)
  then obtain q1 q2 q3 where "pal (ic_pool ctx) 72 = (q1, True)" "pal q1 16 = (q2, True)" "pal (ic_pool ctx) 16 = (q3, True)" by metis
  then show ?thesis
    by (cases "hash_find (ic_hash ctx) cmd")
      (auto simp: register_handler_def table_after_def Let_def simp del: res_bind_eq_Inr)
qed

lemma register_handlers_tables:
  assumes "pal_total pal"
  shows "\<exists>c. register_handlers pal rs ctx = Inr c \<and> ic_hash c = tables_after rs (ic_hash ctx)"
proof (induction rs arbitrary: ctx)
  case (Cons r rs)
  obtain cmd handler where r: "r = (cmd, handler)" by (cases r)
  from register_handler_table [OF assms, of ctx cmd handler] obtain p where
    p: "register_handler pal True ctx cmd handler = Inr (ctx\<lparr>ic_pool := p, ic_hash := table_after (ic_hash ctx) cmd handler\<rparr>)" by blast
  from Cons.IH [of "ctx\<lparr>ic_pool := p, ic_hash := table_after (ic_hash ctx) cmd handler\<rparr>"] show ?case by (simp add: r p)
qed simp

lemma hash_append_map:
  "distinct (map fst tab) \<Longrightarrow> hash_append tab cmd x = map (\<lambda>(k, es). (k, if k = cmd then es @ [x] else es)) tab"
proof (induction tab cmd x rule: hash_append.induct)
  case (2 k es h cmd e)
  have "map (\<lambda>(k, es). (k, if k = cmd then es @ [e] else es)) h = h" if "cmd \<notin> fst ` set h"
    using that by (intro map_idI) force
  with 2 show ?case by auto
qed simp

section \<open>The refinement\<close>

text \<open>What a table of keys provides; adding may exit where what a table of that size needs is lacking.\<close>

locale key_map =
  fixes rel :: "'h \<Rightarrow> (bytes \<times> nat) list \<Rightarrow> bool"
    and hfind :: "bytes \<Rightarrow> 'h \<Rightarrow> ptr run"
    and hadd :: "bytes \<Rightarrow> nat \<Rightarrow> 'h \<Rightarrow> 'h run"
    and lim :: nat
    and lacks :: "nat \<Rightarrow> bool"
  assumes find_law: "rel h al \<Longrightarrow> length k < lim \<Longrightarrow> hfind k h = Some (Inr (map_of al k))"
    and add_law: "rel h al \<Longrightarrow> k \<notin> fst ` set al \<Longrightarrow> e \<notin> snd ` set al \<Longrightarrow> length k < lim \<Longrightarrow> length al + 1 < 2 ^ 32 \<Longrightarrow>
      \<exists>r. hadd k e h = Some r \<and> outcome {f. f = Exited \<and> lacks (length al)} rel r (Inr (al @ [(k, e)]))"
    and lacks_mono: "lacks m \<Longrightarrow> m \<le> n \<Longrightarrow> lacks n"

text \<open>Entries below \<open>n\<close> with disjoint lists of nodes below \<open>m\<close>; the memory after them is zero.\<close>

definition lists_ok :: "nat \<Rightarrow> nat \<Rightarrow> (bytes \<times> nat) list \<Rightarrow> (nat \<Rightarrow> nat list) \<Rightarrow> 'h ev_table \<Rightarrow> bool" where
  "lists_ok n m al nodes T \<longleftrightarrow> distinct (map fst al) \<and> distinct (map snd al) \<and> (\<forall>e \<in> snd ` set al. e < n) \<and>
     (\<forall>e \<in> snd ` set al. chain (tb_next T) (tb_ev T e) (nodes e) None \<and> (\<forall>x \<in> set (nodes e). x < m)) \<and>
     (\<forall>e \<in> snd ` set al. \<forall>e' \<in> snd ` set al. e \<noteq> e' \<longrightarrow> set (nodes e) \<inter> set (nodes e') = {}) \<and> (\<forall>e \<ge> n. tb_ev T e = None)"

definition table_of :: "(bytes \<times> nat) list \<Rightarrow> (nat \<Rightarrow> nat list) \<Rightarrow> 'h ev_table \<Rightarrow> rp_irc_hash" where
  "table_of al nodes T = map (\<lambda>(k, e). (k, map (tb_handler T) (nodes e))) al"

lemma table_of_find: "map_of (table_of al nodes T) cmd = map_option (\<lambda>e. map (tb_handler T) (nodes e)) (map_of al cmd)"
  by (induction al) (auto simp: table_of_def)

lemma table_of_keys [simp]: "map fst (table_of al nodes T) = map fst al"
  by (simp add: table_of_def split_beta comp_def)

text \<open>Appending a node changes the links of the nodes of its list only.\<close>

lemma ll_append_frame:
  assumes "chain nx head xs None" "a \<notin> set xs"
  shows "\<exists>head' nx'. LL_APPEND a (head, nx) = Some (Inr (head', nx')) \<and> chain nx' head' (xs @ [a]) None \<and>
    (\<forall>x. x \<notin> set xs \<longrightarrow> x \<noteq> a \<longrightarrow> nx' x = nx x)"
proof -
  from assms ll_append_list [of head nx xs a] obtain head' nx' where
    l: "LL_APPEND a (head, nx) = Some (Inr (head', nx'))" "chain nx' head' (xs @ [a]) None" by (auto simp: ll_list_def)
  have "nx' x = nx x" if "x \<notin> set xs" "x \<noteq> a" for x
  proof (cases xs)
    case Nil
    with assms(1) l(1) that show ?thesis by (auto simp: LL_APPEND_def)
  next
    case (Cons y ys)
    have "chain (nx(a := None)) (Some y) (y # ys) None" using assms Cons by simp
    then have "ll_tail (nx(a := None)) y = Some (last xs)" using ll_tail_last Cons by simp
    moreover have "last xs \<in> set xs" using Cons by simp
    ultimately show ?thesis using assms(1) l(1) that Cons by (auto simp: LL_APPEND_def)
  qed
  with l show ?thesis by blast
qed

lemma lists_append:
  fixes T :: "'h ev_table" and handler :: rp_ev_handler
  assumes ok: "lists_ok n m al nodes T" and e: "(cmd, e) \<in> set al"
  defines "T2 \<equiv> T\<lparr>tb_handler := (tb_handler T)(m := handler), tb_next := (tb_next T)(m := None)\<rparr>"
  shows "\<exists>ev nx. LL_APPEND m (tb_ev T2 e, tb_next T2) = Some (Inr (ev, nx)) \<and>
    lists_ok n (Suc m) al (nodes(e := nodes e @ [m])) (T2\<lparr>tb_ev := (tb_ev T2)(e := ev), tb_next := nx\<rparr>) \<and>
    table_of al (nodes(e := nodes e @ [m])) (T2\<lparr>tb_ev := (tb_ev T2)(e := ev), tb_next := nx\<rparr>) =
      hash_append (table_of al nodes T) cmd handler"
proof -
  have es: "e \<in> snd ` set al" using e by force
  have dis: "set (nodes e1) \<inter> set (nodes e2) = {}" if "e1 \<in> snd ` set al" "e2 \<in> snd ` set al" "e1 \<noteq> e2" for e1 e2
    using ok that unfolding lists_ok_def by blast
  have m: "m \<notin> set (nodes e')" if "e' \<in> snd ` set al" for e' using ok that by (auto simp: lists_ok_def)
  have c: "chain (tb_next T2) (tb_ev T2 e') (nodes e') None" if "e' \<in> snd ` set al" for e'
    using ok that m [OF that] by (auto simp: lists_ok_def T2_def)
  from ll_append_frame [OF c [OF es] m [OF es]] obtain ev nx where
    l: "LL_APPEND m (tb_ev T2 e, tb_next T2) = Some (Inr (ev, nx))" "chain nx ev (nodes e @ [m]) None"
      "\<And>x. x \<notin> set (nodes e) \<Longrightarrow> x \<noteq> m \<Longrightarrow> nx x = tb_next T2 x" by blast
  have o: "chain nx (tb_ev T2 e') (nodes e') None" if "e' \<in> snd ` set al" "e' \<noteq> e" for e'
  proof -
    have "set (nodes e') \<inter> set (nodes e) = {}" using dis [OF that(1) es that(2)] .
    then have "nx x = tb_next T2 x" if "x \<in> set (nodes e')" for x using l(3) that m [OF \<open>e' \<in> _\<close>] by blast
    with c [OF that(1)] chain_frame [of "nodes e'" nx "tb_next T2"] show ?thesis by simp
  qed
  let ?T = "T2\<lparr>tb_ev := (tb_ev T2)(e := ev), tb_next := nx\<rparr>" and ?nodes = "nodes(e := nodes e @ [m])"
  have "lists_ok n (Suc m) al ?nodes ?T"
    unfolding lists_ok_def
  proof (intro conjI ballI allI impI)
    fix e' assume "e' \<in> snd ` set al"
    then show "chain (tb_next ?T) (tb_ev ?T e') (?nodes e') None" using l(2) o by auto
  next
    fix e' x assume "e' \<in> snd ` set al" "x \<in> set (?nodes e')"
    then show "x < Suc m" using ok es by (fastforce simp: lists_ok_def split: if_splits)
  next
    fix e1 e2 assume "e1 \<in> snd ` set al" "e2 \<in> snd ` set al" "e1 \<noteq> e2"
    then show "set (?nodes e1) \<inter> set (?nodes e2) = {}" using dis [of e1 e2] m by auto
  next
    fix e' assume "n \<le> e'"
    then show "tb_ev ?T e' = None" using ok es by (force simp: lists_ok_def T2_def)
  qed (use ok in \<open>auto simp: lists_ok_def\<close>)
  moreover have "table_of al ?nodes ?T = hash_append (table_of al nodes T) cmd handler"
  proof -
    have "distinct (map fst al)" "distinct (map snd al)" using ok by (auto simp: lists_ok_def)
    then have k: "k = cmd \<longleftrightarrow> e' = e" if "(k, e') \<in> set al" for k e'
      using that e by (metis eq_key_imp_eq_value inj_onD distinct_map prod.inject snd_conv)
    have h: "map (tb_handler T2) (nodes e') = map (tb_handler T) (nodes e')" if "e' \<in> snd ` set al" for e'
      using m [OF that] by (auto simp: T2_def)
    have "map (tb_handler T2) (?nodes e') = (if k = cmd then map (tb_handler T) (nodes e') @ [handler] else map (tb_handler T) (nodes e'))"
      if "(k, e') \<in> set al" for k e'
    proof -
      have "e' \<in> snd ` set al" using that by force
      from h [OF this] k [OF that] show ?thesis by (simp add: T2_def)
    qed
    then have "(\<lambda>(k, e). (k, map (tb_handler ?T) (?nodes e))) p =
        ((\<lambda>(k, es). (k, if k = cmd then es @ [handler] else es)) \<circ> (\<lambda>(k, e). (k, map (tb_handler T) (nodes e)))) p" if "p \<in> set al" for p
      using that by (cases p) (simp del: fun_upd_apply)
    then show ?thesis using \<open>distinct (map fst al)\<close> by (simp add: hash_append_map) (simp add: table_of_def)
  qed
  ultimately show ?thesis using l(1) by blast
qed

lemma lists_add:
  assumes "lists_ok n m al nodes T" "cmd \<notin> fst ` set al" "chain (tb_next T) None [] None"
  shows "lists_ok (Suc n) m (al @ [(cmd, n)]) (nodes(n := [])) (T\<lparr>tb_hash := h\<rparr>)"
    "table_of (al @ [(cmd, n)]) (nodes(n := [])) (T\<lparr>tb_hash := h\<rparr>) = table_of al nodes T @ [(cmd, [])]"
proof -
  have n: "n \<notin> snd ` set al" using assms(1) by (auto simp: lists_ok_def)
  then show "table_of (al @ [(cmd, n)]) (nodes(n := [])) (T\<lparr>tb_hash := h\<rparr>) = table_of al nodes T @ [(cmd, [])]"
    by (force simp: table_of_def)
  show "lists_ok (Suc n) m (al @ [(cmd, n)]) (nodes(n := [])) (T\<lparr>tb_hash := h\<rparr>)"
    using assms n by (auto simp: lists_ok_def less_Suc_eq)
qed

lemma fold_handlers:
  "fold (\<lambda>x r. res_bind r (run_handler cfg ctx (H x))) xs r = res_bind r (run_handlers cfg ctx (map H xs))"
proof (induction xs arbitrary: r)
  case Nil
  then show ?case by (cases r) simp_all
next
  case (Cons x xs)
  then show ?case by (cases r) simp_all
qed

context key_map
begin

definition table_rel :: "nat \<Rightarrow> 'h ev_table \<Rightarrow> rp_irc_hash \<Rightarrow> bool" where
  "table_rel n T tab \<longleftrightarrow> (\<exists>al nodes. rel (tb_hash T) al \<and> lists_ok n n al nodes T \<and> tab = table_of al nodes T)"

lemma register_rel:
  assumes "table_rel n T tab" "length cmd < lim" "length tab + 1 < 2 ^ 32"
  shows "\<exists>r. table_register hfind hadd n cmd handler T = Some r \<and>
    outcome {f. f = Exited \<and> lacks (length tab)} (table_rel (Suc n)) r (Inr (table_after tab cmd handler))"
proof -
  from assms(1) obtain al nodes where a: "rel (tb_hash T) al" "lists_ok n n al nodes T" "tab = table_of al nodes T"
    by (auto simp: table_rel_def)
  note f = find_law [OF a(1) assms(2)]
  have la: "length al + 1 < 2 ^ 32" using assms(3) by (simp add: a(3) table_of_def)
  have app: "\<exists>T3. run_bind (LL_APPEND n (tb_ev T2 e, tb_next T2)) (\<lambda>(ev, nx).
        Some (Inr (T2\<lparr>tb_ev := (tb_ev T2)(e := ev), tb_next := nx\<rparr>))) = Some (Inr T3) \<and>
      table_rel (Suc n) T3 (hash_append (table_of al1 nodes1 T1) cmd handler)"
    if "rel (tb_hash T1) al1" "lists_ok (Suc n) n al1 nodes1 T1" "(cmd, e) \<in> set al1"
      "T2 = T1\<lparr>tb_handler := (tb_handler T1)(n := handler), tb_next := (tb_next T1)(n := None)\<rparr>" for T1 T2 al1 nodes1 e
    using lists_append [OF that(2,3), of handler] that(1,4) by (fastforce simp: table_rel_def)
  show ?thesis
  proof (cases "map_of al cmd")
    case None
    then have new: "cmd \<notin> fst ` set al" "n \<notin> snd ` set al" using a(2) by (auto simp: map_of_eq_None_iff lists_ok_def)
    from add_law [OF a(1) new assms(2) la] consider "hadd cmd n (tb_hash T) = Some (Inl Exited)" "lacks (length al)"
      | h where "hadd cmd n (tb_hash T) = Some (Inr h)" "rel h (al @ [(cmd, n)])" by (auto simp: outcome_Inr)
    then show ?thesis
    proof cases
      case 1
      then show ?thesis by (simp add: table_register_def f None outcome_Inr a(3) table_of_def)
    next
      case 2
      have r: "rel (tb_hash (T\<lparr>tb_hash := h\<rparr>)) (al @ [(cmd, n)])" using 2 by simp
      from app [OF r lists_add(1) [OF a(2) new(1)] _ refl, of n] 2 show ?thesis
        by (auto simp: table_register_def f None outcome_Inr Let_def table_after_def hash_find_def a(3) table_of_find
            lists_add(2) [OF a(2) new(1)])
    qed
  next
    case (Some e)
    have "lists_ok (Suc n) n al nodes T" using a(2) by (auto simp: lists_ok_def)
    from app [OF a(1) this map_of_SomeD [OF Some] refl] show ?thesis
      by (auto simp: table_register_def f Some outcome_Inr Let_def table_after_def hash_find_def a(3) table_of_find)
  qed
qed

lemma handle_rel:
  assumes "table_rel n T tab" "unat (code_len (ic_msg ctx)) < lim"
  shows "table_handle hfind cfg (ctx\<lparr>ic_hash := tab\<rparr>) T wb = Some (rp_irc_handle cfg (ctx\<lparr>ic_hash := tab\<rparr>) wb)"
proof -
  from assms(1) obtain al nodes where a: "rel (tb_hash T) al" "lists_ok n n al nodes T" "tab = table_of al nodes T"
    by (auto simp: table_rel_def)
  show ?thesis
  proof (cases "str_at (code_ptr (ic_msg ctx)) (code_len (ic_msg ctx))")
    case (Inl e)
    then show ?thesis by (simp add: table_handle_def rp_irc_handle_def)
  next
    case (Inr cmd)
    then have "length cmd < lim" using assms(2) by (auto simp: str_at_def mem_read_def split: if_splits)
    note f = find_law [OF a(1) this]
    show ?thesis
    proof (cases "map_of al cmd")
      case None
      then show ?thesis by (simp add: table_handle_def rp_irc_handle_def Inr f hash_find_def a(3) table_of_find)
    next
      case (Some e)
      have "chain (tb_next T) (tb_ev T e) (nodes e) None" using a(2) map_of_SomeD [OF Some] by (force simp: lists_ok_def)
      then show ?thesis
        by (simp add: table_handle_def rp_irc_handle_def Inr f hash_find_def a(3) table_of_find Some foreach_chain fold_handlers)
    qed
  qed
qed

lemma registers_rel:
  assumes "table_rel n T tab" "\<forall>(cmd, handler) \<in> set rs. length cmd < lim" "length tab + length rs < 2 ^ 32"
  shows "\<exists>r. table_registers hfind hadd n rs T = Some r \<and>
    outcome {f. f = Exited \<and> lacks (length tab + length rs)} (table_rel (n + length rs)) r (Inr (tables_after rs tab))"
  using assms
proof (induction rs arbitrary: n T tab)
  case Nil
  then show ?case by (simp add: outcome_Inr)
next
  case (Cons x rs)
  obtain cmd handler where x: "x = (cmd, handler)" by (cases x)
  have len: "length (hash_append t cmd handler) \<le> length t" for t by (induction t cmd handler rule: hash_append.induct) auto
  then have l: "length (table_after tab cmd handler) \<le> length tab + 1"
    using len [of tab] len [of "tab @ [(cmd, [])]"] by (auto simp: table_after_def intro: le_SucI)
  have pre: "length cmd < lim" "length tab + 1 < 2 ^ 32" using Cons.prems(2,3) by (simp_all add: x)
  from register_rel [OF Cons.prems(1) pre, of handler] consider
      "table_register hfind hadd n cmd handler T = Some (Inl Exited)" "lacks (length tab)"
    | T' where "table_register hfind hadd n cmd handler T = Some (Inr T')" "table_rel (Suc n) T' (table_after tab cmd handler)"
    by (auto simp: outcome_Inr)
  then show ?case
  proof cases
    case 1
    with lacks_mono [OF 1(2), of "length tab + length (x # rs)"] show ?thesis by (simp add: x outcome_Inr)
  next
    case 2
    have "lacks (length (table_after tab cmd handler) + length rs) \<Longrightarrow> lacks (length tab + length (x # rs))"
      by (erule lacks_mono) (use l in simp)
    moreover from Cons.IH [OF 2(2)] Cons.prems(2,3) l obtain r where
      "table_registers hfind hadd (Suc n) rs T' = Some r"
      "outcome {f. f = Exited \<and> lacks (length (table_after tab cmd handler) + length rs)} (table_rel (Suc n + length rs)) r
         (Inr (tables_after rs (table_after tab cmd handler)))" by (auto simp: x)
    ultimately show ?thesis using 2(1) by (auto simp: x outcome_Inr)
  qed
qed

end

text \<open>A hash from which nothing was deleted: its buckets are bounded by what it holds.\<close>

definition grown_rel :: "hash_fcn \<Rightarrow> nat \<Rightarrow> malloc \<Rightarrow> ut_hash \<Rightarrow> (bytes \<times> nat) list \<Rightarrow> bool" where
  "grown_rel hf lim um h al \<longleftrightarrow> hash_rel hf lim um h al \<and> bits_le h (5 + length al)"

interpretation uthash_map: key_map "grown_rel hf lim um" "\<lambda>k. HASH_FIND hf k (of_nat (length k))"
    "\<lambda>k e. HASH_ADD_KEYPTR hf um k (of_nat (length k)) e" lim "\<lambda>n. no_memory um (5 + n)" for hf lim um
proof
  show "HASH_FIND hf k (of_nat (length k)) h = Some (Inr (map_of al k))" if "grown_rel hf lim um h al" "length k < lim" for h al k
    using that by (intro find_map [of hf lim um]) (simp_all add: grown_rel_def)
next
  fix h al k e
  assume rel: "grown_rel hf lim um h al"
    and "k \<notin> fst ` set al" "e \<notin> snd ` set al" "length k < lim" "length al + 1 < 2 ^ 32"
  then have h: "hash_rel hf lim um h al" "hash_pre lim (H_add k e) al" "bits_le h (5 + length al)" by (simp_all add: grown_rel_def)
  from add_map [OF h(1,2)] obtain r where
    r: "HASH_ADD_KEYPTR hf um k (of_nat (length k)) e h = Some r" "outcome {Exited} (hash_rel hf lim um) r (Inr (al @ [(k, e)]))" by blast
  from add_bits [OF h r(1)] r(2)
  have "outcome {f. f = Exited \<and> no_memory um (5 + length al)} (grown_rel hf lim um) r (Inr (al @ [(k, e)]))"
    by (auto simp: outcome_Inr grown_rel_def)
  with r(1) show "\<exists>r. HASH_ADD_KEYPTR hf um k (of_nat (length k)) e h = Some r \<and>
      outcome {f. f = Exited \<and> no_memory um (5 + length al)} (grown_rel hf lim um) r (Inr (al @ [(k, e)]))" by blast
next
  show "no_memory um (5 + n)" if "no_memory um (5 + m)" "m \<le> n" for m n
    using that by (auto intro: no_memory_mono)
qed

section \<open>Properties\<close>

abbreviation uthash_find :: "hash_fcn \<Rightarrow> bytes \<Rightarrow> ut_hash \<Rightarrow> ptr run" where
  "uthash_find hf \<equiv> \<lambda>k. HASH_FIND hf k (of_nat (length k))"

abbreviation uthash_add :: "hash_fcn \<Rightarrow> malloc \<Rightarrow> bytes \<Rightarrow> nat \<Rightarrow> ut_hash \<Rightarrow> ut_hash run" where
  "uthash_add hf um \<equiv> \<lambda>k e. HASH_ADD_KEYPTR hf um k (of_nat (length k)) e"

text \<open>
  C9: the table of handlers, a uthash table of utlist lists, does what the association list
  of the model of the client does: handlers are registered for any sequence of commands,
  the same command several times included, on a table with a null head and zeroed memory;
  unless memory for the table is refused, \<open>rp_irc_handle\<close> then finds the command of a
  message in the hash table and calls its handlers in the order they were registered, with
  the same writes and the same faults as the model has after the same registrations.
\<close>

theorem irc_table_refines:
  assumes "(hf, lim) \<in> set uthash_fcns" "mem_bound um" "dl_head (h_app (tb_hash T)) = None" "\<forall>e. tb_ev T e = None"
    and "pal_total pal" "ic_hash c0 = []"
    and "\<forall>(cmd, handler) \<in> set rs. length cmd < lim" "length rs < 2 ^ 32"
  shows "no_memory um (5 + length rs) \<and> table_registers (uthash_find hf) (uthash_add hf um) 0 rs T = Some (Inl Exited) \<or>
    (\<exists>T' c. table_registers (uthash_find hf) (uthash_add hf um) 0 rs T = Some (Inr T') \<and>
       register_handlers pal rs c0 = Inr c \<and>
       (\<forall>cfg (ctx :: 'p rp_irc_ctx) wb. unat (code_len (ic_msg ctx)) < lim \<longrightarrow>
          table_handle (uthash_find hf) cfg (ctx\<lparr>ic_hash := ic_hash c\<rparr>) T' wb =
            Some (rp_irc_handle cfg (ctx\<lparr>ic_hash := ic_hash c\<rparr>) wb)))"
proof -
  have "lists_ok 0 0 [] (\<lambda>_. []) T" "[] = table_of [] (\<lambda>_. []) T" using assms(4) by (simp_all add: lists_ok_def table_of_def)
  moreover have "grown_rel hf lim um (tb_hash T) []"
    using null_hash_rel [OF assms(1-3)] bits_le_null [OF assms(3)] by (simp add: grown_rel_def)
  ultimately have rel: "uthash_map.table_rel hf lim um 0 T []"
    unfolding uthash_map.table_rel_def by blast
  from register_handlers_tables [OF assms(5), of rs c0] obtain c where
    c: "register_handlers pal rs c0 = Inr c" "ic_hash c = tables_after rs []" by (auto simp: assms(6))
  from uthash_map.registers_rel [OF rel assms(7)] assms(8) consider
      "table_registers (uthash_find hf) (uthash_add hf um) 0 rs T = Some (Inl Exited)" "no_memory um (5 + length rs)"
    | T' where "table_registers (uthash_find hf) (uthash_add hf um) 0 rs T = Some (Inr T')"
        "uthash_map.table_rel hf lim um (length rs) T' (tables_after rs [])" by (auto simp: outcome_Inr)
  then show ?thesis
  proof cases
    case 2
    with c uthash_map.handle_rel [OF 2(2)] show ?thesis by auto
  qed simp
qed

text \<open>The default handlers in a table with a null head; the evaluation follows two loops.\<close>

declare find_loop.simps [code] ll_tail.simps [code]

definition null_table :: "ut_hash ev_table" where
  "null_table = \<lparr>tb_hash = null_hash, tb_ev = (\<lambda>_. None), tb_next = (\<lambda>_. Some 9), tb_handler = (\<lambda>_. H_auth)\<rparr>"

definition default_regs :: "(bytes \<times> rp_ev_handler) list" where
  "default_regs = [(''PING'', H_ping), (''004'', H_auth)]"

lemma default_regs_return:
  "\<not> run_exits (table_registers (uthash_find HASH_OAT) (uthash_add HASH_OAT below_2_35) 0 default_regs null_table)"
  by code_simp

definition ping_ctx :: "nat rp_irc_ctx" where
  "ping_ctx = ready_ctx\<lparr>ic_msg := fresh_msg\<lparr>code_ptr := ''PING'', code_len := 4\<rparr>\<rparr>"

theorem irc_table_refines_witness:
  "\<exists>T. table_registers (uthash_find HASH_OAT) (uthash_add HASH_OAT below_2_35) 0 default_regs null_table = Some (Inr T) \<and>
     table_handle (uthash_find HASH_OAT) empty_config ping_ctx T reply_fifo = Some (rp_irc_handle empty_config ping_ctx reply_fifo)"
proof -
  let ?c0 = "\<lparr>ic_pool = 0, ic_hash = [], ic_msg = fresh_msg, ic_cs = irc_start\<rparr> :: nat rp_irc_ctx"
  have "(HASH_OAT, 2 ^ 32) \<in> set uthash_fcns" "mem_bound below_2_35" "dl_head (h_app (tb_hash null_table)) = None"
    "\<forall>e. tb_ev null_table e = None" "ic_hash ?c0 = []" "length default_regs < 2 ^ 32"
    "\<forall>(cmd, handler) \<in> set default_regs. length cmd < 2 ^ 32"
    by (simp_all add: uthash_fcns_def mem_bound_def below_2_35_def null_hash_def null_table_def default_regs_def)
  note hyps = this
  have n: "table_registers (uthash_find HASH_OAT) (uthash_add HASH_OAT below_2_35) 0 default_regs null_table \<noteq> Some (Inl Exited)"
    using default_regs_return by (auto simp: run_exits_def)
  from irc_table_refines [OF hyps(1-4) fixed_pal_total hyps(5,7,6)] n obtain T c where
    T: "table_registers (uthash_find HASH_OAT) (uthash_add HASH_OAT below_2_35) 0 default_regs null_table = Some (Inr T)"
    and c: "register_handlers fixed_pal default_regs ?c0 = Inr c"
    and h: "\<forall>cfg (ctx :: nat rp_irc_ctx) wb. unat (code_len (ic_msg ctx)) < 2 ^ 32 \<longrightarrow>
          table_handle (uthash_find HASH_OAT) cfg (ctx\<lparr>ic_hash := ic_hash c\<rparr>) T wb =
            Some (rp_irc_handle cfg (ctx\<lparr>ic_hash := ic_hash c\<rparr>) wb)" by blast
  from register_handlers_tables [OF fixed_pal_total, of default_regs ?c0] c have "ic_hash c = default_hash"
    by (auto simp: default_regs_def table_after_def hash_find_def default_hash_def)
  then have "ping_ctx\<lparr>ic_hash := ic_hash c\<rparr> = ping_ctx" by (simp add: ping_ctx_def ready_ctx_def)
  with h [rule_format, of ping_ctx empty_config reply_fifo] T show ?thesis by (simp add: ping_ctx_def)
qed

end
