(* ===== verification/Spec2Isabelle.thy ===== *)
theory Spec2Isabelle
  imports Rpbot Palloc_Props Slab_Props Utlist_Variants Uthash_Select Uthash_Bloom Irc_Table
begin

text \<open>
  A verification of rpbot, an IRC client in C: one process that reads a JSON configuration,
  connects to an IRC server through epoll and non-blocking sockets, parses the lines it
  receives with a Ragel machine and answers some of them.

  \<^bold>\<open>The parts and how they interact.\<close>
  \<open>main\<close> (rpbot.c) creates a pool, loads the configuration into it, initialises two ring
  buffers and the event context, and loops: \<open>rp_event_poll\<close> (rp_event.c) waits for the
  kernel, moves bytes between the socket and the two fifos and steers the connection
  through its states; then the loop takes the content of the read fifo to \<open>rp_irc_parse\<close>
  (rp_irc.c, ircsm/rp_ircsm.rl), and every complete message goes to \<open>rp_irc_handle\<close>, which
  finds its handlers in a uthash table and appends their replies to the write fifo.

  \<^bold>\<open>Theories and code.\<close>
  \<^item> \<open>Prelude\<close>: the types of the program (\<open>size_t\<close> as \<open>64 word\<close>, memory objects as lists of
    bytes with bounds-checked access), the faults, the result type \<open>res\<close>.
  \<^item> \<open>Byte_Queue\<close>, \<open>Rp_Fifo\<close>: util/rp_fifo.h, util/rp_fifo.c. The pointers of
    \<open>struct rp_fifo\<close> are offsets into its buffer. \<open>Byte_Queue\<close> holds the two interfaces (locales)
    that the event loop and the client use; \<open>Rp_Fifo\<close> interprets both.
  \<^item> \<open>Rp_String\<close>: util/rp_string.c over an explicit object.
  \<^item> \<open>Ragel\<close>, \<open>Rp_Ircsm\<close>, \<open>Irc_Phases\<close>, \<open>Irc_Message\<close>: ircsm/rp_ircsm.rl. \<open>Ragel\<close> is the meaning of
    expressions with embedded actions, by partial derivatives; \<open>Rp_Ircsm\<close> is the grammar, the
    actions and \<open>rp_ircsm_parse\<close>, one definition per rule; the other two prove what it stores.
  \<^item> \<open>Rp_Config\<close>: rp_config.c, the yajl callbacks with their state machine, \<open>rp_config_load\<close>.
  \<^item> \<open>Rp_Irc\<close>: rp_irc.c with the handler table as an association list; \<open>Irc_Table\<close> has the
    same functions on the hash table and the lists in memory and proves that they agree.
  \<^item> \<open>Rp_Event\<close>, \<open>Event_Io\<close>, \<open>Event_States\<close>, \<open>Event_Props\<close>: rp_event.c. The context is one record;
    every system call is recorded in \<open>ev_hist\<close>.
  \<^item> \<open>Rpbot\<close>: rpbot.c and rp_options.c.
  \<^item> \<open>Rp_Os\<close>, \<open>Region_Alloc\<close>: util/rp_os.c, rp_os.h; what the users of an allocator rely on, as
    locales. \<open>Rp_Palloc\<close>, \<open>Palloc_Inv\<close>, \<open>Palloc_Steps\<close>, \<open>Palloc_Props\<close>: util/rp_palloc.c.
    \<open>Rp_Slab\<close> is util/rp_slab.c; \<open>Slab_Links\<close>, \<open>Slab_Inv\<close>, \<open>Slab_Pages\<close>, \<open>Slab_Free_Pages\<close>,
    \<open>Slab_Chunks\<close>, \<open>Slab_Chunk_Inv\<close>, \<open>Slab_Maps\<close>, \<open>Slab_Free_Maps\<close>, \<open>Slab_Ops\<close>, \<open>Slab_Alloc\<close>,
    \<open>Slab_Serve\<close> and \<open>Slab_Init\<close> prove its invariant; \<open>Slab_Props\<close> has the results. The IRC client
    itself takes its pool as a parameter that says which allocations succeed.
  \<^item> \<open>Links\<close>: linked lists in memory and the locale \<open>op_refinement\<close>, which lifts the simulation of
    single operations to sequences of them; \<open>op_resources\<close> extends it with what a sequence of
    operations can ask for before it stops. \<open>Utlist\<close>, \<open>Utlist_Props\<close>, \<open>Utlist_Sort\<close>,
    \<open>Utlist_Sort_Props\<close>, \<open>Utlist_Claims\<close>, \<open>Utlist_Variants\<close>: util/utlist.h. \<open>Uthash_Fn\<close> has the hash
    functions of util/uthash.h, \<open>Uthash\<close> the table; \<open>Uthash_Inv\<close>, \<open>Uthash_Delete\<close>, \<open>Uthash_Props\<close>,
    \<open>Uthash_Select\<close> and \<open>Uthash_Bloom\<close> its proofs, the selection and the Bloom filter. A macro is a
    function from the old to the new values of the variables and link fields it assigns.
\<close>

text \<open>
  \<^bold>\<open>What the lemmas show.\<close>
  \<^item> The fifo refines a bounded byte queue across every wrap-around and keeps its fields in
    their ranges under every use the program makes of it.
  \<^item> The parser accepts the messages of the grammar and no others, stores prefix, code and
    parameters exactly when they fit and writes past its buffers when they do not, and gives
    the same result for any division of the input into chunks.
  \<^item> Loading the document of a configuration gives that configuration back; no well-nested
    sequence of callbacks faults.
  \<^item> The event context keeps its invariant over every run; the transitions of the connection,
    the order of the addresses and the calls of every attempt, the delays, and the bytes that
    go through the sockets.
  \<^item> The main loop never dereferences a null pointer, answers every complete message in order,
    and hangs once the parser has rejected its input.
  \<^item> Both allocators give out disjoint regions; a pool gives back all its memory exactly once;
    what the slab allocator takes back it can serve again, an invalid free releases nothing, and
    a theorem says what happens for the addresses behind the pages, \<open>end\<close> included.
  \<^item> The list macros refine lists, their merge sorts are the stable sort, the hash table refines
    a map for all its hash functions, with and without the Bloom filter, exiting only if memory
    of a size it can have grown to is refused (\<open>no_memory\<close>), and the handler table
    built from both does what the client model assumes.
  \<^item> Where the code goes wrong, a theorem says for which inputs.

  \<^bold>\<open>Loops and bounds.\<close>
  Nothing runs on fuel. A loop with a measure is a function with a termination proof; a loop
  that may not end is a \<open>partial_function\<close> whose value is then \<open>None\<close>, and the theorems state
  that a value is returned (or, for \<open>drain_hangs\<close>, that none is). The main loop is cut into
  rounds. Words keep their width: wrap-around of \<open>size_t\<close> and \<open>unsigned\<close> is that of C, an
  overflow of \<open>int\<close> in the sorts is the fault \<open>IntOverflow\<close> and excluded up to \<open>2 ^ 30\<close> elements.
  Keys in the hash table are shorter than 4 GB, for \<open>HASH_MUR\<close>, which counts its blocks in
  \<open>int\<close>, shorter than 2 GB (\<open>uthash_fcns\<close>), and \<open>malloc\<close> fails for the 32 GB that \<open>2 ^ 31\<close>
  buckets would need. The proofs about the slab allocator are for pages of 4096 bytes.

  \<^bold>\<open>Parameters.\<close>
  The kernel, the resolver, the clock, the C library's allocator and the yajl library are
  parameters; the kernel and the allocator may answer depending on all earlier calls. The
  hypotheses on them are documented behaviour: a read returns at most what was asked for,
  \<open>malloc\<close> returns memory that is not in use, yajl calls its callbacks in the order of the
  document.

  \<^bold>\<open>Not modelled.\<close>
  The messages printed to stdout and stderr; the test driver tests/parse_test.c; the 32-bit
  constants of the slab allocator; what freeing an address inside the chunk map of a page
  does; that the memory of a freed object may be reused while a pointer to it is still held
  in C (the models of the allocators count regions, not contents, apart from what they clear);
  in uthash.h \<open>HASH_EMIT_KEY\<close>, the MurmurHash reads for processors other than x86 and the
  shorthands for keys of fixed types; the casts for compilers without \<open>decltype\<close> in utlist.h;
  the generated tables of Ragel, whose meaning \<open>Ragel\<close> gives.
\<close>

end
